(* ===== verification/Kernel_Prelude.thy ===== *)
theory Kernel_Prelude
  imports Main "HOL-Library.Word"
begin

text \<open>
  Shared vocabulary of the development: the machine integer types, the panics of the kernel, the
  state-and-panic monad in which the stateful code is written, a weakest-precondition calculus for
  it, and generic facts on vectors (Rust's \<^verbatim>\<open>Vec\<close>), ordered association lists (Rust's
  \<^verbatim>\<open>BTreeMap\<close>) and 64-bit words.
\<close>

unbundle bit_operations_syntax

named_theorems wp_rules \<open>rules that push a weakest precondition through the monad's combinators\<close>
named_theorems kmonad_defs \<open>definitions of the primitive computations\<close>

section \<open>Machine integers and panics\<close>

type_synonym u8 = "8 word"
type_synonym u32 = "32 word"
type_synonym usize = "64 word"
type_synonym isize = "64 word"

text \<open>
  The kernel is built in release mode (\<^verbatim>\<open>BUILD_MODE = release\<close> in the Makefile), where Rust's
  \<^verbatim>\<open>+\<close>, \<^verbatim>\<open>-\<close>, \<^verbatim>\<open>*\<close> and \<^verbatim>\<open><<\<close> wrap: word arithmetic is the source's arithmetic.
  A panic ends the kernel (\<^verbatim>\<open>lang_item.rs\<close> prints and shuts down), so it is a value and the
  state after it is not recorded. One constructor per kind of panic site.
\<close>

datatype panic =
    FrameNotAllocated usize    \<comment> \<open>frame_allocator.rs, \<open>dealloc\<close>\<close>
  | OutOfFrames                \<comment> \<open>\<open>frame_alloc().unwrap()\<close>\<close>
  | RangeInverted              \<comment> \<open>address.rs, \<open>SimpleRange::new\<close>\<close>
  | Misaligned                 \<comment> \<open>address.rs, \<open>From<PhysAddr>\<close> and \<open>From<VirtAddr>\<close>\<close>
  | AlreadyMapped              \<comment> \<open>page_table.rs, \<open>map\<close>\<close>
  | NotMapped                  \<comment> \<open>page_table.rs, \<open>unmap\<close>\<close>
  | UnwrapNone                 \<comment> \<open>any other \<open>unwrap\<close> of a \<open>None\<close>\<close>
  | SliceIndex                 \<comment> \<open>a slice or array index out of range\<close>
  | AssertFailed               \<comment> \<open>any other \<open>assert!\<close> or \<open>assert_eq!\<close>\<close>
  | BorrowMut                  \<comment> \<open>\<open>RefCell::borrow_mut\<close> of a cell already borrowed\<close>
  | DivideByZero
  | ExplicitPanic              \<comment> \<open>a \<open>panic!\<close> of the source\<close>
  | Hang                       \<comment> \<open>not a panic: a loop of the source that never ends\<close>

section \<open>The state-and-panic monad\<close>

type_synonym ('s, 'a) km = "'s \<Rightarrow> panic + 'a \<times> 's"

definition kreturn :: "'a \<Rightarrow> ('s, 'a) km" where
  "kreturn a = (\<lambda>s. Inr (a, s))"

definition kbind :: "('s, 'a) km \<Rightarrow> ('a \<Rightarrow> ('s, 'b) km) \<Rightarrow> ('s, 'b) km" where
  "kbind m f = (\<lambda>s. case m s of Inl e \<Rightarrow> Inl e | Inr (a, s') \<Rightarrow> f a s')"

definition kpanic :: "panic \<Rightarrow> ('s, 'a) km" where
  "kpanic e = (\<lambda>s. Inl e)"

definition kget :: "('s \<Rightarrow> 'a) \<Rightarrow> ('s, 'a) km" where
  "kget f = (\<lambda>s. Inr (f s, s))"

definition kmodify :: "('s \<Rightarrow> 's) \<Rightarrow> ('s, unit) km" where
  "kmodify f = (\<lambda>s. Inr ((), f s))"

definition kassert :: "panic \<Rightarrow> bool \<Rightarrow> ('s, unit) km" where
  "kassert e b = (if b then kreturn () else kpanic e)"

text \<open>\<open>Option::unwrap\<close> with the panic of its site, and a pure computation that may panic.\<close>

definition kunwrap :: "panic \<Rightarrow> 'a option \<Rightarrow> ('s, 'a) km" where
  "kunwrap e x = (case x of None \<Rightarrow> kpanic e | Some a \<Rightarrow> kreturn a)"

definition klift :: "panic + 'a \<Rightarrow> ('s, 'a) km" where
  "klift r = (case r of Inl e \<Rightarrow> kpanic e | Inr a \<Rightarrow> kreturn a)"

text \<open>\<open>for x in xs { acc = body(x, acc) }\<close>, the locals the body changes being \<open>acc\<close>.\<close>

fun for_loop :: "'a list \<Rightarrow> ('a \<Rightarrow> 'b \<Rightarrow> ('s, 'b) km) \<Rightarrow> 'b \<Rightarrow> ('s, 'b) km" where
  "for_loop [] body acc = kreturn acc"
| "for_loop (x # xs) body acc = kbind (body x acc) (for_loop xs body)"

declare kreturn_def [kmonad_defs] kbind_def [kmonad_defs] kpanic_def [kmonad_defs]
  kget_def [kmonad_defs] kmodify_def [kmonad_defs] kassert_def [kmonad_defs]
  kunwrap_def [kmonad_defs] klift_def [kmonad_defs]

lemma kbind_return_left [simp]: "kbind (kreturn a) f = f a"
  by (simp add: kmonad_defs fun_eq_iff)

lemma kbind_panic [simp]: "kbind (kpanic e) f = kpanic e"
  by (simp add: kmonad_defs fun_eq_iff)

lemma kbind_assoc: "kbind (kbind m f) g = kbind m (\<lambda>a. kbind (f a) g)"
  by (auto simp: kmonad_defs fun_eq_iff split: sum.splits)

lemma kbind_cong [fundef_cong]:
  assumes "m = m'" and "\<And>a s s'. m' s = Inr (a, s') \<Longrightarrow> f a s' = f' a s'"
  shows "kbind m f = kbind m' f'"
  using assms by (auto simp: kbind_def fun_eq_iff split: sum.splits)

subsection \<open>Weakest preconditions\<close>

text \<open>
  \<open>wp m Q E s\<close>: run from \<open>s\<close>, the computation \<open>m\<close> either returns with \<open>Q\<close> or panics with a
  panic that \<open>E\<close> allows. With \<open>E = (\<lambda>_. False)\<close> it cannot panic.
\<close>

definition wp :: "('s, 'a) km \<Rightarrow> ('a \<Rightarrow> 's \<Rightarrow> bool) \<Rightarrow> (panic \<Rightarrow> bool) \<Rightarrow> 's \<Rightarrow> bool" where
  "wp m Q E s \<longleftrightarrow> (case m s of Inl e \<Rightarrow> E e | Inr (a, s') \<Rightarrow> Q a s')"

lemma wp_kreturn [wp_rules]: "wp (kreturn a) Q E = Q a"
  by (simp add: wp_def kmonad_defs fun_eq_iff)

lemma wp_kbind [wp_rules]: "wp (kbind m f) Q E = wp m (\<lambda>a. wp (f a) Q E) E"
  by (auto simp: wp_def kmonad_defs fun_eq_iff split: sum.splits)

lemma wp_kpanic [wp_rules]: "wp (kpanic e) Q E = (\<lambda>_. E e)"
  by (simp add: wp_def kmonad_defs fun_eq_iff)

lemma wp_kget [wp_rules]: "wp (kget f) Q E = (\<lambda>s. Q (f s) s)"
  by (simp add: wp_def kmonad_defs fun_eq_iff)

lemma wp_kmodify [wp_rules]: "wp (kmodify f) Q E = (\<lambda>s. Q () (f s))"
  by (simp add: wp_def kmonad_defs fun_eq_iff)

lemma wp_kassert [wp_rules]: "wp (kassert e b) Q E = (\<lambda>s. if b then Q () s else E e)"
  by (simp add: kassert_def wp_rules fun_eq_iff)

lemma wp_kunwrap [wp_rules]:
  "wp (kunwrap e x) Q E = (\<lambda>s. case x of None \<Rightarrow> E e | Some a \<Rightarrow> Q a s)"
  by (simp add: kunwrap_def wp_rules fun_eq_iff split: option.splits)

lemma wp_klift [wp_rules]:
  "wp (klift r) Q E = (\<lambda>s. case r of Inl e \<Rightarrow> E e | Inr a \<Rightarrow> Q a s)"
  by (simp add: klift_def wp_rules fun_eq_iff split: sum.splits)

lemma wp_if [wp_rules]:
  "wp (if b then m else n) Q E = (if b then wp m Q E else wp n Q E)"
  by simp

lemma wp_case_prod:
  "wp (case x of (a, b) \<Rightarrow> f a b) Q E = (case x of (a, b) \<Rightarrow> wp (f a b) Q E)"
  by (simp add: case_prod_beta)

lemma wp_eqD: "(\<And>Q E. wp m Q E s = wp n Q E s) \<Longrightarrow> m s = n s"
proof -
  assume eq: "\<And>Q E. wp m Q E s = wp n Q E s"
  show ?thesis using eq[of "\<lambda>a s'. m s = Inr (a, s')" "\<lambda>e. m s = Inl e"] by (auto simp: wp_def split: sum.splits)
qed

lemma wp_True [simp]: "wp m (\<lambda>_ _. True) (\<lambda>_. True) = (\<lambda>_. True)"
  by (auto simp: wp_def split: sum.splits)

lemma wp_mono:
  assumes "wp m Q E s" and "\<And>a s'. m s = Inr (a, s') \<Longrightarrow> Q a s' \<Longrightarrow> Q' a s'"
    and "\<And>e. E e \<Longrightarrow> E' e"
  shows "wp m Q' E' s"
  using assms by (auto simp: wp_def split: sum.splits)

lemma wp_conj:
  "wp m Q E s \<Longrightarrow> wp m Q' E s \<Longrightarrow> wp m (\<lambda>a t. Q a t \<and> Q' a t) E s"
  by (auto simp: wp_def split: sum.splits)

lemma wpD: "wp m Q E s \<Longrightarrow> m s = Inr (a, s') \<Longrightarrow> Q a s'"
  by (simp add: wp_def)

lemma wp_panicD: "wp m Q E s \<Longrightarrow> m s = Inl e \<Longrightarrow> E e"
  by (simp add: wp_def)

lemma wp_no_panicD: "wp m Q (\<lambda>_. False) s \<Longrightarrow> \<exists>a s'. m s = Inr (a, s') \<and> Q a s'"
  by (auto simp: wp_def split: sum.splits)

text \<open>A loop keeps an invariant over the elements already visited.\<close>

lemma wp_for_loop_gen:
  assumes "\<And>ys x zs acc s. xs = ys @ x # zs \<Longrightarrow> I (pre @ ys) acc s \<Longrightarrow>
      wp (body x acc) (I (pre @ ys @ [x])) E s"
    and "I pre acc s"
  shows "wp (for_loop xs body acc) (I (pre @ xs)) E s"
  using assms
proof (induction xs arbitrary: pre acc s)
  case Nil
  then show ?case by (simp add: wp_rules)
next
  case (Cons x xs)
  have "wp (body x acc) (I (pre @ [x])) E s"
    using Cons.prems(1)[of "[]" x xs] Cons.prems(2) by simp
  moreover have "wp (for_loop xs body acc') (I (pre @ x # xs)) E s'"
    if "I (pre @ [x]) acc' s'" for acc' s'
    using Cons.IH[of "pre @ [x]" acc' s'] that Cons.prems(1)[of "x # _"] by simp
  ultimately show ?case
    by (auto simp: wp_rules elim: wp_mono)
qed

lemma wp_for_loop:
  assumes "I [] acc s"
    and "\<And>ys x zs acc s. xs = ys @ x # zs \<Longrightarrow> I ys acc s \<Longrightarrow> wp (body x acc) (I (ys @ [x])) E s"
    and "\<And>acc s. I xs acc s \<Longrightarrow> Q acc s"
  shows "wp (for_loop xs body acc) Q E s"
  using wp_for_loop_gen[where I = I and pre = "[]" and xs = xs and body = body and E = E
      and acc = acc and s = s] assms by (auto elim: wp_mono)

lemma for_loop_append:
  "for_loop (xs @ ys) body acc = kbind (for_loop xs body acc) (for_loop ys body)"
proof (induction xs arbitrary: acc)
  case Nil
  then show ?case by simp
next
  case (Cons x xs)
  then have "for_loop (xs @ ys) body = (\<lambda>a. kbind (for_loop xs body a) (for_loop ys body))"
    by (simp add: fun_eq_iff)
  then show ?case by (simp add: kbind_assoc)
qed

section \<open>Vectors\<close>

text \<open>\<open>Vec::pop\<close> takes the last element, \<open>Vec::push\<close> appends.\<close>

definition vec_pop :: "'a list \<Rightarrow> 'a option \<times> 'a list" where
  "vec_pop xs = (if xs = [] then (None, []) else (Some (last xs), butlast xs))"

definition vec_push :: "'a list \<Rightarrow> 'a \<Rightarrow> 'a list" where
  "vec_push xs x = xs @ [x]"

lemma vec_pop_push [simp]: "vec_pop (vec_push xs x) = (Some x, xs)"
  by (simp add: vec_pop_def vec_push_def)

lemma vec_pop_Nil [simp]: "vec_pop [] = (None, [])"
  by (simp add: vec_pop_def)

lemma vec_pop_None_iff: "vec_pop xs = (None, ys) \<longleftrightarrow> xs = [] \<and> ys = []"
  by (auto simp: vec_pop_def)

lemma vec_pop_Some_iff: "vec_pop xs = (Some x, ys) \<longleftrightarrow> xs = ys @ [x]"
  by (auto simp: vec_pop_def)

lemma set_vec_push [simp]: "set (vec_push xs x) = insert x (set xs)"
  by (auto simp: vec_push_def)

lemma distinct_vec_push [simp]: "distinct (vec_push xs x) \<longleftrightarrow> distinct xs \<and> x \<notin> set xs"
  by (auto simp: vec_push_def)

section \<open>Ordered association lists\<close>

text \<open>
  A \<^verbatim>\<open>BTreeMap\<close> as its entries in ascending key order, which is the order in which dropping the
  map drops them. Insertion and removal hand back the old value, as Rust's do.
\<close>

fun bt_insert :: "'k::linorder \<Rightarrow> 'v \<Rightarrow> ('k \<times> 'v) list \<Rightarrow> 'v option \<times> ('k \<times> 'v) list" where
  "bt_insert k v [] = (None, [(k, v)])"
| "bt_insert k v ((k', v') # m) =
     (if k < k' then (None, (k, v) # (k', v') # m)
      else if k = k' then (Some v', (k, v) # m)
      else (let (old, m') = bt_insert k v m in (old, (k', v') # m')))"

fun bt_remove :: "'k::linorder \<Rightarrow> ('k \<times> 'v) list \<Rightarrow> 'v option \<times> ('k \<times> 'v) list" where
  "bt_remove k [] = (None, [])"
| "bt_remove k ((k', v') # m) =
     (if k = k' then (Some v', m)
      else (let (old, m') = bt_remove k m in (old, (k', v') # m')))"

definition bt_wf :: "('k::linorder \<times> 'v) list \<Rightarrow> bool" where
  "bt_wf m \<longleftrightarrow> sorted_wrt (<) (map fst m)"

lemma bt_wf_Nil [simp]: "bt_wf []"
  by (simp add: bt_wf_def)

lemma bt_wf_distinct: "bt_wf m \<Longrightarrow> distinct (map fst m)"
  by (simp add: bt_wf_def strict_sorted_iff)

lemma bt_wf_Cons: "bt_wf ((k, v) # m) \<longleftrightarrow> bt_wf m \<and> (\<forall>k' \<in> fst ` set m. k < k')"
  by (auto simp: bt_wf_def)

lemma fst_bt_insert: "bt_wf m \<Longrightarrow> fst (bt_insert k v m) = map_of m k"
proof (induction k v m rule: bt_insert.induct)
  case (2 k v k' v' m)
  have "k < k' \<Longrightarrow> map_of m k = None"
    using "2.prems" by (force simp: bt_wf_Cons map_of_eq_None_iff)
  then show ?case
    using 2 by (auto simp: bt_wf_Cons split: prod.splits)
qed simp

lemma map_of_bt_insert: "bt_wf m \<Longrightarrow> map_of (snd (bt_insert k v m)) = (map_of m)(k \<mapsto> v)"
  by (induction k v m rule: bt_insert.induct)
    (auto simp: bt_wf_Cons fun_eq_iff split: prod.splits)

lemma keys_bt_insert: "fst ` set (snd (bt_insert k v m)) = insert k (fst ` set m)"
  by (induction k v m rule: bt_insert.induct) (simp_all add: case_prod_beta insert_commute)

lemma bt_wf_insert: "bt_wf m \<Longrightarrow> bt_wf (snd (bt_insert k v m))"
proof (induction k v m rule: bt_insert.induct)
  case (2 k v k' v' m)
  show ?case
  proof (cases "k < k'")
    case True
    with 2 show ?thesis by (force simp: bt_wf_Cons)
  next
    case False
    with 2 show ?thesis
      by (auto simp: bt_wf_Cons not_less le_less case_prod_beta keys_bt_insert
          simp del: image_iff)
  qed
qed (simp add: bt_wf_Cons)

lemma fst_bt_remove: "fst (bt_remove k m) = map_of m k"
  by (induction k m rule: bt_remove.induct) (auto split: prod.splits)

lemma map_of_bt_remove: "bt_wf m \<Longrightarrow> map_of (snd (bt_remove k m)) = (map_of m)(k := None)"
proof (induction k m rule: bt_remove.induct)
  case (2 k k' v' m)
  have "map_of m k' = None"
    using "2.prems" by (force simp: bt_wf_Cons map_of_eq_None_iff)
  then show ?case
    using 2 by (auto simp: bt_wf_Cons fun_eq_iff split: prod.splits)
qed (simp add: fun_eq_iff)

lemma keys_bt_remove_subset: "fst ` set (snd (bt_remove k m)) \<subseteq> fst ` set m"
  by (induction k m rule: bt_remove.induct) (simp_all add: case_prod_beta subset_insertI2 subset_insertI)

lemma bt_wf_remove: "bt_wf m \<Longrightarrow> bt_wf (snd (bt_remove k m))"
proof (induction k m rule: bt_remove.induct)
  case (2 k k' v' m)
  then show ?case
    using keys_bt_remove_subset[of k m]
    by (simp add: bt_wf_Cons case_prod_beta) (metis (no_types, lifting) image_subset_iff imageE)
qed simp

section \<open>Words\<close>

lemma unat_usize_less: "unat (a :: usize) < 2 ^ 64"
proof -
  have "unat a < 2 ^ LENGTH(64)" by (rule unsigned_less)
  then show ?thesis by simp
qed

lemma unat_add_1_less: "(a :: usize) < b \<Longrightarrow> unat (a + 1) = Suc (unat a)"
  using unat_usize_less[of b] by (simp add: word_less_nat_alt unat_plus_if')

end
