(* ===== verification/Kernel_Config.thy ===== *)
theory Kernel_Config
  imports Kernel_Prelude
begin

text \<open>The constants of \<^verbatim>\<open>src/config.rs\<close> that the modelled code reads.\<close>

definition USER_STACK_SIZE :: usize where "USER_STACK_SIZE = 4096 * 2"
definition KERNEL_STACK_SIZE :: usize where "KERNEL_STACK_SIZE = 4096 * 2"
definition MAX_SYSCALL_NUM :: nat where "MAX_SYSCALL_NUM = 500"
definition CLOCK_FREQ :: usize where "CLOCK_FREQ = 12500000"
definition PAGE_SIZE :: usize where "PAGE_SIZE = 4096"
definition PAGE_SIZE_BITS :: nat where "PAGE_SIZE_BITS = 12"
definition MEMORY_END :: usize where "MEMORY_END = 0x88000000"

text \<open>\<open>usize::MAX - PAGE_SIZE + 1\<close>: the start of the highest page.\<close>

definition TRAMPOLINE :: usize where "TRAMPOLINE = - 1 - PAGE_SIZE + 1"
definition TRAP_CONTEXT_BASE :: usize where "TRAP_CONTEXT_BASE = TRAMPOLINE - PAGE_SIZE"

definition MMIO :: "(usize \<times> usize) list" where "MMIO = [(0x10001000, 0x1000)]"

lemmas config_defs = USER_STACK_SIZE_def KERNEL_STACK_SIZE_def CLOCK_FREQ_def PAGE_SIZE_def
  PAGE_SIZE_BITS_def MEMORY_END_def TRAMPOLINE_def TRAP_CONTEXT_BASE_def

lemma TRAMPOLINE_eq: "TRAMPOLINE = 0xfffffffffffff000"
  by (simp add: config_defs)

lemma TRAP_CONTEXT_BASE_eq: "TRAP_CONTEXT_BASE = 0xffffffffffffe000"
  by (simp add: config_defs)

end
