(* ===== verification/Address.thy ===== *)
theory Address
  imports Kernel_Config
begin

text \<open>
  \<^verbatim>\<open>src/mm/address.rs\<close>: physical and virtual addresses and page numbers, their conversions, the
  three table indexes of a virtual page number, and ranges of page numbers with their iterator.
  The newtypes of the source are one-constructor datatypes ordered by their content, as the
  derived \<^verbatim>\<open>Ord\<close> orders them.
\<close>

section \<open>The four newtypes\<close>

datatype PhysAddr = PhysAddr (pa_val: usize)
datatype VirtAddr = VirtAddr (va_val: usize)
datatype PhysPageNum = PhysPageNum (ppn_val: usize)
datatype VirtPageNum = VirtPageNum (vpn_val: usize)

instantiation VirtAddr :: linorder
begin
definition less_eq_VirtAddr :: "VirtAddr \<Rightarrow> VirtAddr \<Rightarrow> bool" where
  "less_eq_VirtAddr a b \<longleftrightarrow> va_val a \<le> va_val b"
definition less_VirtAddr :: "VirtAddr \<Rightarrow> VirtAddr \<Rightarrow> bool" where
  "less_VirtAddr a b \<longleftrightarrow> va_val a < va_val b"
instance
  by standard (auto simp: less_eq_VirtAddr_def less_VirtAddr_def VirtAddr.expand)
end

instantiation VirtPageNum :: linorder
begin
definition less_eq_VirtPageNum :: "VirtPageNum \<Rightarrow> VirtPageNum \<Rightarrow> bool" where
  "less_eq_VirtPageNum a b \<longleftrightarrow> vpn_val a \<le> vpn_val b"
definition less_VirtPageNum :: "VirtPageNum \<Rightarrow> VirtPageNum \<Rightarrow> bool" where
  "less_VirtPageNum a b \<longleftrightarrow> vpn_val a < vpn_val b"
instance
  by standard (auto simp: less_eq_VirtPageNum_def less_VirtPageNum_def VirtPageNum.expand)
end

instantiation PhysPageNum :: linorder
begin
definition less_eq_PhysPageNum :: "PhysPageNum \<Rightarrow> PhysPageNum \<Rightarrow> bool" where
  "less_eq_PhysPageNum a b \<longleftrightarrow> ppn_val a \<le> ppn_val b"
definition less_PhysPageNum :: "PhysPageNum \<Rightarrow> PhysPageNum \<Rightarrow> bool" where
  "less_PhysPageNum a b \<longleftrightarrow> ppn_val a < ppn_val b"
instance
  by standard (auto simp: less_eq_PhysPageNum_def less_PhysPageNum_def PhysPageNum.expand)
end

lemmas newtype_order_defs = less_eq_VirtAddr_def less_VirtAddr_def less_eq_VirtPageNum_def
  less_VirtPageNum_def less_eq_PhysPageNum_def less_PhysPageNum_def

lemma newtype_eq_iff:
  "pa = pa' \<longleftrightarrow> pa_val pa = pa_val pa'"
  "va = va' \<longleftrightarrow> va_val va = va_val va'"
  "p = p' \<longleftrightarrow> ppn_val p = ppn_val p'"
  "v = v' \<longleftrightarrow> vpn_val v = vpn_val v'"
  using PhysAddr.expand VirtAddr.expand PhysPageNum.expand VirtPageNum.expand by blast+

section \<open>Conversions\<close>

definition PA_WIDTH_SV39 :: nat where "PA_WIDTH_SV39 = 56"
definition VA_WIDTH_SV39 :: nat where "VA_WIDTH_SV39 = 39"
definition PPN_WIDTH_SV39 :: nat where "PPN_WIDTH_SV39 = PA_WIDTH_SV39 - PAGE_SIZE_BITS"
definition VPN_WIDTH_SV39 :: nat where "VPN_WIDTH_SV39 = VA_WIDTH_SV39 - PAGE_SIZE_BITS"

definition PhysAddr_page_offset :: "PhysAddr \<Rightarrow> usize" where
  "PhysAddr_page_offset a = pa_val a AND (PAGE_SIZE - 1)"

definition PhysAddr_floor :: "PhysAddr \<Rightarrow> PhysPageNum" where
  "PhysAddr_floor a = PhysPageNum (pa_val a div PAGE_SIZE)"

definition PhysAddr_ceil :: "PhysAddr \<Rightarrow> PhysPageNum" where
  "PhysAddr_ceil a = PhysPageNum ((pa_val a + PAGE_SIZE - 1) div PAGE_SIZE)"

definition PhysAddr_aligned :: "PhysAddr \<Rightarrow> bool" where
  "PhysAddr_aligned a \<longleftrightarrow> PhysAddr_page_offset a = 0"

definition ppn_from_pa :: "PhysAddr \<Rightarrow> panic + PhysPageNum" where
  "ppn_from_pa v = (if PhysAddr_page_offset v = 0 then Inr (PhysAddr_floor v) else Inl Misaligned)"

definition pa_from_ppn :: "PhysPageNum \<Rightarrow> PhysAddr" where
  "pa_from_ppn v = PhysAddr (push_bit PAGE_SIZE_BITS (ppn_val v))"

definition VirtAddr_floor :: "VirtAddr \<Rightarrow> VirtPageNum" where
  "VirtAddr_floor a = VirtPageNum (va_val a div PAGE_SIZE)"

definition VirtAddr_ceil :: "VirtAddr \<Rightarrow> VirtPageNum" where
  "VirtAddr_ceil a = VirtPageNum ((va_val a + PAGE_SIZE - 1) div PAGE_SIZE)"

definition VirtAddr_page_offset :: "VirtAddr \<Rightarrow> usize" where
  "VirtAddr_page_offset a = va_val a AND (PAGE_SIZE - 1)"

definition VirtAddr_aligned :: "VirtAddr \<Rightarrow> bool" where
  "VirtAddr_aligned a \<longleftrightarrow> VirtAddr_page_offset a = 0"

definition vpn_from_va :: "VirtAddr \<Rightarrow> panic + VirtPageNum" where
  "vpn_from_va v = (if VirtAddr_page_offset v = 0 then Inr (VirtAddr_floor v) else Inl Misaligned)"

definition va_from_vpn :: "VirtPageNum \<Rightarrow> VirtAddr" where
  "va_from_vpn v = VirtAddr (push_bit PAGE_SIZE_BITS (vpn_val v))"

definition pa_from_usize :: "usize \<Rightarrow> PhysAddr" where
  "pa_from_usize v = PhysAddr (v AND (push_bit PA_WIDTH_SV39 1 - 1))"

definition va_from_usize :: "usize \<Rightarrow> VirtAddr" where
  "va_from_usize v = VirtAddr (v AND (push_bit VA_WIDTH_SV39 1 - 1))"

definition ppn_from_usize :: "usize \<Rightarrow> PhysPageNum" where
  "ppn_from_usize v = PhysPageNum (v AND (push_bit PPN_WIDTH_SV39 1 - 1))"

definition vpn_from_usize :: "usize \<Rightarrow> VirtPageNum" where
  "vpn_from_usize v = VirtPageNum (v AND (push_bit VPN_WIDTH_SV39 1 - 1))"

lemmas address_defs = PhysAddr_page_offset_def PhysAddr_floor_def PhysAddr_ceil_def
  PhysAddr_aligned_def ppn_from_pa_def pa_from_ppn_def VirtAddr_floor_def VirtAddr_ceil_def
  VirtAddr_page_offset_def VirtAddr_aligned_def vpn_from_va_def va_from_vpn_def
  pa_from_usize_def va_from_usize_def ppn_from_usize_def vpn_from_usize_def
  PA_WIDTH_SV39_def VA_WIDTH_SV39_def PPN_WIDTH_SV39_def VPN_WIDTH_SV39_def
  PAGE_SIZE_def PAGE_SIZE_BITS_def

section \<open>Table indexes of a page number\<close>

text \<open>
  \<^verbatim>\<open>for i in (0..3).rev() { idx[i] = vpn & 511; vpn >>= 9; }\<close>
\<close>

definition indexes :: "VirtPageNum \<Rightarrow> usize list" where
  "indexes v = snd (fold (\<lambda>i (vpn, idx). (drop_bit 9 vpn, idx[i := vpn AND 511]))
     [2, 1, 0] (vpn_val v, [0, 0, 0]))"

section \<open>Ranges of page numbers\<close>

text \<open>
  \<^verbatim>\<open>SimpleRange<T>\<close> and its iterator, generic in the step of the \<^verbatim>\<open>StepByOne\<close> instance.
\<close>

definition vpn_step :: "VirtPageNum \<Rightarrow> VirtPageNum" where
  "vpn_step v = VirtPageNum (vpn_val v + 1)"

definition ppn_step :: "PhysPageNum \<Rightarrow> PhysPageNum" where
  "ppn_step v = PhysPageNum (ppn_val v + 1)"

record 'a SimpleRange =
  range_l :: 'a
  range_r :: 'a

definition SimpleRange_new :: "'a::linorder \<Rightarrow> 'a \<Rightarrow> panic + 'a SimpleRange" where
  "SimpleRange_new start end =
     (if start \<le> end then Inr \<lparr>range_l = start, range_r = end\<rparr> else Inl RangeInverted)"

definition get_start :: "'a SimpleRange \<Rightarrow> 'a" where
  "get_start r = range_l r"

definition get_end :: "'a SimpleRange \<Rightarrow> 'a" where
  "get_end r = range_r r"

record 'a SimpleRangeIterator =
  iter_current :: 'a
  iter_end :: 'a

definition into_iter :: "'a SimpleRange \<Rightarrow> 'a SimpleRangeIterator" where
  "into_iter r = \<lparr>iter_current = range_l r, iter_end = range_r r\<rparr>"

definition iter_next ::
    "('a \<Rightarrow> 'a) \<Rightarrow> 'a SimpleRangeIterator \<Rightarrow> 'a option \<times> 'a SimpleRangeIterator" where
  "iter_next step it =
     (if iter_current it = iter_end it then (None, it)
      else (Some (iter_current it), it\<lparr>iter_current := step (iter_current it)\<rparr>))"

type_synonym VPNRange = "VirtPageNum SimpleRange"

text \<open>
  What \<^verbatim>\<open>for vpn in range\<close> visits: \<open>iter_next\<close> until it answers \<open>None\<close>. It ends for every start,
  since the wrapping step reaches the end.
\<close>

function vpn_iter_collect :: "VirtPageNum SimpleRangeIterator \<Rightarrow> VirtPageNum list" where
  "vpn_iter_collect it =
     (case iter_next vpn_step it of
        (None, _) \<Rightarrow> []
      | (Some v, it') \<Rightarrow> v # vpn_iter_collect it')"
  by pat_completeness auto
termination
proof (relation "measure (\<lambda>it. unat (vpn_val (iter_end it) - vpn_val (iter_current it)))", goal_cases)
  case (2 it o1 it' v)
  then have neq: "iter_current it \<noteq> iter_end it"
    and it': "it' = it\<lparr>iter_current := vpn_step (iter_current it)\<rparr>"
    by (auto simp: iter_next_def split: if_splits)
  let ?d = "vpn_val (iter_end it) - vpn_val (iter_current it)"
  have "?d \<noteq> 0" using neq by (metis VirtPageNum.expand right_minus_eq)
  moreover have "vpn_val (iter_end it') - vpn_val (iter_current it') = ?d - 1"
    by (simp add: it' vpn_step_def)
  ultimately show ?case
    by (simp add: unat_minus_one) (simp add: unat_gt_0)
qed simp

declare vpn_iter_collect.simps [simp del]

definition vpns_of :: "VPNRange \<Rightarrow> VirtPageNum list" where
  "vpns_of r = vpn_iter_collect (into_iter r)"

section \<open>Facts\<close>

subsection \<open>Page arithmetic\<close>

lemma and_4095_take_bit: "(a :: usize) AND 4095 = take_bit 12 a"
  by (simp add: take_bit_eq_mask mask_eq_exp_minus_1)

lemma unat_take_bit: "unat (take_bit n (a :: usize)) = unat a mod 2 ^ n"
  by (metis take_bit_eq_mod unsigned_take_bit_eq)

lemma unat_and_4095: "unat ((a :: usize) AND 4095) = unat a mod 4096"
  by (simp add: and_4095_take_bit unat_take_bit)

lemma unat_div_4096: "unat ((a :: usize) div 4096) = unat a div 4096"
  by (simp add: unat_div)

lemma push_bit_12: "push_bit 12 (a :: usize) = a * 4096"
  by (simp add: push_bit_eq_mult)

lemma unat_push_bit_12: "unat (a :: usize) < 2 ^ 52 \<Longrightarrow> unat (push_bit 12 a) = unat a * 4096"
  by (simp add: push_bit_12 unat_word_ariths)

lemma unat_VirtAddr_floor: "unat (vpn_val (VirtAddr_floor a)) = unat (va_val a) div 4096"
  by (simp add: address_defs unat_div_4096)

lemma unat_VirtAddr_page_offset: "unat (VirtAddr_page_offset a) = unat (va_val a) mod 4096"
  by (simp add: address_defs unat_and_4095)

lemma unat_VirtAddr_ceil:
  "unat (va_val a) + 4095 < 2 ^ 64 \<Longrightarrow> unat (vpn_val (VirtAddr_ceil a)) = (unat (va_val a) + 4095) div 4096"
  by (simp add: address_defs unat_div_4096 add.commute[of _ "4095 :: usize"] unat_word_ariths
      flip: add_diff_eq)

lemma unat_PhysAddr_floor: "unat (ppn_val (PhysAddr_floor a)) = unat (pa_val a) div 4096"
  by (simp add: address_defs unat_div_4096)

lemma unat_PhysAddr_ceil:
  "unat (pa_val a) + 4095 < 2 ^ 64 \<Longrightarrow> unat (ppn_val (PhysAddr_ceil a)) = (unat (pa_val a) + 4095) div 4096"
  by (simp add: address_defs unat_div_4096 unat_word_ariths flip: add_diff_eq)

lemma width_masks:
  "push_bit PA_WIDTH_SV39 1 - 1 = (mask 56 :: usize)"
  "push_bit VA_WIDTH_SV39 1 - 1 = (mask 39 :: usize)"
  "push_bit PPN_WIDTH_SV39 1 - 1 = (mask 44 :: usize)"
  "push_bit VPN_WIDTH_SV39 1 - 1 = (mask 27 :: usize)"
  by (simp_all add: address_defs mask_eq_exp_minus_1)

lemma unat_from_usize:
  "unat (pa_val (pa_from_usize v)) = unat v mod 2 ^ 56"
  "unat (va_val (va_from_usize v)) = unat v mod 2 ^ 39"
  "unat (ppn_val (ppn_from_usize v)) = unat v mod 2 ^ 44"
  "unat (vpn_val (vpn_from_usize v)) = unat v mod 2 ^ 27"
  by (simp_all only: pa_from_usize_def va_from_usize_def ppn_from_usize_def vpn_from_usize_def
      width_masks PhysAddr.sel VirtAddr.sel PhysPageNum.sel VirtPageNum.sel
      take_bit_eq_mask[symmetric] unat_take_bit)

lemma ppn_from_usize_id: "unat v < 2 ^ 44 \<Longrightarrow> ppn_from_usize v = PhysPageNum v"
  using unat_from_usize(3)[of v] by (metis PhysPageNum.collapse mod_less word_unat_eq_iff)

lemma va_from_usize_id: "unat v < 2 ^ 39 \<Longrightarrow> va_from_usize v = VirtAddr v"
  using unat_from_usize(2)[of v] by (metis VirtAddr.collapse mod_less word_unat_eq_iff)

lemma ppn_pa_roundtrip:
  assumes "unat (ppn_val p) < 2 ^ 52"
  shows "PhysAddr_page_offset (pa_from_ppn p) = 0" and "PhysAddr_floor (pa_from_ppn p) = p"
proof -
  have u: "unat (pa_val (pa_from_ppn p)) = unat (ppn_val p) * 4096"
    using assms by (simp add: pa_from_ppn_def PAGE_SIZE_BITS_def unat_push_bit_12)
  then have "unat (PhysAddr_page_offset (pa_from_ppn p)) = 0"
    by (simp add: PhysAddr_page_offset_def PAGE_SIZE_def unat_and_4095)
  then show "PhysAddr_page_offset (pa_from_ppn p) = 0"
    by (simp add: unat_eq_0)
  have "unat (ppn_val (PhysAddr_floor (pa_from_ppn p))) = unat (ppn_val p)"
    by (simp add: unat_PhysAddr_floor u)
  then show "PhysAddr_floor (pa_from_ppn p) = p"
    by (metis PhysPageNum.expand word_unat_eq_iff)
qed

lemma vpn_va_roundtrip:
  assumes "unat (vpn_val p) < 2 ^ 52"
  shows "VirtAddr_page_offset (va_from_vpn p) = 0" and "VirtAddr_floor (va_from_vpn p) = p"
proof -
  have u: "unat (va_val (va_from_vpn p)) = unat (vpn_val p) * 4096"
    using assms by (simp add: va_from_vpn_def PAGE_SIZE_BITS_def unat_push_bit_12)
  then have "unat (VirtAddr_page_offset (va_from_vpn p)) = 0"
    by (simp add: unat_VirtAddr_page_offset)
  then show "VirtAddr_page_offset (va_from_vpn p) = 0"
    by (simp add: unat_eq_0)
  have "unat (vpn_val (VirtAddr_floor (va_from_vpn p))) = unat (vpn_val p)"
    by (simp add: unat_VirtAddr_floor u)
  then show "VirtAddr_floor (va_from_vpn p) = p"
    by (metis VirtPageNum.expand word_unat_eq_iff)
qed

subsection \<open>Table indexes\<close>

lemma indexes_eq:
  "indexes v = [drop_bit 18 (vpn_val v) AND 511, drop_bit 9 (vpn_val v) AND 511, vpn_val v AND 511]"
  by (simp add: indexes_def numeral_2_eq_2)

lemma unat_and_511: "unat ((a :: usize) AND 511) = unat a mod 512"
proof -
  have "a AND 511 = take_bit 9 a"
    by (simp add: take_bit_eq_mask mask_eq_exp_minus_1)
  then show ?thesis by (simp add: unat_take_bit)
qed

lemma unat_drop_bit_div: "unat (drop_bit n (a :: usize)) = unat a div 2 ^ n"
  unfolding unat_drop_bit_eq by (rule drop_bit_eq_div)

lemma indexes_bounded: "i \<in> set (indexes v) \<Longrightarrow> unat i < 512"
  by (auto simp: indexes_eq unat_and_511)

lemma length_indexes [simp]: "length (indexes v) = 3"
  by (simp add: indexes_eq)

text \<open>The page number as its three indexes, and the indexes' injectivity on 27 bits.\<close>

lemma indexes_compose:
  assumes "unat (vpn_val v) < 2 ^ 27"
  shows "unat (vpn_val v) =
    (unat (indexes v ! 0) * 512 + unat (indexes v ! 1)) * 512 + unat (indexes v ! 2)"
proof -
  let ?n = "unat (vpn_val v)"
  have "?n div 512 = ?n div 262144 * 512 + ?n div 512 mod 512"
    using div_mult_mod_eq[of "?n div 512" 512] by (simp add: div_mult2_eq[of ?n 512 512, simplified])
  moreover have "?n = ?n div 512 * 512 + ?n mod 512"
    by simp
  moreover have "?n div 262144 mod 512 = ?n div 262144"
    using assms by simp
  ultimately have "?n = (?n div 262144 mod 512 * 512 + ?n div 512 mod 512) * 512 + ?n mod 512"
    by metis
  moreover have "unat (indexes v ! 0) = ?n div 262144 mod 512"
      "unat (indexes v ! 1) = ?n div 512 mod 512" "unat (indexes v ! 2) = ?n mod 512"
    by (simp_all add: indexes_eq unat_and_511 unat_drop_bit_div)
  ultimately show ?thesis
    by (simp only:)
qed

lemma indexes_inject:
  assumes "indexes v = indexes w" "unat (vpn_val v) < 2 ^ 27" "unat (vpn_val w) < 2 ^ 27"
  shows "v = w"
  using indexes_compose[of v] indexes_compose[of w] assms
  by (simp add: VirtPageNum.expand word_unat_eq_iff)

subsection \<open>Ranges\<close>

text \<open>
  The contract of \<^verbatim>\<open>StepByOne\<close>: below an upper end, a step moves to the next position of the order.
  Under it the iterator of a range visits exactly the half-open interval, in order.
\<close>

primrec iter_take :: "('a \<Rightarrow> 'a) \<Rightarrow> nat \<Rightarrow> 'a SimpleRangeIterator \<Rightarrow> 'a list" where
  "iter_take step 0 it = []"
| "iter_take step (Suc n) it =
     (case iter_next step it of (None, _) \<Rightarrow> [] | (Some v, it') \<Rightarrow> v # iter_take step n it')"

locale step_by_one =
  fixes step :: "'a::linorder \<Rightarrow> 'a" and pos :: "'a \<Rightarrow> nat"
  assumes pos_less: "a < b \<longleftrightarrow> pos a < pos b"
    and pos_step: "a < b \<Longrightarrow> pos (step a) = Suc (pos a)"
begin

lemma pos_le: "a \<le> b \<longleftrightarrow> pos a \<le> pos b"
  by (metis linorder_not_less pos_less)

lemma pos_inject: "pos a = pos b \<longleftrightarrow> a = b"
  by (metis antisym order_refl pos_le)

lemma step_le: "a < b \<Longrightarrow> step a \<le> b"
  using pos_step[of a b] pos_less[of a b] by (simp add: pos_le)

lemma iter_take_interval:
  assumes "iter_current it \<le> iter_end it" "pos (iter_end it) - pos (iter_current it) \<le> n"
  shows "map pos (iter_take step n it) = [pos (iter_current it)..<pos (iter_end it)]"
  using assms
proof (induction n arbitrary: it)
  case 0
  then show ?case by (simp add: pos_le)
next
  case (Suc n)
  show ?case
  proof (cases "iter_current it = iter_end it")
    case True
    then show ?thesis by (simp add: iter_next_def)
  next
    case False
    with Suc.prems have lt: "iter_current it < iter_end it" by simp
    have "map pos (iter_take step n (it\<lparr>iter_current := step (iter_current it)\<rparr>)) =
        [Suc (pos (iter_current it))..<pos (iter_end it)]"
      using Suc.IH[of "it\<lparr>iter_current := step (iter_current it)\<rparr>"] Suc.prems lt
      by (simp add: step_le pos_step[OF lt])
    then show ?thesis
      using False lt by (simp add: iter_next_def upt_conv_Cons pos_less)
  qed
qed

end

interpretation vpn_steps: step_by_one vpn_step "\<lambda>v. unat (vpn_val v)"
proof
  fix a b :: VirtPageNum
  show "a < b \<longleftrightarrow> unat (vpn_val a) < unat (vpn_val b)"
    by (simp add: newtype_order_defs word_less_nat_alt)
  assume "a < b"
  then have "vpn_val a < vpn_val b" by (simp add: newtype_order_defs)
  then show "unat (vpn_val (vpn_step a)) = Suc (unat (vpn_val a))"
    by (simp add: vpn_step_def unat_add_1_less)
qed

interpretation ppn_steps: step_by_one ppn_step "\<lambda>v. unat (ppn_val v)"
proof
  fix a b :: PhysPageNum
  show "a < b \<longleftrightarrow> unat (ppn_val a) < unat (ppn_val b)"
    by (simp add: newtype_order_defs word_less_nat_alt)
  assume "a < b"
  then have "ppn_val a < ppn_val b" by (simp add: newtype_order_defs)
  then show "unat (ppn_val (ppn_step a)) = Suc (unat (ppn_val a))"
    by (simp add: ppn_step_def unat_add_1_less)
qed

lemma vpn_val_step: "vpn_val (vpn_step v) = vpn_val v + 1"
  by (simp add: vpn_step_def)

lemma vpn_iter_collect_take:
  "unat (vpn_val (iter_end it) - vpn_val (iter_current it)) \<le> n \<Longrightarrow>
   vpn_iter_collect it = iter_take vpn_step n it"
proof (induction n arbitrary: it)
  case 0
  then have "iter_current it = iter_end it"
    by (metis VirtPageNum.expand le_zero_eq right_minus_eq unat_eq_0)
  then show ?case
    by (subst vpn_iter_collect.simps) (simp add: iter_next_def)
next
  case (Suc n)
  show ?case
  proof (cases "iter_current it = iter_end it")
    case True
    then show ?thesis
      by (subst vpn_iter_collect.simps) (simp add: iter_next_def)
  next
    case False
    let ?d = "vpn_val (iter_end it) - vpn_val (iter_current it)"
    have "?d \<noteq> 0" using False by (metis VirtPageNum.expand right_minus_eq)
    then have "unat (?d - 1) \<le> n"
      using Suc.prems by (simp add: unat_minus_one)
    then have "vpn_iter_collect (it\<lparr>iter_current := vpn_step (iter_current it)\<rparr>) =
        iter_take vpn_step n (it\<lparr>iter_current := vpn_step (iter_current it)\<rparr>)"
      using Suc.IH[of "it\<lparr>iter_current := vpn_step (iter_current it)\<rparr>"]
      by (simp add: vpn_val_step diff_diff_eq)
    then show ?thesis
      using False by (subst vpn_iter_collect.simps) (simp add: iter_next_def)
  qed
qed

lemma map_unat_vpns_of:
  assumes "range_l r \<le> range_r r"
  shows "map (\<lambda>v. unat (vpn_val v)) (vpns_of r) = [unat (vpn_val (range_l r))..<unat (vpn_val (range_r r))]"
proof -
  have "unat (vpn_val (range_r r) - vpn_val (range_l r)) = unat (vpn_val (range_r r)) - unat (vpn_val (range_l r))"
    using assms by (simp add: newtype_order_defs unat_sub)
  then show ?thesis
    using vpn_iter_collect_take[of "into_iter r", OF order_refl]
      vpn_steps.iter_take_interval[of "into_iter r", OF _ order_refl] assms
    by (simp add: vpns_of_def into_iter_def)
qed

lemma set_vpns_of:
  assumes "range_l r \<le> range_r r"
  shows "v \<in> set (vpns_of r) \<longleftrightarrow> range_l r \<le> v \<and> v < range_r r"
proof -
  have "unat (vpn_val v) \<in> (\<lambda>v. unat (vpn_val v)) ` set (vpns_of r) \<longleftrightarrow> v \<in> set (vpns_of r)"
    by (auto simp: vpn_steps.pos_inject)
  moreover have "(\<lambda>v. unat (vpn_val v)) ` set (vpns_of r) = {unat (vpn_val (range_l r))..<unat (vpn_val (range_r r))}"
    using map_unat_vpns_of[OF assms] by (metis list.set_map set_upt)
  ultimately show ?thesis
    by (auto simp: vpn_steps.pos_le vpn_steps.pos_less)
qed

lemma distinct_vpns_of: "range_l r \<le> range_r r \<Longrightarrow> distinct (vpns_of r)"
  using map_unat_vpns_of[of r] by (metis distinct_map distinct_upt)

lemma vpns_of_empty: "vpns_of \<lparr>range_l = v, range_r = v\<rparr> = []"
  by (simp add: vpns_of_def into_iter_def vpn_iter_collect.simps iter_next_def)

lemma SimpleRange_new_Inr: "SimpleRange_new a b = Inr r \<longleftrightarrow> a \<le> b \<and> r = \<lparr>range_l = a, range_r = b\<rparr>"
  by (auto simp: SimpleRange_new_def)

end
