(* ===== verification/Phys_Memory.thy ===== *)
theory Phys_Memory
  imports Address
begin

text \<open>
  Physical memory as the kernel sees it through its identity mapping: one byte per 64-bit address.
  A reference or slice that the source makes from a raw pointer (\<^verbatim>\<open>get_bytes_array\<close>,
  \<^verbatim>\<open>get_pte_array\<close>, \<^verbatim>\<open>get_mut\<close> of \<^verbatim>\<open>src/mm/address.rs\<close>) is the address it
  points to, so aliasing between the byte view and the entry view of a page is kept. Multi-byte
  values are little-endian, as on RISC-V.
\<close>

type_synonym mem = "usize \<Rightarrow> u8"

definition read_bytes :: "mem \<Rightarrow> usize \<Rightarrow> nat \<Rightarrow> u8 list" where
  "read_bytes m a n = map (\<lambda>i. m (a + of_nat i)) [0..<n]"

definition write_bytes :: "mem \<Rightarrow> usize \<Rightarrow> u8 list \<Rightarrow> mem" where
  "write_bytes m a bs = (\<lambda>x. if unat (x - a) < length bs then bs ! unat (x - a) else m x)"

definition u64_bytes :: "usize \<Rightarrow> u8 list" where
  "u64_bytes v = map (\<lambda>i. ucast (drop_bit (8 * i) v)) [0..<8]"

definition bytes_u64 :: "u8 list \<Rightarrow> usize" where
  "bytes_u64 bs = foldr (\<lambda>b acc. ucast b OR push_bit 8 acc) bs 0"

definition read_u64 :: "mem \<Rightarrow> usize \<Rightarrow> usize" where
  "read_u64 m a = bytes_u64 (read_bytes m a 8)"

definition write_u64 :: "mem \<Rightarrow> usize \<Rightarrow> usize \<Rightarrow> mem" where
  "write_u64 m a v = write_bytes m a (u64_bytes v)"

text \<open>
  The page of a physical page number as bytes: the slice is its address and length.
\<close>

record slice =
  slice_ptr :: usize
  slice_len :: nat

definition get_bytes_array :: "PhysPageNum \<Rightarrow> slice" where
  "get_bytes_array p = \<lparr>slice_ptr = pa_val (pa_from_ppn p), slice_len = 4096\<rparr>"

text \<open>
  Entry \<open>idx\<close> of the page seen as 512 page-table entries of eight bytes; the index is checked.
\<close>

definition get_pte_array :: "PhysPageNum \<Rightarrow> usize \<Rightarrow> panic + usize" where
  "get_pte_array p idx =
     (if unat idx < 512 then Inr (pa_val (pa_from_ppn p) + 8 * idx) else Inl SliceIndex)"

text \<open>\<^verbatim>\<open>for i in bytes_array { *i = 0 }\<close>: every byte of a slice set to one value.\<close>

definition fill_slice :: "mem \<Rightarrow> slice \<Rightarrow> u8 \<Rightarrow> mem" where
  "fill_slice m sl v = (\<lambda>x. if unat (x - slice_ptr sl) < slice_len sl then v else m x)"

section \<open>Bytes and words\<close>

lemma length_u64_bytes [simp]: "length (u64_bytes v) = 8"
  by (simp add: u64_bytes_def)

lemma length_read_bytes [simp]: "length (read_bytes m a n) = n"
  by (simp add: read_bytes_def)

lemma bytes_u64_zero [simp]: "bytes_u64 (replicate n 0) = 0"
  by (induction n) (simp_all add: bytes_u64_def)

lemma bit_bytes_u64:
  "bit (bytes_u64 bs) n \<longleftrightarrow> n < 64 \<and> n div 8 < length bs \<and> bit (bs ! (n div 8)) (n mod 8)"
proof (induction bs arbitrary: n)
  case Nil
  then show ?case by (simp add: bytes_u64_def)
next
  case (Cons b bs)
  have step: "bytes_u64 (b # bs) = ucast b OR push_bit 8 (bytes_u64 bs)"
    by (simp add: bytes_u64_def)
  show ?case
  proof (cases "n < 8")
    case True
    then show ?thesis
      by (simp add: step bit_or_iff bit_push_bit_iff bit_unsigned_iff)
  next
    case False
    then have "\<not> bit b n"
      by (simp add: impossible_bit)
    moreover have "n div 8 = Suc ((n - 8) div 8)" "(n - 8) mod 8 = n mod 8"
      using False by (simp_all add: le_div_geq le_mod_geq)
    ultimately show ?thesis
      using False Cons.IH[of "n - 8"]
      by (auto simp: step bit_or_iff bit_push_bit_iff bit_unsigned_iff)
  qed
qed

lemma bytes_u64_u64_bytes [simp]: "bytes_u64 (u64_bytes v) = v"
proof (rule bit_word_eqI)
  fix n assume "n < LENGTH(64)"
  then have n: "n < 64" "n div 8 < 8" by auto
  have "bit (u64_bytes v ! (n div 8)) (n mod 8) \<longleftrightarrow> bit v (8 * (n div 8) + n mod 8)"
    using n by (simp add: u64_bytes_def bit_unsigned_iff bit_drop_bit_eq)
  then show "bit (bytes_u64 (u64_bytes v)) n \<longleftrightarrow> bit v n"
    using n by (simp add: bit_bytes_u64)
qed

section \<open>Pages\<close>

text \<open>\<open>paddr p k\<close> is byte \<open>k\<close> of page \<open>p\<close>. Page numbers below \<open>2^52\<close> do not wrap.\<close>

definition paddr :: "usize \<Rightarrow> nat \<Rightarrow> usize" where
  "paddr p k = push_bit 12 p + of_nat k"

abbreviation page_ok :: "usize \<Rightarrow> bool" where
  "page_ok p \<equiv> unat p < 2 ^ 52"

lemma pa_from_ppn_paddr: "pa_val (pa_from_ppn p) = paddr (ppn_val p) 0"
  by (simp add: pa_from_ppn_def paddr_def PAGE_SIZE_BITS_def)

lemma paddr_add: "paddr p k + of_nat j = paddr p (k + j)"
  by (simp add: paddr_def)

lemma unat_paddr: "page_ok p \<Longrightarrow> k < 4096 \<Longrightarrow> unat (paddr p k) = unat p * 4096 + k"
  by (simp add: paddr_def unat_word_ariths unat_push_bit_12 unat_of_nat)

lemma paddr_eq_iff:
  assumes "page_ok p" "page_ok q" "k < 4096" "l < 4096"
  shows "paddr p k = paddr q l \<longleftrightarrow> p = q \<and> k = l"
proof
  assume "paddr p k = paddr q l"
  then have *: "unat p * 4096 + k = unat q * 4096 + l"
    using unat_paddr[OF assms(1,3)] unat_paddr[OF assms(2,4)] by simp
  have "unat p = (unat p * 4096 + k) div 4096" "unat q = (unat q * 4096 + l) div 4096"
    using assms(3,4) by simp_all
  then have "unat p = unat q" using * by metis
  then show "p = q \<and> k = l" using * by (simp add: word_unat_eq_iff)
qed simp

lemma unat_paddr_diff:
  assumes "k \<le> l" "l < 4096"
  shows "unat (paddr p l - paddr p k) = l - k"
proof -
  have "paddr p l - paddr p k = of_nat (l - k)"
    using assms by (simp add: paddr_def of_nat_diff)
  moreover have "unat (of_nat (l - k) :: usize) = l - k"
    using assms(2) by (simp add: unat_of_nat del: of_nat_diff)
  ultimately show ?thesis by simp
qed

text \<open>A write inside one page, seen through the bytes of the pages.\<close>

lemma range_in_page:
  assumes "page_ok p" "page_ok q" "k + n \<le> 4096" "l < 4096"
  shows "unat (paddr q l - paddr p k) < n \<longleftrightarrow> p = q \<and> k \<le> l \<and> l < k + n"
proof (cases "n = 0")
  case False
  then have k: "k < 4096" using assms(3) by simp
  show ?thesis
  proof
    assume lt: "unat (paddr q l - paddr p k) < n"
    let ?i = "unat (paddr q l - paddr p k)"
    have "paddr q l = paddr p k + of_nat ?i" by simp
    then have "paddr q l = paddr p (k + ?i)" by (simp only: paddr_add)
    moreover have "k + ?i < 4096" using lt assms(3) by simp
    ultimately show "p = q \<and> k \<le> l \<and> l < k + n"
      using paddr_eq_iff[OF assms(2,1,4)] lt by auto
  next
    assume *: "p = q \<and> k \<le> l \<and> l < k + n"
    then have "unat (paddr q l - paddr p k) = l - k"
      using unat_paddr_diff assms(4) by simp
    then show "unat (paddr q l - paddr p k) < n" using * by linarith
  qed
qed simp

lemma write_bytes_paddr:
  assumes "page_ok p" "page_ok q" "k + length bs \<le> 4096" "l < 4096"
  shows "write_bytes m (paddr p k) bs (paddr q l) =
    (if p = q \<and> k \<le> l \<and> l < k + length bs then bs ! (l - k) else m (paddr q l))"
  using range_in_page[OF assms] assms(4) by (auto simp: write_bytes_def unat_paddr_diff)

lemma fill_page_paddr:
  assumes "page_ok (ppn_val p)" "page_ok q" "l < 4096"
  shows "fill_slice m (get_bytes_array p) v (paddr q l) = (if ppn_val p = q then v else m (paddr q l))"
  using range_in_page[OF assms(1,2), of 0 4096 l] assms(3)
  by (simp add: fill_slice_def get_bytes_array_def pa_from_ppn_paddr)

text \<open>Two memories agree on a page.\<close>

definition page_eq :: "mem \<Rightarrow> mem \<Rightarrow> usize \<Rightarrow> bool" where
  "page_eq m m' p \<longleftrightarrow> (\<forall>k < 4096. m (paddr p k) = m' (paddr p k))"

lemma page_eq_refl [simp]: "page_eq m m p"
  by (simp add: page_eq_def)

lemma page_eq_sym: "page_eq m m' p \<Longrightarrow> page_eq m' m p"
  by (simp add: page_eq_def)

lemma page_eq_trans: "page_eq m m' p \<Longrightarrow> page_eq m' m'' p \<Longrightarrow> page_eq m m'' p"
  by (simp add: page_eq_def)

lemma page_eq_write_bytes:
  assumes "page_ok p" "page_ok q" "k + length bs \<le> 4096" "p \<noteq> q"
  shows "page_eq (write_bytes m (paddr p k) bs) m q"
  using assms by (simp add: page_eq_def write_bytes_paddr)

lemma page_eq_fill:
  assumes "page_ok (ppn_val p)" "page_ok q" "ppn_val p \<noteq> q"
  shows "page_eq (fill_slice m (get_bytes_array p) v) m q"
  using assms by (simp add: page_eq_def fill_page_paddr)

lemma page_eq_read_bytes:
  assumes "page_eq m m' p" "k + n \<le> 4096"
  shows "read_bytes m (paddr p k) n = read_bytes m' (paddr p k) n"
  using assms by (simp add: page_eq_def read_bytes_def paddr_add)

section \<open>Page-table entries in memory\<close>

text \<open>\<open>pte_at p i\<close> is the address of entry \<open>i\<close> of page \<open>p\<close>.\<close>

definition pte_at :: "usize \<Rightarrow> usize \<Rightarrow> usize" where
  "pte_at p i = push_bit 12 p + 8 * i"

lemma get_pte_array_Inr: "unat i < 512 \<Longrightarrow> get_pte_array p i = Inr (pte_at (ppn_val p) i)"
  by (simp add: get_pte_array_def pte_at_def pa_from_ppn_def PAGE_SIZE_BITS_def)

lemma pte_at_paddr: "unat i < 512 \<Longrightarrow> pte_at p i = paddr p (8 * unat i)"
  by (simp add: pte_at_def paddr_def)

lemma read_u64_page_eq:
  "page_eq m m' p \<Longrightarrow> unat i < 512 \<Longrightarrow> read_u64 m (pte_at p i) = read_u64 m' (pte_at p i)"
  by (simp add: read_u64_def pte_at_paddr page_eq_read_bytes)

lemma read_u64_write_u64:
  assumes "page_ok p" "page_ok q" "unat i < 512" "unat j < 512"
  shows "read_u64 (write_u64 m (pte_at p i) v) (pte_at q j) =
    (if p = q \<and> i = j then v else read_u64 m (pte_at q j))"
proof -
  have byte: "write_bytes m (pte_at p i) (u64_bytes v) (paddr q (8 * unat j + b)) =
      (if p = q \<and> i = j then u64_bytes v ! b else m (paddr q (8 * unat j + b)))" if "b < 8" for b
  proof -
    have "8 * unat i \<le> 8 * unat j + b \<and> 8 * unat j + b < 8 * unat i + 8 \<longleftrightarrow> i = j"
      using that by (auto simp: word_unat_eq_iff)
    then show ?thesis
      using that assms by (auto simp: pte_at_paddr write_bytes_paddr)
  qed
  have "read_bytes (write_bytes m (pte_at p i) (u64_bytes v)) (paddr q (8 * unat j)) 8 =
      (if p = q \<and> i = j then u64_bytes v else read_bytes m (paddr q (8 * unat j)) 8)"
    by (rule nth_equalityI) (auto simp: read_bytes_def paddr_add byte)
  then show ?thesis
    using assms by (simp add: read_u64_def write_u64_def pte_at_paddr[of j q])
qed

lemma page_eq_write_u64:
  assumes "page_ok p" "page_ok q" "unat i < 512" "p \<noteq> q"
  shows "page_eq (write_u64 m (pte_at p i) v) m q"
  using assms by (simp add: write_u64_def pte_at_paddr page_eq_write_bytes)

lemma read_u64_fill_page:
  assumes "page_ok (ppn_val p)" "page_ok q" "unat j < 512"
  shows "read_u64 (fill_slice m (get_bytes_array p) 0) (pte_at q j) =
    (if ppn_val p = q then 0 else read_u64 m (pte_at q j))"
proof (cases "ppn_val p = q")
  case True
  have "read_bytes (fill_slice m (get_bytes_array p) 0) (pte_at q j) 8 = replicate 8 0"
    using assms True by (intro nth_equalityI) (simp_all add: read_bytes_def pte_at_paddr paddr_add fill_page_paddr)
  then show ?thesis using True by (simp add: read_u64_def)
next
  case False
  then show ?thesis
    using read_u64_page_eq[OF page_eq_fill[OF assms(1,2)] assms(3)] by simp
qed

end
