(* ===== verification/Allocator_Spec.thy ===== *)
theory Allocator_Spec
  imports Kernel_Prelude "HOL-Library.Multiset"
begin

text \<open>
  The contract that the two allocators of the kernel share (physical frames in
  \<^verbatim>\<open>src/mm/frame_allocator.rs\<close>, process identifiers in \<^verbatim>\<open>src/task/pid.rs\<close>): an identifier
  handed out is not live, and giving back a live one succeeds and makes it dead.
\<close>

text \<open>A client's history: a number of allocations, and returns of what it was given.\<close>

fun run_allocs :: "('s \<Rightarrow> 'id option \<times> 's) \<Rightarrow> nat \<Rightarrow> 's \<Rightarrow> 'id list \<times> 's" where
  "run_allocs alloc 0 s = ([], s)"
| "run_allocs alloc (Suc n) s =
     (case alloc s of
        (None, s') \<Rightarrow> ([], s')
      | (Some x, s') \<Rightarrow> (let (xs, s'') = run_allocs alloc n s' in (x # xs, s'')))"

fun run_deallocs :: "('s \<Rightarrow> 'id \<Rightarrow> panic + 's) \<Rightarrow> 'id list \<Rightarrow> 's \<Rightarrow> panic + 's" where
  "run_deallocs dealloc [] s = Inr s"
| "run_deallocs dealloc (x # xs) s =
     (case dealloc s x of Inl e \<Rightarrow> Inl e | Inr s' \<Rightarrow> run_deallocs dealloc xs s')"

locale unique_allocator =
  fixes alloc :: "'s \<Rightarrow> 'id option \<times> 's"
    and dealloc :: "'s \<Rightarrow> 'id \<Rightarrow> panic + 's"
    and live :: "'s \<Rightarrow> 'id set"
    and invar :: "'s \<Rightarrow> bool"
  assumes alloc_Some: "invar s \<Longrightarrow> alloc s = (Some x, s') \<Longrightarrow>
      invar s' \<and> x \<notin> live s \<and> live s' = insert x (live s)"
    and alloc_None: "invar s \<Longrightarrow> alloc s = (None, s') \<Longrightarrow> invar s' \<and> live s' = live s"
    and dealloc_live: "invar s \<Longrightarrow> x \<in> live s \<Longrightarrow>
      \<exists>s'. dealloc s x = Inr s' \<and> invar s' \<and> live s' = live s - {x}"
begin

lemma dealloc_Inr:
  "invar s \<Longrightarrow> x \<in> live s \<Longrightarrow> dealloc s x = Inr s' \<Longrightarrow> invar s' \<and> live s' = live s - {x}"
  using dealloc_live by fastforce

text \<open>Any number of allocations yields pairwise distinct identifiers, none live before.\<close>

lemma run_allocs_distinct:
  assumes "invar s" "run_allocs alloc n s = (xs, s')"
  shows "invar s' \<and> distinct xs \<and> set xs \<inter> live s = {} \<and> live s' = live s \<union> set xs"
  using assms
proof (induction n arbitrary: s xs)
  case 0
  then show ?case by simp
next
  case (Suc n)
  show ?case
  proof (cases "alloc s")
    case (Pair o1 s1)
    show ?thesis
    proof (cases o1)
      case None
      then show ?thesis using Suc.prems Pair alloc_None[OF Suc.prems(1)] by simp
    next
      case (Some x)
      with Pair Suc.prems obtain ys where ys: "run_allocs alloc n s1 = (ys, s')" "xs = x # ys"
        by (auto split: prod.splits)
      have x: "invar s1" "x \<notin> live s" "live s1 = insert x (live s)"
        using alloc_Some[OF Suc.prems(1)] Pair Some by auto
      from Suc.IH[OF x(1) ys(1)] show ?thesis
        using x ys(2) by auto
    qed
  qed
qed

text \<open>Giving back distinct live identifiers in any order never panics.\<close>

lemma run_deallocs_live:
  assumes "invar s" "distinct xs" "set xs \<subseteq> live s"
  shows "\<exists>s'. run_deallocs dealloc xs s = Inr s' \<and> invar s' \<and> live s' = live s - set xs"
  using assms
proof (induction xs arbitrary: s)
  case Nil
  then show ?case by simp
next
  case (Cons x xs)
  then obtain s1 where s1: "dealloc s x = Inr s1" "invar s1" "live s1 = live s - {x}"
    using dealloc_live[of s x] by auto
  have "set xs \<subseteq> live s1" using Cons.prems s1(3) by auto
  then show ?case
    using Cons.IH[of s1] Cons.prems s1 by auto
qed

text \<open>Allocating and giving everything back restores the live set.\<close>

lemma alloc_dealloc_restores:
  assumes "invar s" "run_allocs alloc n s = (xs, s')" "mset ys = mset xs"
  shows "\<exists>s''. run_deallocs dealloc ys s' = Inr s'' \<and> invar s'' \<and> live s'' = live s"
proof -
  have *: "invar s'" "distinct xs" "set xs \<inter> live s = {}" "live s' = live s \<union> set xs"
    using run_allocs_distinct[OF assms(1,2)] by auto
  have "distinct ys" "set ys = set xs"
    using assms(3) *(2) by (metis mset_eq_imp_distinct_iff, metis mset_eq_setD)
  then show ?thesis
    using run_deallocs_live[of s' ys] * by (auto simp: Un_Diff Diff_triv Int_commute)
qed

end

text \<open>A strict allocator also refuses every identifier that is not live.\<close>

locale strict_allocator = unique_allocator +
  assumes dealloc_dead: "invar s \<Longrightarrow> x \<notin> live s \<Longrightarrow> \<exists>e. dealloc s x = Inl e"
begin

lemma double_free_refused:
  assumes "invar s" "dealloc s x = Inr s'"
  shows "\<exists>e. dealloc s' x = Inl e"
proof (cases "x \<in> live s")
  case True
  then show ?thesis
    using dealloc_Inr[OF assms(1) True assms(2)] dealloc_dead[of s' x] by auto
next
  case False
  then show ?thesis using dealloc_dead[OF assms(1)] assms(2) by fastforce
qed

end

end
