(* ===== verification/Frame_Allocator.thy ===== *)
theory Frame_Allocator
  imports Phys_Memory Allocator_Spec
begin

text \<open>
  \<^verbatim>\<open>src/mm/frame_allocator.rs\<close>: the stack frame allocator, the trackers that own frames, and the
  global \<^verbatim>\<open>FRAME_ALLOCATOR\<close>, which together with physical memory is the state of this layer.
  Dropping a tracker gives its frame back (\<open>drop_FrameTracker\<close>).
\<close>

section \<open>The allocator\<close>

record StackFrameAllocator =
  fa_current :: usize
  fa_end :: usize
  fa_recycled :: "usize list"

definition StackFrameAllocator_new :: StackFrameAllocator where
  "StackFrameAllocator_new = \<lparr>fa_current = 0, fa_end = 0, fa_recycled = []\<rparr>"

definition fa_alloc :: "StackFrameAllocator \<Rightarrow> PhysPageNum option \<times> StackFrameAllocator" where
  "fa_alloc a =
     (case vec_pop (fa_recycled a) of
        (Some ppn, rest) \<Rightarrow> (Some (ppn_from_usize ppn), a\<lparr>fa_recycled := rest\<rparr>)
      | (None, _) \<Rightarrow>
          if fa_current a = fa_end a then (None, a)
          else (let a' = a\<lparr>fa_current := fa_current a + 1\<rparr>
                in (Some (ppn_from_usize (fa_current a' - 1)), a')))"

definition fa_dealloc :: "StackFrameAllocator \<Rightarrow> PhysPageNum \<Rightarrow> panic + StackFrameAllocator" where
  "fa_dealloc a p =
     (let ppn = ppn_val p in
      if fa_current a \<le> ppn \<or> List.find (\<lambda>v. v = ppn) (fa_recycled a) \<noteq> None
      then Inl (FrameNotAllocated ppn)
      else Inr (a\<lparr>fa_recycled := vec_push (fa_recycled a) ppn\<rparr>))"

definition fa_init :: "StackFrameAllocator \<Rightarrow> PhysPageNum \<Rightarrow> PhysPageNum \<Rightarrow> StackFrameAllocator" where
  "fa_init a l r = a\<lparr>fa_current := ppn_val l, fa_end := ppn_val r\<rparr>"

section \<open>The global allocator and the frame trackers\<close>

datatype FrameTracker = FrameTracker (ft_ppn: PhysPageNum)

record mm_state =
  mem :: mem
  FRAME_ALLOCATOR :: StackFrameAllocator

definition init_frame_allocator :: "usize \<Rightarrow> (mm_state, unit) km" where
  "init_frame_allocator ekernel =
     kmodify (\<lambda>s. s\<lparr>FRAME_ALLOCATOR := fa_init (FRAME_ALLOCATOR s)
       (PhysAddr_ceil (pa_from_usize ekernel)) (PhysAddr_floor (pa_from_usize MEMORY_END))\<rparr>)"

definition FrameTracker_new :: "PhysPageNum \<Rightarrow> (mm_state, FrameTracker) km" where
  "FrameTracker_new ppn =
     kbind (kmodify (\<lambda>s. s\<lparr>mem := fill_slice (mem s) (get_bytes_array ppn) 0\<rparr>)) (\<lambda>_.
     kreturn (FrameTracker ppn))"

definition frame_alloc :: "(mm_state, FrameTracker option) km" where
  "frame_alloc =
     kbind (kget (\<lambda>s. fa_alloc (FRAME_ALLOCATOR s))) (\<lambda>(r, a).
     kbind (kmodify (\<lambda>s. s\<lparr>FRAME_ALLOCATOR := a\<rparr>)) (\<lambda>_.
     case r of
       None \<Rightarrow> kreturn None
     | Some ppn \<Rightarrow> kbind (FrameTracker_new ppn) (\<lambda>ft. kreturn (Some ft))))"

definition frame_dealloc :: "PhysPageNum \<Rightarrow> (mm_state, unit) km" where
  "frame_dealloc ppn =
     kbind (kget FRAME_ALLOCATOR) (\<lambda>a.
     kbind (klift (fa_dealloc a ppn)) (\<lambda>a'.
     kmodify (\<lambda>s. s\<lparr>FRAME_ALLOCATOR := a'\<rparr>)))"

definition drop_FrameTracker :: "FrameTracker \<Rightarrow> (mm_state, unit) km" where
  "drop_FrameTracker ft = frame_dealloc (ft_ppn ft)"

text \<open>Dropping a vector of trackers drops its elements in order.\<close>

definition drop_frames :: "FrameTracker list \<Rightarrow> (mm_state, unit) km" where
  "drop_frames fts = for_loop fts (\<lambda>ft _. drop_FrameTracker ft) ()"

section \<open>Invariant and live frames\<close>

text \<open>
  \<open>fa_invar l a\<close>: the allocator was initialised with region start \<open>l\<close>. The region lies below the
  44-bit limit of a physical page number, which the boot parameters guarantee.
\<close>

definition fa_invar :: "usize \<Rightarrow> StackFrameAllocator \<Rightarrow> bool" where
  "fa_invar l a \<longleftrightarrow> l \<le> fa_current a \<and> fa_current a \<le> fa_end a \<and> unat (fa_end a) \<le> 2 ^ 44 \<and>
     distinct (fa_recycled a) \<and> (\<forall>x \<in> set (fa_recycled a). l \<le> x \<and> x < fa_current a)"

definition fa_live :: "usize \<Rightarrow> StackFrameAllocator \<Rightarrow> PhysPageNum set" where
  "fa_live l a = {p. l \<le> ppn_val p \<and> ppn_val p < fa_current a \<and> ppn_val p \<notin> set (fa_recycled a)}"

text \<open>How many frames can still be handed out.\<close>

definition fa_avail :: "StackFrameAllocator \<Rightarrow> nat" where
  "fa_avail a = unat (fa_end a - fa_current a) + length (fa_recycled a)"

lemma find_eq_None: "List.find (\<lambda>v. v = x) xs = None \<longleftrightarrow> x \<notin> set xs"
  by (auto simp: find_None_iff)

lemma fa_alloc_SomeE:
  assumes "fa_invar l a" "fa_alloc a = (Some p, a')"
  obtains (recycled) rest where "fa_recycled a = rest @ [ppn_val p]" "a' = a\<lparr>fa_recycled := rest\<rparr>"
  | (fresh) "fa_recycled a = []" "ppn_val p = fa_current a" "fa_current a < fa_end a"
      "a' = a\<lparr>fa_current := fa_current a + 1\<rparr>"
proof (cases "vec_pop (fa_recycled a)")
  case (Pair o1 rest)
  have small: "ppn_from_usize x = PhysPageNum x" if "x < fa_end a" for x
    using that assms(1) by (intro ppn_from_usize_id) (simp add: fa_invar_def word_less_nat_alt)
  show ?thesis
  proof (cases o1)
    case (Some x)
    with Pair have "fa_recycled a = rest @ [x]" by (simp add: vec_pop_Some_iff)
    moreover from this have "x < fa_end a"
      using assms(1) by (auto simp: fa_invar_def intro: less_le_trans)
    ultimately show ?thesis
      using assms(2) Pair Some recycled by (auto simp: fa_alloc_def small)
  next
    case None
    with Pair have "fa_recycled a = []" by (simp add: vec_pop_None_iff)
    moreover from assms(2) Pair None have "fa_current a \<noteq> fa_end a"
      by (auto simp: fa_alloc_def)
    moreover from this have "fa_current a < fa_end a"
      using assms(1) by (simp add: fa_invar_def order_less_le)
    ultimately show ?thesis
      using assms(2) Pair None fresh by (auto simp: fa_alloc_def Let_def small)
  qed
qed

interpretation frames: unique_allocator fa_alloc fa_dealloc "fa_live l" "fa_invar l" for l
proof
  fix s s' x assume inv: "fa_invar l s" and al: "fa_alloc s = (Some x, s')"
  from inv al show "fa_invar l s' \<and> x \<notin> fa_live l s \<and> fa_live l s' = insert x (fa_live l s)"
  proof (cases rule: fa_alloc_SomeE)
    case (recycled rest)
    then show ?thesis
      using inv by (auto simp: fa_invar_def fa_live_def newtype_eq_iff(3))
  next
    case fresh
    have up: "y < fa_current s + 1 \<longleftrightarrow> y < fa_current s \<or> y = fa_current s" for y
      using unat_add_1_less[OF fresh(3)]
      by (auto simp: word_less_nat_alt word_unat_eq_iff less_Suc_eq)
    have bound: "l \<le> fa_current s + 1" "fa_current s + 1 \<le> fa_end s"
      using unat_add_1_less[OF fresh(3)] fresh(3) inv
      by (simp_all add: word_less_nat_alt word_le_nat_alt fa_invar_def)
    have "fa_invar l s'"
      using inv bound fresh by (simp add: fa_invar_def)
    moreover have "x \<notin> fa_live l s"
      by (simp add: fa_live_def fresh(2))
    moreover have "fa_live l s' = insert x (fa_live l s)"
      using inv fresh by (auto simp: fa_live_def fa_invar_def up newtype_eq_iff(3)[of _ x])
    ultimately show ?thesis by blast
  qed
next
  fix s s' assume "fa_invar l s" "fa_alloc s = (None, s')"
  then show "fa_invar l s' \<and> fa_live l s' = fa_live l s"
    by (auto simp: fa_alloc_def Let_def split: prod.splits option.splits if_splits)
next
  fix s x assume "fa_invar l s" "x \<in> fa_live l s"
  then show "\<exists>s'. fa_dealloc s x = Inr s' \<and> fa_invar l s' \<and> fa_live l s' = fa_live l s - {x}"
    by (auto simp: fa_dealloc_def fa_invar_def fa_live_def Let_def find_eq_None not_le
        newtype_eq_iff(3))
qed

lemma fa_avail_alloc_Some: "fa_invar l a \<Longrightarrow> fa_alloc a = (Some p, a') \<Longrightarrow> fa_avail a = Suc (fa_avail a')"
proof (erule (1) fa_alloc_SomeE)
  assume "fa_recycled a = []" "fa_current a < fa_end a" "a' = a\<lparr>fa_current := fa_current a + 1\<rparr>"
  moreover from this have "unat (fa_end a - fa_current a) = Suc (unat (fa_end a - (fa_current a + 1)))"
    using unat_minus_one[of "fa_end a - fa_current a"]
    by (simp add: diff_diff_eq[symmetric] unat_gt_0 Suc_pred)
  ultimately show ?thesis by (simp add: fa_avail_def)
qed (simp add: fa_avail_def)

lemma fa_avail_alloc_None: "fa_alloc a = (None, a') \<Longrightarrow> fa_avail a = 0 \<and> a' = a"
  by (auto simp: fa_alloc_def fa_avail_def Let_def vec_pop_def split: prod.splits option.splits if_splits)

lemma fa_avail_dealloc: "fa_dealloc a p = Inr a' \<Longrightarrow> fa_avail a' = Suc (fa_avail a)"
  by (auto simp: fa_dealloc_def fa_avail_def Let_def vec_push_def split: if_splits)

text \<open>No frame is ever lost: the live ones and the available ones make up the region.\<close>

lemma fa_conservation:
  assumes "fa_invar l a"
  shows "finite (fa_live l a)" "card (fa_live l a) + fa_avail a = unat (fa_end a) - unat l"
proof -
  have up: "(\<lambda>p. unat (ppn_val p)) ` fa_live l a =
      {unat l..<unat (fa_current a)} - unat ` set (fa_recycled a)" (is "?f ` _ = ?A - ?B")
  proof (rule set_eqI, rule iffI)
    fix n assume "n \<in> ?f ` fa_live l a"
    then show "n \<in> ?A - ?B"
      by (auto simp: fa_live_def word_less_nat_alt word_le_nat_alt word_unat_eq_iff[symmetric])
  next
    fix n assume n: "n \<in> ?A - ?B"
    then have "unat (of_nat n :: usize) = n"
      using unat_usize_less[of "fa_current a"] by (simp add: unat_of_nat)
    moreover from this have "(of_nat n :: usize) \<notin> set (fa_recycled a)"
      using n by (metis Diff_iff image_eqI)
    ultimately have "PhysPageNum (of_nat n) \<in> fa_live l a" "n = ?f (PhysPageNum (of_nat n))"
      using n by (simp_all add: fa_live_def word_less_nat_alt word_le_nat_alt)
    then show "n \<in> ?f ` fa_live l a" by blast
  qed
  have inj: "inj_on ?f (fa_live l a)"
    by (auto simp: inj_on_def newtype_eq_iff(3) word_unat_eq_iff)
  show fin: "finite (fa_live l a)"
    using up inj by (metis finite_atLeastLessThan finite_Diff finite_imageD)
  have "?B \<subseteq> ?A"
    using assms by (auto simp: fa_invar_def word_less_nat_alt word_le_nat_alt)
  moreover have "card ?B = length (fa_recycled a)"
    using assms card_image[of unat "set (fa_recycled a)"]
    by (simp add: fa_invar_def distinct_card inj_on_def word_unat_eq_iff)
  ultimately have "card (fa_live l a) + length (fa_recycled a) = unat (fa_current a) - unat l"
    using card_image[OF inj] card_mono[of ?A ?B] by (simp add: up card_Diff_subset)
  moreover have "unat l \<le> unat (fa_current a)" "unat (fa_current a) \<le> unat (fa_end a)"
      "unat (fa_end a - fa_current a) = unat (fa_end a) - unat (fa_current a)"
    using assms by (simp_all add: fa_invar_def word_le_nat_alt unat_sub)
  ultimately show "card (fa_live l a) + fa_avail a = unat (fa_end a) - unat l"
    unfolding fa_avail_def by linarith
qed

section \<open>The global operations\<close>

definition avail :: "mm_state \<Rightarrow> nat" where
  "avail s = fa_avail (FRAME_ALLOCATOR s)"

definition mm_inv :: "usize \<Rightarrow> mm_state \<Rightarrow> bool" where
  "mm_inv l s \<longleftrightarrow> fa_invar l (FRAME_ALLOCATOR s)"

definition live :: "usize \<Rightarrow> mm_state \<Rightarrow> PhysPageNum set" where
  "live l s = fa_live l (FRAME_ALLOCATOR s)"

lemma live_bound: "mm_inv l s \<Longrightarrow> p \<in> live l s \<Longrightarrow> unat (ppn_val p) < 2 ^ 44"
  by (auto simp: mm_inv_def live_def fa_invar_def fa_live_def word_less_nat_alt word_le_nat_alt)

lemma live_page_ok: "mm_inv l s \<Longrightarrow> p \<in> live l s \<Longrightarrow> page_ok (ppn_val p)"
  using live_bound[of l s p] by simp

text \<open>
  What \<open>frame_alloc\<close> does, case by case: it fails leaving everything as it is, or it hands out a
  frame that was not live, zeroed, and touches nothing else.
\<close>

lemma wp_frame_alloc:
  assumes "mm_inv l s"
    and "avail s = 0 \<Longrightarrow> Q None s"
    and "\<And>p s'. mm_inv l s' \<Longrightarrow> p \<notin> live l s \<Longrightarrow> live l s' = insert p (live l s) \<Longrightarrow> avail s = Suc (avail s') \<Longrightarrow>
        mem s' = fill_slice (mem s) (get_bytes_array p) 0 \<Longrightarrow> Q (Some (FrameTracker p)) s'"
  shows "wp frame_alloc Q E s"
proof (cases "fa_alloc (FRAME_ALLOCATOR s)")
  case (Pair r a)
  have inv: "fa_invar l (FRAME_ALLOCATOR s)" using assms(1) by (simp add: mm_inv_def)
  show ?thesis
  proof (cases r)
    case None
    then show ?thesis
      using Pair fa_avail_alloc_None[of "FRAME_ALLOCATOR s" a] assms(2)
      by (simp add: frame_alloc_def wp_rules avail_def)
  next
    case (Some p)
    then show ?thesis
      using Pair frames.alloc_Some[OF inv, of p a] fa_avail_alloc_Some[OF inv, of p a] assms(3)
      by (simp add: frame_alloc_def FrameTracker_new_def wp_rules mm_inv_def live_def avail_def)
  qed
qed

lemma wp_frame_alloc_unwrap:
  assumes "mm_inv l s" "avail s = 0 \<Longrightarrow> E OutOfFrames"
    and "\<And>p s'. mm_inv l s' \<Longrightarrow> p \<notin> live l s \<Longrightarrow> live l s' = insert p (live l s) \<Longrightarrow> avail s = Suc (avail s') \<Longrightarrow>
        mem s' = fill_slice (mem s) (get_bytes_array p) 0 \<Longrightarrow> Q (FrameTracker p) s'"
  shows "wp (kbind frame_alloc (kunwrap OutOfFrames)) Q E s"
  unfolding wp_kbind by (rule wp_frame_alloc[OF assms(1)]) (simp_all add: wp_rules assms)

lemma wp_drop_FrameTracker:
  assumes "mm_inv l s" "ft_ppn ft \<in> live l s"
    and "\<And>s'. mm_inv l s' \<Longrightarrow> live l s' = live l s - {ft_ppn ft} \<Longrightarrow> avail s' = Suc (avail s) \<Longrightarrow>
        mem s' = mem s \<Longrightarrow> Q () s'"
  shows "wp (drop_FrameTracker ft) Q E s"
proof -
  obtain a where "fa_dealloc (FRAME_ALLOCATOR s) (ft_ppn ft) = Inr a" "fa_invar l a"
      "fa_live l a = fa_live l (FRAME_ALLOCATOR s) - {ft_ppn ft}"
    using frames.dealloc_live[of l "FRAME_ALLOCATOR s" "ft_ppn ft"] assms(1,2)
    by (auto simp: mm_inv_def live_def)
  then show ?thesis
    using assms(3) fa_avail_dealloc[of "FRAME_ALLOCATOR s" "ft_ppn ft" a]
    by (simp add: drop_FrameTracker_def frame_dealloc_def wp_rules mm_inv_def live_def avail_def)
qed

lemma wp_drop_frames:
  assumes "mm_inv l s" "distinct (map ft_ppn fts)" "ft_ppn ` set fts \<subseteq> live l s"
    and "\<And>s'. mm_inv l s' \<Longrightarrow> live l s' = live l s - ft_ppn ` set fts \<Longrightarrow>
        avail s' = avail s + length fts \<Longrightarrow> mem s' = mem s \<Longrightarrow> Q () s'"
  shows "wp (drop_frames fts) Q E s"
proof -
  define I where "I = (\<lambda>ys (_ :: unit) s'. mm_inv l s' \<and> live l s' = live l s - ft_ppn ` set ys \<and>
      avail s' = avail s + length ys \<and> mem s' = mem s)"
  show ?thesis
    unfolding drop_frames_def
  proof (rule wp_for_loop[where I = I])
    show "I [] () s" using assms(1) by (simp add: I_def)
  next
    fix ys x zs acc s'
    assume split: "fts = ys @ x # zs" and I: "I ys acc s'"
    have "ft_ppn x \<in> live l s'"
      using I assms(2,3) by (auto simp: I_def split)
    then show "wp (drop_FrameTracker x) (I (ys @ [x])) E s'"
      using I by (intro wp_drop_FrameTracker[where l = l]) (auto simp: I_def)
  next
    fix acc s' assume "I fts acc s'"
    then show "Q acc s'" using assms(4)[of s'] by (simp add: I_def)
  qed
qed

section \<open>Properties\<close>

text \<open>A machine just after \<open>init_frame_allocator\<close> with the kernel image ending at \<open>0x80400000\<close>.\<close>

definition boot_mm :: mm_state where
  "boot_mm = \<lparr>mem = (\<lambda>_. 0), FRAME_ALLOCATOR = fa_init StackFrameAllocator_new
     (PhysAddr_ceil (pa_from_usize 0x80400000)) (PhysAddr_floor (pa_from_usize MEMORY_END))\<rparr>"

lemma boot_mm_eq:
  "boot_mm = \<lparr>mem = (\<lambda>_. 0), FRAME_ALLOCATOR = \<lparr>fa_current = 0x80400, fa_end = 0x88000, fa_recycled = []\<rparr>\<rparr>"
  by (simp add: boot_mm_def fa_init_def StackFrameAllocator_new_def address_defs MEMORY_END_def)

lemma boot_mm_inv: "mm_inv 0x80400 boot_mm"
  by (simp add: boot_mm_eq mm_inv_def fa_invar_def)

lemma boot_avail: "avail boot_mm = 31744"
  by (simp add: boot_mm_eq avail_def fa_avail_def)

lemma boot_live: "live 0x80400 boot_mm = {}"
  by (auto simp: boot_mm_eq live_def fa_live_def not_less)

text \<open>
  \<open>frame_alloc\<close> never panics. With no frame left it answers \<open>None\<close> and changes nothing; else it
  hands out a frame that was not live, whose 4096 bytes are zero, and every page other than it keeps
  its contents.
\<close>

theorem frame_alloc_correct:
  assumes "mm_inv l s"
  shows "avail s = 0 \<and> frame_alloc s = Inr (None, s) \<or>
    (\<exists>p s'. frame_alloc s = Inr (Some (FrameTracker p), s') \<and> mm_inv l s' \<and>
       p \<notin> live l s \<and> live l s' = insert p (live l s) \<and> avail s = Suc (avail s') \<and>
       (\<forall>k < 4096. mem s' (paddr (ppn_val p) k) = 0) \<and>
       (\<forall>q. page_ok q \<longrightarrow> q \<noteq> ppn_val p \<longrightarrow> page_eq (mem s') (mem s) q))"
proof -
  define Q where "Q = (\<lambda>r s'. (r = None \<and> s' = s \<and> avail s = 0) \<or> (\<exists>p. r = Some (FrameTracker p) \<and> mm_inv l s' \<and>
      p \<notin> live l s \<and> live l s' = insert p (live l s) \<and> avail s = Suc (avail s') \<and>
      mem s' = fill_slice (mem s) (get_bytes_array p) 0))"
  have "wp frame_alloc Q (\<lambda>_. False) s"
    by (rule wp_frame_alloc[OF assms]) (simp_all add: Q_def)
  from wp_no_panicD[OF this] obtain r s' where r: "frame_alloc s = Inr (r, s')" "Q r s'"
    by blast
  have "(\<forall>k < 4096. mem s' (paddr (ppn_val p) k) = 0) \<and>
      (\<forall>q. page_ok q \<longrightarrow> q \<noteq> ppn_val p \<longrightarrow> page_eq (mem s') (mem s) q)"
    if "p \<in> live l s'" "mm_inv l s'" "mem s' = fill_slice (mem s) (get_bytes_array p) 0" for p
    using live_page_ok[OF that(2,1)] page_eq_fill[of p] that(3) by (simp add: fill_page_paddr)
  then show ?thesis using r unfolding Q_def by (metis insertI1)
qed

lemma frame_alloc_correct_witness:
  "\<exists>p s'. frame_alloc boot_mm = Inr (Some (FrameTracker p), s') \<and> avail s' = 31743 \<and>
     live 0x80400 s' = {p} \<and> (\<forall>k < 4096. mem s' (paddr (ppn_val p) k) = 0)"
  using frame_alloc_correct[OF boot_mm_inv] by (auto simp: boot_avail boot_live)

text \<open>
  C38: allocating any number of frames yields pairwise distinct ones, none of them live before; giving
  them back in any order never panics and restores the set of live frames.
\<close>

theorem frames_alloc_dealloc_cycle:
  assumes "fa_invar l a" "run_allocs fa_alloc n a = (xs, a')" "mset ys = mset xs"
  shows "distinct xs \<and> set xs \<inter> fa_live l a = {} \<and> fa_live l a' = fa_live l a \<union> set xs \<and>
    (\<exists>a''. run_deallocs fa_dealloc ys a' = Inr a'' \<and> fa_invar l a'' \<and> fa_live l a'' = fa_live l a)"
  using frames.run_allocs_distinct[OF assms(1,2)] frames.alloc_dealloc_restores[OF assms] by blast

lemma frames_alloc_dealloc_cycle_witness:
  "fa_invar 5 \<lparr>fa_current = 7, fa_end = 9, fa_recycled = [5]\<rparr> \<and>
   run_allocs fa_alloc 2 \<lparr>fa_current = 7, fa_end = 9, fa_recycled = [5]\<rparr> =
     ([PhysPageNum 5, PhysPageNum 7], \<lparr>fa_current = 8, fa_end = 9, fa_recycled = []\<rparr>) \<and>
   (\<exists>a''. run_deallocs fa_dealloc [PhysPageNum 7, PhysPageNum 5] \<lparr>fa_current = 8, fa_end = 9, fa_recycled = []\<rparr>
      = Inr a'' \<and> fa_live 5 a'' = fa_live 5 \<lparr>fa_current = 7, fa_end = 9, fa_recycled = [5]\<rparr>)"
proof -
  let ?a = "\<lparr>fa_current = 7, fa_end = 9, fa_recycled = [5]\<rparr>"
  have inv: "fa_invar 5 ?a" by (simp add: fa_invar_def)
  have run: "run_allocs fa_alloc 2 ?a =
     ([PhysPageNum 5, PhysPageNum 7], \<lparr>fa_current = 8, fa_end = 9, fa_recycled = []\<rparr>)"
    by (simp add: numeral_2_eq_2 fa_alloc_def vec_pop_def address_defs)
  show ?thesis
    using frames_alloc_dealloc_cycle[OF inv run, of "[PhysPageNum 7, PhysPageNum 5]"] inv run by auto
qed

text \<open>
  no frame is ever lost. In every state the live frames and the available ones together number
  exactly the frames of the region the allocator was initialised with.
\<close>

theorem frames_conserved:
  assumes "mm_inv l s"
  shows "finite (live l s) \<and> card (live l s) + avail s = unat (fa_end (FRAME_ALLOCATOR s)) - unat l"
  using fa_conservation[of l "FRAME_ALLOCATOR s"] assms by (simp add: mm_inv_def live_def avail_def)

lemma frames_conserved_witness:
  "finite (live 0x80400 boot_mm) \<and> card (live 0x80400 boot_mm) + avail boot_mm = 31744"
  using frames_conserved[OF boot_mm_inv] by (simp add: boot_mm_eq)

text \<open>
  dropping a vector of trackers that own distinct live frames never panics; exactly those frames
  become available again and memory is not touched.
\<close>

theorem drop_frames_correct:
  assumes "mm_inv l s" "distinct (map ft_ppn fts)" "ft_ppn ` set fts \<subseteq> live l s"
  shows "\<exists>s'. drop_frames fts s = Inr ((), s') \<and> mm_inv l s' \<and> mem s' = mem s \<and>
    live l s' = live l s - ft_ppn ` set fts \<and> avail s' = avail s + length fts"
  using wp_no_panicD[OF wp_drop_frames[OF assms, where Q = "\<lambda>_ s'. mm_inv l s' \<and> mem s' = mem s \<and>
    live l s' = live l s - ft_ppn ` set fts \<and> avail s' = avail s + length fts"]] by auto

lemma drop_frames_correct_witness:
  "\<exists>s'. drop_frames [FrameTracker (PhysPageNum 6), FrameTracker (PhysPageNum 5)]
     \<lparr>mem = (\<lambda>_. 0), FRAME_ALLOCATOR = \<lparr>fa_current = 7, fa_end = 9, fa_recycled = []\<rparr>\<rparr> = Inr ((), s') \<and>
     avail s' = 4"
  using drop_frames_correct[of 5 "\<lparr>mem = (\<lambda>_. 0), FRAME_ALLOCATOR = \<lparr>fa_current = 7, fa_end = 9, fa_recycled = []\<rparr>\<rparr>"
      "[FrameTracker (PhysPageNum 6), FrameTracker (PhysPageNum 5)]"]
  by (auto simp: mm_inv_def fa_invar_def live_def fa_live_def avail_def fa_avail_def)

text \<open>
  \<open>init_frame_allocator\<close> makes the frames between the end of the kernel image, rounded up, and
  \<open>MEMORY_END\<close> available, with none live.
\<close>

theorem init_frame_allocator_correct:
  assumes "FRAME_ALLOCATOR s = StackFrameAllocator_new" "ekernel \<le> MEMORY_END"
  shows "\<exists>s'. init_frame_allocator ekernel s = Inr ((), s') \<and>
    mm_inv (ppn_val (PhysAddr_ceil (PhysAddr ekernel))) s' \<and>
    live (ppn_val (PhysAddr_ceil (PhysAddr ekernel))) s' = {} \<and>
    avail s' = 0x88000 - (unat ekernel + 4095) div 4096"
proof -
  have e: "unat ekernel \<le> 0x88000000" using assms(2) by (simp add: word_le_nat_alt MEMORY_END_def)
  have small: "unat ekernel mod 2 ^ 56 = unat ekernel" using e by simp
  have pa: "pa_from_usize ekernel = PhysAddr ekernel"
    using unat_from_usize(1)[of ekernel] small by (metis PhysAddr.collapse word_unat_eq_iff)
  have up: "unat (ppn_val (PhysAddr_ceil (PhysAddr ekernel))) = (unat ekernel + 4095) div 4096"
    using e by (intro unat_PhysAddr_ceil[of "PhysAddr ekernel", simplified]) simp
  have top: "PhysAddr_floor (pa_from_usize MEMORY_END) = PhysPageNum 0x88000"
    by (simp add: address_defs MEMORY_END_def)
  have le: "ppn_val (PhysAddr_ceil (PhysAddr ekernel)) \<le> 0x88000"
    using e up by (simp add: word_le_nat_alt)
  let ?l = "ppn_val (PhysAddr_ceil (PhysAddr ekernel))"
  let ?s = "s\<lparr>FRAME_ALLOCATOR := \<lparr>fa_current = ?l, fa_end = 0x88000, fa_recycled = []\<rparr>\<rparr>"
  have "init_frame_allocator ekernel s = Inr ((), ?s)"
    using assms(1) by (simp add: init_frame_allocator_def kmodify_def pa top fa_init_def StackFrameAllocator_new_def)
  moreover have "mm_inv ?l ?s" using le by (simp add: mm_inv_def fa_invar_def)
  moreover have "live ?l ?s = {}" by (auto simp: live_def fa_live_def not_less)
  moreover have "avail ?s = 0x88000 - (unat ekernel + 4095) div 4096"
    using unat_sub[OF le] by (simp add: avail_def fa_avail_def up)
  ultimately show ?thesis by blast
qed

lemma init_frame_allocator_correct_witness:
  "\<exists>s'. init_frame_allocator 0x80400800 \<lparr>mem = (\<lambda>_. 0), FRAME_ALLOCATOR = StackFrameAllocator_new\<rparr> = Inr ((), s') \<and>
     avail s' = 31743"
  using init_frame_allocator_correct[of "\<lparr>mem = (\<lambda>_. 0), FRAME_ALLOCATOR = StackFrameAllocator_new\<rparr>" "0x80400800"]
  by (auto simp: MEMORY_END_def)

text \<open>
  C40: \<open>dealloc\<close> checks only the upper end of the region. A frame number below the region's start,
  which the allocator never handed out, is accepted, and the next \<open>alloc\<close> hands it out.
\<close>

theorem fa_dealloc_below_region:
  assumes "fa_invar l a" "ppn_val p < l"
  shows "\<exists>a'. fa_dealloc a p = Inr a' \<and> fa_alloc a' = (Some p, a) \<and> p \<notin> fa_live l a"
proof -
  have "ppn_val p \<notin> set (fa_recycled a)" "ppn_val p < fa_current a" "unat (ppn_val p) < 2 ^ 44"
    using assms by (auto simp: fa_invar_def word_less_nat_alt word_le_nat_alt)
  moreover from this have "fa_dealloc a p = Inr (a\<lparr>fa_recycled := vec_push (fa_recycled a) (ppn_val p)\<rparr>)"
    by (simp add: fa_dealloc_def find_eq_None Let_def flip: not_less)
  ultimately show ?thesis
    using assms(2) ppn_from_usize_id[of "ppn_val p"] by (simp add: fa_alloc_def fa_live_def not_le)
qed

lemma fa_dealloc_below_region_witness:
  "\<exists>a'. fa_dealloc (FRAME_ALLOCATOR boot_mm) (PhysPageNum 0x80200) = Inr a' \<and>
     fst (fa_alloc a') = Some (PhysPageNum 0x80200)"
  using fa_dealloc_below_region[of "0x80400" "FRAME_ALLOCATOR boot_mm" "PhysPageNum 0x80200"] boot_mm_inv
  by (auto simp: mm_inv_def)

end
