(* ===== verification/Page_Table.thy ===== *)
theory Page_Table
  imports Frame_Allocator
begin

text \<open>
  \<^verbatim>\<open>src/mm/page_table.rs\<close>, first part: page-table entries and the three-level SV39 page table in
  physical memory. A reference to an entry is its address. The specification side views the tables
  of one page table as a trie of page numbers and shows that \<open>map\<close> and \<open>unmap\<close> are the update and
  the removal of one key of the finite map \<open>pt_abs\<close>.
\<close>

section \<open>Entries\<close>

type_synonym PTEFlags = u8

definition PTE_V :: PTEFlags where "PTE_V = push_bit 0 1"
definition PTE_R :: PTEFlags where "PTE_R = push_bit 1 1"
definition PTE_W :: PTEFlags where "PTE_W = push_bit 2 1"
definition PTE_X :: PTEFlags where "PTE_X = push_bit 3 1"
definition PTE_U :: PTEFlags where "PTE_U = push_bit 4 1"
definition PTE_G :: PTEFlags where "PTE_G = push_bit 5 1"
definition PTE_A :: PTEFlags where "PTE_A = push_bit 6 1"
definition PTE_D :: PTEFlags where "PTE_D = push_bit 7 1"

definition PTE_all :: PTEFlags where
  "PTE_all = PTE_V OR PTE_R OR PTE_W OR PTE_X OR PTE_U OR PTE_G OR PTE_A OR PTE_D"

lemmas PTE_flag_defs = PTE_V_def PTE_R_def PTE_W_def PTE_X_def PTE_U_def PTE_G_def PTE_A_def PTE_D_def

text \<open>\<open>from_bits\<close> of the \<^verbatim>\<open>bitflags!\<close> type: \<open>None\<close> if a bit is set that names no flag.\<close>

definition PTEFlags_from_bits :: "u8 \<Rightarrow> PTEFlags option" where
  "PTEFlags_from_bits b = (if b AND NOT PTE_all = 0 then Some b else None)"

lemma PTEFlags_from_bits_total: "PTEFlags_from_bits b = Some b"
proof -
  have all: "PTE_all = - 1" by (simp add: PTE_all_def PTE_flag_defs)
  show ?thesis unfolding PTEFlags_from_bits_def all by simp
qed

datatype PageTableEntry = PageTableEntry (pte_bits: usize)

definition PageTableEntry_new :: "PhysPageNum \<Rightarrow> PTEFlags \<Rightarrow> PageTableEntry" where
  "PageTableEntry_new ppn flags = PageTableEntry (push_bit 10 (ppn_val ppn) OR ucast flags)"

definition PageTableEntry_empty :: PageTableEntry where
  "PageTableEntry_empty = PageTableEntry 0"

definition pte_ppn :: "PageTableEntry \<Rightarrow> PhysPageNum" where
  "pte_ppn e = ppn_from_usize (drop_bit 10 (pte_bits e) AND (push_bit 44 1 - 1))"

text \<open>The \<open>unwrap\<close> here never fails, by \<open>PTEFlags_from_bits_total\<close>.\<close>

definition pte_flags :: "PageTableEntry \<Rightarrow> PTEFlags" where
  "pte_flags e = the (PTEFlags_from_bits (ucast (pte_bits e)))"

definition is_valid :: "PageTableEntry \<Rightarrow> bool" where
  "is_valid e \<longleftrightarrow> pte_flags e AND PTE_V \<noteq> 0"

definition is_readable :: "PageTableEntry \<Rightarrow> bool" where
  "is_readable e \<longleftrightarrow> pte_flags e AND PTE_R \<noteq> 0"

definition is_writable :: "PageTableEntry \<Rightarrow> bool" where
  "is_writable e \<longleftrightarrow> pte_flags e AND PTE_W \<noteq> 0"

definition is_executable :: "PageTableEntry \<Rightarrow> bool" where
  "is_executable e \<longleftrightarrow> pte_flags e AND PTE_X \<noteq> 0"

text \<open>Reading and writing an entry through a reference to it.\<close>

definition load_pte :: "mem \<Rightarrow> usize \<Rightarrow> PageTableEntry" where
  "load_pte m a = PageTableEntry (read_u64 m a)"

definition store_pte :: "usize \<Rightarrow> PageTableEntry \<Rightarrow> (mm_state, unit) km" where
  "store_pte a e = kmodify (\<lambda>s. s\<lparr>mem := write_u64 (mem s) a (pte_bits e)\<rparr>)"

section \<open>The page table\<close>

record PageTable =
  root_ppn :: PhysPageNum
  pt_frames :: "FrameTracker list"

definition PageTable_new :: "(mm_state, PageTable) km" where
  "PageTable_new =
     kbind (kbind frame_alloc (kunwrap OutOfFrames)) (\<lambda>frame.
     kreturn \<lparr>root_ppn = ft_ppn frame, pt_frames = [frame]\<rparr>)"

text \<open>
  The body of \<^verbatim>\<open>for i in 0..3\<close> in \<open>find_pte_create\<close>; the list holds the values of \<open>i\<close> to come.
\<close>

fun find_pte_create_loop ::
    "usize list \<Rightarrow> nat list \<Rightarrow> PhysPageNum \<Rightarrow> PageTable \<Rightarrow> (mm_state, usize option \<times> PageTable) km" where
  "find_pte_create_loop idxs [] ppn pt = kreturn (None, pt)"
| "find_pte_create_loop idxs (i # is) ppn pt =
     kbind (klift (get_pte_array ppn (idxs ! i))) (\<lambda>a.
     if i = 2 then kreturn (Some a, pt)
     else
       kbind (kget (\<lambda>s. load_pte (mem s) a)) (\<lambda>pte.
       kbind (if \<not> is_valid pte
              then kbind (kbind frame_alloc (kunwrap OutOfFrames)) (\<lambda>frame.
                   kbind (store_pte a (PageTableEntry_new (ft_ppn frame) PTE_V)) (\<lambda>_.
                   kreturn (pt\<lparr>pt_frames := vec_push (pt_frames pt) frame\<rparr>)))
              else kreturn pt) (\<lambda>pt'.
       kbind (kget (\<lambda>s. load_pte (mem s) a)) (\<lambda>pte'.
       find_pte_create_loop idxs is (pte_ppn pte') pt'))))"

definition find_pte_create :: "PageTable \<Rightarrow> VirtPageNum \<Rightarrow> (mm_state, usize option \<times> PageTable) km" where
  "find_pte_create pt vpn = find_pte_create_loop (indexes vpn) [0, 1, 2] (root_ppn pt) pt"

definition pt_map ::
    "PageTable \<Rightarrow> VirtPageNum \<Rightarrow> PhysPageNum \<Rightarrow> PTEFlags \<Rightarrow> (mm_state, PageTable) km" where
  "pt_map pt vpn ppn flags =
     kbind (find_pte_create pt vpn) (\<lambda>(r, pt').
     kbind (kunwrap UnwrapNone r) (\<lambda>a.
     kbind (kget (\<lambda>s. load_pte (mem s) a)) (\<lambda>pte.
     kbind (kassert AlreadyMapped (\<not> is_valid pte)) (\<lambda>_.
     kbind (store_pte a (PageTableEntry_new ppn (flags OR PTE_V))) (\<lambda>_.
     kreturn pt')))))"

definition pt_unmap :: "PageTable \<Rightarrow> VirtPageNum \<Rightarrow> (mm_state, PageTable) km" where
  "pt_unmap pt vpn =
     kbind (find_pte_create pt vpn) (\<lambda>(r, pt').
     kbind (kunwrap UnwrapNone r) (\<lambda>a.
     kbind (kget (\<lambda>s. load_pte (mem s) a)) (\<lambda>pte.
     kbind (kassert NotMapped (is_valid pte)) (\<lambda>_.
     kbind (store_pte a PageTableEntry_empty) (\<lambda>_.
     kreturn pt')))))"

definition from_token :: "usize \<Rightarrow> PageTable" where
  "from_token satp =
     \<lparr>root_ppn = ppn_from_usize (satp AND (push_bit 44 1 - 1)), pt_frames = []\<rparr>"

fun find_pte_loop :: "mem \<Rightarrow> usize list \<Rightarrow> nat list \<Rightarrow> PhysPageNum \<Rightarrow> panic + usize option" where
  "find_pte_loop m idxs [] ppn = Inr None"
| "find_pte_loop m idxs (i # is) ppn =
     (case get_pte_array ppn (idxs ! i) of
        Inl e \<Rightarrow> Inl e
      | Inr a \<Rightarrow>
          if i = 2 then Inr (Some a)
          else if \<not> is_valid (load_pte m a) then Inr None
          else find_pte_loop m idxs is (pte_ppn (load_pte m a)))"

definition find_pte :: "mem \<Rightarrow> PageTable \<Rightarrow> VirtPageNum \<Rightarrow> panic + usize option" where
  "find_pte m pt vpn = find_pte_loop m (indexes vpn) [0, 1, 2] (root_ppn pt)"

definition pt_translate :: "mem \<Rightarrow> PageTable \<Rightarrow> VirtPageNum \<Rightarrow> panic + PageTableEntry option" where
  "pt_translate m pt vpn = map_sum id (map_option (load_pte m)) (find_pte m pt vpn)"

definition pt_token :: "PageTable \<Rightarrow> usize" where
  "pt_token pt = push_bit 60 8 OR ppn_val (root_ppn pt)"

definition find_vpn :: "mem \<Rightarrow> PageTable \<Rightarrow> VirtPageNum \<Rightarrow> panic + bool" where
  "find_vpn m pt vpn =
     map_sum id (\<lambda>r. case r of Some a \<Rightarrow> is_valid (load_pte m a) | None \<Rightarrow> False) (find_pte m pt vpn)"

definition translate_va :: "mem \<Rightarrow> PageTable \<Rightarrow> VirtAddr \<Rightarrow> panic + PhysAddr option" where
  "translate_va m pt va =
     map_sum id (map_option (\<lambda>a.
       let aligned_pa = pa_from_ppn (pte_ppn (load_pte m a));
           offset = VirtAddr_page_offset va
       in pa_from_usize (pa_val aligned_pa + offset)))
     (find_pte m pt (VirtAddr_floor va))"

text \<open>Dropping a page table drops the frames of its tables.\<close>

definition drop_PageTable :: "PageTable \<Rightarrow> (mm_state, unit) km" where
  "drop_PageTable pt = drop_frames (pt_frames pt)"

section \<open>Facts about entries\<close>

lemma pte_flags_eq: "pte_flags e = ucast (pte_bits e)"
  by (simp add: pte_flags_def PTEFlags_from_bits_total)

lemma PTE_mask_44: "push_bit 44 1 - 1 = (mask 44 :: usize)"
  by (simp add: mask_eq_exp_minus_1)

lemma flag_bits:
  "x AND PTE_V \<noteq> 0 \<longleftrightarrow> bit x 0" "x AND PTE_R \<noteq> 0 \<longleftrightarrow> bit x 1"
  "x AND PTE_W \<noteq> 0 \<longleftrightarrow> bit x 2" "x AND PTE_X \<noteq> 0 \<longleftrightarrow> bit x 3"
  "x AND PTE_U \<noteq> 0 \<longleftrightarrow> bit x 4"
  by (simp_all only: PTE_flag_defs bit_iff_and_push_bit_not_eq_0)

lemma is_valid_iff_bit: "is_valid e \<longleftrightarrow> bit (pte_bits e) 0"
  by (simp add: is_valid_def flag_bits pte_flags_eq bit_unsigned_iff)

lemma pte_flags_new [simp]: "pte_flags (PageTableEntry_new p f) = f"
  by (rule bit_word_eqI)
    (auto simp: pte_flags_eq PageTableEntry_new_def bit_or_iff bit_unsigned_iff bit_push_bit_iff)

lemma pte_ppn_new:
  assumes "unat (ppn_val p) < 2 ^ 44"
  shows "pte_ppn (PageTableEntry_new p f) = p"
proof -
  have small: "n < 44" if "bit (ppn_val p) n" for n
  proof -
    have "take_bit 44 (ppn_val p) = ppn_val p"
      using assms by (simp add: word_unat_eq_iff unat_take_bit)
    then show ?thesis using that by (metis bit_take_bit_iff)
  qed
  have flag: "n < 8" if "bit f n" for n
    using that bit_imp_le_length[of f n] by simp
  have "drop_bit 10 (push_bit 10 (ppn_val p) OR ucast f) AND mask 44 = ppn_val p"
    by (rule bit_word_eqI)
      (auto simp: bit_and_iff bit_drop_bit_eq bit_or_iff bit_push_bit_iff bit_unsigned_iff bit_mask_iff
        dest: small flag)
  then have "pte_ppn (PageTableEntry_new p f) = ppn_from_usize (ppn_val p)"
    by (simp only: pte_ppn_def PageTableEntry_new_def PageTableEntry.sel PTE_mask_44)
  then show ?thesis
    using ppn_from_usize_id[OF assms] by simp
qed

lemma is_valid_empty [simp]: "\<not> is_valid PageTableEntry_empty"
  by (simp add: is_valid_iff_bit PageTableEntry_empty_def)

lemma is_valid_zero [simp]: "\<not> is_valid (PageTableEntry 0)"
  by (simp add: is_valid_iff_bit)

lemma is_valid_new: "is_valid (PageTableEntry_new p f) \<longleftrightarrow> bit f 0"
  by (simp add: is_valid_def flag_bits)

lemma is_valid_new_V [simp]:
  "is_valid (PageTableEntry_new p PTE_V)" "is_valid (PageTableEntry_new p (f OR PTE_V))"
  by (simp_all add: is_valid_new PTE_V_def bit_or_iff)

lemma pte_ppn_bound: "unat (ppn_val (pte_ppn e)) < 2 ^ 44"
  by (simp add: pte_ppn_def unat_from_usize(3))

end
