(* ===== verification/Page_Table_Spec.thy ===== *)
theory Page_Table_Spec
  imports Page_Table
begin

text \<open>
  The specification of the page table. The tables in memory are a view \<open>page \<Rightarrow> index \<Rightarrow> entry\<close>; a
  path of at most two indexes leads from the root to a table (\<open>pt_node\<close>); a page table is a tree
  when different paths lead to different tables, all of them frames it owns. The meaning of a page
  table is the partial map \<open>pt_lookup\<close> from index triples to valid entries.
\<close>

type_synonym pte_view = "usize \<Rightarrow> usize \<Rightarrow> PageTableEntry"

definition view :: "mem \<Rightarrow> pte_view" where
  "view m p i = load_pte m (pte_at p i)"

fun pt_node :: "pte_view \<Rightarrow> usize \<Rightarrow> usize list \<Rightarrow> usize option" where
  "pt_node T f [] = Some f"
| "pt_node T f (i # is) =
     (if is_valid (T f i) then pt_node T (ppn_val (pte_ppn (T f i))) is else None)"

definition paths :: "usize list set" where
  "paths = {p. length p \<le> 2 \<and> (\<forall>i \<in> set p. unat i < 512)}"

definition triples :: "usize list set" where
  "triples = {p. length p = 3 \<and> (\<forall>i \<in> set p. unat i < 512)}"

definition pt_tree :: "pte_view \<Rightarrow> usize \<Rightarrow> usize set \<Rightarrow> bool" where
  "pt_tree T root F \<longleftrightarrow>
     (\<forall>p \<in> paths. \<forall>f. pt_node T root p = Some f \<longrightarrow> f \<in> F) \<and>
     (\<forall>p \<in> paths. \<forall>q \<in> paths. \<forall>f. pt_node T root p = Some f \<longrightarrow> pt_node T root q = Some f \<longrightarrow> p = q)"

definition pt_lookup :: "pte_view \<Rightarrow> usize \<Rightarrow> usize list \<Rightarrow> PageTableEntry option" where
  "pt_lookup T root ix =
     (case pt_node T root (take 2 ix) of
        None \<Rightarrow> None
      | Some f \<Rightarrow> if is_valid (T f (ix ! 2)) then Some (T f (ix ! 2)) else None)"

section \<open>Trees under updates of one entry\<close>

lemma pt_node_append:
  "pt_node T f (p @ q) = (case pt_node T f p of None \<Rightarrow> None | Some g \<Rightarrow> pt_node T g q)"
  by (induction p arbitrary: f) auto

lemma pt_node_snoc:
  "pt_node T f (p @ [i]) =
     (case pt_node T f p of None \<Rightarrow> None
      | Some g \<Rightarrow> if is_valid (T g i) then Some (ppn_val (pte_ppn (T g i))) else None)"
  by (simp add: pt_node_append split: option.split)

lemma paths_snocD: "p @ [i] \<in> paths \<Longrightarrow> p \<in> paths \<and> unat i < 512"
  by (auto simp: paths_def)

lemma pt_treeD_mem: "pt_tree T root F \<Longrightarrow> p \<in> paths \<Longrightarrow> pt_node T root p = Some f \<Longrightarrow> f \<in> F"
  by (simp add: pt_tree_def)

lemma pt_treeD_inj:
  "pt_tree T root F \<Longrightarrow> p \<in> paths \<Longrightarrow> q \<in> paths \<Longrightarrow> pt_node T root p = Some f \<Longrightarrow>
   pt_node T root q = Some f \<Longrightarrow> p = q"
  unfolding pt_tree_def by blast

text \<open>Changing entry \<open>i0\<close> of the table at path \<open>p0\<close> matters only to paths through that entry.\<close>

lemma pt_node_update:
  assumes tree: "pt_tree T root F" and p0: "p0 \<in> paths" "pt_node T root p0 = Some f0"
    and agree: "\<And>f i. f \<in> F \<Longrightarrow> unat i < 512 \<Longrightarrow> (f, i) \<noteq> (f0, i0) \<Longrightarrow> T' f i = T f i"
    and p: "p \<in> paths" "\<not> (\<exists>q. p = p0 @ [i0] @ q)"
  shows "pt_node T' root p = pt_node T root p"
  using p
proof (induction p rule: rev_induct)
  case Nil
  then show ?case by simp
next
  case (snoc j p)
  have p: "p \<in> paths" "unat j < 512" using paths_snocD[OF snoc.prems(1)] by auto
  have IH: "pt_node T' root p = pt_node T root p"
    using snoc.IH[OF p(1)] snoc.prems(2) by force
  show ?case
  proof (cases "pt_node T root p")
    case None
    then show ?thesis by (simp add: pt_node_snoc IH)
  next
    case (Some g)
    have "(g, j) \<noteq> (f0, i0)"
      using pt_treeD_inj[OF tree p(1) p0(1) Some] p0(2) snoc.prems(2) by auto
    then have "T' g j = T g j"
      using agree[of g j] pt_treeD_mem[OF tree p(1) Some] p(2) by blast
    then show ?thesis by (simp add: pt_node_snoc IH Some)
  qed
qed

text \<open>Writing an entry of a last-level table keeps every table where it is.\<close>

lemma pt_node_leaf:
  assumes "pt_tree T root F" "p0 \<in> paths" "length p0 = 2" "pt_node T root p0 = Some f0"
    and "\<And>f i. f \<in> F \<Longrightarrow> unat i < 512 \<Longrightarrow> (f, i) \<noteq> (f0, i0) \<Longrightarrow> T' f i = T f i"
    and "p \<in> paths"
  shows "pt_node T' root p = pt_node T root p"
proof (rule pt_node_update[OF assms(1,2,4) _ assms(6)])
  show "\<not> (\<exists>q. p = p0 @ [i0] @ q)"
    using assms(3,6) by (auto simp: paths_def)
qed (use assms(5) in auto)

lemma pt_tree_leaf:
  assumes "pt_tree T root F" "p0 \<in> paths" "length p0 = 2" "pt_node T root p0 = Some f0"
    and "\<And>f i. f \<in> F \<Longrightarrow> unat i < 512 \<Longrightarrow> (f, i) \<noteq> (f0, i0) \<Longrightarrow> T' f i = T f i"
  shows "pt_tree T' root F"
proof -
  have "pt_node T' root p = pt_node T root p" if "p \<in> paths" for p
    using pt_node_leaf[OF assms that] by blast
  then show ?thesis using assms(1) by (simp add: pt_tree_def)
qed

lemma triples_take: "ix \<in> triples \<Longrightarrow> take 2 ix \<in> paths"
  by (auto simp: triples_def paths_def dest: in_set_takeD)

lemma triples_nth: "ix \<in> triples \<Longrightarrow> i < 3 \<Longrightarrow> unat (ix ! i) < 512"
  by (auto simp: triples_def)

lemma triples_split: "ix \<in> triples \<Longrightarrow> ix = take 2 ix @ [ix ! 2]"
  by (simp add: triples_def) (metis One_nat_def Suc_1 lessI numeral_3_eq_3 take_Suc_conv_app_nth take_all_iff order_refl)

lemma indexes_triples: "indexes v \<in> triples"
  by (simp add: triples_def indexes_bounded)

lemma pt_lookup_leaf:
  assumes "pt_tree T root F" "ix \<in> triples" "pt_node T root (take 2 ix) = Some f0"
    and upd: "\<And>f i. f \<in> F \<Longrightarrow> unat i < 512 \<Longrightarrow> (f, i) \<noteq> (f0, ix ! 2) \<Longrightarrow> T' f i = T f i"
    and "T' f0 (ix ! 2) = e" "jx \<in> triples"
  shows "pt_lookup T' root jx =
    (if jx = ix then (if is_valid e then Some e else None) else pt_lookup T root jx)"
proof -
  have len: "length (take 2 ix) = 2" using assms(2) by (simp add: triples_def)
  have nodes: "pt_node T' root p = pt_node T root p" if "p \<in> paths" for p
    using pt_node_leaf[OF assms(1) triples_take[OF assms(2)] len assms(3) _ that] upd by blast
  show ?thesis
  proof (cases "pt_node T root (take 2 jx)")
    case None
    then show ?thesis
      using assms(3) nodes[OF triples_take[OF assms(6)]] by (auto simp: pt_lookup_def)
  next
    case (Some g)
    show ?thesis
    proof (cases "(g, jx ! 2) = (f0, ix ! 2)")
      case True
      then have "take 2 jx = take 2 ix"
        using pt_treeD_inj[OF assms(1) triples_take[OF assms(6)] triples_take[OF assms(2)] Some] assms(3)
        by simp
      then have "jx = ix"
        using True triples_split[OF assms(2)] triples_split[OF assms(6)] by (metis prod.inject)
      then show ?thesis
        using assms(3,5) nodes[OF triples_take[OF assms(2)]] by (simp add: pt_lookup_def)
    next
      case False
      then have "jx \<noteq> ix" using Some assms(3) by auto
      moreover have "T' g (jx ! 2) = T g (jx ! 2)"
        using upd[OF pt_treeD_mem[OF assms(1) triples_take[OF assms(6)] Some] _ False]
          triples_nth[OF assms(6)] by simp
      ultimately show ?thesis
        using Some nodes[OF triples_take[OF assms(6)]] by (simp add: pt_lookup_def)
    qed
  qed
qed

text \<open>Hanging a new, empty table under an invalid entry adds one node and no mapping.\<close>

lemma pt_node_insert:
  assumes tree: "pt_tree T root F" and p0: "p0 @ [i0] \<in> paths" "pt_node T root p0 = Some f0"
    and inval: "\<not> is_valid (T f0 i0)"
    and agree: "\<And>f i. f \<in> F \<Longrightarrow> unat i < 512 \<Longrightarrow> (f, i) \<noteq> (f0, i0) \<Longrightarrow> T' f i = T f i"
    and link: "is_valid (T' f0 i0)" "ppn_val (pte_ppn (T' f0 i0)) = g"
    and empty: "\<And>i. unat i < 512 \<Longrightarrow> \<not> is_valid (T' g i)"
    and p: "p \<in> paths"
  shows "pt_node T' root p = (if p = p0 @ [i0] then Some g else pt_node T root p)"
proof (cases "\<exists>q. p = p0 @ [i0] @ q")
  case False
  then show ?thesis
    using pt_node_update[OF tree _ p0(2) agree p] paths_snocD[OF p0(1)] by auto
next
  case True
  then obtain q where q: "p = (p0 @ [i0]) @ q" by auto
  have "pt_node T' root p0 = Some f0"
    using pt_node_update[OF tree _ p0(2) agree, where p = p0] paths_snocD[OF p0(1)] p0(2) by auto
  then have g: "pt_node T' root (p0 @ [i0]) = Some g"
    using link by (simp add: pt_node_snoc)
  have none: "pt_node T root (p0 @ [i0]) = None"
    using p0(2) inval by (simp add: pt_node_snoc)
  show ?thesis
  proof (cases q)
    case Nil
    then show ?thesis using g q by simp
  next
    case (Cons j q')
    have "unat j < 512" using p q Cons by (auto simp: paths_def)
    then have "pt_node T' root p = None"
      using g empty Cons by (simp add: q pt_node_append del: append_assoc)
    moreover have "pt_node T root p = None"
      using none by (simp add: q pt_node_append del: append_assoc)
    ultimately show ?thesis using q Cons by simp
  qed
qed

lemma pt_tree_insert:
  assumes "pt_tree T root F" "p0 @ [i0] \<in> paths" "pt_node T root p0 = Some f0"
    "\<not> is_valid (T f0 i0)"
    "\<And>f i. f \<in> F \<Longrightarrow> unat i < 512 \<Longrightarrow> (f, i) \<noteq> (f0, i0) \<Longrightarrow> T' f i = T f i"
    "is_valid (T' f0 i0)" "ppn_val (pte_ppn (T' f0 i0)) = g"
    "\<And>i. unat i < 512 \<Longrightarrow> \<not> is_valid (T' g i)"
    and "g \<notin> F"
  shows "pt_tree T' root (insert g F)"
proof -
  have node: "pt_node T' root p = (if p = p0 @ [i0] then Some g else pt_node T root p)"
    if "p \<in> paths" for p
    using pt_node_insert[OF assms(1-8) that] by blast
  have "pt_node T root p \<noteq> Some g" if "p \<in> paths" for p
    using pt_treeD_mem[OF assms(1) that] assms(9) by blast
  then show ?thesis
    using assms(1) unfolding pt_tree_def by (auto simp: node split: if_splits)
qed

lemma pt_lookup_insert:
  assumes "pt_tree T root F" "p0 @ [i0] \<in> paths" "pt_node T root p0 = Some f0"
    "\<not> is_valid (T f0 i0)"
    "\<And>f i. f \<in> F \<Longrightarrow> unat i < 512 \<Longrightarrow> (f, i) \<noteq> (f0, i0) \<Longrightarrow> T' f i = T f i"
    "is_valid (T' f0 i0)" "ppn_val (pte_ppn (T' f0 i0)) = g"
    "\<And>i. unat i < 512 \<Longrightarrow> \<not> is_valid (T' g i)"
    and jx: "jx \<in> triples"
  shows "pt_lookup T' root jx = pt_lookup T root jx"
proof -
  let ?p = "take 2 jx"
  have node: "pt_node T' root ?p = (if ?p = p0 @ [i0] then Some g else pt_node T root ?p)"
    using pt_node_insert[OF assms(1-8) triples_take[OF jx]] by blast
  show ?thesis
  proof (cases "?p = p0 @ [i0]")
    case True
    then have "pt_node T root ?p = None" using assms(3,4) by (simp add: pt_node_snoc)
    then show ?thesis
      using node True assms(8) triples_nth[OF jx, of 2] by (simp add: pt_lookup_def)
  next
    case False
    show ?thesis
    proof (cases "pt_node T root ?p")
      case None
      then show ?thesis using node False by (simp add: pt_lookup_def)
    next
      case (Some h)
      have "length ?p = 2" using jx by (simp add: triples_def)
      moreover have "length p0 \<le> 1" using assms(2) by (simp add: paths_def)
      ultimately have "(h, jx ! 2) \<noteq> (f0, i0)"
        using pt_treeD_inj[OF assms(1) triples_take[OF jx] _ Some, of p0] assms(3)
          paths_snocD[OF assms(2)] by auto
      then have "T' h (jx ! 2) = T h (jx ! 2)"
        using assms(5)[OF pt_treeD_mem[OF assms(1) triples_take[OF jx] Some]] triples_nth[OF jx, of 2]
        by simp
      then show ?thesis using node False Some by (simp add: pt_lookup_def)
    qed
  qed
qed

text \<open>The tree and its mappings depend on the owned tables only.\<close>

lemma pt_node_cong:
  assumes "pt_tree T root F" "\<And>f i. f \<in> F \<Longrightarrow> unat i < 512 \<Longrightarrow> T' f i = T f i" "p \<in> paths"
  shows "pt_node T' root p = pt_node T root p"
  using assms(3)
proof (induction p rule: rev_induct)
  case (snoc j p)
  have p: "p \<in> paths" "unat j < 512" using paths_snocD[OF snoc.prems] by auto
  then show ?case
    using snoc.IH[OF p(1)] assms(2)[OF pt_treeD_mem[OF assms(1) p(1)] p(2)]
    by (simp add: pt_node_snoc split: option.split)
qed simp

lemma pt_tree_cong:
  assumes "pt_tree T root F" "\<And>f i. f \<in> F \<Longrightarrow> unat i < 512 \<Longrightarrow> T' f i = T f i"
  shows "pt_tree T' root F"
proof -
  have "pt_node T' root p = pt_node T root p" if "p \<in> paths" for p
    using pt_node_cong[OF assms that] by blast
  then show ?thesis using assms(1) by (simp add: pt_tree_def)
qed

lemma pt_lookup_cong:
  assumes "pt_tree T root F" "\<And>f i. f \<in> F \<Longrightarrow> unat i < 512 \<Longrightarrow> T' f i = T f i" "jx \<in> triples"
  shows "pt_lookup T' root jx = pt_lookup T root jx"
  using pt_node_cong[OF assms(1,2) triples_take[OF assms(3)]]
    assms(2)[OF pt_treeD_mem[OF assms(1) triples_take[OF assms(3)]] triples_nth[OF assms(3), of 2]]
  by (simp add: pt_lookup_def split: option.split)

section \<open>Page tables in memory\<close>

definition pt_owned :: "PageTable \<Rightarrow> PhysPageNum set" where
  "pt_owned pt = ft_ppn ` set (pt_frames pt)"

abbreviation pt_root :: "PageTable \<Rightarrow> usize" where
  "pt_root pt \<equiv> ppn_val (root_ppn pt)"

text \<open>An entry that is not valid is zero.\<close>

definition pt_clean :: "pte_view \<Rightarrow> usize set \<Rightarrow> bool" where
  "pt_clean T F \<longleftrightarrow> (\<forall>f \<in> F. \<forall>i. unat i < 512 \<longrightarrow> is_valid (T f i) \<or> T f i = PageTableEntry 0)"

definition pt_inv :: "usize \<Rightarrow> mm_state \<Rightarrow> PageTable \<Rightarrow> bool" where
  "pt_inv l s pt \<longleftrightarrow> pt_owned pt \<subseteq> live l s \<and> distinct (map ft_ppn (pt_frames pt)) \<and>
     root_ppn pt \<in> pt_owned pt \<and> pt_tree (view (mem s)) (pt_root pt) (ppn_val ` pt_owned pt) \<and>
     pt_clean (view (mem s)) (ppn_val ` pt_owned pt)"

abbreviation vpn_ok :: "VirtPageNum \<Rightarrow> bool" where
  "vpn_ok v \<equiv> unat (vpn_val v) < 2 ^ 27"

text \<open>The address space a page table describes: page numbers of 27 bits to valid entries.\<close>

definition pt_abs :: "mem \<Rightarrow> PageTable \<Rightarrow> VirtPageNum \<Rightarrow> PageTableEntry option" where
  "pt_abs m pt v = (if vpn_ok v then pt_lookup (view m) (pt_root pt) (indexes v) else None)"

definition same_pages :: "PhysPageNum set \<Rightarrow> mem \<Rightarrow> mem \<Rightarrow> bool" where
  "same_pages S m m' \<longleftrightarrow> (\<forall>p \<in> S. page_eq m m' (ppn_val p))"

lemma same_pages_refl [simp]: "same_pages S m m"
  by (simp add: same_pages_def)

lemma same_pages_trans: "same_pages S m m' \<Longrightarrow> same_pages S m' m'' \<Longrightarrow> same_pages S m m''"
  by (auto simp: same_pages_def intro: page_eq_trans)

lemma same_pages_mono: "same_pages S m m' \<Longrightarrow> S' \<subseteq> S \<Longrightarrow> same_pages S' m m'"
  by (auto simp: same_pages_def)

lemma same_pages_sym: "same_pages S m m' \<Longrightarrow> same_pages S m' m"
  by (auto simp: same_pages_def intro: page_eq_sym)

lemma same_pages_view:
  "same_pages S m m' \<Longrightarrow> p \<in> S \<Longrightarrow> unat i < 512 \<Longrightarrow> view m' (ppn_val p) i = view m (ppn_val p) i"
  using read_u64_page_eq[of m m' "ppn_val p" i] by (simp add: same_pages_def view_def load_pte_def)

text \<open>
  How an operation on a page table may change the machine: it keeps its frames, may take new ones
  that were not live, and leaves every other live page alone.
\<close>

definition pt_ext :: "usize \<Rightarrow> mm_state \<Rightarrow> PageTable \<Rightarrow> mm_state \<Rightarrow> PageTable \<Rightarrow> bool" where
  "pt_ext l s pt s' pt' \<longleftrightarrow> mm_inv l s' \<and> pt_inv l s' pt' \<and> root_ppn pt' = root_ppn pt \<and>
     (\<exists>new. pt_frames pt' = pt_frames pt @ new \<and> ft_ppn ` set new \<inter> live l s = {} \<and>
        live l s' = live l s \<union> ft_ppn ` set new \<and> avail s = avail s' + length new) \<and>
     same_pages (live l s - pt_owned pt) (mem s) (mem s')"

lemma pt_ext_refl: "mm_inv l s \<Longrightarrow> pt_inv l s pt \<Longrightarrow> pt_ext l s pt s pt"
  by (auto simp: pt_ext_def)

lemma pt_ext_trans:
  assumes "pt_ext l s pt s1 pt1" "pt_ext l s1 pt1 s2 pt2"
  shows "pt_ext l s pt s2 pt2"
proof -
  obtain n1 where n1: "pt_frames pt1 = pt_frames pt @ n1" "ft_ppn ` set n1 \<inter> live l s = {}"
      "live l s1 = live l s \<union> ft_ppn ` set n1" "avail s = avail s1 + length n1"
    using assms(1) by (auto simp: pt_ext_def)
  obtain n2 where n2: "pt_frames pt2 = pt_frames pt1 @ n2" "ft_ppn ` set n2 \<inter> live l s1 = {}"
      "live l s2 = live l s1 \<union> ft_ppn ` set n2" "avail s1 = avail s2 + length n2"
    using assms(2) by (auto simp: pt_ext_def)
  have "live l s - pt_owned pt \<subseteq> live l s1 - pt_owned pt1"
    using n1 by (auto simp: pt_owned_def)
  then have "same_pages (live l s - pt_owned pt) (mem s) (mem s2)"
    using assms by (auto simp: pt_ext_def intro: same_pages_trans same_pages_mono)
  moreover have "\<exists>new. pt_frames pt2 = pt_frames pt @ new \<and> ft_ppn ` set new \<inter> live l s = {} \<and>
      live l s2 = live l s \<union> ft_ppn ` set new \<and> avail s = avail s2 + length new"
    using n1 n2 by (intro exI[of _ "n1 @ n2"]) auto
  ultimately show ?thesis
    using assms by (simp add: pt_ext_def)
qed

lemma pt_ext_avail: "pt_ext l s pt s' pt' \<Longrightarrow> avail s + length (pt_frames pt) = avail s' + length (pt_frames pt')"
  by (auto simp: pt_ext_def)

lemma pt_ext_live: "pt_ext l s pt s' pt' \<Longrightarrow> live l s \<subseteq> live l s'"
  by (auto simp: pt_ext_def)

lemma pt_extE:
  assumes "pt_ext l s pt s' pt'"
  obtains N where "pt_owned pt' = pt_owned pt \<union> N" "N \<inter> live l s = {}" "live l s' = live l s \<union> N"
proof -
  obtain new where "pt_frames pt' = pt_frames pt @ new" "ft_ppn ` set new \<inter> live l s = {}"
      "live l s' = live l s \<union> ft_ppn ` set new"
    using assms unfolding pt_ext_def by blast
  then show ?thesis
    using that[of "ft_ppn ` set new"] by (simp add: pt_owned_def image_Un)
qed

subsection \<open>Lookups\<close>

lemma find_pte_eq:
  "find_pte m pt v = Inr (map_option (\<lambda>f. pte_at f (indexes v ! 2))
     (pt_node (view m) (pt_root pt) (take 2 (indexes v))))"
proof -
  have b: "unat (indexes v ! i) < 512" if "i < 3" for i
    using triples_nth[OF indexes_triples that] .
  obtain a b' c where ix: "indexes v = [a, b', c]"
    by (auto simp: indexes_eq)
  then have "unat a < 512" "unat b' < 512" "unat c < 512"
    using b[of 0] b[of 1] b[of 2] by auto
  then show ?thesis
    by (simp add: find_pte_def ix get_pte_array_Inr view_def)
qed

lemma find_pte_no_panic: "\<exists>r. find_pte m pt v = Inr r"
  by (simp add: find_pte_eq)

lemma pt_translate_eq:
  "pt_translate m pt v = Inr (map_option (\<lambda>f. view m f (indexes v ! 2))
     (pt_node (view m) (pt_root pt) (take 2 (indexes v))))"
  by (simp add: pt_translate_def find_pte_eq option.map_comp comp_def view_def)

lemma find_vpn_eq: "find_vpn m pt v = Inr (pt_lookup (view m) (pt_root pt) (indexes v) \<noteq> None)"
  by (simp add: find_vpn_def find_pte_eq pt_lookup_def view_def split: option.split)

lemma find_vpn_abs: "vpn_ok v \<Longrightarrow> find_vpn m pt v = Inr (v \<in> dom (pt_abs m pt))"
  by (simp add: find_vpn_eq pt_abs_def dom_def)

lemma pt_translate_abs:
  "pt_abs m pt v = Some e \<Longrightarrow> pt_translate m pt v = Inr (Some e)"
  by (auto simp: pt_abs_def pt_lookup_def pt_translate_eq split: if_splits option.splits)

lemma pt_translate_valid:
  "vpn_ok v \<Longrightarrow> pt_translate m pt v = Inr (Some e) \<Longrightarrow> is_valid e \<Longrightarrow> pt_abs m pt v = Some e"
  by (auto simp: pt_abs_def pt_lookup_def pt_translate_eq)

lemma same_pages_views:
  "same_pages S m m' \<Longrightarrow> f \<in> ppn_val ` S \<Longrightarrow> unat i < 512 \<Longrightarrow> view m' f i = view m f i"
  by (auto simp: same_pages_view)

lemma pt_inv_cong:
  assumes "pt_inv l s pt" "pt_owned pt \<subseteq> live l s'" "same_pages (pt_owned pt) (mem s) (mem s')"
  shows "pt_inv l s' pt"
proof -
  have "pt_tree (view (mem s')) (pt_root pt) (ppn_val ` pt_owned pt)"
    using assms(1) pt_tree_cong[OF _ same_pages_views[OF assms(3)]] by (simp add: pt_inv_def)
  moreover have "pt_clean (view (mem s')) (ppn_val ` pt_owned pt)"
    using assms(1) same_pages_views[OF assms(3)] by (simp add: pt_inv_def pt_clean_def)
  ultimately show ?thesis using assms by (simp add: pt_inv_def)
qed

lemma pt_abs_cong:
  assumes "pt_inv l s pt" "same_pages (pt_owned pt) (mem s) m'"
  shows "pt_abs m' pt = pt_abs (mem s) pt"
proof -
  have "pt_lookup (view m') (pt_root pt) (indexes v) = pt_lookup (view (mem s)) (pt_root pt) (indexes v)" for v
    using assms(1) same_pages_views[OF assms(2)]
    by (intro pt_lookup_cong[of _ _ "ppn_val ` pt_owned pt"]) (simp_all add: pt_inv_def indexes_triples)
  then show ?thesis by (simp add: pt_abs_def fun_eq_iff)
qed

end
