(* ===== verification/Page_Table_Ops.thy ===== *)
theory Page_Table_Ops
  imports Page_Table_Spec
begin

text \<open>
  The operations of \<^verbatim>\<open>PageTable\<close> (\<^verbatim>\<open>src/mm/page_table.rs\<close>) implement a finite map: \<open>map\<close> and
  \<open>unmap\<close> update one key of \<open>pt_abs\<close>, create at most two tables, and leave every page outside the
  page table alone. The rules \<open>wp_pt_map\<close>, \<open>wp_pt_unmap\<close> and \<open>wp_PageTable_new\<close> are what the
  memory areas use.
\<close>

section \<open>Creating the tables on the way to an entry\<close>

definition same_lookup :: "mem \<Rightarrow> mem \<Rightarrow> usize \<Rightarrow> bool" where
  "same_lookup m m' root \<longleftrightarrow> (\<forall>jx \<in> triples. pt_lookup (view m') root jx = pt_lookup (view m) root jx)"

lemma same_lookup_trans: "same_lookup m m' r \<Longrightarrow> same_lookup m' m'' r \<Longrightarrow> same_lookup m m'' r"
  by (simp add: same_lookup_def)

text \<open>The view after a frame \<open>g\<close> has been zeroed and linked from entry \<open>i0\<close> of page \<open>f0\<close>.\<close>

lemma view_link:
  assumes "page_ok (ppn_val g)" "page_ok f0" "page_ok f" "unat i0 < 512" "unat i < 512"
  shows "view (write_u64 (fill_slice m (get_bytes_array g) 0) (pte_at f0 i0) v) f i =
    (if (f, i) = (f0, i0) then PageTableEntry v
     else if f = ppn_val g then PageTableEntry 0 else view m f i)"
  using assms by (auto simp: view_def load_pte_def read_u64_write_u64 read_u64_fill_page)

lemma view_write:
  assumes "page_ok f0" "page_ok f" "unat i0 < 512" "unat i < 512"
  shows "view (write_u64 m (pte_at f0 i0) v) f i =
    (if (f, i) = (f0, i0) then PageTableEntry v else view m f i)"
  using assms by (auto simp: view_def load_pte_def read_u64_write_u64)

lemma link_table:
  assumes s: "mm_inv l s" "pt_inv l s pt"
    and p0: "p0 @ [i0] \<in> paths" "pt_node (view (mem s)) (pt_root pt) p0 = Some f0"
    and inval: "\<not> is_valid (view (mem s) f0 i0)"
    and s1: "mm_inv l s1" "g \<notin> live l s" "live l s1 = insert g (live l s)" "avail s = Suc (avail s1)"
      "mem s1 = fill_slice (mem s) (get_bytes_array g) 0"
    and s2: "s2 = s1\<lparr>mem := write_u64 (mem s1) (pte_at f0 i0) (pte_bits (PageTableEntry_new g PTE_V))\<rparr>"
    and pt': "pt' = pt\<lparr>pt_frames := vec_push (pt_frames pt) (FrameTracker g)\<rparr>"
  shows "pt_ext l s pt s2 pt'" "same_lookup (mem s) (mem s2) (pt_root pt)"
    "pt_node (view (mem s2)) (pt_root pt) (p0 @ [i0]) = Some (ppn_val g)"
    "view (mem s2) f0 i0 = PageTableEntry_new g PTE_V"
proof -
  let ?F = "ppn_val ` pt_owned pt" and ?T = "view (mem s)" and ?T' = "view (mem s2)"
  have tree: "pt_tree ?T (pt_root pt) ?F" and sub: "pt_owned pt \<subseteq> live l s"
    using s(2) by (simp_all add: pt_inv_def)
  have f0: "f0 \<in> ?F" using pt_treeD_mem[OF tree _ p0(2)] paths_snocD[OF p0(1)] by blast
  have i0: "unat i0 < 512" using paths_snocD[OF p0(1)] by blast
  have gb: "unat (ppn_val g) < 2 ^ 44" using live_bound[OF s1(1), of g] s1(3) by simp
  have ok: "page_ok (ppn_val p)" if "p \<in> live l s1" for p
    using live_page_ok[OF s1(1) that] .
  have gok: "page_ok (ppn_val g)" using ok s1(3) by simp
  have Fok: "page_ok f" if "f \<in> ?F" for f
    using that ok sub s1(3) by blast
  have gF: "ppn_val g \<notin> ?F"
    using sub s1(2) by (auto simp: newtype_eq_iff(3)[symmetric])
  have v: "?T' f i = (if (f, i) = (f0, i0) then PageTableEntry_new g PTE_V
      else if f = ppn_val g then PageTableEntry 0 else ?T f i)" if "page_ok f" "unat i < 512" for f i
    using view_link[OF gok Fok[OF f0] that(1) i0 that(2)] by (simp add: s2 s1(5))
  have agree: "?T' f i = ?T f i" if "f \<in> ?F" "unat i < 512" "(f, i) \<noteq> (f0, i0)" for f i
  proof -
    have "f \<noteq> ppn_val g" using that(1) gF by blast
    then show ?thesis using v[OF Fok[OF that(1)] that(2)] that(3) by auto
  qed
  have link: "is_valid (?T' f0 i0)" "ppn_val (pte_ppn (?T' f0 i0)) = ppn_val g"
    using v[OF Fok[OF f0] i0] by (simp_all add: pte_ppn_new[OF gb])
  have empty: "\<not> is_valid (?T' (ppn_val g) i)" if "unat i < 512" for i
    using v[OF gok that] f0 gF by auto
  show "view (mem s2) f0 i0 = PageTableEntry_new g PTE_V"
    using v[OF Fok[OF f0] i0] by simp
  note ins = tree p0 inval agree link empty
  show "pt_node ?T' (pt_root pt) (p0 @ [i0]) = Some (ppn_val g)"
    using pt_node_insert[OF ins p0(1)] by simp
  show "same_lookup (mem s) (mem s2) (pt_root pt)"
    using pt_lookup_insert[OF ins] by (simp add: same_lookup_def)
  have owned: "pt_owned pt' = insert g (pt_owned pt)" by (simp add: pt' pt_owned_def vec_push_def)
  have inv': "mm_inv l s2" and live': "live l s2 = insert g (live l s)" and avail': "avail s2 = avail s1"
    using s1 by (simp_all add: s2 mm_inv_def live_def avail_def)
  have "g \<notin> ft_ppn ` set (pt_frames pt)" using sub s1(2) by (auto simp: pt_owned_def)
  moreover have "pt_clean ?T' (insert (ppn_val g) ?F)"
    unfolding pt_clean_def
  proof (intro ballI allI impI)
    fix f i :: usize assume f: "f \<in> insert (ppn_val g) ?F" "unat i < 512"
    have "page_ok f" using f(1) gok Fok by blast
    moreover have "is_valid (?T f i) \<or> ?T f i = PageTableEntry 0" if "f \<in> ?F"
      using s(2) f(2) that by (auto simp: pt_inv_def pt_clean_def)
    ultimately show "is_valid (?T' f i) \<or> ?T' f i = PageTableEntry 0"
      using v[of f i] f link(1) by auto
  qed
  ultimately have "pt_inv l s2 pt'"
    using s(2) live' pt_tree_insert[OF ins gF]
    by (auto simp: pt_inv_def owned) (simp_all add: pt' vec_push_def)
  moreover have "same_pages (live l s - pt_owned pt) (mem s) (mem s2)"
  proof (unfold same_pages_def, intro ballI)
    fix p assume p: "p \<in> live l s - pt_owned pt"
    have "ppn_val p \<noteq> f0" "ppn_val p \<noteq> ppn_val g" "page_ok (ppn_val p)"
      using p f0 s1(2,3) ok by (auto simp: newtype_eq_iff(3)[symmetric])
    then have "page_eq (mem s2) (mem s1) (ppn_val p)" "page_eq (mem s1) (mem s) (ppn_val p)"
      using page_eq_write_u64[OF Fok[OF f0] _ i0] page_eq_fill[OF gok] by (simp_all add: s2 s1(5))
    then show "page_eq (mem s) (mem s2) (ppn_val p)"
      by (blast intro: page_eq_sym page_eq_trans)
  qed
  moreover have "\<exists>new. pt_frames pt' = pt_frames pt @ new \<and> ft_ppn ` set new \<inter> live l s = {} \<and>
      live l s2 = live l s \<union> ft_ppn ` set new \<and> avail s = avail s2 + length new"
    using s1(2,4) by (intro exI[of _ "[FrameTracker g]"]) (auto simp: pt' vec_push_def live' avail')
  ultimately show "pt_ext l s pt s2 pt'"
    using inv' by (simp add: pt_ext_def pt')
qed

lemma wp_ensure_table:
  assumes s: "mm_inv l s" "pt_inv l s pt"
    and p0: "p0 @ [i0] \<in> paths" "pt_node (view (mem s)) (pt_root pt) p0 = Some f0"
    and E: "avail s = 0 \<Longrightarrow> E OutOfFrames"
    and K: "\<And>s' pt' g. pt_ext l s pt s' pt' \<Longrightarrow> avail s \<le> Suc (avail s') \<Longrightarrow> same_lookup (mem s) (mem s') (pt_root pt) \<Longrightarrow>
        pt_node (view (mem s')) (pt_root pt) (p0 @ [i0]) = Some (ppn_val g) \<Longrightarrow> wp (K g pt') Q E s'"
  shows "wp (kbind (kget (\<lambda>s. load_pte (mem s) (pte_at f0 i0))) (\<lambda>pte.
       kbind (if \<not> is_valid pte
              then kbind (kbind frame_alloc (kunwrap OutOfFrames)) (\<lambda>frame.
                   kbind (store_pte (pte_at f0 i0) (PageTableEntry_new (ft_ppn frame) PTE_V)) (\<lambda>_.
                   kreturn (pt\<lparr>pt_frames := vec_push (pt_frames pt) frame\<rparr>)))
              else kreturn pt) (\<lambda>pt'.
       kbind (kget (\<lambda>s. load_pte (mem s) (pte_at f0 i0))) (\<lambda>pte'. K (pte_ppn pte') pt')))) Q E s"
proof (cases "is_valid (view (mem s) f0 i0)")
  case True
  have "pt_node (view (mem s)) (pt_root pt) (p0 @ [i0]) = Some (ppn_val (pte_ppn (view (mem s) f0 i0)))"
    using p0(2) True by (simp add: pt_node_snoc)
  then have "wp (K (pte_ppn (view (mem s) f0 i0)) pt) Q E s"
    using K pt_ext_refl[OF s] by (simp add: same_lookup_def)
  then show ?thesis
    using True by (simp add: wp_rules view_def)
next
  case False
  have "wp (kbind frame_alloc (kunwrap OutOfFrames)) (\<lambda>frame s1.
      wp (K (pte_ppn (load_pte (write_u64 (mem s1) (pte_at f0 i0) (pte_bits (PageTableEntry_new (ft_ppn frame) PTE_V))) (pte_at f0 i0)))
        (pt\<lparr>pt_frames := vec_push (pt_frames pt) frame\<rparr>)) Q E
        (s1\<lparr>mem := write_u64 (mem s1) (pte_at f0 i0) (pte_bits (PageTableEntry_new (ft_ppn frame) PTE_V))\<rparr>)) E s"
  proof (rule wp_frame_alloc_unwrap[where E = E, OF s(1)], erule E)
    fix g s1
    assume s1: "mm_inv l s1" "g \<notin> live l s" "live l s1 = insert g (live l s)" "avail s = Suc (avail s1)"
      "mem s1 = fill_slice (mem s) (get_bytes_array g) 0"
    let ?s2 = "s1\<lparr>mem := write_u64 (mem s1) (pte_at f0 i0) (pte_bits (PageTableEntry_new g PTE_V))\<rparr>"
    note lt = link_table[OF s p0 False s1 refl refl]
    have "unat (ppn_val g) < 2 ^ 44" using live_bound[OF s1(1), of g] s1(3) by simp
    then have "pte_ppn (load_pte (mem ?s2) (pte_at f0 i0)) = g"
      using lt(4) by (simp add: view_def pte_ppn_new)
    then show "wp (K (pte_ppn (load_pte (write_u64 (mem s1) (pte_at f0 i0) (pte_bits (PageTableEntry_new (ft_ppn (FrameTracker g)) PTE_V))) (pte_at f0 i0)))
        (pt\<lparr>pt_frames := vec_push (pt_frames pt) (FrameTracker g)\<rparr>)) Q E
        (s1\<lparr>mem := write_u64 (mem s1) (pte_at f0 i0) (pte_bits (PageTableEntry_new (ft_ppn (FrameTracker g)) PTE_V))\<rparr>)"
      using K[OF lt(1) _ lt(2,3)] s1(4) by (simp add: avail_def)
  qed
  then show ?thesis
    using False by (simp add: wp_rules view_def store_pte_def)
qed


lemma wp_find_pte_create:
  assumes s: "mm_inv l s" "pt_inv l s pt" and E: "avail s < 2 \<Longrightarrow> E OutOfFrames"
    and Q: "\<And>s' pt' f. pt_ext l s pt s' pt' \<Longrightarrow> avail s \<le> avail s' + 2 \<Longrightarrow> same_lookup (mem s) (mem s') (pt_root pt) \<Longrightarrow>
        pt_node (view (mem s')) (pt_root pt) (take 2 (indexes v)) = Some f \<Longrightarrow>
        Q (Some (pte_at f (indexes v ! 2)), pt') s'"
  shows "wp (find_pte_create pt v) Q E s"
proof -
  obtain a b c where ix: "indexes v = [a, b, c]" by (auto simp: indexes_eq)
  then have bnd: "unat a < 512" "unat b < 512" "unat c < 512"
    using triples_nth[OF indexes_triples, of 0 v] triples_nth[OF indexes_triples, of 1 v]
      triples_nth[OF indexes_triples, of 2 v] by simp_all
  have p1: "[] @ [a] \<in> paths" and p2: "[a] @ [b] \<in> paths"
    using bnd by (simp_all add: paths_def)
  have last: "wp (find_pte_create_loop [a, b, c] [2] h pt2) Q E s2"
    if "pt_ext l s pt s2 pt2" "avail s \<le> avail s2 + 2" "same_lookup (mem s) (mem s2) (pt_root pt)"
      "pt_node (view (mem s2)) (pt_root pt) ([a] @ [b]) = Some (ppn_val h)" for h pt2 s2
    using Q[OF that(1-3), of "ppn_val h"] that(4) bnd by (simp add: ix wp_rules get_pte_array_Inr)
  have mid: "wp (find_pte_create_loop [a, b, c] [1, 2] g pt1) Q E s1"
    if ext: "pt_ext l s pt s1 pt1" and av: "avail s \<le> Suc (avail s1)"
      and same: "same_lookup (mem s) (mem s1) (pt_root pt)" and node: "pt_node (view (mem s1)) (pt_root pt) ([] @ [a]) = Some (ppn_val g)" for g pt1 s1
  proof -
    have s1: "mm_inv l s1" "pt_inv l s1 pt1" "root_ppn pt1 = root_ppn pt"
      using ext by (simp_all add: pt_ext_def)
    show ?thesis
      using wp_ensure_table[where K = "find_pte_create_loop [a, b, c] [2]" and Q = Q and E = E,
          OF s1(1,2) p2 _ E, of "ppn_val g"] node s1(3) av bnd
        last[OF pt_ext_trans[OF ext] _ same_lookup_trans[OF same]]
      by (simp add: wp_rules get_pte_array_Inr)
  qed
  have "pt_node (view (mem s)) (pt_root pt) [] = Some (pt_root pt)" by simp
  from wp_ensure_table[where K = "find_pte_create_loop [a, b, c] [1, 2]" and Q = Q and E = E, OF s p1 this _ mid]
  show ?thesis
    using bnd E by (simp add: find_pte_create_def ix wp_rules get_pte_array_Inr)
qed

section \<open>Mapping and unmapping are updates of one key\<close>

lemma pt_abs_same_lookup:
  "same_lookup m m' (pt_root pt) \<Longrightarrow> pt_root pt' = pt_root pt \<Longrightarrow> pt_abs m' pt' = pt_abs m pt"
  by (simp add: same_lookup_def pt_abs_def fun_eq_iff indexes_triples)

text \<open>Writing the entry that \<open>find_pte_create\<close> found.\<close>

lemma pt_store_leaf:
  assumes s: "mm_inv l s" "pt_inv l s pt" and v: "vpn_ok v"
    and node: "pt_node (view (mem s)) (pt_root pt) (take 2 (indexes v)) = Some f"
    and s': "s' = s\<lparr>mem := write_u64 (mem s) (pte_at f (indexes v ! 2)) (pte_bits e)\<rparr>"
    and e: "is_valid e \<or> e = PageTableEntry 0"
  shows "pt_ext l s pt s' pt"
    "pt_abs (mem s') pt = (pt_abs (mem s) pt)(v := if is_valid e then Some e else None)"
proof -
  let ?F = "ppn_val ` pt_owned pt" and ?T = "view (mem s)" and ?T' = "view (mem s')" and ?i = "indexes v ! 2"
  have tree: "pt_tree ?T (pt_root pt) ?F" and sub: "pt_owned pt \<subseteq> live l s"
    using s(2) by (simp_all add: pt_inv_def)
  have f: "f \<in> ?F" using pt_treeD_mem[OF tree triples_take[OF indexes_triples] node] .
  have i: "unat ?i < 512" using triples_nth[OF indexes_triples, of 2 v] by simp
  have Fok: "page_ok g" if "g \<in> ?F" for g
    using that sub live_page_ok[OF s(1)] by blast
  have agree: "?T' g j = ?T g j" if "g \<in> ?F" "unat j < 512" "(g, j) \<noteq> (f, ?i)" for g j
    using view_write[OF Fok[OF f] Fok[OF that(1)] i that(2)] that(3) by (auto simp: s')
  have hit: "?T' f ?i = e"
    using view_write[OF Fok[OF f] Fok[OF f] i i] by (simp add: s')
  have len: "length (take 2 (indexes v)) = 2" by simp
  have live': "live l s' = live l s" "mm_inv l s'" "avail s' = avail s"
    using s(1) by (simp_all add: s' live_def mm_inv_def avail_def)
  have "is_valid (?T' g j) \<or> ?T' g j = PageTableEntry 0" if "g \<in> ?F" "unat j < 512" for g j
    using s(2) e agree[OF that] hit that by (cases "(g, j) = (f, ?i)") (auto simp: pt_inv_def pt_clean_def)
  then have "pt_inv l s' pt"
    using s(2) live' pt_tree_leaf[OF tree triples_take[OF indexes_triples] len node agree]
    by (simp add: pt_inv_def pt_clean_def)
  moreover have "same_pages (live l s - pt_owned pt) (mem s) (mem s')"
  proof (unfold same_pages_def, intro ballI)
    fix p assume p: "p \<in> live l s - pt_owned pt"
    have "f \<noteq> ppn_val p" "page_ok (ppn_val p)"
      using p f live_page_ok[OF s(1)] by (auto simp: newtype_eq_iff(3)[symmetric])
    then show "page_eq (mem s) (mem s') (ppn_val p)"
      using page_eq_write_u64[OF Fok[OF f] _ i] by (simp add: s' page_eq_sym)
  qed
  ultimately show "pt_ext l s pt s' pt"
    using live' by (simp add: pt_ext_def)
  show "pt_abs (mem s') pt = (pt_abs (mem s) pt)(v := if is_valid e then Some e else None)"
  proof
    fix w
    have "indexes w = indexes v \<longleftrightarrow> w = v" if "vpn_ok w"
      using indexes_inject[OF _ that v] by blast
    then show "pt_abs (mem s') pt w = ((pt_abs (mem s) pt)(v := if is_valid e then Some e else None)) w"
      using pt_lookup_leaf[OF tree indexes_triples node agree hit indexes_triples, of w] v
      by (auto simp: pt_abs_def)
  qed
qed

lemma wp_pt_map:
  assumes s: "mm_inv l s" "pt_inv l s pt" "vpn_ok v"
    and E: "avail s < 2 \<Longrightarrow> E OutOfFrames" "v \<in> dom (pt_abs (mem s) pt) \<Longrightarrow> E AlreadyMapped"
    and Q: "\<And>s' pt'. v \<notin> dom (pt_abs (mem s) pt) \<Longrightarrow> pt_ext l s pt s' pt' \<Longrightarrow> avail s \<le> avail s' + 2 \<Longrightarrow>
        pt_abs (mem s') pt' = (pt_abs (mem s) pt)(v \<mapsto> PageTableEntry_new p (flags OR PTE_V)) \<Longrightarrow> Q pt' s'"
  shows "wp (pt_map pt v p flags) Q E s"
  unfolding pt_map_def wp_kbind
proof (rule wp_find_pte_create[OF s(1,2)], erule E(1))
  fix s1 pt1 f
  assume ext: "pt_ext l s pt s1 pt1" and av: "avail s \<le> avail s1 + 2" and same: "same_lookup (mem s) (mem s1) (pt_root pt)"
    and node: "pt_node (view (mem s1)) (pt_root pt) (take 2 (indexes v)) = Some f"
  have s1: "mm_inv l s1" "pt_inv l s1 pt1" "root_ppn pt1 = root_ppn pt"
    using ext by (simp_all add: pt_ext_def)
  have abs1: "pt_abs (mem s1) pt1 = pt_abs (mem s) pt"
    using pt_abs_same_lookup[OF same] s1(3) by simp
  let ?e = "PageTableEntry_new p (flags OR PTE_V)" and ?a = "pte_at f (indexes v ! 2)"
  let ?s2 = "s1\<lparr>mem := write_u64 (mem s1) ?a (pte_bits ?e)\<rparr>"
  have old: "is_valid (load_pte (mem s1) ?a) \<longleftrightarrow> v \<in> dom (pt_abs (mem s) pt)"
    using node s(3) by (simp add: abs1[symmetric] pt_abs_def pt_lookup_def s1(3) view_def dom_def)
  have "is_valid ?e \<or> ?e = PageTableEntry 0" by simp
  note st = pt_store_leaf[OF s1(1,2) s(3), unfolded s1(3), OF node refl this]
  have "v \<notin> dom (pt_abs (mem s) pt) \<Longrightarrow> Q pt1 ?s2"
    using Q[OF _ pt_ext_trans[OF ext st(1)]] st(2) av by (simp add: abs1 avail_def)
  then show "wp (case (Some ?a, pt1) of (r, pt') \<Rightarrow>
      kbind (kunwrap UnwrapNone r) (\<lambda>a.
      kbind (kget (\<lambda>s. load_pte (mem s) a)) (\<lambda>pte.
      kbind (kassert AlreadyMapped (\<not> is_valid pte)) (\<lambda>_.
      kbind (store_pte a ?e) (\<lambda>_. kreturn pt'))))) Q E s1"
    using old E(2) by (auto simp: wp_rules store_pte_def)
qed

text \<open>Where the tables exist already, nothing is created, so \<open>unmap\<close> of a mapped page needs no frame.\<close>

lemma find_pte_create_exists:
  assumes "pt_node (view (mem s)) (pt_root pt) (take 2 (indexes v)) = Some f"
  shows "find_pte_create pt v s = Inr ((Some (pte_at f (indexes v ! 2)), pt), s)"
proof -
  obtain a b c where ix: "indexes v = [a, b, c]" by (auto simp: indexes_eq)
  then have bnd: "unat a < 512" "unat b < 512" "unat c < 512"
    using triples_nth[OF indexes_triples, of 0 v] triples_nth[OF indexes_triples, of 1 v]
      triples_nth[OF indexes_triples, of 2 v] by simp_all
  show ?thesis
    using assms bnd
    by (auto simp: find_pte_create_def ix get_pte_array_Inr kmonad_defs view_def split: if_splits)
qed

lemma pt_unmap_mapped:
  assumes s: "mm_inv l s" "pt_inv l s pt" and v: "v \<in> dom (pt_abs (mem s) pt)"
  obtains s' where "pt_unmap pt v s = Inr (pt, s')" "pt_ext l s pt s' pt"
    "FRAME_ALLOCATOR s' = FRAME_ALLOCATOR s" "pt_abs (mem s') pt = (pt_abs (mem s) pt)(v := None)"
proof -
  from v obtain f where ok: "vpn_ok v" and f: "pt_node (view (mem s)) (pt_root pt) (take 2 (indexes v)) = Some f"
    and valid: "is_valid (view (mem s) f (indexes v ! 2))"
    by (auto simp: pt_abs_def pt_lookup_def dom_def split: if_splits option.splits)
  let ?s' = "s\<lparr>mem := write_u64 (mem s) (pte_at f (indexes v ! 2)) (pte_bits PageTableEntry_empty)\<rparr>"
  have "pt_unmap pt v s = Inr (pt, ?s')"
    using find_pte_create_exists[OF f] valid
    by (simp add: pt_unmap_def kmonad_defs store_pte_def view_def)
  then show ?thesis
    using pt_store_leaf[OF s ok f refl, of PageTableEntry_empty] that[of ?s'] by (simp add: PageTableEntry_empty_def)
qed

lemma wp_pt_unmap:
  assumes s: "mm_inv l s" "pt_inv l s pt" "v \<in> dom (pt_abs (mem s) pt)"
    and Q: "\<And>s'. pt_ext l s pt s' pt \<Longrightarrow> FRAME_ALLOCATOR s' = FRAME_ALLOCATOR s \<Longrightarrow>
        pt_abs (mem s') pt = (pt_abs (mem s) pt)(v := None) \<Longrightarrow> Q pt s'"
  shows "wp (pt_unmap pt v) Q E s"
  using pt_unmap_mapped[OF s] Q by (metis (mono_tags, lifting) case_prod_conv sum.case(2) wp_def)

lemma pt_unmap_unmapped:
  assumes s: "mm_inv l s" "pt_inv l s pt" and v: "vpn_ok v" "v \<notin> dom (pt_abs (mem s) pt)"
  shows "\<exists>e. pt_unmap pt v s = Inl e \<and> (e = NotMapped \<or> e = OutOfFrames \<and> avail s < 2)"
proof -
  have "wp (pt_unmap pt v) (\<lambda>_ _. False) (\<lambda>e. e = NotMapped \<or> e = OutOfFrames \<and> avail s < 2) s"
    unfolding pt_unmap_def wp_kbind
  proof (rule wp_find_pte_create[OF s], simp)
    fix s1 pt1 f
    assume ext: "pt_ext l s pt s1 pt1" and same: "same_lookup (mem s) (mem s1) (pt_root pt)"
      and node: "pt_node (view (mem s1)) (pt_root pt) (take 2 (indexes v)) = Some f"
    have "v \<notin> dom (pt_abs (mem s1) pt)"
      using pt_abs_same_lookup[OF same refl] v(2) by simp
    then have "\<not> is_valid (load_pte (mem s1) (pte_at f (indexes v ! 2)))"
      using node v(1) by (simp add: pt_abs_def pt_lookup_def view_def dom_def split: if_splits)
    then show "wp (case (Some (pte_at f (indexes v ! 2)), pt1) of (r, pt') \<Rightarrow>
        kbind (kunwrap UnwrapNone r) (\<lambda>a.
        kbind (kget (\<lambda>s. load_pte (mem s) a)) (\<lambda>pte.
        kbind (kassert NotMapped (is_valid pte)) (\<lambda>_.
        kbind (store_pte a PageTableEntry_empty) (\<lambda>_. kreturn pt')))))
      (\<lambda>_ _. False) (\<lambda>e. e = NotMapped \<or> e = OutOfFrames \<and> avail s < 2) s1"
      by (simp add: wp_rules)
  qed
  then show ?thesis by (auto simp: wp_def split: sum.splits)
qed

lemma wp_PageTable_new:
  assumes s: "mm_inv l s" and E: "avail s = 0 \<Longrightarrow> E OutOfFrames"
    and Q: "\<And>s' pt g. mm_inv l s' \<Longrightarrow> pt_inv l s' pt \<Longrightarrow> pt_abs (mem s') pt = Map.empty \<Longrightarrow>
        pt_owned pt = {g} \<Longrightarrow> g \<notin> live l s \<Longrightarrow> live l s' = insert g (live l s) \<Longrightarrow>
        avail s = Suc (avail s') \<Longrightarrow> same_pages (live l s) (mem s) (mem s') \<Longrightarrow> Q pt s'"
  shows "wp PageTable_new Q E s"
  unfolding PageTable_new_def wp_kbind[of _ "\<lambda>frame. kreturn (_ frame)"]
proof (rule wp_frame_alloc_unwrap[where E = E, OF s], erule E)
  fix g s1
  assume s1: "mm_inv l s1" "g \<notin> live l s" "live l s1 = insert g (live l s)" "avail s = Suc (avail s1)"
    "mem s1 = fill_slice (mem s) (get_bytes_array g) 0"
  let ?pt = "\<lparr>root_ppn = g, pt_frames = [FrameTracker g]\<rparr>"
  have ok: "page_ok (ppn_val p)" if "p \<in> live l s1" for p
    using live_page_ok[OF s1(1) that] .
  have zero: "view (mem s1) (ppn_val g) i = PageTableEntry 0" if "unat i < 512" for i
    using read_u64_fill_page[OF ok ok that, of g g] s1(3,5) by (simp add: view_def load_pte_def)
  have node: "pt_node (view (mem s1)) (ppn_val g) p = (if p = [] then Some (ppn_val g) else None)" if "p \<in> paths" for p
    using that by (cases p) (auto simp: zero paths_def)
  then have "pt_inv l s1 ?pt"
    using s1(3) zero by (simp add: pt_inv_def pt_owned_def pt_tree_def pt_clean_def)
  moreover have "pt_abs (mem s1) ?pt = Map.empty"
    using node[OF triples_take[OF indexes_triples]] by (auto simp: pt_abs_def pt_lookup_def fun_eq_iff indexes_eq)
  moreover have "same_pages (live l s) (mem s) (mem s1)"
  proof (unfold same_pages_def, intro ballI)
    fix p assume p: "p \<in> live l s"
    then have "ppn_val g \<noteq> ppn_val p" using s1(2) by (auto simp: newtype_eq_iff(3)[symmetric])
    then show "page_eq (mem s) (mem s1) (ppn_val p)"
      using page_eq_fill[of g "ppn_val p" "mem s" 0] p ok s1(3,5) by (simp add: page_eq_sym)
  qed
  ultimately show "wp (kreturn \<lparr>root_ppn = ft_ppn (FrameTracker g), pt_frames = [FrameTracker g]\<rparr>) Q E s1"
    using Q[OF s1(1), of ?pt g] s1(2-4) by (simp add: wp_rules pt_owned_def)
qed


lemma wp_drop_PageTable:
  assumes "mm_inv l s" "pt_inv l s pt"
    and "\<And>s'. mm_inv l s' \<Longrightarrow> live l s' = live l s - pt_owned pt \<Longrightarrow>
        avail s' = avail s + length (pt_frames pt) \<Longrightarrow> mem s' = mem s \<Longrightarrow> Q () s'"
  shows "wp (drop_PageTable pt) Q E s"
  unfolding drop_PageTable_def
  by (rule wp_drop_frames) (use assms in \<open>auto simp: pt_inv_def pt_owned_def\<close>)

text \<open>Another page table over other frames does not notice.\<close>

lemma pt_ext_other:
  assumes "pt_ext l s pt s' pt'" "pt_inv l s pt2" "pt_owned pt \<inter> pt_owned pt2 = {}"
  shows "pt_inv l s' pt2" "pt_abs (mem s') pt2 = pt_abs (mem s) pt2" "pt_owned pt' \<inter> pt_owned pt2 = {}"
proof -
  have sub: "pt_owned pt2 \<subseteq> live l s - pt_owned pt" using assms by (auto simp: pt_inv_def)
  then have same: "same_pages (pt_owned pt2) (mem s) (mem s')"
    using assms(1) by (auto simp: pt_ext_def intro: same_pages_mono)
  show "pt_abs (mem s') pt2 = pt_abs (mem s) pt2" using pt_abs_cong[OF assms(2) same] .
  show "pt_inv l s' pt2" using pt_inv_cong[OF assms(2) _ same] sub pt_ext_live[OF assms(1)] by blast
  obtain N where "pt_owned pt' = pt_owned pt \<union> N" "N \<inter> live l s = {}" "live l s' = live l s \<union> N"
    by (rule pt_extE[OF assms(1)])
  then show "pt_owned pt' \<inter> pt_owned pt2 = {}" using sub assms(3) by blast
qed

lemma root_from_token:
  assumes "unat (pt_root pt) < 2 ^ 44"
  shows "root_ppn (from_token (pt_token pt)) = root_ppn pt"
proof -
  have small: "n < 44" if "bit (pt_root pt) n" for n
  proof -
    have "take_bit 44 (pt_root pt) = pt_root pt"
      using assms by (simp add: word_unat_eq_iff unat_take_bit)
    then show ?thesis using that by (metis bit_take_bit_iff)
  qed
  define mode where "mode = push_bit 60 (8 :: usize)"
  have "\<not> bit mode n" if "n < 44" for n
    using that unfolding mode_def bit_push_bit_iff by simp
  then have "pt_token pt AND mask 44 = pt_root pt"
    unfolding pt_token_def mode_def[symmetric]
    by (intro bit_word_eqI) (auto simp: bit_and_iff bit_or_iff bit_mask_iff dest: small)
  then show ?thesis
    using ppn_from_usize_id[OF assms] by (simp only: from_token_def PageTable.simps PTE_mask_44 PhysPageNum.collapse)
qed

lemma pt_abs_root: "root_ppn pt = root_ppn pt' \<Longrightarrow> pt_abs m pt = pt_abs m pt'"
  by (simp add: pt_abs_def fun_eq_iff)

lemma pt_root_bound: "mm_inv l s \<Longrightarrow> pt_inv l s pt \<Longrightarrow> unat (pt_root pt) < 2 ^ 44"
  using live_bound by (auto simp: pt_inv_def)

lemma pt_abs_from_token:
  "mm_inv l s \<Longrightarrow> pt_inv l s pt \<Longrightarrow> pt_abs m (from_token (pt_token pt)) = pt_abs m pt"
  using pt_abs_root[OF root_from_token[OF pt_root_bound]] by blast

lemma pte_address:
  "pa_from_usize (pa_val (pa_from_ppn (pte_ppn e)) + VirtAddr_page_offset va) =
    PhysAddr (paddr (ppn_val (pte_ppn e)) (unat (va_val va) mod 4096))"
proof -
  let ?p = "ppn_val (pte_ppn e)" and ?o = "VirtAddr_page_offset va"
  have sum: "pa_val (pa_from_ppn (pte_ppn e)) + ?o = paddr ?p (unat (va_val va) mod 4096)"
    unfolding pa_from_ppn_paddr unat_VirtAddr_page_offset[symmetric]
    using paddr_add[of ?p 0 "unat ?o"] by simp
  have "unat (paddr ?p (unat (va_val va) mod 4096)) < 2 ^ 56"
    using pte_ppn_bound[of e] unat_paddr[of ?p "unat (va_val va) mod 4096"] by simp
  then have "pa_from_usize (paddr ?p (unat (va_val va) mod 4096)) = PhysAddr (paddr ?p (unat (va_val va) mod 4096))"
    using unat_from_usize(1)[of "paddr ?p (unat (va_val va) mod 4096)"]
    by (metis PhysAddr.collapse mod_less word_unat_eq_iff)
  then show ?thesis by (simp add: sum)
qed

lemma translate_va_abs:
  assumes "pt_abs m pt (VirtAddr_floor va) = Some e"
  shows "translate_va m pt va = Inr (Some (PhysAddr (paddr (ppn_val (pte_ppn e)) (unat (va_val va) mod 4096))))"
proof -
  from assms obtain f where f: "pt_node (view m) (pt_root pt) (take 2 (indexes (VirtAddr_floor va))) = Some f"
      "load_pte m (pte_at f (indexes (VirtAddr_floor va) ! 2)) = e"
    by (auto simp: pt_abs_def pt_lookup_def view_def split: if_splits option.splits)
  then show ?thesis
    by (simp add: translate_va_def find_pte_eq Let_def pte_address)
qed

section \<open>Properties\<close>

text \<open>The first page table made on the machine \<open>boot_mm\<close>.\<close>

definition boot_pt :: PageTable where
  "boot_pt = \<lparr>root_ppn = PhysPageNum 0x80400, pt_frames = [FrameTracker (PhysPageNum 0x80400)]\<rparr>"

definition boot_pt_mm :: mm_state where
  "boot_pt_mm = boot_mm\<lparr>FRAME_ALLOCATOR := (FRAME_ALLOCATOR boot_mm)\<lparr>fa_current := 0x80401\<rparr>\<rparr>"

lemma boot_pt_eq: "PageTable_new boot_mm = Inr (boot_pt, boot_pt_mm)"
  by (simp add: PageTable_new_def frame_alloc_def FrameTracker_new_def boot_mm_eq fa_alloc_def kmonad_defs
      fill_slice_def boot_pt_def boot_pt_mm_def address_defs fun_eq_iff)

lemma boot_pt_facts:
  "mm_inv 0x80400 boot_pt_mm" "pt_inv 0x80400 boot_pt_mm boot_pt" "pt_abs (mem boot_pt_mm) boot_pt = Map.empty"
  "avail boot_pt_mm = 31743"
proof -
  have "wp PageTable_new (\<lambda>pt s. mm_inv 0x80400 s \<and> pt_inv 0x80400 s pt \<and> pt_abs (mem s) pt = Map.empty \<and>
      avail s = 31743) (\<lambda>_. False) boot_mm"
    by (rule wp_PageTable_new[OF boot_mm_inv]) (simp_all add: boot_avail)
  from wpD[OF this boot_pt_eq] show "mm_inv 0x80400 boot_pt_mm" "pt_inv 0x80400 boot_pt_mm boot_pt"
      "pt_abs (mem boot_pt_mm) boot_pt = Map.empty" "avail boot_pt_mm = 31743"
    by blast+
qed

text \<open>
  C22: \<open>map\<close> is the insertion of one key. On a page number that is not mapped, with two frames
  available for new tables, it returns, the address space gains exactly the binding of the page number
  to the given frame and flags with \<open>V\<close> set, it takes at most two new frames, and no live page outside
  the page table changes.
\<close>

theorem pt_map_inserts:
  assumes "mm_inv l s" "pt_inv l s pt" "vpn_ok v" "v \<notin> dom (pt_abs (mem s) pt)" "2 \<le> avail s"
  shows "\<exists>pt' s'. pt_map pt v p flags s = Inr (pt', s') \<and> mm_inv l s' \<and> pt_inv l s' pt' \<and>
    pt_abs (mem s') pt' = (pt_abs (mem s) pt)(v \<mapsto> PageTableEntry_new p (flags OR PTE_V)) \<and>
    avail s \<le> avail s' + 2 \<and> same_pages (live l s - pt_owned pt) (mem s) (mem s')"
proof -
  have "wp (pt_map pt v p flags) (\<lambda>pt' s'. mm_inv l s' \<and> pt_inv l s' pt' \<and>
      pt_abs (mem s') pt' = (pt_abs (mem s) pt)(v \<mapsto> PageTableEntry_new p (flags OR PTE_V)) \<and>
      avail s \<le> avail s' + 2 \<and> same_pages (live l s - pt_owned pt) (mem s) (mem s')) (\<lambda>_. False) s"
    by (rule wp_pt_map[OF assms(1-3)]) (use assms(4,5) in \<open>simp_all add: pt_ext_def\<close>)
  from wp_no_panicD[OF this] show ?thesis .
qed

lemma pt_map_inserts_witness:
  "\<exists>pt' s'. pt_map boot_pt (VirtPageNum 0x10) (PhysPageNum 0x80410) (PTE_R OR PTE_U) boot_pt_mm = Inr (pt', s') \<and>
     pt_abs (mem s') pt' = [VirtPageNum 0x10 \<mapsto> PageTableEntry_new (PhysPageNum 0x80410) (PTE_R OR PTE_U OR PTE_V)] \<and>
     31741 \<le> avail s'"
  using pt_map_inserts[OF boot_pt_facts(1,2), of "VirtPageNum 0x10" "PhysPageNum 0x80410" "PTE_R OR PTE_U"]
    boot_pt_facts(3,4) by (force simp: or.assoc)

text \<open>
  \<open>map\<close> of a page number that is already mapped panics, whatever the frame and flags: with the
  assertion's panic, or, if fewer than two frames are left, possibly for want of a frame.
\<close>

theorem pt_map_refuses_mapped:
  assumes "mm_inv l s" "pt_inv l s pt" "v \<in> dom (pt_abs (mem s) pt)"
  shows "\<exists>e. pt_map pt v p flags s = Inl e \<and> (e = AlreadyMapped \<or> e = OutOfFrames \<and> avail s < 2)"
proof -
  have ok: "vpn_ok v" using assms(3) by (auto simp: pt_abs_def split: if_splits)
  have "wp (pt_map pt v p flags) (\<lambda>_ _. False) (\<lambda>e. e = AlreadyMapped \<or> e = OutOfFrames \<and> avail s < 2) s"
    by (rule wp_pt_map[OF assms(1,2) ok]) (use assms(3) in simp_all)
  then show ?thesis by (auto simp: wp_def split: sum.splits)
qed

text \<open>
  C25: \<open>unmap\<close> is the removal of one key. On a mapped page number it returns without taking a frame,
  the page table keeps its tables, and exactly the binding of that page number is gone.
\<close>

theorem pt_unmap_removes:
  assumes "mm_inv l s" "pt_inv l s pt" "v \<in> dom (pt_abs (mem s) pt)"
  shows "\<exists>s'. pt_unmap pt v s = Inr (pt, s') \<and> FRAME_ALLOCATOR s' = FRAME_ALLOCATOR s \<and> pt_inv l s' pt \<and>
    pt_abs (mem s') pt = (pt_abs (mem s) pt)(v := None) \<and>
    same_pages (live l s - pt_owned pt) (mem s) (mem s')"
  using pt_unmap_mapped[OF assms] by (auto simp: pt_ext_def)

text \<open>
  \<open>unmap\<close> of a page number that is not mapped panics. Its assertion is reached after the tables
  on the way have been created, so with fewer than two frames left the panic may be the missing frame.
\<close>

theorem pt_unmap_refuses_unmapped:
  assumes "mm_inv l s" "pt_inv l s pt" "vpn_ok v" "v \<notin> dom (pt_abs (mem s) pt)"
  shows "\<exists>e. pt_unmap pt v s = Inl e \<and> (e = NotMapped \<or> e = OutOfFrames \<and> avail s < 2)"
  by (rule pt_unmap_unmapped[OF assms])

lemma pt_unmap_refuses_unmapped_witness:
  "pt_unmap boot_pt (VirtPageNum 0x10) boot_pt_mm = Inl NotMapped"
  using pt_unmap_refuses_unmapped[OF boot_pt_facts(1,2), of "VirtPageNum 0x10"] boot_pt_facts(3,4) by auto

text \<open>A machine with one page mapped, for the witnesses that need a mapping.\<close>

definition boot_map :: "panic + PageTable \<times> mm_state" where
  "boot_map = pt_map boot_pt (VirtPageNum 0x10) (PhysPageNum 0x80410) PTE_R boot_pt_mm"

lemma boot_map_facts:
  obtains pt s where "boot_map = Inr (pt, s)" "mm_inv 0x80400 s" "pt_inv 0x80400 s pt"
    "pt_abs (mem s) pt = [VirtPageNum 0x10 \<mapsto> PageTableEntry_new (PhysPageNum 0x80410) (PTE_R OR PTE_V)]"
    "31741 \<le> avail s"
proof -
  have "wp (pt_map boot_pt (VirtPageNum 0x10) (PhysPageNum 0x80410) PTE_R) (\<lambda>pt s. mm_inv 0x80400 s \<and> pt_inv 0x80400 s pt \<and>
      pt_abs (mem s) pt = [VirtPageNum 0x10 \<mapsto> PageTableEntry_new (PhysPageNum 0x80410) (PTE_R OR PTE_V)] \<and>
      31741 \<le> avail s) (\<lambda>_. False) boot_pt_mm"
    by (rule wp_pt_map[OF boot_pt_facts(1,2)])
      (use boot_pt_facts(3,4) in \<open>simp_all add: pt_ext_def\<close>)
  from wp_no_panicD[OF this] show ?thesis using that unfolding boot_map_def by blast
qed

lemma pt_map_refuses_mapped_witness:
  "\<exists>pt s. boot_map = Inr (pt, s) \<and> pt_map pt (VirtPageNum 0x10) (PhysPageNum 0x80411) PTE_W s = Inl AlreadyMapped"
proof -
  obtain pt s where b: "boot_map = Inr (pt, s)" "mm_inv 0x80400 s" "pt_inv 0x80400 s pt"
    "pt_abs (mem s) pt = [VirtPageNum 0x10 \<mapsto> PageTableEntry_new (PhysPageNum 0x80410) (PTE_R OR PTE_V)]"
    "31741 \<le> avail s" by (rule boot_map_facts)
  show ?thesis
    using pt_map_refuses_mapped[OF b(2,3), of "VirtPageNum 0x10" "PhysPageNum 0x80411" PTE_W] b by auto
qed

lemma pt_unmap_removes_witness:
  "\<exists>pt s s'. boot_map = Inr (pt, s) \<and> pt_unmap pt (VirtPageNum 0x10) s = Inr (pt, s') \<and>
     pt_abs (mem s') pt = Map.empty"
proof -
  obtain pt s where b: "boot_map = Inr (pt, s)" "mm_inv 0x80400 s" "pt_inv 0x80400 s pt"
    "pt_abs (mem s) pt = [VirtPageNum 0x10 \<mapsto> PageTableEntry_new (PhysPageNum 0x80410) (PTE_R OR PTE_V)]"
    "31741 \<le> avail s" by (rule boot_map_facts)
  show ?thesis
    using pt_unmap_removes[OF b(2,3), of "VirtPageNum 0x10"] b by auto
qed

text \<open>
  two page tables over disjoint frames are isolated. Mapping a page in the one leaves the other's
  address space and invariant as they are, and their frames stay disjoint.
\<close>

theorem pt_map_isolates:
  assumes "mm_inv l s" "pt_inv l s pt" "pt_inv l s other" "pt_owned pt \<inter> pt_owned other = {}" "vpn_ok v"
    and "pt_map pt v p flags s = Inr (pt', s')"
  shows "pt_inv l s' other \<and> pt_abs (mem s') other = pt_abs (mem s) other \<and> pt_owned pt' \<inter> pt_owned other = {}"
proof -
  have "wp (pt_map pt v p flags) (\<lambda>pt' s'. pt_ext l s pt s' pt') (\<lambda>_. True) s"
    by (rule wp_pt_map[OF assms(1,2,5)]) simp_all
  from pt_ext_other[OF wpD[OF this assms(6)] assms(3,4)] show ?thesis by simp
qed

lemma pt_map_isolates_witness:
  "\<exists>other s pt' s'. PageTable_new boot_pt_mm = Inr (other, s) \<and>
     pt_map boot_pt (VirtPageNum 0x10) (PhysPageNum 0x80410) PTE_R s = Inr (pt', s') \<and>
     pt_abs (mem s') other = Map.empty"
proof -
  have "wp PageTable_new (\<lambda>other s. mm_inv 0x80400 s \<and> pt_inv 0x80400 s other \<and> pt_abs (mem s) other = Map.empty \<and>
      pt_inv 0x80400 s boot_pt \<and> pt_abs (mem s) boot_pt = Map.empty \<and> pt_owned boot_pt \<inter> pt_owned other = {} \<and>
      2 \<le> avail s) (\<lambda>_. False) boot_pt_mm"
  proof (rule wp_PageTable_new[OF boot_pt_facts(1)])
    fix s other g
    assume new: "mm_inv 0x80400 s" "pt_inv 0x80400 s other" "pt_abs (mem s) other = Map.empty" "pt_owned other = {g}"
      "g \<notin> live 0x80400 boot_pt_mm" "live 0x80400 s = insert g (live 0x80400 boot_pt_mm)"
      "avail boot_pt_mm = Suc (avail s)" "same_pages (live 0x80400 boot_pt_mm) (mem boot_pt_mm) (mem s)"
    have sub: "pt_owned boot_pt \<subseteq> live 0x80400 boot_pt_mm" using boot_pt_facts(2) by (simp add: pt_inv_def)
    have same: "same_pages (pt_owned boot_pt) (mem boot_pt_mm) (mem s)" using same_pages_mono[OF new(8) sub] .
    have "pt_inv 0x80400 s boot_pt" using pt_inv_cong[OF boot_pt_facts(2) _ same] sub new(6) by blast
    moreover have "pt_abs (mem s) boot_pt = Map.empty"
      using pt_abs_cong[OF boot_pt_facts(2) same] boot_pt_facts(3) by simp
    moreover have "pt_owned boot_pt \<inter> pt_owned other = {}" using sub new(4,5) by auto
    ultimately show "mm_inv 0x80400 s \<and> pt_inv 0x80400 s other \<and> pt_abs (mem s) other = Map.empty \<and>
      pt_inv 0x80400 s boot_pt \<and> pt_abs (mem s) boot_pt = Map.empty \<and> pt_owned boot_pt \<inter> pt_owned other = {} \<and>
      2 \<le> avail s" using new boot_pt_facts(4) by simp
  qed (simp add: boot_pt_facts(4))
  from wp_no_panicD[OF this] obtain other s where o: "PageTable_new boot_pt_mm = Inr (other, s)" "mm_inv 0x80400 s"
      "pt_inv 0x80400 s other" "pt_abs (mem s) other = Map.empty" "pt_inv 0x80400 s boot_pt"
      "pt_abs (mem s) boot_pt = Map.empty" "pt_owned boot_pt \<inter> pt_owned other = {}" "2 \<le> avail s"
    by blast
  have "wp (pt_map boot_pt (VirtPageNum 0x10) (PhysPageNum 0x80410) PTE_R) (\<lambda>_ _. True) (\<lambda>_. False) s"
    by (rule wp_pt_map[OF o(2,5)]) (use o(6,8) in simp_all)
  from wp_no_panicD[OF this] obtain pt' s'
    where m: "pt_map boot_pt (VirtPageNum 0x10) (PhysPageNum 0x80410) PTE_R s = Inr (pt', s')" by blast
  then show ?thesis
    using pt_map_isolates[OF o(2,5,3,7) _ m] o(1,4) by simp
qed

text \<open>
  an entry keeps what it is made of. Frame numbers of up to 44 bits and all eight flags are read
  back from a new entry, so the four permission tests see exactly the flags it was made with.
\<close>

theorem PageTableEntry_roundtrip:
  assumes "unat (ppn_val p) < 2 ^ 44"
  shows "pte_ppn (PageTableEntry_new p f) = p \<and> pte_flags (PageTableEntry_new p f) = f \<and>
    (is_valid (PageTableEntry_new p f) \<longleftrightarrow> bit f 0) \<and> (is_readable (PageTableEntry_new p f) \<longleftrightarrow> bit f 1) \<and>
    (is_writable (PageTableEntry_new p f) \<longleftrightarrow> bit f 2) \<and> (is_executable (PageTableEntry_new p f) \<longleftrightarrow> bit f 3)"
  using pte_ppn_new[OF assms] by (simp add: is_valid_def is_readable_def is_writable_def is_executable_def flag_bits)

lemma PageTableEntry_roundtrip_witness:
  "pte_ppn (PageTableEntry_new (PhysPageNum 0x80410) 0x1f) = PhysPageNum 0x80410 \<and>
   is_writable (PageTableEntry_new (PhysPageNum 0x80410) 0x1f)"
  using PageTableEntry_roundtrip[of "PhysPageNum 0x80410" "0x1f"] by simp

text \<open>
  the token of a page table, as written to \<open>satp\<close>, names the same address space: a page table
  rebuilt from it by \<open>from_token\<close> translates every page number as the original does.
\<close>

theorem token_roundtrip:
  assumes "mm_inv l s" "pt_inv l s pt"
  shows "pt_translate m (from_token (pt_token pt)) v = pt_translate m pt v \<and>
    find_vpn m (from_token (pt_token pt)) v = find_vpn m pt v \<and> drop_bit 60 (pt_token pt) = 8"
proof -
  have b: "unat (pt_root pt) < 2 ^ 44" using pt_root_bound[OF assms] .
  then have "drop_bit 60 (pt_root pt) = 0"
    by (simp add: word_unat_eq_iff unat_drop_bit_div)
  then have "drop_bit 60 (pt_token pt) = 8"
    by (simp add: pt_token_def)
  then show ?thesis
    by (simp add: pt_translate_eq find_vpn_eq root_from_token[OF b])
qed

lemma token_roundtrip_witness:
  "pt_translate (mem boot_pt_mm) (from_token (pt_token boot_pt)) (VirtPageNum 5) =
     pt_translate (mem boot_pt_mm) boot_pt (VirtPageNum 5)"
  using token_roundtrip[OF boot_pt_facts(1,2)] by blast

text \<open>
  \<open>translate_va\<close> of an address in a mapped page is the address with the same offset in the frame
  the page is mapped to.
\<close>

theorem translate_va_correct:
  assumes "pt_abs m pt (VirtAddr_floor va) = Some e"
  shows "translate_va m pt va =
    Inr (Some (PhysAddr (paddr (ppn_val (pte_ppn e)) (unat (va_val va) mod 4096))))"
  by (rule translate_va_abs[OF assms])

lemma translate_va_correct_witness:
  "\<exists>pt s. boot_map = Inr (pt, s) \<and> translate_va (mem s) pt (VirtAddr 0x10234) = Inr (Some (PhysAddr 0x80410234))"
proof -
  obtain pt s where b: "boot_map = Inr (pt, s)" "mm_inv 0x80400 s" "pt_inv 0x80400 s pt"
    "pt_abs (mem s) pt = [VirtPageNum 0x10 \<mapsto> PageTableEntry_new (PhysPageNum 0x80410) (PTE_R OR PTE_V)]"
    "31741 \<le> avail s" by (rule boot_map_facts)
  have "pt_abs (mem s) pt (VirtAddr_floor (VirtAddr 0x10234)) = Some (PageTableEntry_new (PhysPageNum 0x80410) (PTE_R OR PTE_V))"
    by (simp add: b(4) address_defs)
  from translate_va_correct[OF this] show ?thesis
    using b(1) by (auto simp: pte_ppn_new paddr_def)
qed

text \<open>
  dropping a page table never panics and gives back exactly the frames of its tables.
\<close>

theorem drop_PageTable_correct:
  assumes "mm_inv l s" "pt_inv l s pt"
  shows "\<exists>s'. drop_PageTable pt s = Inr ((), s') \<and> mm_inv l s' \<and> mem s' = mem s \<and>
    live l s' = live l s - pt_owned pt \<and> avail s' = avail s + length (pt_frames pt)"
proof -
  have "wp (drop_PageTable pt) (\<lambda>_ s'. mm_inv l s' \<and> mem s' = mem s \<and> live l s' = live l s - pt_owned pt \<and>
      avail s' = avail s + length (pt_frames pt)) (\<lambda>_. False) s"
    by (rule wp_drop_PageTable[OF assms]) simp
  from wp_no_panicD[OF this] show ?thesis by auto
qed

lemma drop_PageTable_correct_witness:
  "\<exists>s'. drop_PageTable boot_pt boot_pt_mm = Inr ((), s') \<and> avail s' = 31744"
  using drop_PageTable_correct[OF boot_pt_facts(1,2)] by (auto simp: boot_pt_facts(4) boot_pt_def)

end
