(* ===== verification/Map_Area.thy ===== *)
theory Map_Area
  imports Page_Table_Ops
begin

text \<open>
  \<^verbatim>\<open>MapArea\<close> of \<^verbatim>\<open>src/mm/memory_set.rs\<close>: a contiguous range of virtual pages, mapped either
  identically or to frames that the area owns. The page table an operation works on is threaded
  through it. Dropping an area drops the frames it owns, in key order.
\<close>

section \<open>Data\<close>

datatype MapType = Identical | Framed

type_synonym MapPermission = u8

definition MP_R :: MapPermission where "MP_R = push_bit 1 1"
definition MP_W :: MapPermission where "MP_W = push_bit 2 1"
definition MP_X :: MapPermission where "MP_X = push_bit 3 1"
definition MP_U :: MapPermission where "MP_U = push_bit 4 1"

record MapArea =
  vpn_range :: VPNRange
  data_frames :: "(VirtPageNum \<times> FrameTracker) list"
  map_type :: MapType
  map_perm :: MapPermission

definition MapArea_new :: "VirtAddr \<Rightarrow> VirtAddr \<Rightarrow> MapType \<Rightarrow> MapPermission \<Rightarrow> panic + MapArea" where
  "MapArea_new start_va end_va mtype mperm =
     map_sum id (\<lambda>r. \<lparr>vpn_range = r, data_frames = [], map_type = mtype, map_perm = mperm\<rparr>)
       (SimpleRange_new (VirtAddr_floor start_va) (VirtAddr_ceil end_va))"

definition area_get_start :: "MapArea \<Rightarrow> VirtPageNum" where
  "area_get_start a = get_start (vpn_range a)"

definition area_get_end :: "MapArea \<Rightarrow> VirtPageNum" where
  "area_get_end a = get_end (vpn_range a)"

definition vpn_len :: "MapArea \<Rightarrow> usize" where
  "vpn_len a = vpn_val (get_end (vpn_range a)) - vpn_val (get_start (vpn_range a)) + 1"

definition from_another :: "MapArea \<Rightarrow> panic + MapArea" where
  "from_another another =
     map_sum id (\<lambda>r. \<lparr>vpn_range = r, data_frames = [], map_type = map_type another, map_perm = map_perm another\<rparr>)
       (SimpleRange_new (get_start (vpn_range another)) (get_end (vpn_range another)))"

section \<open>Mapping and unmapping\<close>

text \<open>The value a \<^verbatim>\<open>BTreeMap\<close> operation hands back is dropped where the source ignores it.\<close>

definition drop_old :: "FrameTracker option \<Rightarrow> (mm_state, unit) km" where
  "drop_old old = (case old of None \<Rightarrow> kreturn () | Some ft \<Rightarrow> drop_FrameTracker ft)"

definition map_one :: "MapArea \<Rightarrow> PageTable \<Rightarrow> VirtPageNum \<Rightarrow> (mm_state, MapArea \<times> PageTable) km" where
  "map_one a pt vpn =
     kbind (case map_type a of
         Identical \<Rightarrow> kreturn (PhysPageNum (vpn_val vpn), a)
       | Framed \<Rightarrow>
           kbind (kbind frame_alloc (kunwrap OutOfFrames)) (\<lambda>frame.
           let (old, df) = bt_insert vpn frame (data_frames a) in
           kbind (drop_old old) (\<lambda>_.
           kreturn (ft_ppn frame, a\<lparr>data_frames := df\<rparr>)))) (\<lambda>(ppn, a').
     kbind (kunwrap UnwrapNone (PTEFlags_from_bits (map_perm a'))) (\<lambda>flags.
     kbind (pt_map pt vpn ppn flags) (\<lambda>pt'.
     kreturn (a', pt'))))"

definition unmap_one :: "MapArea \<Rightarrow> PageTable \<Rightarrow> VirtPageNum \<Rightarrow> (mm_state, MapArea \<times> PageTable) km" where
  "unmap_one a pt vpn =
     kbind (case map_type a of
         Framed \<Rightarrow>
           let (old, df) = bt_remove vpn (data_frames a) in
           kbind (drop_old old) (\<lambda>_. kreturn (a\<lparr>data_frames := df\<rparr>))
       | Identical \<Rightarrow> kreturn a) (\<lambda>a'.
     kbind (pt_unmap pt vpn) (\<lambda>pt'.
     kreturn (a', pt')))"

definition area_map :: "MapArea \<Rightarrow> PageTable \<Rightarrow> (mm_state, MapArea \<times> PageTable) km" where
  "area_map a pt = for_loop (vpns_of (vpn_range a)) (\<lambda>vpn (a, pt). map_one a pt vpn) (a, pt)"

definition area_unmap :: "MapArea \<Rightarrow> PageTable \<Rightarrow> (mm_state, MapArea \<times> PageTable) km" where
  "area_unmap a pt = for_loop (vpns_of (vpn_range a)) (\<lambda>vpn (a, pt). unmap_one a pt vpn) (a, pt)"

definition area_shrink_to :: "MapArea \<Rightarrow> PageTable \<Rightarrow> VirtPageNum \<Rightarrow> (mm_state, MapArea \<times> PageTable) km" where
  "area_shrink_to a pt new_end =
     kbind (klift (SimpleRange_new new_end (get_end (vpn_range a)))) (\<lambda>r.
     kbind (for_loop (vpns_of r) (\<lambda>vpn (a, pt). unmap_one a pt vpn) (a, pt)) (\<lambda>(a', pt').
     kbind (klift (SimpleRange_new (get_start (vpn_range a')) new_end)) (\<lambda>r'.
     kreturn (a'\<lparr>vpn_range := r'\<rparr>, pt'))))"

definition area_append_to :: "MapArea \<Rightarrow> PageTable \<Rightarrow> VirtPageNum \<Rightarrow> (mm_state, MapArea \<times> PageTable) km" where
  "area_append_to a pt new_end =
     kbind (klift (SimpleRange_new (get_end (vpn_range a)) new_end)) (\<lambda>r.
     kbind (for_loop (vpns_of r) (\<lambda>vpn (a, pt). map_one a pt vpn) (a, pt)) (\<lambda>(a', pt').
     kbind (klift (SimpleRange_new (get_start (vpn_range a')) new_end)) (\<lambda>r'.
     kreturn (a'\<lparr>vpn_range := r'\<rparr>, pt'))))"

definition drop_MapArea :: "MapArea \<Rightarrow> (mm_state, unit) km" where
  "drop_MapArea a = drop_frames (map snd (data_frames a))"

section \<open>Copying data into an area\<close>

text \<open>
  \<^verbatim>\<open>dst.copy_from_slice(src)\<close> for the first \<open>length src\<close> bytes of a page, which the source gets as
  \<^verbatim>\<open>get_bytes_array()[..src.len()]\<close>.
\<close>

definition copy_to_page :: "PhysPageNum \<Rightarrow> u8 list \<Rightarrow> (mm_state, unit) km" where
  "copy_to_page p src =
     kbind (kassert SliceIndex (length src \<le> slice_len (get_bytes_array p))) (\<lambda>_.
     kmodify (\<lambda>s. s\<lparr>mem := write_bytes (mem s) (slice_ptr (get_bytes_array p)) src\<rparr>))"

text \<open>
  The loop of \<open>copy_data\<close>. Its variable \<open>start\<close> stays below the length of a slice plus a page, so
  it does not wrap.
\<close>

function copy_data_loop :: "PageTable \<Rightarrow> u8 list \<Rightarrow> nat \<Rightarrow> VirtPageNum \<Rightarrow> (mm_state, unit) km" where
  "copy_data_loop pt data start current_vpn =
     kbind (kassert SliceIndex (start \<le> min (length data) (start + unat PAGE_SIZE))) (\<lambda>_.
     let src = take (min (length data) (start + unat PAGE_SIZE) - start) (drop start data) in
     kbind (kget (\<lambda>s. pt_translate (mem s) pt current_vpn)) (\<lambda>r.
     kbind (klift r) (\<lambda>o1.
     kbind (kunwrap UnwrapNone o1) (\<lambda>pte.
     kbind (copy_to_page (pte_ppn pte) src) (\<lambda>_.
     if start + unat PAGE_SIZE \<ge> length data then kreturn ()
     else copy_data_loop pt data (start + unat PAGE_SIZE) (vpn_step current_vpn))))))"
  by pat_completeness auto
termination
  by (relation "measure (\<lambda>(pt, data, start, vpn). length data - start)") (auto simp: PAGE_SIZE_def)

declare copy_data_loop.simps [simp del]

definition copy_data :: "MapArea \<Rightarrow> PageTable \<Rightarrow> u8 list \<Rightarrow> (mm_state, unit) km" where
  "copy_data a pt data =
     kbind (kassert AssertFailed (map_type a = Framed)) (\<lambda>_.
     copy_data_loop pt data 0 (get_start (vpn_range a)))"

section \<open>Checking for mapped pages\<close>

text \<open>The loops return as soon as they know the answer.\<close>

fun check_mapping_loop :: "mem \<Rightarrow> PageTable \<Rightarrow> VirtPageNum list \<Rightarrow> panic + bool" where
  "check_mapping_loop m pt [] = Inr False"
| "check_mapping_loop m pt (vpn # vpns) =
     (case find_vpn m pt vpn of
        Inl e \<Rightarrow> Inl e
      | Inr b \<Rightarrow> if b then Inr True else check_mapping_loop m pt vpns)"

fun check_unmapping_loop :: "mem \<Rightarrow> PageTable \<Rightarrow> VirtPageNum list \<Rightarrow> panic + bool" where
  "check_unmapping_loop m pt [] = Inr False"
| "check_unmapping_loop m pt (vpn # vpns) =
     (case find_vpn m pt vpn of
        Inl e \<Rightarrow> Inl e
      | Inr b \<Rightarrow> if \<not> b then Inr True else check_unmapping_loop m pt vpns)"

definition check_mapping :: "mem \<Rightarrow> MapArea \<Rightarrow> PageTable \<Rightarrow> panic + bool" where
  "check_mapping m a pt = check_mapping_loop m pt (vpns_of (vpn_range a))"

definition check_unmapping :: "mem \<Rightarrow> MapArea \<Rightarrow> PageTable \<Rightarrow> panic + bool" where
  "check_unmapping m a pt = check_unmapping_loop m pt (vpns_of (vpn_range a))"

text \<open>The two wrappers of \<^verbatim>\<open>src/mm/page_table.rs\<close> that build the page table from a token.\<close>

definition check_map_area_mapping :: "mem \<Rightarrow> usize \<Rightarrow> MapArea \<Rightarrow> panic + bool" where
  "check_map_area_mapping m token a = check_mapping m a (from_token token)"

definition check_map_area_unmapping :: "mem \<Rightarrow> usize \<Rightarrow> MapArea \<Rightarrow> panic + bool" where
  "check_map_area_unmapping m token a = check_unmapping m a (from_token token)"

end
