(* ===== verification/Memory_Set.thy ===== *)
theory Memory_Set
  imports Map_Area
begin

text \<open>
  \<^verbatim>\<open>MemorySet\<close> of \<^verbatim>\<open>src/mm/memory_set.rs\<close>: an address space as a page table and the areas mapped
  in it. The linker's symbols and the ELF parser (the crate \<^verbatim>\<open>xmas_elf\<close>) are parameters. Dropping an
  address space drops its fields in order: the frames of the tables, then the areas.
\<close>

section \<open>Data\<close>

record MemorySet =
  page_table :: PageTable
  areas :: "MapArea list"

text \<open>The addresses the linker script defines.\<close>

record linker_symbols =
  stext :: usize
  etext :: usize
  srodata :: usize
  erodata :: usize
  sdata :: usize
  edata :: usize
  sbss_with_stack :: usize
  ebss :: usize
  ekernel :: usize
  strampoline :: usize

text \<open>What the kernel reads of a parsed ELF file; every getter that the source unwraps is an option.\<close>

datatype ph_type = PT_Load | PT_Other

record elf_ph =
  ph_get_type :: "ph_type option"
  ph_virtual_addr :: usize
  ph_mem_size :: usize
  ph_offset :: usize
  ph_file_size :: usize
  ph_is_read :: bool
  ph_is_write :: bool
  ph_is_execute :: bool

record elf_file =
  elf_magic :: "u8 list"
  elf_ph_count :: nat
  elf_program_header :: "nat \<Rightarrow> elf_ph option"
  elf_entry_point :: usize
  elf_input :: "u8 list"

type_synonym elf_parser = "u8 list \<Rightarrow> elf_file option"

section \<open>Building an address space\<close>

definition new_bare :: "(mm_state, MemorySet) km" where
  "new_bare = kbind PageTable_new (\<lambda>pt. kreturn \<lparr>page_table = pt, areas = []\<rparr>)"

definition ms_push :: "MemorySet \<Rightarrow> MapArea \<Rightarrow> u8 list option \<Rightarrow> (mm_state, MemorySet) km" where
  "ms_push ms a data =
     kbind (area_map a (page_table ms)) (\<lambda>(a', pt').
     kbind (case data of Some d \<Rightarrow> copy_data a' pt' d | None \<Rightarrow> kreturn ()) (\<lambda>_.
     kreturn (ms\<lparr>page_table := pt', areas := vec_push (areas ms) a'\<rparr>)))"

definition insert_framed_area ::
    "MemorySet \<Rightarrow> VirtAddr \<Rightarrow> VirtAddr \<Rightarrow> MapPermission \<Rightarrow> (mm_state, MemorySet) km" where
  "insert_framed_area ms start_va end_va permission =
     kbind (klift (MapArea_new start_va end_va Framed permission)) (\<lambda>a. ms_push ms a None)"

definition map_trampoline :: "linker_symbols \<Rightarrow> MemorySet \<Rightarrow> (mm_state, MemorySet) km" where
  "map_trampoline ld ms =
     kbind (klift (vpn_from_va (va_from_usize TRAMPOLINE))) (\<lambda>vpn.
     kbind (klift (ppn_from_pa (pa_from_usize (strampoline ld)))) (\<lambda>ppn.
     kbind (pt_map (page_table ms) vpn ppn (PTE_R OR PTE_X)) (\<lambda>pt'.
     kreturn (ms\<lparr>page_table := pt'\<rparr>))))"

text \<open>One \<^verbatim>\<open>memory_set.push(MapArea::new(.., MapType::Identical, ..), None)\<close> of \<open>new_kernel\<close>.\<close>

definition push_identical :: "usize \<Rightarrow> usize \<Rightarrow> MapPermission \<Rightarrow> MemorySet \<Rightarrow> (mm_state, MemorySet) km" where
  "push_identical lo hi perm ms =
     kbind (klift (MapArea_new (va_from_usize lo) (va_from_usize hi) Identical perm)) (\<lambda>a. ms_push ms a None)"

definition new_kernel :: "linker_symbols \<Rightarrow> (mm_state, MemorySet) km" where
  "new_kernel ld =
     kbind new_bare (\<lambda>ms.
     kbind (map_trampoline ld ms) (\<lambda>ms.
     kbind (push_identical (stext ld) (etext ld) (MP_R OR MP_X) ms) (\<lambda>ms.
     kbind (push_identical (srodata ld) (erodata ld) MP_R ms) (\<lambda>ms.
     kbind (push_identical (sdata ld) (edata ld) MP_R ms) (\<lambda>ms.
     kbind (push_identical (sbss_with_stack ld) (ebss ld) (MP_R OR MP_W) ms) (\<lambda>ms.
     kbind (push_identical (ekernel ld) MEMORY_END (MP_R OR MP_W) ms) (\<lambda>ms.
     for_loop MMIO (\<lambda>pair ms. push_identical (fst pair) (fst pair + snd pair) (MP_R OR MP_W) ms) ms)))))))"

text \<open>\<^verbatim>\<open>&elf.input[lo..hi]\<close>\<close>

definition slice_input :: "u8 list \<Rightarrow> usize \<Rightarrow> usize \<Rightarrow> panic + u8 list" where
  "slice_input xs lo hi =
     (if lo \<le> hi \<and> unat hi \<le> length xs then Inr (take (unat hi - unat lo) (drop (unat lo) xs)) else Inl SliceIndex)"

definition elf_perm :: "elf_ph \<Rightarrow> MapPermission" where
  "elf_perm ph =
     (let perm = MP_U;
          perm = (if ph_is_read ph then perm OR MP_R else perm);
          perm = (if ph_is_write ph then perm OR MP_W else perm)
      in if ph_is_execute ph then perm OR MP_X else perm)"

text \<open>The body of the loop over the program headers.\<close>

definition load_segment ::
    "elf_file \<Rightarrow> nat \<Rightarrow> MemorySet \<times> VirtPageNum \<Rightarrow> (mm_state, MemorySet \<times> VirtPageNum) km" where
  "load_segment elf i = (\<lambda>(ms, max_end_vpn).
     kbind (kunwrap UnwrapNone (elf_program_header elf i)) (\<lambda>ph.
     kbind (kunwrap UnwrapNone (ph_get_type ph)) (\<lambda>ty.
     if ty = PT_Load then
       kbind (klift (MapArea_new (va_from_usize (ph_virtual_addr ph))
                (va_from_usize (ph_virtual_addr ph + ph_mem_size ph)) Framed (elf_perm ph))) (\<lambda>a.
       kbind (klift (slice_input (elf_input elf) (ph_offset ph) (ph_offset ph + ph_file_size ph))) (\<lambda>data.
       kbind (ms_push ms a (Some data)) (\<lambda>ms'.
       kreturn (ms', get_end (vpn_range a)))))
     else kreturn (ms, max_end_vpn))))"

definition push_framed :: "usize \<Rightarrow> usize \<Rightarrow> MapPermission \<Rightarrow> MemorySet \<Rightarrow> (mm_state, MemorySet) km" where
  "push_framed lo hi perm ms =
     kbind (klift (MapArea_new (va_from_usize lo) (va_from_usize hi) Framed perm)) (\<lambda>a. ms_push ms a None)"

definition from_elf ::
    "linker_symbols \<Rightarrow> elf_parser \<Rightarrow> u8 list \<Rightarrow> (mm_state, MemorySet \<times> usize \<times> usize) km" where
  "from_elf ld parse elf_data =
     kbind new_bare (\<lambda>ms.
     kbind (map_trampoline ld ms) (\<lambda>ms.
     kbind (kunwrap UnwrapNone (parse elf_data)) (\<lambda>elf.
     kbind (kassert AssertFailed (elf_magic elf = [0x7f, 0x45, 0x4c, 0x46])) (\<lambda>_.
     kbind (for_loop [0..<elf_ph_count elf] (load_segment elf) (ms, VirtPageNum 0)) (\<lambda>(ms, max_end_vpn).
     let user_stack_bottom = va_val (va_from_vpn max_end_vpn) + PAGE_SIZE;
         user_stack_top = user_stack_bottom + USER_STACK_SIZE
     in
     kbind (push_framed user_stack_bottom user_stack_top (MP_R OR MP_W OR MP_U) ms) (\<lambda>ms.
     kbind (push_framed user_stack_top user_stack_top (MP_R OR MP_W OR MP_U) ms) (\<lambda>ms.
     kbind (push_framed TRAP_CONTEXT_BASE TRAMPOLINE (MP_R OR MP_W) ms) (\<lambda>ms.
     kreturn (ms, user_stack_top, elf_entry_point elf)))))))))"

section \<open>Using and changing an address space\<close>

definition ms_token :: "MemorySet \<Rightarrow> usize" where
  "ms_token ms = pt_token (page_table ms)"

definition ms_translate :: "mem \<Rightarrow> MemorySet \<Rightarrow> VirtPageNum \<Rightarrow> panic + PageTableEntry option" where
  "ms_translate m ms vpn = pt_translate m (page_table ms) vpn"

text \<open>\<^verbatim>\<open>Vec::clear\<close> drops the areas in order.\<close>

definition drop_areas :: "MapArea list \<Rightarrow> (mm_state, unit) km" where
  "drop_areas as = for_loop as (\<lambda>a _. drop_MapArea a) ()"

definition recycle_data_pages :: "MemorySet \<Rightarrow> (mm_state, MemorySet) km" where
  "recycle_data_pages ms = kbind (drop_areas (areas ms)) (\<lambda>_. kreturn (ms\<lparr>areas := []\<rparr>))"

definition drop_MemorySet :: "MemorySet \<Rightarrow> (mm_state, unit) km" where
  "drop_MemorySet ms = kbind (drop_PageTable (page_table ms)) (\<lambda>_. drop_areas (areas ms))"

text \<open>
  \<^verbatim>\<open>retain_mut\<close> visits the areas in order, keeps those for which the closure answers true and drops
  the others at once.
\<close>

fun munmap_loop ::
    "VirtPageNum \<Rightarrow> VirtPageNum \<Rightarrow> MapArea list \<Rightarrow> MapArea list \<Rightarrow> PageTable \<Rightarrow> (mm_state, MapArea list \<times> PageTable) km" where
  "munmap_loop start_vpn end_vpn [] kept pt = kreturn (kept, pt)"
| "munmap_loop start_vpn end_vpn (a # as) kept pt =
     (if end_vpn \<le> area_get_end a \<and> start_vpn \<ge> area_get_start a
      then kbind (area_unmap a pt) (\<lambda>(a', pt').
           kbind (drop_MapArea a') (\<lambda>_.
           munmap_loop start_vpn end_vpn as kept pt'))
      else munmap_loop start_vpn end_vpn as (kept @ [a]) pt)"

definition munmap_area :: "MemorySet \<Rightarrow> VirtAddr \<Rightarrow> VirtAddr \<Rightarrow> (mm_state, MemorySet) km" where
  "munmap_area ms start_va end_va =
     kbind (munmap_loop (VirtAddr_floor start_va) (VirtAddr_ceil end_va) (areas ms) [] (page_table ms)) (\<lambda>(as, pt).
     kreturn (ms\<lparr>page_table := pt, areas := as\<rparr>))"

text \<open>The index of the first element with a property, for \<^verbatim>\<open>iter_mut().enumerate().find(..)\<close>.\<close>

fun find_index :: "('a \<Rightarrow> bool) \<Rightarrow> 'a list \<Rightarrow> nat option" where
  "find_index P [] = None"
| "find_index P (x # xs) = (if P x then Some 0 else map_option Suc (find_index P xs))"

definition vec_remove :: "nat \<Rightarrow> 'a list \<Rightarrow> 'a list" where
  "vec_remove i xs = take i xs @ drop (Suc i) xs"

definition remove_area_with_start_vpn :: "MemorySet \<Rightarrow> VirtPageNum \<Rightarrow> (mm_state, MemorySet) km" where
  "remove_area_with_start_vpn ms start_vpn =
     (case find_index (\<lambda>a. get_start (vpn_range a) = start_vpn) (areas ms) of
        None \<Rightarrow> kreturn ms
      | Some idx \<Rightarrow>
          kbind (area_unmap (areas ms ! idx) (page_table ms)) (\<lambda>(a', pt').
          kbind (drop_MapArea a') (\<lambda>_.
          kreturn (ms\<lparr>page_table := pt', areas := vec_remove idx (areas ms)\<rparr>))))"

definition ms_shrink_to :: "MemorySet \<Rightarrow> VirtAddr \<Rightarrow> VirtAddr \<Rightarrow> (mm_state, bool \<times> MemorySet) km" where
  "ms_shrink_to ms start new_end =
     (case find_index (\<lambda>a. get_start (vpn_range a) = VirtAddr_floor start) (areas ms) of
        None \<Rightarrow> kreturn (False, ms)
      | Some idx \<Rightarrow>
          kbind (area_shrink_to (areas ms ! idx) (page_table ms) (VirtAddr_ceil new_end)) (\<lambda>(a', pt').
          kreturn (True, ms\<lparr>page_table := pt', areas := (areas ms)[idx := a']\<rparr>)))"

definition ms_append_to :: "MemorySet \<Rightarrow> VirtAddr \<Rightarrow> VirtAddr \<Rightarrow> (mm_state, bool \<times> MemorySet) km" where
  "ms_append_to ms start new_end =
     (case find_index (\<lambda>a. get_start (vpn_range a) = VirtAddr_floor start) (areas ms) of
        None \<Rightarrow> kreturn (False, ms)
      | Some idx \<Rightarrow>
          kbind (area_append_to (areas ms ! idx) (page_table ms) (VirtAddr_ceil new_end)) (\<lambda>(a', pt').
          kreturn (True, ms\<lparr>page_table := pt', areas := (areas ms)[idx := a']\<rparr>)))"

section \<open>Copying an address space\<close>

text \<open>\<^verbatim>\<open>dst_ppn.get_bytes_array().copy_from_slice(src_ppn.get_bytes_array())\<close>\<close>

definition copy_page :: "PhysPageNum \<Rightarrow> PhysPageNum \<Rightarrow> (mm_state, unit) km" where
  "copy_page src dst =
     kmodify (\<lambda>s. s\<lparr>mem := write_bytes (mem s) (slice_ptr (get_bytes_array dst))
       (read_bytes (mem s) (slice_ptr (get_bytes_array src)) (slice_len (get_bytes_array src)))\<rparr>)"

definition translate_unwrap :: "MemorySet \<Rightarrow> VirtPageNum \<Rightarrow> (mm_state, PageTableEntry) km" where
  "translate_unwrap ms vpn =
     kbind (kget (\<lambda>s. ms_translate (mem s) ms vpn)) (\<lambda>r.
     kbind (klift r) (kunwrap UnwrapNone))"

definition copy_one_page :: "MemorySet \<Rightarrow> MemorySet \<Rightarrow> VirtPageNum \<Rightarrow> (mm_state, unit) km" where
  "copy_one_page user_space ms vpn =
     kbind (translate_unwrap user_space vpn) (\<lambda>src.
     kbind (translate_unwrap ms vpn) (\<lambda>dst.
     copy_page (pte_ppn src) (pte_ppn dst)))"

definition copy_area :: "MemorySet \<Rightarrow> MapArea \<Rightarrow> MemorySet \<Rightarrow> (mm_state, MemorySet) km" where
  "copy_area user_space a ms =
     kbind (klift (from_another a)) (\<lambda>new_area.
     kbind (ms_push ms new_area None) (\<lambda>ms'.
     kbind (for_loop (vpns_of (vpn_range a)) (\<lambda>vpn _. copy_one_page user_space ms' vpn) ()) (\<lambda>_.
     kreturn ms')))"

definition from_existed_user :: "linker_symbols \<Rightarrow> MemorySet \<Rightarrow> (mm_state, MemorySet) km" where
  "from_existed_user ld user_space =
     kbind new_bare (\<lambda>ms.
     kbind (map_trampoline ld ms) (\<lambda>ms.
     for_loop (areas user_space) (copy_area user_space) ms))"

section \<open>The self test of the kernel space\<close>

definition remap_test :: "linker_symbols \<Rightarrow> MemorySet \<Rightarrow> (mm_state, unit) km" where
  "remap_test ld kernel_space =
     (let mid_text = va_from_usize ((stext ld + etext ld) div 2);
          mid_rodata = va_from_usize ((srodata ld + erodata ld) div 2);
          mid_data = va_from_usize ((sdata ld + edata ld) div 2)
      in
      kbind (translate_unwrap kernel_space (VirtAddr_floor mid_text)) (\<lambda>e.
      kbind (kassert AssertFailed (\<not> is_writable e)) (\<lambda>_.
      kbind (translate_unwrap kernel_space (VirtAddr_floor mid_rodata)) (\<lambda>e.
      kbind (kassert AssertFailed (\<not> is_writable e)) (\<lambda>_.
      kbind (translate_unwrap kernel_space (VirtAddr_floor mid_data)) (\<lambda>e.
      kassert AssertFailed (\<not> is_executable e)))))))"

end
