(* ===== verification/Map_Area_Spec.thy ===== *)
theory Map_Area_Spec
  imports Map_Area "HOL-Library.Multiset"
begin

text \<open>
  What mapping and unmapping the pages of an area does to the machine. \<open>own_step\<close> is the frame
  rule of the development: a computation that owns some live frames may change these, take new ones
  and give some back, and leaves every other live frame alone. \<open>area_mapped\<close> and \<open>area_unmapped\<close>
  are the contracts of the loops over \<open>map_one\<close> and \<open>unmap_one\<close>.
\<close>

section \<open>Ownership\<close>

definition own_step :: "usize \<Rightarrow> mm_state \<Rightarrow> PhysPageNum set \<Rightarrow> mm_state \<Rightarrow> PhysPageNum set \<Rightarrow> bool" where
  "own_step l s Own s' Own' \<longleftrightarrow> mm_inv l s \<and> mm_inv l s' \<and> Own \<subseteq> live l s \<and>
     Own' \<inter> (live l s - Own) = {} \<and> live l s' = (live l s - Own) \<union> Own' \<and>
     avail s + card Own = avail s' + card Own' \<and> same_pages (live l s - Own) (mem s) (mem s')"

lemma finite_live: "mm_inv l s \<Longrightarrow> finite (live l s)"
  using fa_conservation(1)[of l "FRAME_ALLOCATOR s"] by (simp add: mm_inv_def live_def)

lemma own_step_finite: "own_step l s Own s' Own' \<Longrightarrow> finite Own \<and> finite Own'"
  using finite_live[of l s] finite_live[of l s'] by (auto simp: own_step_def intro: finite_subset)

lemma own_step_refl: "mm_inv l s \<Longrightarrow> Own \<subseteq> live l s \<Longrightarrow> own_step l s Own s Own"
  by (auto simp: own_step_def)

lemma own_step_trans:
  assumes "own_step l s Own s1 Own1" "own_step l s1 Own1 s2 Own2"
  shows "own_step l s Own s2 Own2"
proof -
  have rest: "live l s1 - Own1 = live l s - Own"
    using assms(1) by (auto simp: own_step_def)
  then show ?thesis
    using assms by (auto simp: own_step_def intro: same_pages_trans)
qed

lemma own_step_frame:
  assumes "own_step l s Own s' Own'" "R \<subseteq> live l s" "R \<inter> Own = {}"
  shows "own_step l s (Own \<union> R) s' (Own' \<union> R)" "same_pages R (mem s) (mem s')" "R \<inter> Own' = {}"
    "R \<subseteq> live l s'"
proof -
  have fin: "finite Own" "finite Own'" "finite R"
    using own_step_finite[OF assms(1)] assms(1,2) finite_live[of l s]
    by (auto simp: own_step_def intro: finite_subset)
  show R': "R \<inter> Own' = {}" using assms by (auto simp: own_step_def)
  have cards: "card (Own \<union> R) = card Own + card R" "card (Own' \<union> R) = card Own' + card R"
    using fin assms(3) R' by (auto intro!: card_Un_disjoint)
  show "same_pages R (mem s) (mem s')"
    using assms by (auto simp: own_step_def intro: same_pages_mono)
  show "R \<subseteq> live l s'" using assms by (auto simp: own_step_def)
  have "live l s - (Own \<union> R) \<subseteq> live l s - Own" by auto
  then have "same_pages (live l s - (Own \<union> R)) (mem s) (mem s')"
    using assms(1) by (auto simp: own_step_def intro: same_pages_mono)
  then show "own_step l s (Own \<union> R) s' (Own' \<union> R)"
    using assms by (auto simp: own_step_def cards)
qed

lemma card_pt_owned: "pt_inv l s pt \<Longrightarrow> card (pt_owned pt) = length (pt_frames pt)"
  unfolding pt_inv_def pt_owned_def by (metis distinct_card length_map list.set_map)

lemma pt_ext_own:
  assumes "mm_inv l s" "pt_inv l s pt" "pt_ext l s pt s' pt'"
  shows "own_step l s (pt_owned pt) s' (pt_owned pt')"
proof -
  obtain N where N: "pt_owned pt' = pt_owned pt \<union> N" "N \<inter> live l s = {}" "live l s' = live l s \<union> N"
    by (rule pt_extE[OF assms(3)])
  have inv': "pt_inv l s' pt'" "mm_inv l s'" "same_pages (live l s - pt_owned pt) (mem s) (mem s')"
    using assms(3) by (simp_all add: pt_ext_def)
  have "avail s + card (pt_owned pt) = avail s' + card (pt_owned pt')"
    using pt_ext_avail[OF assms(3)] card_pt_owned[OF assms(2)] card_pt_owned[OF inv'(1)] by simp
  moreover have "pt_owned pt \<subseteq> live l s" using assms(2) by (simp add: pt_inv_def)
  ultimately show ?thesis
    using assms(1) inv' N by (auto simp: own_step_def)
qed

section \<open>What an area maps\<close>

definition area_ppns :: "MapArea \<Rightarrow> PhysPageNum list" where
  "area_ppns a = map (\<lambda>kv. ft_ppn (snd kv)) (data_frames a)"

definition area_ppn :: "MapArea \<Rightarrow> VirtPageNum \<Rightarrow> PhysPageNum option" where
  "area_ppn a v = (case map_type a of Identical \<Rightarrow> Some (PhysPageNum (vpn_val v))
     | Framed \<Rightarrow> map_option ft_ppn (map_of (data_frames a) v))"

definition area_entry :: "MapArea \<Rightarrow> VirtPageNum \<Rightarrow> PageTableEntry option" where
  "area_entry a v = map_option (\<lambda>p. PageTableEntry_new p (map_perm a OR PTE_V)) (area_ppn a v)"

text \<open>\<open>area_ok vs a\<close>: the pages \<open>vs\<close> are the ones the area has mapped.\<close>

definition area_ok :: "VirtPageNum set \<Rightarrow> MapArea \<Rightarrow> bool" where
  "area_ok vs a \<longleftrightarrow> bt_wf (data_frames a) \<and> distinct (area_ppns a) \<and>
     (case map_type a of Identical \<Rightarrow> data_frames a = [] | Framed \<Rightarrow> fst ` set (data_frames a) = vs)"

definition page_zero :: "mem \<Rightarrow> PhysPageNum \<Rightarrow> bool" where
  "page_zero m p \<longleftrightarrow> (\<forall>k < 4096. m (paddr (ppn_val p) k) = 0)"

lemma page_zero_same: "page_zero m p \<Longrightarrow> same_pages S m m' \<Longrightarrow> p \<in> S \<Longrightarrow> page_zero m' p"
  by (auto simp: page_zero_def same_pages_def page_eq_def)

lemma mset_bt_insert:
  "k \<notin> fst ` set m \<Longrightarrow> mset (snd (bt_insert k v m)) = add_mset (k, v) (mset m)"
  by (induction k v m rule: bt_insert.induct) (auto simp: case_prod_beta)

lemma mset_bt_remove:
  "map_of m k = Some v \<Longrightarrow> add_mset (k, v) (mset (snd (bt_remove k m))) = mset m"
  by (induction k m rule: bt_remove.induct) (auto simp: case_prod_beta split: if_splits)

lemma distinct_map_mset: "mset xs = mset ys \<Longrightarrow> distinct (map f xs) \<longleftrightarrow> distinct (map f ys)"
  by (metis mset_eq_imp_distinct_iff mset_map)

lemma area_ppns_insert:
  assumes "v \<notin> fst ` set (data_frames a)" "a' = a\<lparr>data_frames := snd (bt_insert v ft (data_frames a))\<rparr>"
  shows "set (area_ppns a') = insert (ft_ppn ft) (set (area_ppns a))"
    "distinct (area_ppns a') \<longleftrightarrow> distinct (area_ppns a) \<and> ft_ppn ft \<notin> set (area_ppns a)"
proof -
  have m: "mset (data_frames a') = mset ((v, ft) # data_frames a)"
    using mset_bt_insert[OF assms(1)] by (simp add: assms(2))
  show "set (area_ppns a') = insert (ft_ppn ft) (set (area_ppns a))"
    using mset_eq_setD[OF m] by (simp add: area_ppns_def)
  show "distinct (area_ppns a') \<longleftrightarrow> distinct (area_ppns a) \<and> ft_ppn ft \<notin> set (area_ppns a)"
    using distinct_map_mset[OF m, of "\<lambda>kv. ft_ppn (snd kv)"] by (simp add: area_ppns_def conj_commute)
qed

lemma area_ppns_remove:
  assumes "map_of (data_frames a) v = Some ft" "distinct (area_ppns a)"
    "a' = a\<lparr>data_frames := snd (bt_remove v (data_frames a))\<rparr>"
  shows "set (area_ppns a') = set (area_ppns a) - {ft_ppn ft}" "distinct (area_ppns a')"
    "ft_ppn ft \<in> set (area_ppns a)"
proof -
  have m: "mset ((v, ft) # data_frames a') = mset (data_frames a)"
    using mset_bt_remove[OF assms(1)] by (simp add: assms(3))
  have d: "distinct (ft_ppn ft # area_ppns a')"
    using distinct_map_mset[OF m, of "\<lambda>kv. ft_ppn (snd kv)"] assms(2) by (simp add: area_ppns_def)
  have "set (ft_ppn ft # area_ppns a') = set (area_ppns a)"
    using arg_cong[OF mset_eq_setD[OF m], of "image (\<lambda>kv. ft_ppn (snd kv))"] by (simp add: area_ppns_def)
  then show "set (area_ppns a') = set (area_ppns a) - {ft_ppn ft}" "ft_ppn ft \<in> set (area_ppns a)"
    using d by auto
  show "distinct (area_ppns a')" using d by simp
qed

section \<open>Mapping pages\<close>

definition area_mapped ::
    "usize \<Rightarrow> mm_state \<Rightarrow> MapArea \<Rightarrow> PageTable \<Rightarrow> VirtPageNum list \<Rightarrow> mm_state \<Rightarrow> MapArea \<Rightarrow> PageTable \<Rightarrow> bool" where
  "area_mapped l s a pt vs s' a' pt' \<longleftrightarrow>
     pt_inv l s' pt' \<and> root_ppn pt' = root_ppn pt \<and>
     own_step l s (pt_owned pt \<union> set (area_ppns a)) s' (pt_owned pt' \<union> set (area_ppns a')) \<and>
     a' = a\<lparr>data_frames := data_frames a'\<rparr> \<and> set (area_ppns a) \<subseteq> set (area_ppns a') \<and>
     set (area_ppns a') \<inter> pt_owned pt' = {} \<and>
     (\<forall>w. w \<notin> set vs \<longrightarrow> area_ppn a' w = area_ppn a w) \<and> set vs \<subseteq> dom (area_entry a') \<and>
     pt_abs (mem s') pt' = pt_abs (mem s) pt ++ (area_entry a' |` set vs) \<and>
     avail s \<le> avail s' + 3 * length vs \<and>
     same_pages (live l s - pt_owned pt) (mem s) (mem s') \<and>
     (\<forall>p \<in> set (area_ppns a') - set (area_ppns a). page_zero (mem s') p)"

lemma area_mappedD:
  assumes "area_mapped l s a pt vs s' a' pt'"
  shows "pt_inv l s' pt'" "root_ppn pt' = root_ppn pt"
    "own_step l s (pt_owned pt \<union> set (area_ppns a)) s' (pt_owned pt' \<union> set (area_ppns a'))"
    "a' = a\<lparr>data_frames := data_frames a'\<rparr>" "set (area_ppns a) \<subseteq> set (area_ppns a')"
    "set (area_ppns a') \<inter> pt_owned pt' = {}"
    "\<And>w. w \<notin> set vs \<Longrightarrow> area_ppn a' w = area_ppn a w" "set vs \<subseteq> dom (area_entry a')"
    "pt_abs (mem s') pt' = pt_abs (mem s) pt ++ (area_entry a' |` set vs)"
    "avail s \<le> avail s' + 3 * length vs"
    "same_pages (live l s - pt_owned pt) (mem s) (mem s')"
    "\<And>p. p \<in> set (area_ppns a') - set (area_ppns a) \<Longrightarrow> page_zero (mem s') p"
  using assms unfolding area_mapped_def by blast+

text \<open>What an area and its page table must satisfy before a page is mapped or unmapped.\<close>

definition area_inv :: "usize \<Rightarrow> mm_state \<Rightarrow> MapArea \<Rightarrow> PageTable \<Rightarrow> VirtPageNum set \<Rightarrow> bool" where
  "area_inv l s a pt vs \<longleftrightarrow> mm_inv l s \<and> pt_inv l s pt \<and> area_ok vs a \<and>
     set (area_ppns a) \<subseteq> live l s \<and> set (area_ppns a) \<inter> pt_owned pt = {}"

lemma area_mapped_Nil:
  "area_inv l s a pt vs \<Longrightarrow> area_mapped l s a pt [] s a pt"
  by (auto simp: area_mapped_def area_inv_def pt_inv_def intro!: own_step_refl)

lemma area_mapped_trans:
  assumes 1: "area_mapped l s a pt us s1 a1 pt1" and 2: "area_mapped l s1 a1 pt1 vs s2 a2 pt2"
    and disj: "set us \<inter> set vs = {}"
  shows "area_mapped l s a pt (us @ vs) s2 a2 pt2"
proof -
  note d1 = area_mappedD[OF 1] and d2 = area_mappedD[OF 2]
  have own: "own_step l s (pt_owned pt \<union> set (area_ppns a)) s2 (pt_owned pt2 \<union> set (area_ppns a2))"
    using own_step_trans[OF d1(3) d2(3)] .
  have "live l s - pt_owned pt \<subseteq> live l s1 - pt_owned pt1"
    using d1(3,5,6) by (auto simp: own_step_def)
  then have same: "same_pages (live l s - pt_owned pt) (mem s) (mem s2)"
    using same_pages_trans[OF d1(11) same_pages_mono[OF d2(11)]] by blast
  have perm: "map_perm a2 = map_perm a1" by (subst d2(4)) simp
  have keep: "area_ppn a2 w = area_ppn a1 w" if "w \<in> set us" for w
    using d2(7) disj that by blast
  have "area_entry a2 w = area_entry a1 w" if "w \<in> set us" for w
    using keep[OF that] perm by (simp add: area_entry_def)
  then have "area_entry a2 |` (set us \<union> set vs) = (area_entry a1 |` set us) ++ (area_entry a2 |` set vs)"
    using d2(8) by (auto simp: restrict_map_def map_add_def fun_eq_iff split: option.splits)
  then have abs: "pt_abs (mem s2) pt2 = pt_abs (mem s) pt ++ (area_entry a2 |` set (us @ vs))"
    using d1(9) d2(9) by simp
  have dom: "set (us @ vs) \<subseteq> dom (area_entry a2)"
    using d1(8) d2(8) keep by (auto simp: area_entry_def dom_def)
  have zero: "page_zero (mem s2) p" if "p \<in> set (area_ppns a2) - set (area_ppns a)" for p
  proof (cases "p \<in> set (area_ppns a1)")
    case True
    then have "page_zero (mem s1) p" "p \<in> live l s1 - pt_owned pt1"
      using that d1(3,6,12) by (auto simp: own_step_def)
    then show ?thesis using d2(11) page_zero_same by blast
  qed (use that d2(12) in blast)
  have static: "a2 = a\<lparr>data_frames := data_frames a2\<rparr>"
    by (subst d2(4), subst d1(4)) simp
  show ?thesis
    unfolding area_mapped_def
    using d2(1) d1(2) d2(2) own static d1(5) d2(5,6) d1(7) d2(7) dom abs d1(10) d2(10) same zero
    by (intro conjI) auto
qed

text \<open>One page.\<close>

lemma area_ok_insert:
  assumes "area_ok vs a" "map_type a = Framed" "v \<notin> vs" "ft_ppn ft \<notin> set (area_ppns a)"
    and a': "a' = a\<lparr>data_frames := snd (bt_insert v ft (data_frames a))\<rparr>"
  shows "area_ok (insert v vs) a'" "set (area_ppns a') = insert (ft_ppn ft) (set (area_ppns a))"
    "area_ppn a' w = (if w = v then Some (ft_ppn ft) else area_ppn a w)"
    "fst (bt_insert v ft (data_frames a)) = None"
proof -
  have ok: "bt_wf (data_frames a)" "distinct (area_ppns a)" "fst ` set (data_frames a) = vs"
    using assms(1,2) by (simp_all add: area_ok_def)
  then have new: "v \<notin> fst ` set (data_frames a)" using assms(3) by simp
  note ins = area_ppns_insert[OF new a']
  show "set (area_ppns a') = insert (ft_ppn ft) (set (area_ppns a))" by (rule ins(1))
  show "area_ok (insert v vs) a'"
    using ok assms(2,4) ins(2) by (simp add: area_ok_def a' bt_wf_insert keys_bt_insert)
  show "area_ppn a' w = (if w = v then Some (ft_ppn ft) else area_ppn a w)"
    using ok(1) assms(2) by (simp add: area_ppn_def a' map_of_bt_insert)
  show "fst (bt_insert v ft (data_frames a)) = None"
    using fst_bt_insert[OF ok(1)] new by (simp add: map_of_eq_None_iff)
qed

lemma area_mapped_one:
  assumes inv: "area_inv l s a pt vs" and s1: "own_step l s (set (area_ppns a)) s1 (set (area_ppns a'))"
    "same_pages (live l s) (mem s) (mem s1)"
    and a': "a' = a\<lparr>data_frames := data_frames a'\<rparr>" "set (area_ppns a) \<subseteq> set (area_ppns a')"
      "\<And>w. w \<noteq> v \<Longrightarrow> area_ppn a' w = area_ppn a w" "area_ppn a' v = Some p"
      "\<And>p. p \<in> set (area_ppns a') - set (area_ppns a) \<Longrightarrow> page_zero (mem s1) p"
    and ext: "pt_ext l s1 pt s' pt'" and avail: "avail s \<le> avail s' + 3"
    and abs: "pt_abs (mem s') pt' = (pt_abs (mem s1) pt)(v \<mapsto> PageTableEntry_new p (map_perm a OR PTE_V))"
  shows "area_mapped l s a pt [v] s' a' pt'"
proof -
  have i: "mm_inv l s" "pt_inv l s pt" "pt_owned pt \<subseteq> live l s" "set (area_ppns a) \<subseteq> live l s"
      "set (area_ppns a) \<inter> pt_owned pt = {}" "pt_owned pt \<inter> set (area_ppns a) = {}"
    using inv by (auto simp: area_inv_def pt_inv_def)
  have f1: "own_step l s (set (area_ppns a) \<union> pt_owned pt) s1 (set (area_ppns a') \<union> pt_owned pt)"
    "same_pages (pt_owned pt) (mem s) (mem s1)" "pt_owned pt \<inter> set (area_ppns a') = {}"
    "pt_owned pt \<subseteq> live l s1"
    using own_step_frame[OF s1(1) i(3,6)] by blast+
  have pt1: "mm_inv l s1" "pt_inv l s1 pt" "pt_abs (mem s1) pt = pt_abs (mem s) pt"
    using s1(1) pt_inv_cong[OF i(2) f1(4,2)] pt_abs_cong[OF i(2) f1(2)] by (simp_all add: own_step_def)
  note own1 = pt_ext_own[OF pt1(1,2) ext]
  have sub1: "set (area_ppns a') \<subseteq> live l s1" using s1(1) by (auto simp: own_step_def)
  have f2: "own_step l s1 (pt_owned pt \<union> set (area_ppns a')) s' (pt_owned pt' \<union> set (area_ppns a'))"
    "set (area_ppns a') \<inter> pt_owned pt' = {}"
    using own_step_frame[OF own1 sub1] f1(3) by blast+
  have "live l s - pt_owned pt \<subseteq> live l s1 - pt_owned pt"
    using s1(1) a'(2) by (auto simp: own_step_def)
  then have same: "same_pages (live l s - pt_owned pt) (mem s) (mem s')"
    using same_pages_trans[OF same_pages_mono[OF s1(2)] same_pages_mono[of "live l s1 - pt_owned pt"]] ext
    by (auto simp: pt_ext_def)
  have perm: "map_perm a' = map_perm a" by (subst a'(1)) simp
  have entry: "area_entry a' v = Some (PageTableEntry_new p (map_perm a OR PTE_V))"
    by (simp add: area_entry_def a'(4) perm)
  have zero: "page_zero (mem s') q" if "q \<in> set (area_ppns a') - set (area_ppns a)" for q
    using page_zero_same[OF a'(5)[OF that], of "live l s1 - pt_owned pt"] ext that sub1 f1(3)
    by (auto simp: pt_ext_def)
  show ?thesis
    unfolding area_mapped_def
    using ext own_step_trans[OF f1(1)] f2 a' entry abs pt1(3) avail same zero
    by (intro conjI) (auto simp: pt_ext_def restrict_map_def map_add_def fun_eq_iff Un_commute)
qed

text \<open>A frame fresh from the allocator.\<close>

lemma fresh_frame:
  assumes "mm_inv l s1" "g \<notin> live l s" "live l s1 = insert g (live l s)"
    "mem s1 = fill_slice (mem s) (get_bytes_array g) 0"
  shows "same_pages (live l s) (mem s) (mem s1)" "page_zero (mem s1) g"
proof -
  have ok: "page_ok (ppn_val p)" if "p \<in> live l s1" for p using live_page_ok[OF assms(1) that] .
  then have gok: "page_ok (ppn_val g)" using assms(3) by simp
  show "same_pages (live l s) (mem s) (mem s1)"
  proof (unfold same_pages_def, intro ballI)
    fix p assume p: "p \<in> live l s"
    then have "ppn_val g \<noteq> ppn_val p" using assms(2) by (auto simp: newtype_eq_iff(3)[symmetric])
    then show "page_eq (mem s) (mem s1) (ppn_val p)"
      using page_eq_fill[OF gok, of "ppn_val p" "mem s" 0] ok p assms(3,4) by (simp add: page_eq_sym)
  qed
  show "page_zero (mem s1) g"
    using gok by (simp add: page_zero_def assms(4) fill_page_paddr)
qed

lemma wp_map_one_identical:
  assumes inv: "area_inv l s a pt vs" and v: "vpn_ok v" "v \<notin> vs" and "map_type a = Identical"
    and E: "avail s < 3 \<Longrightarrow> E OutOfFrames" "v \<in> dom (pt_abs (mem s) pt) \<Longrightarrow> E AlreadyMapped"
    and Q: "\<And>s' a' pt'. v \<notin> dom (pt_abs (mem s) pt) \<Longrightarrow> area_mapped l s a pt [v] s' a' pt' \<Longrightarrow>
        area_inv l s' a' pt' (insert v vs) \<Longrightarrow> Q (a', pt') s'"
  shows "wp (map_one a pt v) Q E s"
proof -
  have i: "mm_inv l s" "pt_inv l s pt" "set (area_ppns a) \<subseteq> live l s" using inv by (simp_all add: area_inv_def)
  have "wp (pt_map pt v (PhysPageNum (vpn_val v)) (map_perm a)) (\<lambda>pt' s'. Q (a, pt') s') E s"
  proof (rule wp_pt_map[OF i(1,2) v(1)])
    fix s' pt'
    assume out: "v \<notin> dom (pt_abs (mem s) pt)" and ext: "pt_ext l s pt s' pt'" "avail s \<le> avail s' + 2"
      and abs: "pt_abs (mem s') pt' = (pt_abs (mem s) pt)(v \<mapsto> PageTableEntry_new (PhysPageNum (vpn_val v)) (map_perm a OR PTE_V))"
    have m: "area_mapped l s a pt [v] s' a pt'"
      by (rule area_mapped_one[OF inv own_step_refl[OF i(1,3)] same_pages_refl _ _ _ _ _ ext(1) _ abs])
        (use ext(2) assms(4) in \<open>simp_all add: area_ppn_def\<close>)
    then have "area_inv l s' a pt' (insert v vs)"
      using inv assms(4) area_mappedD(1,3,6)[OF m] by (auto simp: area_inv_def area_ok_def own_step_def)
    then show "Q (a, pt') s'" using Q[OF out m] by simp
  qed (use E in auto)
  then show ?thesis
    by (simp add: map_one_def assms(4) wp_rules PTEFlags_from_bits_total)
qed

lemma area_take_frame:
  assumes inv: "area_inv l s a pt vs" and v: "v \<notin> vs" and Framed: "map_type a = Framed"
    and s1: "mm_inv l s1" "g \<notin> live l s" "live l s1 = insert g (live l s)" "avail s = Suc (avail s1)"
      "mem s1 = fill_slice (mem s) (get_bytes_array g) 0"
    and a1_def: "a1 = a\<lparr>data_frames := snd (bt_insert v (FrameTracker g) (data_frames a))\<rparr>"
  shows "own_step l s (set (area_ppns a)) s1 (set (area_ppns a1))" "pt_inv l s1 pt"
    "pt_abs (mem s1) pt = pt_abs (mem s) pt" "area_ok (insert v vs) a1"
    "set (area_ppns a1) = insert g (set (area_ppns a))"
    "area_ppn a1 w = (if w = v then Some g else area_ppn a w)"
    "fst (bt_insert v (FrameTracker g) (data_frames a)) = None"
proof -
  have i: "mm_inv l s" "pt_inv l s pt" "set (area_ppns a) \<subseteq> live l s" "area_ok vs a" "pt_owned pt \<subseteq> live l s"
    using inv by (simp_all add: area_inv_def pt_inv_def)
  have gout: "ft_ppn (FrameTracker g) \<notin> set (area_ppns a)" using s1(2) i(3) by auto
  note a1 = area_ok_insert[OF i(4) Framed v gout a1_def]
  note same = fresh_frame(1)[OF s1(1-3,5)]
  have "card (set (area_ppns a1)) = Suc (card (set (area_ppns a)))"
    using gout by (simp add: a1(2))
  then show "own_step l s (set (area_ppns a)) s1 (set (area_ppns a1))"
    unfolding own_step_def using i(1,3) s1 a1(2) same_pages_mono[OF same] by auto
  show "pt_inv l s1 pt" "pt_abs (mem s1) pt = pt_abs (mem s) pt"
    using pt_inv_cong[OF i(2), of s1] pt_abs_cong[OF i(2), of "mem s1"] same_pages_mono[OF same i(5)] i(5) s1(3)
    by auto
  show "area_ok (insert v vs) a1" "set (area_ppns a1) = insert g (set (area_ppns a))"
    "area_ppn a1 w = (if w = v then Some g else area_ppn a w)"
    "fst (bt_insert v (FrameTracker g) (data_frames a)) = None"
    using a1(1,2,4) a1(3)[of w] by simp_all
qed

lemma wp_map_one_framed:
  assumes inv: "area_inv l s a pt vs" and v: "vpn_ok v" "v \<notin> vs" and Framed: "map_type a = Framed"
    and E: "avail s < 3 \<Longrightarrow> E OutOfFrames" "v \<in> dom (pt_abs (mem s) pt) \<Longrightarrow> E AlreadyMapped"
    and Q: "\<And>s' a' pt'. v \<notin> dom (pt_abs (mem s) pt) \<Longrightarrow> area_mapped l s a pt [v] s' a' pt' \<Longrightarrow>
        area_inv l s' a' pt' (insert v vs) \<Longrightarrow> Q (a', pt') s'"
  shows "wp (map_one a pt v) Q E s"
proof -
  have "wp (kbind frame_alloc (kunwrap OutOfFrames)) (\<lambda>frame.
      wp (kbind (drop_old (fst (bt_insert v frame (data_frames a)))) (\<lambda>_.
      kbind (pt_map pt v (ft_ppn frame) (map_perm a)) (\<lambda>pt'.
      kreturn (a\<lparr>data_frames := snd (bt_insert v frame (data_frames a))\<rparr>, pt')))) Q E) E s"
  proof (rule wp_frame_alloc_unwrap[where E = E and l = l])
    fix g s1
    assume s1: "mm_inv l s1" "g \<notin> live l s" "live l s1 = insert g (live l s)" "avail s = Suc (avail s1)"
      "mem s1 = fill_slice (mem s) (get_bytes_array g) 0"
    define a1 where "a1 = a\<lparr>data_frames := snd (bt_insert v (FrameTracker g) (data_frames a))\<rparr>"
    note t = area_take_frame[OF inv v(2) Framed s1 a1_def] and fresh = fresh_frame[OF s1(1-3,5)]
    have "wp (pt_map pt v g (map_perm a)) (\<lambda>pt' s'. Q (a1, pt') s') E s1"
    proof (rule wp_pt_map[OF s1(1) t(2) v(1)])
      fix s' pt'
      assume out: "v \<notin> dom (pt_abs (mem s1) pt)" and ext: "pt_ext l s1 pt s' pt'" "avail s1 \<le> avail s' + 2"
        and abs: "pt_abs (mem s') pt' = (pt_abs (mem s1) pt)(v \<mapsto> PageTableEntry_new g (map_perm a OR PTE_V))"
      have m: "area_mapped l s a pt [v] s' a1 pt'"
      proof (rule area_mapped_one[OF inv t(1) fresh(1) _ _ _ _ _ ext(1) _ abs])
        show "a1 = a\<lparr>data_frames := data_frames a1\<rparr>" by (simp add: a1_def)
      qed (use t(5,6) fresh(2) ext(2) s1(4) in auto)
      then have "area_inv l s' a1 pt' (insert v vs)"
        using t(4) area_mappedD(1,3,6)[OF m] by (auto simp: area_inv_def own_step_def)
      then show "Q (a1, pt') s'" using Q[OF _ m] out t(3) by simp
    qed (use E s1(4) t(3) in auto)
    then show "wp (kbind (drop_old (fst (bt_insert v (FrameTracker g) (data_frames a)))) (\<lambda>_.
      kbind (pt_map pt v (ft_ppn (FrameTracker g)) (map_perm a)) (\<lambda>pt'.
      kreturn (a\<lparr>data_frames := snd (bt_insert v (FrameTracker g) (data_frames a))\<rparr>, pt')))) Q E s1"
      by (simp add: t(7) drop_old_def wp_rules a1_def)
  qed (use E inv in \<open>auto simp: area_inv_def\<close>)
  then show ?thesis
    by (simp add: map_one_def Framed wp_rules PTEFlags_from_bits_total case_prod_beta)
qed

lemma wp_map_one:
  assumes "area_inv l s a pt vs" "vpn_ok v" "v \<notin> vs"
    and "avail s < 3 \<Longrightarrow> E OutOfFrames" "v \<in> dom (pt_abs (mem s) pt) \<Longrightarrow> E AlreadyMapped"
    and "\<And>s' a' pt'. v \<notin> dom (pt_abs (mem s) pt) \<Longrightarrow> area_mapped l s a pt [v] s' a' pt' \<Longrightarrow>
        area_inv l s' a' pt' (insert v vs) \<Longrightarrow> Q (a', pt') s'"
  shows "wp (map_one a pt v) Q E s"
proof (cases "map_type a")
  case Identical
  show ?thesis by (rule wp_map_one_identical[OF assms(1-3) Identical]) (fact assms)+
next
  case Framed
  show ?thesis by (rule wp_map_one_framed[OF assms(1-3) Framed]) (fact assms)+
qed

text \<open>A list of pages, none of them mapped before.\<close>

lemma wp_map_loop:
  assumes inv: "area_inv l s a pt us" and vs: "distinct vs" "set vs \<inter> us = {}" "\<forall>v \<in> set vs. vpn_ok v"
    and E: "avail s < 3 * length vs \<Longrightarrow> E OutOfFrames" "set vs \<inter> dom (pt_abs (mem s) pt) \<noteq> {} \<Longrightarrow> E AlreadyMapped"
    and Q: "\<And>s' a' pt'. set vs \<inter> dom (pt_abs (mem s) pt) = {} \<Longrightarrow> area_mapped l s a pt vs s' a' pt' \<Longrightarrow>
        area_inv l s' a' pt' (us \<union> set vs) \<Longrightarrow> Q (a', pt') s'"
  shows "wp (for_loop vs (\<lambda>vpn (a, pt). map_one a pt vpn) (a, pt)) Q E s"
proof -
  define I where "I = (\<lambda>ys (a', pt') s'. set ys \<inter> dom (pt_abs (mem s) pt) = {} \<and>
      area_mapped l s a pt ys s' a' pt' \<and> area_inv l s' a' pt' (us \<union> set ys))"
  show ?thesis
  proof (rule wp_for_loop[where I = I])
    show "I [] (a, pt) s" using area_mapped_Nil[OF inv] inv by (simp add: I_def)
  next
    fix ys v zs acc s1
    assume split: "vs = ys @ v # zs" and I: "I ys acc s1"
    obtain a1 pt1 where acc: "acc = (a1, pt1)" by (cases acc)
    have i: "set ys \<inter> dom (pt_abs (mem s) pt) = {}" "area_mapped l s a pt ys s1 a1 pt1" "area_inv l s1 a1 pt1 (us \<union> set ys)"
      using I by (auto simp: I_def acc)
    have v: "vpn_ok v" "v \<notin> us \<union> set ys" "set ys \<inter> set [v] = {}" using vs by (auto simp: split)
    have abs: "v \<in> dom (pt_abs (mem s1) pt1) \<longleftrightarrow> v \<in> dom (pt_abs (mem s) pt)"
      using area_mappedD(9)[OF i(2)] v(2) by (simp add: dom_def map_add_def restrict_map_def)
    have "wp (map_one a1 pt1 v) (I (ys @ [v])) E s1"
    proof (rule wp_map_one[OF i(3) v(1,2)])
      fix s' a' pt'
      assume "v \<notin> dom (pt_abs (mem s1) pt1)" "area_mapped l s1 a1 pt1 [v] s' a' pt'"
        "area_inv l s' a' pt' (insert v (us \<union> set ys))"
      then show "I (ys @ [v]) (a', pt') s'"
        using i(1) abs area_mapped_trans[OF i(2) _ v(3)] by (simp add: I_def)
    qed (use E abs area_mappedD(10)[OF i(2)] in \<open>auto simp: split\<close>)
    then show "wp (case acc of (a, pt) \<Rightarrow> map_one a pt v) (I (ys @ [v])) E s1" by (simp add: acc)
  next
    fix acc s' assume "I vs acc s'"
    then show "Q acc s'" using Q by (cases acc) (simp add: I_def)
  qed
qed

section \<open>Unmapping pages\<close>

definition area_unmapped ::
    "usize \<Rightarrow> mm_state \<Rightarrow> MapArea \<Rightarrow> PageTable \<Rightarrow> VirtPageNum list \<Rightarrow> mm_state \<Rightarrow> MapArea \<Rightarrow> bool" where
  "area_unmapped l s a pt vs s' a' \<longleftrightarrow>
     pt_inv l s' pt \<and>
     own_step l s (pt_owned pt \<union> set (area_ppns a)) s' (pt_owned pt \<union> set (area_ppns a')) \<and>
     a' = a\<lparr>data_frames := data_frames a'\<rparr> \<and> set (area_ppns a') \<subseteq> set (area_ppns a) \<and>
     (\<forall>w. w \<notin> set vs \<longrightarrow> area_ppn a' w = area_ppn a w) \<and>
     pt_abs (mem s') pt = pt_abs (mem s) pt |` (- set vs) \<and>
     same_pages (live l s' - pt_owned pt) (mem s) (mem s')"

lemma area_unmappedD:
  assumes "area_unmapped l s a pt vs s' a'"
  shows "pt_inv l s' pt"
    "own_step l s (pt_owned pt \<union> set (area_ppns a)) s' (pt_owned pt \<union> set (area_ppns a'))"
    "a' = a\<lparr>data_frames := data_frames a'\<rparr>" "set (area_ppns a') \<subseteq> set (area_ppns a)"
    "\<And>w. w \<notin> set vs \<Longrightarrow> area_ppn a' w = area_ppn a w"
    "pt_abs (mem s') pt = pt_abs (mem s) pt |` (- set vs)"
    "same_pages (live l s' - pt_owned pt) (mem s) (mem s')"
  using assms unfolding area_unmapped_def by blast+

lemma area_unmapped_Nil: "area_inv l s a pt vs \<Longrightarrow> area_unmapped l s a pt [] s a"
  by (auto simp: area_unmapped_def area_inv_def pt_inv_def intro!: own_step_refl)

lemma area_unmapped_trans:
  assumes 1: "area_unmapped l s a pt us s1 a1" and 2: "area_unmapped l s1 a1 pt vs s2 a2"
  shows "area_unmapped l s a pt (us @ vs) s2 a2"
proof -
  note d1 = area_unmappedD[OF 1] and d2 = area_unmappedD[OF 2]
  have "live l s2 - pt_owned pt \<subseteq> live l s1 - pt_owned pt"
    using d2(2,4) by (auto simp: own_step_def)
  then have same: "same_pages (live l s2 - pt_owned pt) (mem s) (mem s2)"
    using same_pages_trans[OF same_pages_mono[OF d1(7)] d2(7)] by blast
  have static: "a2 = a\<lparr>data_frames := data_frames a2\<rparr>"
    by (subst d2(3), subst d1(3)) simp
  have abs: "pt_abs (mem s2) pt = pt_abs (mem s) pt |` (- set (us @ vs))"
    using d1(6) d2(6) by (auto simp: restrict_map_def fun_eq_iff)
  show ?thesis
    unfolding area_unmapped_def
    using d2(1) own_step_trans[OF d1(2) d2(2)] static d1(4,5) d2(4,5) abs same
    by (intro conjI) auto
qed

text \<open>Giving back the frame of a page, before the page is unmapped.\<close>

lemma wp_area_release:
  assumes inv: "area_inv l s a pt vs" and v: "v \<in> vs" and Framed: "map_type a = Framed"
    and Q: "\<And>s1 a1. own_step l s (set (area_ppns a)) s1 (set (area_ppns a1)) \<Longrightarrow> mem s1 = mem s \<Longrightarrow>
        area_ok (vs - {v}) a1 \<Longrightarrow> set (area_ppns a1) \<subseteq> set (area_ppns a) \<Longrightarrow>
        a1 = a\<lparr>data_frames := snd (bt_remove v (data_frames a))\<rparr> \<Longrightarrow>
        (\<And>w. w \<noteq> v \<Longrightarrow> area_ppn a1 w = area_ppn a w) \<Longrightarrow> Q () s1"
  shows "wp (drop_old (fst (bt_remove v (data_frames a)))) Q E s"
proof -
  define a1 where "a1 = a\<lparr>data_frames := snd (bt_remove v (data_frames a))\<rparr>"
  have i: "mm_inv l s" "set (area_ppns a) \<subseteq> live l s" "bt_wf (data_frames a)" "distinct (area_ppns a)"
    "fst ` set (data_frames a) = vs"
    using inv Framed by (simp_all add: area_inv_def area_ok_def)
  then obtain ft where ft: "map_of (data_frames a) v = Some ft"
    using v by (metis map_of_eq_None_iff not_None_eq)
  note rem = area_ppns_remove[OF ft i(4) a1_def]
  have keys: "fst ` set (data_frames a1) = vs - {v}"
    using i(3,5) bt_wf_remove[OF i(3), of v] map_of_bt_remove[OF i(3), of v]
    by (simp add: a1_def flip: dom_map_of_conv_image_fst)
  show ?thesis
    unfolding fst_bt_remove ft drop_old_def option.case
  proof (rule wp_drop_FrameTracker[OF i(1)])
    show "ft_ppn ft \<in> live l s" using rem(3) i(2) by blast
  next
    fix s1 assume s1: "mm_inv l s1" "live l s1 = live l s - {ft_ppn ft}" "avail s1 = Suc (avail s)" "mem s1 = mem s"
    have "card (set (area_ppns a)) = Suc (card (set (area_ppns a1)))"
      using rem(1,3) card_Suc_Diff1[of "set (area_ppns a)" "ft_ppn ft"] by simp
    then have own: "own_step l s (set (area_ppns a)) s1 (set (area_ppns a1))"
      unfolding own_step_def using i(1,2) s1 rem(1,3) by auto
    have ok: "area_ok (vs - {v}) a1"
      using Framed keys rem(2) bt_wf_remove[OF i(3), of v] by (simp add: area_ok_def a1_def)
    show "Q () s1"
    proof (rule Q[OF own s1(4) ok _ a1_def])
      show "area_ppn a1 w = area_ppn a w" if "w \<noteq> v" for w
        using that Framed map_of_bt_remove[OF i(3), of v] by (simp add: area_ppn_def a1_def)
    qed (use rem(1) in auto)
  qed
qed

lemma area_unmapped_one:
  assumes inv: "area_inv l s a pt vs" and s1: "own_step l s (set (area_ppns a)) s1 (set (area_ppns a'))"
    "mem s1 = mem s" "set (area_ppns a') \<subseteq> set (area_ppns a)" "a' = a\<lparr>data_frames := data_frames a'\<rparr>"
    "\<And>w. w \<noteq> v \<Longrightarrow> area_ppn a' w = area_ppn a w"
    and ext: "pt_ext l s1 pt s' pt" and abs: "pt_abs (mem s') pt = (pt_abs (mem s1) pt)(v := None)"
  shows "area_unmapped l s a pt [v] s' a'"
proof -
  have i: "mm_inv l s" "pt_inv l s pt" "pt_owned pt \<subseteq> live l s" "set (area_ppns a) \<subseteq> live l s"
      "pt_owned pt \<inter> set (area_ppns a) = {}"
    using inv by (auto simp: area_inv_def pt_inv_def)
  have f1: "own_step l s (set (area_ppns a) \<union> pt_owned pt) s1 (set (area_ppns a') \<union> pt_owned pt)"
    "pt_owned pt \<inter> set (area_ppns a') = {}" "pt_owned pt \<subseteq> live l s1"
    using own_step_frame[OF s1(1) i(3,5)] by blast+
  have pt1: "mm_inv l s1" "pt_inv l s1 pt"
    using s1(1,2) pt_inv_cong[OF i(2) f1(3)] by (simp_all add: own_step_def)
  have sub1: "set (area_ppns a') \<subseteq> live l s1" using s1(1) by (auto simp: own_step_def)
  have f2: "own_step l s1 (pt_owned pt \<union> set (area_ppns a')) s' (pt_owned pt \<union> set (area_ppns a'))"
    using own_step_frame(1)[OF pt_ext_own[OF pt1 ext] sub1] f1(2) by blast
  have live': "live l s' = live l s1" using f2 by (auto simp: own_step_def)
  have same: "same_pages (live l s' - pt_owned pt) (mem s) (mem s')"
    using ext s1(2) by (simp add: pt_ext_def live')
  have abs': "pt_abs (mem s') pt = pt_abs (mem s) pt |` (- set [v])"
    by (simp add: abs s1(2) restrict_map_def fun_eq_iff)
  have inv': "pt_inv l s' pt" using ext by (simp add: pt_ext_def)
  show ?thesis
    unfolding area_unmapped_def
    using inv' own_step_trans[OF f1(1)] f2 s1(3-5) abs' same
    by (intro conjI) (auto simp: Un_commute)
qed

lemma wp_unmap_one:
  assumes inv: "area_inv l s a pt vs" and v: "v \<in> vs" "v \<in> dom (pt_abs (mem s) pt)"
    and Q: "\<And>s' a'. area_unmapped l s a pt [v] s' a' \<Longrightarrow> area_inv l s' a' pt (vs - {v}) \<Longrightarrow> Q (a', pt) s'"
  shows "wp (unmap_one a pt v) Q E s"
proof -
  have i: "mm_inv l s" "pt_inv l s pt" "set (area_ppns a) \<subseteq> live l s" "set (area_ppns a) \<inter> pt_owned pt = {}"
    using inv by (simp_all add: area_inv_def)
  have last: "wp (pt_unmap pt v) (\<lambda>pt' s'. Q (a1, pt') s') E s1"
    if own: "own_step l s (set (area_ppns a)) s1 (set (area_ppns a1))" and m: "mem s1 = mem s"
      and ok: "area_ok (vs - {v}) a1" and a1: "set (area_ppns a1) \<subseteq> set (area_ppns a)"
      "a1 = a\<lparr>data_frames := data_frames a1\<rparr>" "\<And>w. w \<noteq> v \<Longrightarrow> area_ppn a1 w = area_ppn a w" for s1 a1
  proof -
    have sub: "pt_owned pt \<subseteq> live l s1" using own i(2,4) by (auto simp: own_step_def pt_inv_def)
    have pt1: "mm_inv l s1" "pt_inv l s1 pt" "v \<in> dom (pt_abs (mem s1) pt)"
      using own pt_inv_cong[OF i(2) sub] v(2) by (simp_all add: own_step_def m)
    show ?thesis
    proof (rule wp_pt_unmap[OF pt1])
      fix s' assume ext: "pt_ext l s1 pt s' pt" and abs: "pt_abs (mem s') pt = (pt_abs (mem s1) pt)(v := None)"
      have u: "area_unmapped l s a pt [v] s' a1" by (rule area_unmapped_one[OF inv own m a1 ext abs])
      then have "area_inv l s' a1 pt (vs - {v})"
        using ok a1(1) i(4) area_unmappedD(1,2)[OF u] by (auto simp: area_inv_def own_step_def)
      then show "Q (a1, pt) s'" using Q[OF u] by simp
    qed
  qed
  show ?thesis
  proof (cases "map_type a")
    case Identical
    then have "area_ok (vs - {v}) a" using inv by (simp add: area_inv_def area_ok_def)
    from last[OF own_step_refl[OF i(1,3)] refl this] show ?thesis
      by (simp add: unmap_one_def Identical wp_rules)
  next
    case Framed
    have "wp (drop_old (fst (bt_remove v (data_frames a)))) (\<lambda>_. wp (pt_unmap pt v) (\<lambda>pt' s'.
        Q (a\<lparr>data_frames := snd (bt_remove v (data_frames a))\<rparr>, pt') s') E) E s"
      by (rule wp_area_release[OF inv v(1) Framed]) (rule last, auto)
    then show ?thesis
      by (simp add: unmap_one_def Framed wp_rules case_prod_beta)
  qed
qed

text \<open>A list of pages, all of them mapped; the loop never panics.\<close>

lemma wp_unmap_loop:
  assumes inv: "area_inv l s a pt us" and vs: "distinct vs" "set vs \<subseteq> us" "set vs \<subseteq> dom (pt_abs (mem s) pt)"
    and Q: "\<And>s' a'. area_unmapped l s a pt vs s' a' \<Longrightarrow> area_inv l s' a' pt (us - set vs) \<Longrightarrow> Q (a', pt) s'"
  shows "wp (for_loop vs (\<lambda>vpn (a, pt). unmap_one a pt vpn) (a, pt)) Q E s"
proof -
  define I where "I = (\<lambda>ys (a', pt') s'. pt' = pt \<and> area_unmapped l s a pt ys s' a' \<and> area_inv l s' a' pt (us - set ys))"
  show ?thesis
  proof (rule wp_for_loop[where I = I])
    show "I [] (a, pt) s" using area_unmapped_Nil[OF inv] inv by (simp add: I_def)
  next
    fix ys v zs acc s1
    assume split: "vs = ys @ v # zs" and I: "I ys acc s1"
    obtain a1 where acc: "acc = (a1, pt)" and i: "area_unmapped l s a pt ys s1 a1" "area_inv l s1 a1 pt (us - set ys)"
      using I by (cases acc) (auto simp: I_def)
    have v: "v \<in> us - set ys" "v \<in> dom (pt_abs (mem s1) pt)"
      using vs area_unmappedD(6)[OF i(1)] by (auto simp: split restrict_map_def)
    have "wp (unmap_one a1 pt v) (I (ys @ [v])) E s1"
      by (rule wp_unmap_one[OF i(2) v])
        (auto simp: I_def set_diff_eq intro: area_unmapped_trans[OF i(1)] elim!: back_subst[of "area_inv l _ _ _"])
    then show "wp (case acc of (a, pt) \<Rightarrow> unmap_one a pt v) (I (ys @ [v])) E s1" by (simp add: acc)
  next
    fix acc s' assume "I vs acc s'"
    then show "Q acc s'" using Q by (cases acc) (simp add: I_def)
  qed
qed

end
