(* ===== verification/Map_Area_Ops.thy ===== *)
theory Map_Area_Ops
  imports Map_Area_Spec
begin

text \<open>
  Whole-area operations: mapping and unmapping an area, growing and shrinking it, copying data into
  its pages, the two checks, and dropping it. The rules here are the interface to \<^verbatim>\<open>MemorySet\<close>.
\<close>

section \<open>Ranges of an area\<close>

abbreviation area_vpns :: "MapArea \<Rightarrow> VirtPageNum list" where
  "area_vpns a \<equiv> vpns_of (vpn_range a)"

definition range_wf :: "VPNRange \<Rightarrow> bool" where
  "range_wf r \<longleftrightarrow> range_l r \<le> range_r r \<and> unat (vpn_val (range_r r)) \<le> 2 ^ 27"

lemma range_eta [simp]: "\<lparr>range_l = range_l r, range_r = range_r r\<rparr> = (r :: VPNRange)"
  by simp

lemma range_wf_vpn_ok: "range_wf r \<Longrightarrow> v \<in> set (vpns_of r) \<Longrightarrow> vpn_ok v"
  by (auto simp: range_wf_def set_vpns_of newtype_order_defs word_less_nat_alt)

lemma range_wf_distinct: "range_wf r \<Longrightarrow> distinct (vpns_of r)"
  by (simp add: range_wf_def distinct_vpns_of)

lemma vpns_of_inject: "map (\<lambda>v. unat (vpn_val v)) xs = map (\<lambda>v. unat (vpn_val v)) ys \<Longrightarrow> xs = ys"
  by (rule map_injective[of "\<lambda>v. unat (vpn_val v)"]) (auto simp: inj_def vpn_steps.pos_inject)

lemma vpns_of_split:
  assumes "a \<le> b" "b \<le> c"
  shows "vpns_of \<lparr>range_l = a, range_r = c\<rparr> = vpns_of \<lparr>range_l = a, range_r = b\<rparr> @ vpns_of \<lparr>range_l = b, range_r = c\<rparr>"
proof (rule vpns_of_inject)
  have "unat (vpn_val a) \<le> unat (vpn_val b)" "unat (vpn_val b) \<le> unat (vpn_val c)"
    using assms by (simp_all add: vpn_steps.pos_le)
  then show "map (\<lambda>v. unat (vpn_val v)) (vpns_of \<lparr>range_l = a, range_r = c\<rparr>) =
      map (\<lambda>v. unat (vpn_val v)) (vpns_of \<lparr>range_l = a, range_r = b\<rparr> @ vpns_of \<lparr>range_l = b, range_r = c\<rparr>)"
    using assms upt_add_eq_append[of "unat (vpn_val a)" "unat (vpn_val b)" "unat (vpn_val c) - unat (vpn_val b)"]
    by (simp add: map_unat_vpns_of)
qed

lemma length_vpns_of:
  "range_l r \<le> range_r r \<Longrightarrow> length (vpns_of r) = unat (vpn_val (range_r r)) - unat (vpn_val (range_l r))"
  using map_unat_vpns_of[of r] by (metis length_map length_upt)

lemma nth_vpns_of:
  assumes "range_l r \<le> range_r r" "j < length (vpns_of r)"
  shows "vpns_of r ! j = VirtPageNum (vpn_val (range_l r) + of_nat j)"
proof -
  have "unat (vpn_val (vpns_of r ! j)) = unat (vpn_val (range_l r)) + j"
    using arg_cong[OF map_unat_vpns_of[OF assms(1)], of "\<lambda>xs. xs ! j"] assms(2) length_vpns_of[OF assms(1)]
    by simp
  then have "(of_nat (unat (vpn_val (vpns_of r ! j))) :: usize) = of_nat (unat (vpn_val (range_l r)) + j)"
    by (simp only:)
  then have "vpn_val (vpns_of r ! j) = vpn_val (range_l r) + of_nat j" by simp
  then show ?thesis by (metis VirtPageNum.collapse)
qed

section \<open>Mapping and unmapping an area\<close>

lemma wp_area_map:
  assumes "area_inv l s a pt {}" "range_wf (vpn_range a)"
    and "avail s < 3 * length (area_vpns a) \<Longrightarrow> E OutOfFrames"
    and "set (area_vpns a) \<inter> dom (pt_abs (mem s) pt) \<noteq> {} \<Longrightarrow> E AlreadyMapped"
    and "\<And>s' a' pt'. set (area_vpns a) \<inter> dom (pt_abs (mem s) pt) = {} \<Longrightarrow>
        area_mapped l s a pt (area_vpns a) s' a' pt' \<Longrightarrow> area_inv l s' a' pt' (set (area_vpns a)) \<Longrightarrow> Q (a', pt') s'"
  shows "wp (area_map a pt) Q E s"
  unfolding area_map_def
  by (rule wp_map_loop[OF assms(1)]) (use assms range_wf_vpn_ok range_wf_distinct in auto)

lemma wp_area_unmap:
  assumes "area_inv l s a pt (set (area_vpns a))" "range_wf (vpn_range a)"
    and "set (area_vpns a) \<subseteq> dom (pt_abs (mem s) pt)"
    and "\<And>s' a'. area_unmapped l s a pt (area_vpns a) s' a' \<Longrightarrow> area_inv l s' a' pt {} \<Longrightarrow> Q (a', pt) s'"
  shows "wp (area_unmap a pt) Q E s"
  unfolding area_unmap_def
  by (rule wp_unmap_loop[OF assms(1)]) (use assms range_wf_distinct in auto)

lemma wp_drop_MapArea:
  assumes "mm_inv l s" "distinct (area_ppns a)" "set (area_ppns a) \<subseteq> live l s"
    and "\<And>s'. own_step l s (set (area_ppns a)) s' {} \<Longrightarrow> mem s' = mem s \<Longrightarrow> Q () s'"
  shows "wp (drop_MapArea a) Q E s"
  unfolding drop_MapArea_def
proof (rule wp_drop_frames[OF assms(1)])
  have eq: "map ft_ppn (map snd (data_frames a)) = area_ppns a" by (simp add: area_ppns_def)
  then have img: "ft_ppn ` set (map snd (data_frames a)) = set (area_ppns a)" by (metis list.set_map)
  show "distinct (map ft_ppn (map snd (data_frames a)))" using assms(2) eq by simp
  show "ft_ppn ` set (map snd (data_frames a)) \<subseteq> live l s" using assms(3) img by simp
  fix s' assume s': "mm_inv l s'" "live l s' = live l s - ft_ppn ` set (map snd (data_frames a))"
    "avail s' = avail s + length (map snd (data_frames a))" "mem s' = mem s"
  have "card (set (area_ppns a)) = length (data_frames a)"
    using distinct_card[OF assms(2)] by (simp add: area_ppns_def)
  then have "own_step l s (set (area_ppns a)) s' {}"
    using assms(1,3) s' img by (simp add: own_step_def)
  then show "Q () s'" using assms(4) s'(4) by simp
qed

subsection \<open>Growing and shrinking\<close>

definition range_upto :: "MapArea \<Rightarrow> VirtPageNum \<Rightarrow> MapArea" where
  "range_upto a e = a\<lparr>vpn_range := \<lparr>range_l = range_l (vpn_range a), range_r = e\<rparr>\<rparr>"

lemma range_upto_facts [simp]:
  "area_ppns (range_upto a e) = area_ppns a" "area_ppn (range_upto a e) = area_ppn a"
  "area_entry (range_upto a e) = area_entry a" "area_ok vs (range_upto a e) = area_ok vs a"
  "area_inv l s (range_upto a e) pt vs = area_inv l s a pt vs"
  "data_frames (range_upto a e) = data_frames a" "map_type (range_upto a e) = map_type a"
  "map_perm (range_upto a e) = map_perm a"
  "vpn_range (range_upto a e) = \<lparr>range_l = range_l (vpn_range a), range_r = e\<rparr>"
  by (auto simp: range_upto_def area_ppns_def area_ppn_def area_entry_def area_ok_def area_inv_def fun_eq_iff
      split: MapType.splits)

lemma wp_area_append_to:
  assumes inv: "area_inv l s a pt (set (area_vpns a))" "range_wf (vpn_range a)"
    and e: "range_r (vpn_range a) \<le> e" "unat (vpn_val e) \<le> 2 ^ 27"
    and new: "new = vpns_of \<lparr>range_l = range_r (vpn_range a), range_r = e\<rparr>"
    and E: "avail s < 3 * length new \<Longrightarrow> E OutOfFrames" "set new \<inter> dom (pt_abs (mem s) pt) \<noteq> {} \<Longrightarrow> E AlreadyMapped"
    and Q: "\<And>s' a' pt'. set new \<inter> dom (pt_abs (mem s) pt) = {} \<Longrightarrow> area_mapped l s a pt new s' a' pt' \<Longrightarrow>
        area_inv l s' a' pt' (set (area_vpns (range_upto a' e))) \<Longrightarrow> Q (range_upto a' e, pt') s'"
  shows "wp (area_append_to a pt e) Q E s"
proof -
  let ?r = "\<lparr>range_l = range_r (vpn_range a), range_r = e\<rparr>"
  have ord: "range_l (vpn_range a) \<le> range_r (vpn_range a)" "range_l (vpn_range a) \<le> e"
    using inv(2) e(1) by (auto simp: range_wf_def)
  have wf: "range_wf ?r" using e by (simp add: range_wf_def)
  have split: "vpns_of \<lparr>range_l = range_l (vpn_range a), range_r = e\<rparr> = area_vpns a @ new"
    using vpns_of_split[OF ord(1) e(1)] by (simp add: new)
  have disj: "set new \<inter> set (area_vpns a) = {}"
    using ord e by (auto simp: new set_vpns_of)
  have "wp (for_loop new (\<lambda>vpn (a, pt). map_one a pt vpn) (a, pt))
      (\<lambda>(a', pt'). wp (kbind (klift (SimpleRange_new (get_start (vpn_range a')) e)) (\<lambda>r'. kreturn (a'\<lparr>vpn_range := r'\<rparr>, pt'))) Q E) E s"
  proof (rule wp_map_loop[OF inv(1) _ disj])
    fix s' a' pt'
    assume out: "set new \<inter> dom (pt_abs (mem s) pt) = {}" and m: "area_mapped l s a pt new s' a' pt'"
      and i: "area_inv l s' a' pt' (set (area_vpns a) \<union> set new)"
    have "vpn_range a' = vpn_range a" by (subst area_mappedD(4)[OF m]) simp
    then show "(\<lambda>(a', pt'). wp (kbind (klift (SimpleRange_new (get_start (vpn_range a')) e)) (\<lambda>r'. kreturn (a'\<lparr>vpn_range := r'\<rparr>, pt'))) Q E) (a', pt') s'"
      using Q[OF out m] i ord(2) split by (simp add: SimpleRange_new_def get_start_def wp_rules range_upto_def)
  qed (use E wf new range_wf_vpn_ok range_wf_distinct in auto)
  then show ?thesis
    using e(1) by (simp add: area_append_to_def wp_rules SimpleRange_new_def get_end_def wp_case_prod new)
qed

lemma wp_area_shrink_to:
  assumes inv: "area_inv l s a pt (set (area_vpns a))" "range_wf (vpn_range a)"
    and e: "range_l (vpn_range a) \<le> e" "e \<le> range_r (vpn_range a)"
    and old: "old = vpns_of \<lparr>range_l = e, range_r = range_r (vpn_range a)\<rparr>"
    and dom: "set (area_vpns a) \<subseteq> dom (pt_abs (mem s) pt)"
    and Q: "\<And>s' a'. area_unmapped l s a pt old s' a' \<Longrightarrow>
        area_inv l s' a' pt (set (area_vpns (range_upto a' e))) \<Longrightarrow> Q (range_upto a' e, pt) s'"
  shows "wp (area_shrink_to a pt e) Q E s"
proof -
  let ?r = "\<lparr>range_l = e, range_r = range_r (vpn_range a)\<rparr>"
  have wf: "range_wf ?r" using inv(2) e by (simp add: range_wf_def)
  have split: "area_vpns a = vpns_of \<lparr>range_l = range_l (vpn_range a), range_r = e\<rparr> @ old"
    using vpns_of_split[OF e] by (simp add: old)
  then have rest: "set (area_vpns a) - set old = set (vpns_of \<lparr>range_l = range_l (vpn_range a), range_r = e\<rparr>)"
    using range_wf_distinct[OF inv(2)] by auto
  have "wp (for_loop old (\<lambda>vpn (a, pt). unmap_one a pt vpn) (a, pt))
      (\<lambda>(a', pt'). wp (kbind (klift (SimpleRange_new (get_start (vpn_range a')) e)) (\<lambda>r'. kreturn (a'\<lparr>vpn_range := r'\<rparr>, pt'))) Q E) E s"
  proof (rule wp_unmap_loop[OF inv(1)])
    fix s' a'
    assume u: "area_unmapped l s a pt old s' a'" and i: "area_inv l s' a' pt (set (area_vpns a) - set old)"
    have "vpn_range a' = vpn_range a" by (subst area_unmappedD(3)[OF u]) simp
    then show "(\<lambda>(a', pt'). wp (kbind (klift (SimpleRange_new (get_start (vpn_range a')) e)) (\<lambda>r'. kreturn (a'\<lparr>vpn_range := r'\<rparr>, pt'))) Q E) (a', pt) s'"
      using Q[OF u] i e(1) rest by (simp add: SimpleRange_new_def get_start_def wp_rules range_upto_def)
  qed (use wf old dom split range_wf_distinct in auto)
  then show ?thesis
    using e(2) by (simp add: area_shrink_to_def wp_rules SimpleRange_new_def get_end_def wp_case_prod old)
qed

section \<open>The checks\<close>

lemma check_mapping_eq:
  assumes "range_wf (vpn_range a)"
  shows "check_mapping m a pt = Inr (set (area_vpns a) \<inter> dom (pt_abs m pt) \<noteq> {})"
proof -
  have "check_mapping_loop m pt vs = Inr (set vs \<inter> dom (pt_abs m pt) \<noteq> {})" if "\<forall>v \<in> set vs. vpn_ok v" for vs
    using that by (induction vs) (auto simp: find_vpn_abs)
  then show ?thesis using range_wf_vpn_ok[OF assms] by (simp add: check_mapping_def)
qed

lemma check_unmapping_eq:
  assumes "range_wf (vpn_range a)"
  shows "check_unmapping m a pt = Inr (\<not> set (area_vpns a) \<subseteq> dom (pt_abs m pt))"
proof -
  have "check_unmapping_loop m pt vs = Inr (\<not> set vs \<subseteq> dom (pt_abs m pt))" if "\<forall>v \<in> set vs. vpn_ok v" for vs
    using that by (induction vs) (auto simp: find_vpn_abs)
  then show ?thesis using range_wf_vpn_ok[OF assms] by (simp add: check_unmapping_def)
qed

section \<open>Copying data\<close>

text \<open>The bytes of page \<open>j\<close> of a copy of \<open>data\<close> from offset \<open>start\<close> on, over the old contents.\<close>

definition page_copied :: "mem \<Rightarrow> mem \<Rightarrow> u8 list \<Rightarrow> nat \<Rightarrow> PhysPageNum \<Rightarrow> bool" where
  "page_copied m m' data start p \<longleftrightarrow> (\<forall>k < 4096. m' (paddr (ppn_val p) k) =
     (if start + k < length data then data ! (start + k) else m (paddr (ppn_val p) k)))"

lemma page_copied_write:
  assumes "page_ok (ppn_val p)" "start \<le> length data"
  shows "page_copied m (write_bytes m (paddr (ppn_val p) 0) (take 4096 (drop start data))) data start p"
  using assms by (auto simp: page_copied_def write_bytes_paddr)

lemma page_copied_same:
  assumes "page_copied m1 m2 data start p" "page_eq m m1 (ppn_val p)"
  shows "page_copied m m2 data start p"
  using assms by (simp add: page_copied_def page_eq_def)

lemma page_copied_beyond: "length data \<le> start \<Longrightarrow> page_eq m m' (ppn_val p) \<Longrightarrow> page_copied m m' data start p"
  by (simp add: page_copied_def page_eq_def)

lemma copy_data_loop_unfold:
  assumes "start \<le> length data" "pt_translate (mem s) pt v = Inr (Some e)"
  shows "copy_data_loop pt data start v s =
    (let s1 = s\<lparr>mem := write_bytes (mem s) (paddr (ppn_val (pte_ppn e)) 0) (take 4096 (drop start data))\<rparr> in
     if start + 4096 \<ge> length data then Inr ((), s1) else copy_data_loop pt data (start + 4096) (vpn_step v) s1)"
proof -
  have src: "take (min (length data) (start + 4096) - start) (drop start data) = take 4096 (drop start data)"
    by (cases "length data \<le> start + 4096") auto
  show ?thesis
    using assms
    by (subst copy_data_loop.simps)
      (simp add: kmonad_defs copy_to_page_def get_bytes_array_def pa_from_ppn_paddr PAGE_SIZE_def src Let_def)
qed

lemma copy_page_step:
  assumes "mm_inv l s" "pt_inv l s pt" "p \<in> live l s - pt_owned pt" "start \<le> length data"
    and s1: "s1 = s\<lparr>mem := write_bytes (mem s) (paddr (ppn_val p) 0) (take 4096 (drop start data))\<rparr>"
  shows "mm_inv l s1" "live l s1 = live l s" "pt_inv l s1 pt" "pt_abs (mem s1) pt = pt_abs (mem s) pt"
    "page_copied (mem s) (mem s1) data start p" "same_pages (live l s - {p}) (mem s) (mem s1)"
proof -
  have ok: "page_ok (ppn_val q)" if "q \<in> live l s" for q using live_page_ok[OF assms(1) that] .
  show live: "mm_inv l s1" "live l s1 = live l s"
    using assms(1) by (simp_all add: s1 mm_inv_def live_def)
  show same: "same_pages (live l s - {p}) (mem s) (mem s1)"
  proof (unfold same_pages_def, intro ballI)
    fix q assume q: "q \<in> live l s - {p}"
    then have "ppn_val p \<noteq> ppn_val q" by (auto simp: newtype_eq_iff(3)[symmetric])
    then show "page_eq (mem s) (mem s1) (ppn_val q)"
      using page_eq_write_bytes[of "ppn_val p" "ppn_val q" 0] ok q assms(3) by (simp add: s1 page_eq_sym)
  qed
  have sub: "pt_owned pt \<subseteq> live l s - {p}" using assms(2,3) by (auto simp: pt_inv_def)
  then show "pt_inv l s1 pt" "pt_abs (mem s1) pt = pt_abs (mem s) pt"
    using pt_inv_cong[OF assms(2) _ same_pages_mono[OF same sub]] pt_abs_cong[OF assms(2) same_pages_mono[OF same sub]]
      live by auto
  show "page_copied (mem s) (mem s1) data start p"
    using page_copied_write[OF ok assms(4)] assms(3) by (simp add: s1)
qed

lemma wp_copy_data_loop:
  assumes "mm_inv l s" "pt_inv l s pt" "start \<le> length data" "length data \<le> start + 4096 * Suc n"
    and "\<And>j. j \<le> n \<Longrightarrow> \<exists>e. pt_abs (mem s) pt (VirtPageNum (vpn_val v + of_nat j)) = Some e \<and> pte_ppn e = fr j"
    and "fr ` {..n} \<subseteq> live l s - pt_owned pt" "inj_on fr {..n}"
    and "\<And>m'. (\<And>j. j \<le> n \<Longrightarrow> page_copied (mem s) m' data (start + 4096 * j) (fr j)) \<Longrightarrow>
        same_pages (live l s - fr ` {..n}) (mem s) m' \<Longrightarrow> Q () (s\<lparr>mem := m'\<rparr>)"
  shows "wp (copy_data_loop pt data start v) Q E s"
  using assms
proof (induction n arbitrary: start v fr s)
  case (0 start v fr s)
  obtain e where e: "pt_abs (mem s) pt v = Some e" "pte_ppn e = fr 0" using "0.prems"(5)[of 0] by auto
  define s1 where "s1 = s\<lparr>mem := write_bytes (mem s) (paddr (ppn_val (fr 0)) 0) (take 4096 (drop start data))\<rparr>"
  have fr0: "fr 0 \<in> live l s - pt_owned pt" using "0.prems"(6) by auto
  note st = copy_page_step[OF "0.prems"(1,2) fr0 "0.prems"(3) s1_def]
  have "copy_data_loop pt data start v s = Inr ((), s1)"
    using copy_data_loop_unfold[OF "0.prems"(3) pt_translate_abs[OF e(1)]] "0.prems"(4) by (simp add: s1_def e(2))
  moreover have "Q () s1"
    using "0.prems"(8)[of "mem s1"] st(5,6) by (simp add: s1_def)
  ultimately show ?case by (simp add: wp_def)
next
  case (Suc n start v fr s)
  obtain e where e: "pt_abs (mem s) pt v = Some e" "pte_ppn e = fr 0" using Suc.prems(5)[of 0] by auto
  define s1 where "s1 = s\<lparr>mem := write_bytes (mem s) (paddr (ppn_val (fr 0)) 0) (take 4096 (drop start data))\<rparr>"
  have fr0: "fr 0 \<in> live l s - pt_owned pt" using Suc.prems(6) by auto
  note st = copy_page_step[OF Suc.prems(1,2) fr0 Suc.prems(3) s1_def]
  note unf = copy_data_loop_unfold[OF Suc.prems(3) pt_translate_abs[OF e(1)]]
  have neq: "fr 0 \<noteq> fr (Suc j)" if "j \<le> n" for j using Suc.prems(7) that by (auto simp: inj_on_def)
  have img: "fr ` {..Suc n} = insert (fr 0) (fr ` Suc ` {..n})"
    using atMost_Suc_eq_insert_0[of n] by simp
  have eq0: "page_eq (mem s) (mem s1) (ppn_val (fr (Suc j)))" if "j \<le> n" for j
    using st(6) neq[OF that] Suc.prems(6) that by (simp add: same_pages_def image_subset_iff)
  show ?case
  proof (cases "length data \<le> start + 4096")
    case True
    have "page_copied (mem s) (mem s1) data (start + 4096 * j) (fr j)" if "j \<le> Suc n" for j
      using that st(5) page_copied_beyond[OF _ eq0, of data "start + 4096 * j"] True
      by (cases j) simp_all
    moreover have "same_pages (live l s - fr ` {..Suc n}) (mem s) (mem s1)"
      using same_pages_mono[OF st(6)] img by blast
    ultimately have "Q () s1" using Suc.prems(8)[of "mem s1"] by (simp add: s1_def)
    then show ?thesis using unf True by (simp add: wp_def s1_def e(2))
  next
    case False
    have loop: "copy_data_loop pt data start v s = copy_data_loop pt data (start + 4096) (vpn_step v) s1"
      using unf False by (simp add: s1_def e(2) Let_def)
    have "wp (copy_data_loop pt data (start + 4096) (vpn_step v)) Q E s1"
    proof (rule Suc.IH[where fr = "\<lambda>j. fr (Suc j)"])
      show "\<exists>e. pt_abs (mem s1) pt (VirtPageNum (vpn_val (vpn_step v) + of_nat j)) = Some e \<and> pte_ppn e = fr (Suc j)" if "j \<le> n" for j
        using Suc.prems(5)[of "Suc j"] that st(4) by (simp add: vpn_step_def add.assoc)
      show "(\<lambda>j. fr (Suc j)) ` {..n} \<subseteq> live l s1 - pt_owned pt" using Suc.prems(6) img st(2) by (auto simp: image_image)
      show "inj_on (\<lambda>j. fr (Suc j)) {..n}" using Suc.prems(7) by (auto simp: inj_on_def)
    next
      fix m'
      assume cp: "\<And>j. j \<le> n \<Longrightarrow> page_copied (mem s1) m' data (start + 4096 + 4096 * j) (fr (Suc j))"
        and same: "same_pages (live l s1 - (\<lambda>j. fr (Suc j)) ` {..n}) (mem s1) m'"
      have keep: "page_eq (mem s1) m' (ppn_val (fr 0))"
        using same fr0 neq st(2) by (auto simp: same_pages_def)
      have "page_copied (mem s) m' data (start + 4096 * j) (fr j)" if "j \<le> Suc n" for j
      proof (cases j)
        case 0
        then show ?thesis using st(5) keep by (simp add: page_copied_def page_eq_def)
      next
        case (Suc i)
        then show ?thesis using page_copied_same[OF cp eq0, of i] that by (simp add: algebra_simps)
      qed
      moreover have "live l s - fr ` {..Suc n} \<subseteq> live l s - {fr 0}"
          "live l s - fr ` {..Suc n} \<subseteq> live l s1 - (\<lambda>j. fr (Suc j)) ` {..n}"
        using img st(2) by auto
      from same_pages_trans[OF same_pages_mono[OF st(6) this(1)] same_pages_mono[OF same this(2)]]
      have "same_pages (live l s - fr ` {..Suc n}) (mem s) m'" .
      ultimately show "Q () (s1\<lparr>mem := m'\<rparr>)" using Suc.prems(8)[of m'] by (simp add: s1_def)
    qed (use st Suc.prems(4) False in auto)
    then show ?thesis by (simp add: wp_def loop)
  qed
qed

text \<open>The frames of a framed area, page by page.\<close>

lemma area_framed_ppn:
  assumes "area_ok vs a" "map_type a = Framed" "v \<in> vs"
  obtains p where "area_ppn a v = Some p" "p \<in> set (area_ppns a)"
proof -
  have "v \<in> fst ` set (data_frames a)" using assms by (simp add: area_ok_def)
  then obtain ft where ft: "map_of (data_frames a) v = Some ft"
    by (metis map_of_eq_None_iff not_None_eq)
  then have "ft_ppn ft \<in> set (area_ppns a)"
    using map_of_SomeD[OF ft] by (force simp: area_ppns_def)
  then show ?thesis using that[of "ft_ppn ft"] ft assms(2) by (simp add: area_ppn_def)
qed

lemma area_the_ppn:
  assumes "area_ok vs a" "map_type a = Framed" "v \<in> vs"
  shows "the (area_ppn a v) \<in> set (area_ppns a)"
  by (rule area_framed_ppn[OF assms]) simp

lemma area_ppn_inj:
  assumes "area_ok vs a" "map_type a = Framed" "area_ppn a v = Some p" "area_ppn a w = Some p"
  shows "v = w"
proof -
  obtain f g where fg: "map_of (data_frames a) v = Some f" "map_of (data_frames a) w = Some g"
      "ft_ppn f = p" "ft_ppn g = p"
    using assms(2-4) by (auto simp: area_ppn_def)
  have "inj_on (\<lambda>kv. ft_ppn (snd kv)) (set (data_frames a))"
    using assms(1) by (simp add: area_ok_def area_ppns_def distinct_map)
  then have "(v, f) = (w, g)"
    using fg map_of_SomeD by (metis inj_onD snd_conv)
  then show ?thesis by simp
qed

lemma area_entry_Some: "area_ok vs a \<Longrightarrow> v \<in> vs \<Longrightarrow> area_entry a v \<noteq> None"
  by (cases "map_type a") (auto simp: area_entry_def area_ppn_def area_ok_def map_of_eq_None_iff)

lemma wp_copy_data:
  assumes inv: "area_inv l s a pt (set (area_vpns a))" "range_wf (vpn_range a)" "map_type a = Framed"
    and len: "area_vpns a \<noteq> []" "length data \<le> 4096 * length (area_vpns a)"
    and abs: "\<And>v. v \<in> set (area_vpns a) \<Longrightarrow> pt_abs (mem s) pt v = area_entry a v"
    and Q: "\<And>m'. (\<And>j. j < length (area_vpns a) \<Longrightarrow>
          page_copied (mem s) m' data (4096 * j) (the (area_ppn a (area_vpns a ! j)))) \<Longrightarrow>
        same_pages (live l s - set (area_ppns a)) (mem s) m' \<Longrightarrow> Q () (s\<lparr>mem := m'\<rparr>)"
  shows "wp (copy_data a pt data) Q E s"
proof -
  have i: "mm_inv l s" "pt_inv l s pt" "area_ok (set (area_vpns a)) a" "set (area_ppns a) \<subseteq> live l s"
    "set (area_ppns a) \<inter> pt_owned pt = {}" "range_l (vpn_range a) \<le> range_r (vpn_range a)"
    using inv by (simp_all add: area_inv_def range_wf_def)
  obtain n where n: "length (area_vpns a) = Suc n" using len(1) by (cases "area_vpns a") auto
  define fr where "fr j = the (area_ppn a (area_vpns a ! j))" for j
  have fr: "area_ppn a (area_vpns a ! j) = Some (fr j)" "fr j \<in> set (area_ppns a)" if "j \<le> n" for j
  proof -
    have "area_vpns a ! j \<in> set (area_vpns a)" using that n by simp
    then obtain p where "area_ppn a (area_vpns a ! j) = Some p" "p \<in> set (area_ppns a)"
      by (rule area_framed_ppn[OF i(3) inv(3)])
    then show "area_ppn a (area_vpns a ! j) = Some (fr j)" "fr j \<in> set (area_ppns a)" by (simp_all add: fr_def)
  qed
  have "wp (copy_data_loop pt data 0 (range_l (vpn_range a))) Q E s"
  proof (rule wp_copy_data_loop[OF i(1,2), where fr = fr and n = n])
    fix j assume j: "j \<le> n"
    have "pte_ppn (PageTableEntry_new (fr j) f) = fr j" for f
      using pte_ppn_new live_bound[OF i(1)] fr(2)[OF j] i(4) by blast
    moreover have "area_vpns a ! j \<in> set (area_vpns a)" using j n by simp
    ultimately show "\<exists>e. pt_abs (mem s) pt (VirtPageNum (vpn_val (range_l (vpn_range a)) + of_nat j)) = Some e \<and> pte_ppn e = fr j"
      using abs[of "area_vpns a ! j"] fr(1)[OF j] nth_vpns_of[OF i(6), of j] j n
      by (simp add: area_entry_def)
  next
    show "inj_on fr {..n}"
    proof (rule inj_onI)
      fix j k assume jk: "j \<in> {..n}" "k \<in> {..n}" "fr j = fr k"
      then have "area_vpns a ! j = area_vpns a ! k"
        by (intro area_ppn_inj[OF i(3) inv(3) fr(1)[of j]]) (use fr(1)[of k] in simp_all)
      then show "j = k"
        using nth_eq_iff_index_eq[OF range_wf_distinct[OF inv(2)]] jk n by simp
    qed
  next
    fix m' assume cp: "\<And>j. j \<le> n \<Longrightarrow> page_copied (mem s) m' data (0 + 4096 * j) (fr j)"
      and same: "same_pages (live l s - fr ` {..n}) (mem s) m'"
    have "live l s - set (area_ppns a) \<subseteq> live l s - fr ` {..n}" using fr(2) by auto
    then show "Q () (s\<lparr>mem := m'\<rparr>)"
      using Q[of m'] cp same_pages_mono[OF same] n by (simp add: fr_def less_Suc_eq_le)
  qed (use len(2) n fr(2) i(4,5) in auto)
  then show ?thesis by (simp add: copy_data_def inv(3) wp_rules get_start_def)
qed

end
