(* ===== verification/Memory_Set_Spec.thy ===== *)
theory Memory_Set_Spec
  imports Memory_Set Map_Area_Ops
begin

text \<open>
  The invariant of an address space and its preservation. \<open>ms_inv l s extra ms\<close>: the areas are
  well formed and disjoint, each frame is owned once, the page table maps every page of an area as the
  area says, and every other page as \<open>extra\<close> says (the trampoline page, which belongs to no area).
\<close>

section \<open>The invariant\<close>

definition areas_vpns :: "MapArea list \<Rightarrow> VirtPageNum list" where
  "areas_vpns as = concat (map area_vpns as)"

definition areas_ppns :: "MapArea list \<Rightarrow> PhysPageNum list" where
  "areas_ppns as = concat (map area_ppns as)"

definition ms_owned :: "MemorySet \<Rightarrow> PhysPageNum set" where
  "ms_owned ms = pt_owned (page_table ms) \<union> set (areas_ppns (areas ms))"

abbreviation ms_abs :: "mem \<Rightarrow> MemorySet \<Rightarrow> VirtPageNum \<Rightarrow> PageTableEntry option" where
  "ms_abs m ms \<equiv> pt_abs m (page_table ms)"

definition areas_wf :: "MapArea list \<Rightarrow> bool" where
  "areas_wf as \<longleftrightarrow> (\<forall>a \<in> set as. range_wf (vpn_range a) \<and> area_ok (set (area_vpns a)) a) \<and>
     distinct (areas_vpns as) \<and> distinct (areas_ppns as)"

definition ms_inv :: "usize \<Rightarrow> mm_state \<Rightarrow> (VirtPageNum \<rightharpoonup> PageTableEntry) \<Rightarrow> MemorySet \<Rightarrow> bool" where
  "ms_inv l s extra ms \<longleftrightarrow> mm_inv l s \<and> pt_inv l s (page_table ms) \<and> areas_wf (areas ms) \<and>
     set (areas_ppns (areas ms)) \<subseteq> live l s \<and> set (areas_ppns (areas ms)) \<inter> pt_owned (page_table ms) = {} \<and>
     (\<forall>a \<in> set (areas ms). \<forall>v \<in> set (area_vpns a). ms_abs (mem s) ms v = area_entry a v) \<and>
     (\<forall>v. v \<notin> set (areas_vpns (areas ms)) \<longrightarrow> ms_abs (mem s) ms v = extra v) \<and>
     dom extra \<inter> set (areas_vpns (areas ms)) = {}"

lemma ms_eta [simp]: "\<lparr>page_table = page_table ms, areas = areas ms\<rparr> = (ms :: MemorySet)"
  by simp

lemma ms_upd:
  "ms\<lparr>page_table := pt, areas := as\<rparr> = \<lparr>page_table = pt, areas = as\<rparr>"
  "ms\<lparr>areas := as\<rparr> = \<lparr>page_table = page_table ms, areas = as\<rparr>" for ms :: MemorySet
  by simp_all

lemma areas_vpns_simps [simp]:
  "areas_vpns [] = []" "areas_vpns (a # as) = area_vpns a @ areas_vpns as"
  "areas_vpns (as @ bs) = areas_vpns as @ areas_vpns bs"
  by (simp_all add: areas_vpns_def)

lemma areas_ppns_simps [simp]:
  "areas_ppns [] = []" "areas_ppns (a # as) = area_ppns a @ areas_ppns as"
  "areas_ppns (as @ bs) = areas_ppns as @ areas_ppns bs"
  by (simp_all add: areas_ppns_def)

lemma set_areas_vpns: "v \<in> set (areas_vpns as) \<longleftrightarrow> (\<exists>a \<in> set as. v \<in> set (area_vpns a))"
  by (auto simp: areas_vpns_def)

lemma ms_invD:
  assumes "ms_inv l s extra ms"
  shows "mm_inv l s" "pt_inv l s (page_table ms)" "areas_wf (areas ms)"
    "set (areas_ppns (areas ms)) \<subseteq> live l s" "set (areas_ppns (areas ms)) \<inter> pt_owned (page_table ms) = {}"
    "\<And>a v. a \<in> set (areas ms) \<Longrightarrow> v \<in> set (area_vpns a) \<Longrightarrow> ms_abs (mem s) ms v = area_entry a v"
    "\<And>v. v \<notin> set (areas_vpns (areas ms)) \<Longrightarrow> ms_abs (mem s) ms v = extra v"
    "dom extra \<inter> set (areas_vpns (areas ms)) = {}"
  using assms unfolding ms_inv_def by blast+

lemma ms_owned_live: "ms_inv l s extra ms \<Longrightarrow> ms_owned ms \<subseteq> live l s"
  by (auto simp: ms_inv_def ms_owned_def pt_inv_def)

lemma ms_dom: "ms_inv l s extra ms \<Longrightarrow> dom (ms_abs (mem s) ms) = dom extra \<union> set (areas_vpns (areas ms))"
proof (rule set_eqI)
  fix v assume inv: "ms_inv l s extra ms"
  show "v \<in> dom (ms_abs (mem s) ms) \<longleftrightarrow> v \<in> dom extra \<union> set (areas_vpns (areas ms))"
  proof (cases "v \<in> set (areas_vpns (areas ms))")
    case True
    then obtain a where a: "a \<in> set (areas ms)" "v \<in> set (area_vpns a)" by (auto simp: set_areas_vpns)
    then have "area_entry a v \<noteq> None"
      using area_entry_Some ms_invD(3)[OF inv] by (auto simp: areas_wf_def)
    then show ?thesis using True ms_invD(6)[OF inv a] by (simp add: dom_def)
  next
    case False
    then show ?thesis using ms_invD(7)[OF inv] by (simp add: dom_def)
  qed
qed

section \<open>Changing one area\<close>

text \<open>
  \<open>old\<close> is replaced by \<open>new\<close> in the list of areas: an empty \<open>old\<close> is a push, an empty \<open>new\<close> a
  removal.
\<close>

lemma ms_inv_update:
  assumes inv: "ms_inv l s extra \<lparr>page_table = pt, areas = as1 @ old @ as2\<rparr>"
    and own: "own_step l s (pt_owned pt \<union> set (areas_ppns old)) s' (pt_owned pt' \<union> set (areas_ppns new))"
    and pt': "pt_inv l s' pt'" "set (areas_ppns new) \<inter> pt_owned pt' = {}"
    and new: "areas_wf new"
    and fresh: "(set (areas_vpns new) - set (areas_vpns old)) \<inter> dom (pt_abs (mem s) pt) = {}"
    and abs1: "\<And>a v. a \<in> set new \<Longrightarrow> v \<in> set (area_vpns a) \<Longrightarrow> pt_abs (mem s') pt' v = area_entry a v"
    and abs2: "\<And>v. v \<in> set (areas_vpns old) - set (areas_vpns new) \<Longrightarrow> pt_abs (mem s') pt' v = None"
    and abs3: "\<And>v. v \<notin> set (areas_vpns old) \<union> set (areas_vpns new) \<Longrightarrow> pt_abs (mem s') pt' v = pt_abs (mem s) pt v"
  shows "ms_inv l s' extra \<lparr>page_table = pt', areas = as1 @ new @ as2\<rparr>"
    "own_step l s (ms_owned \<lparr>page_table = pt, areas = as1 @ old @ as2\<rparr>) s'
       (ms_owned \<lparr>page_table = pt', areas = as1 @ new @ as2\<rparr>)"
proof -
  note i = ms_invD[OF inv, simplified]
  let ?R = "set (areas_ppns as1) \<union> set (areas_ppns as2)" and ?V = "set (areas_vpns as1) \<union> set (areas_vpns as2)"
  have R: "?R \<subseteq> live l s" "?R \<inter> (pt_owned pt \<union> set (areas_ppns old)) = {}"
    using i(3-5) by (auto simp: areas_wf_def)
  note fr = own_step_frame[OF own R]
  have VO: "?V \<inter> set (areas_vpns old) = {}" using i(3) by (auto simp: areas_wf_def)
  have dom: "?V \<subseteq> dom (pt_abs (mem s) pt)" using ms_dom[OF inv] by auto
  have VN: "?V \<inter> set (areas_vpns new) = {}" using fresh dom VO by blast
  have wf: "areas_wf (as1 @ new @ as2)"
    using i(3) new VN fr(3) by (auto simp: areas_wf_def)
  have keep: "pt_abs (mem s') pt' v = pt_abs (mem s) pt v" if "v \<in> ?V" for v
    using abs3[of v] that VO VN by blast
  have in_areas: "pt_abs (mem s') pt' v = area_entry a v"
    if "a \<in> set (as1 @ new @ as2)" "v \<in> set (area_vpns a)" for a v
  proof (cases "a \<in> set new")
    case False
    then have a: "a \<in> set as1 \<or> a \<in> set as2" using that(1) by auto
    then have "v \<in> ?V" using that(2) by (auto simp: set_areas_vpns)
    then show ?thesis using keep i(6)[of a v] a that(2) by auto
  qed (use abs1 that in blast)
  have outside: "pt_abs (mem s') pt' v = extra v" if "v \<notin> set (areas_vpns (as1 @ new @ as2))" for v
  proof (cases "v \<in> set (areas_vpns old)")
    case True
    then have "extra v = None" using i(8) by auto
    then show ?thesis using abs2[of v] True that by simp
  next
    case False
    then show ?thesis using abs3[of v] i(7)[of v] that by simp
  qed
  have "dom extra \<subseteq> dom (pt_abs (mem s) pt)" using ms_dom[OF inv] by auto
  then have "dom extra \<inter> set (areas_vpns (as1 @ new @ as2)) = {}"
    using i(8) fresh by auto
  then show "ms_inv l s' extra \<lparr>page_table = pt', areas = as1 @ new @ as2\<rparr>"
    unfolding ms_inv_def
    using own pt' wf fr(3,4) in_areas outside by (auto simp: own_step_def)
  show "own_step l s (ms_owned \<lparr>page_table = pt, areas = as1 @ old @ as2\<rparr>) s'
       (ms_owned \<lparr>page_table = pt', areas = as1 @ new @ as2\<rparr>)"
    using fr(1) by (simp add: ms_owned_def Un_ac)
qed

section \<open>Pushing an area\<close>

text \<open>Page \<open>j\<close> of an area filled with \<open>data\<close> and zeros after it.\<close>

definition page_holds :: "mem \<Rightarrow> u8 list \<Rightarrow> nat \<Rightarrow> PhysPageNum \<Rightarrow> bool" where
  "page_holds m data start p \<longleftrightarrow> (\<forall>k < 4096. m (paddr (ppn_val p) k) =
     (if start + k < length data then data ! (start + k) else 0))"

lemma page_holds_Nil: "page_zero m p \<Longrightarrow> page_holds m [] start p"
  by (simp add: page_zero_def page_holds_def)

lemma page_holds_copied: "page_zero m p \<Longrightarrow> page_copied m m' data start p \<Longrightarrow> page_holds m' data start p"
  by (simp add: page_zero_def page_copied_def page_holds_def)

definition area_holds :: "mem \<Rightarrow> MapArea \<Rightarrow> u8 list \<Rightarrow> bool" where
  "area_holds m a data \<longleftrightarrow> (\<forall>j < length (area_vpns a).
     page_holds m data (4096 * j) (the (area_ppn a (area_vpns a ! j))))"

definition ms_pushed ::
    "usize \<Rightarrow> mm_state \<Rightarrow> (VirtPageNum \<rightharpoonup> PageTableEntry) \<Rightarrow> MemorySet \<Rightarrow> MapArea \<Rightarrow> mm_state \<Rightarrow> MemorySet \<Rightarrow> MapArea \<Rightarrow> bool" where
  "ms_pushed l s extra ms a s' ms' a' \<longleftrightarrow> ms_inv l s' extra ms' \<and>
     areas ms' = areas ms @ [a'] \<and> a' = a\<lparr>data_frames := data_frames a'\<rparr> \<and>
     own_step l s (ms_owned ms) s' (ms_owned ms') \<and> root_ppn (page_table ms') = root_ppn (page_table ms) \<and>
     avail s \<le> avail s' + 3 * length (area_vpns a) \<and>
     same_pages (live l s - pt_owned (page_table ms)) (mem s) (mem s') \<and>
     live l s - pt_owned (page_table ms) \<subseteq> live l s' - pt_owned (page_table ms')"

lemma ms_pushed_mapped:
  assumes inv: "ms_inv l s extra ms" and a: "data_frames a = []" "range_wf (vpn_range a)"
    and out: "set (area_vpns a) \<inter> dom (ms_abs (mem s) ms) = {}"
    and m: "area_mapped l s a (page_table ms) (area_vpns a) s' a' pt'"
    and i': "area_inv l s' a' pt' (set (area_vpns a))"
  shows "ms_pushed l s extra ms a s' (ms\<lparr>page_table := pt', areas := vec_push (areas ms) a'\<rparr>) a'"
    "\<And>p. p \<in> set (area_ppns a') \<Longrightarrow> page_zero (mem s') p"
    "\<And>v. v \<in> set (area_vpns a) \<Longrightarrow> pt_abs (mem s') pt' v = area_entry a' v"
proof -
  note d = area_mappedD[OF m]
  have P: "area_ppns a = []" using a(1) by (simp add: area_ppns_def)
  have r: "vpn_range a' = vpn_range a" by (subst d(4)) simp
  show zero: "page_zero (mem s') p" if "p \<in> set (area_ppns a')" for p
    using d(12) that by (simp add: P)
  show entry: "pt_abs (mem s') pt' v = area_entry a' v" if "v \<in> set (area_vpns a)" for v
    using d(8,9) that by (auto simp: map_add_def restrict_map_def split: option.splits)
  have ms: "ms_inv l s extra \<lparr>page_table = page_table ms, areas = areas ms @ [] @ []\<rparr>" using inv by simp
  have wf: "areas_wf [a']"
    using i' a(2) range_wf_distinct[OF a(2)] by (simp add: areas_wf_def area_inv_def area_ok_def r)
  have own: "own_step l s (pt_owned (page_table ms) \<union> set (areas_ppns [])) s' (pt_owned pt' \<union> set (areas_ppns [a']))"
    using d(3) by (simp add: P)
  have u: "ms_inv l s' extra \<lparr>page_table = pt', areas = areas ms @ [a'] @ []\<rparr>"
      "own_step l s (ms_owned \<lparr>page_table = page_table ms, areas = areas ms @ [] @ []\<rparr>) s'
        (ms_owned \<lparr>page_table = pt', areas = areas ms @ [a'] @ []\<rparr>)"
    using ms_inv_update[OF ms own d(1) _ wf] d(6,9) out entry r
    by (auto simp: map_add_def restrict_map_def)
  have "live l s - pt_owned (page_table ms) \<subseteq> live l s' - pt_owned pt'"
    using d(3) by (auto simp: own_step_def P)
  moreover have "ms\<lparr>page_table := pt', areas := vec_push (areas ms) a'\<rparr> = \<lparr>page_table = pt', areas = areas ms @ [a'] @ []\<rparr>"
    by (simp add: vec_push_def)
  ultimately show "ms_pushed l s extra ms a s' (ms\<lparr>page_table := pt', areas := vec_push (areas ms) a'\<rparr>) a'"
    unfolding ms_pushed_def using u d(2,4,10,11) by simp
qed

text \<open>Writing to data pages does not touch the invariant.\<close>

lemma ms_inv_data_write:
  assumes "ms_inv l s extra ms" "same_pages (pt_owned (page_table ms)) (mem s) m'"
  shows "ms_inv l (s\<lparr>mem := m'\<rparr>) extra ms" "ms_abs m' ms = ms_abs (mem s) ms"
proof -
  have live: "live l (s\<lparr>mem := m'\<rparr>) = live l s" "mm_inv l (s\<lparr>mem := m'\<rparr>) = mm_inv l s"
    by (simp_all add: live_def mm_inv_def)
  have pt: "pt_inv l (s\<lparr>mem := m'\<rparr>) (page_table ms)"
    using pt_inv_cong[OF ms_invD(2)[OF assms(1)], of "s\<lparr>mem := m'\<rparr>"] assms ms_invD(2)[OF assms(1)]
    by (simp add: live pt_inv_def)
  show "ms_abs m' ms = ms_abs (mem s) ms" using pt_abs_cong[OF ms_invD(2)[OF assms(1)] assms(2)] .
  then show "ms_inv l (s\<lparr>mem := m'\<rparr>) extra ms"
    using assms(1) pt by (simp add: ms_inv_def live)
qed

lemma ms_pushed_fresh:
  assumes "ms_pushed l s extra ms a s' ms' a'"
  shows "set (area_ppns a') \<inter> (live l s - pt_owned (page_table ms)) = {}"
proof -
  have "own_step l s (ms_owned ms) s' (ms_owned ms')" "areas_wf (areas ms')" "areas ms' = areas ms @ [a']"
    using assms unfolding ms_pushed_def ms_inv_def by blast+
  then show ?thesis by (auto simp: own_step_def ms_owned_def areas_wf_def)
qed

lemma ms_pushed_write:
  assumes p: "ms_pushed l s extra ms a s1 ms1 a1" and m': "same_pages (live l s1 - set (area_ppns a1)) (mem s1) m'"
  shows "ms_pushed l s extra ms a (s1\<lparr>mem := m'\<rparr>) ms1 a1"
proof -
  have inv: "ms_inv l s1 extra ms1" and sub: "live l s - pt_owned (page_table ms) \<subseteq> live l s1 - pt_owned (page_table ms1)"
    and own: "own_step l s (ms_owned ms) s1 (ms_owned ms1)"
    and same: "same_pages (live l s - pt_owned (page_table ms)) (mem s) (mem s1)"
    using p unfolding ms_pushed_def by blast+
  let ?s2 = "s1\<lparr>mem := m'\<rparr>"
  have live: "live l ?s2 = live l s1" "mm_inv l ?s2 = mm_inv l s1" "avail ?s2 = avail s1"
    by (simp_all add: live_def mm_inv_def avail_def)
  have sub1: "pt_owned (page_table ms1) \<subseteq> live l s1 - set (area_ppns a1)"
    using inv p by (auto simp: ms_inv_def pt_inv_def ms_pushed_def)
  have in_owned: "set (area_ppns a1) \<subseteq> ms_owned ms1" using p by (auto simp: ms_pushed_def ms_owned_def)
  have "live l s1 - ms_owned ms1 \<subseteq> live l s1 - set (area_ppns a1)" using in_owned by blast
  then have "own_step l s1 (ms_owned ms1) ?s2 (ms_owned ms1)"
    using ms_owned_live[OF inv] ms_invD(1)[OF inv] same_pages_mono[OF m'] live by (auto simp: own_step_def)
  then have own': "own_step l s (ms_owned ms) ?s2 (ms_owned ms1)" using own_step_trans[OF own] by blast
  have "live l s - pt_owned (page_table ms) \<subseteq> live l s1 - set (area_ppns a1)" using sub ms_pushed_fresh[OF p] by auto
  then have same': "same_pages (live l s - pt_owned (page_table ms)) (mem s) m'"
    using same_pages_trans[OF same same_pages_mono[OF m']] by blast
  show ?thesis
    using p own' same' live ms_inv_data_write(1)[OF inv same_pages_mono[OF m' sub1]]
    by (simp add: ms_pushed_def)
qed

lemma wp_ms_push:
  assumes inv: "ms_inv l s extra ms" and a: "data_frames a = []" "range_wf (vpn_range a)"
    and data: "data \<noteq> None \<Longrightarrow> map_type a = Framed \<and> area_vpns a \<noteq> [] \<and> length (the data) \<le> 4096 * length (area_vpns a)"
    and E: "avail s < 3 * length (area_vpns a) \<Longrightarrow> E OutOfFrames"
      "set (area_vpns a) \<inter> dom (ms_abs (mem s) ms) \<noteq> {} \<Longrightarrow> E AlreadyMapped"
    and Q: "\<And>s' ms' a'. set (area_vpns a) \<inter> dom (ms_abs (mem s) ms) = {} \<Longrightarrow> ms_pushed l s extra ms a s' ms' a' \<Longrightarrow>
        (map_type a = Framed \<Longrightarrow> area_holds (mem s') a' (case data of None \<Rightarrow> [] | Some d \<Rightarrow> d)) \<Longrightarrow> Q ms' s'"
  shows "wp (ms_push ms a data) Q E s"
proof -
  have ai: "area_inv l s a (page_table ms) {}"
    using ms_invD(1,2)[OF inv] a(1) by (simp add: area_inv_def area_ok_def area_ppns_def split: MapType.split)
  have "wp (area_map a (page_table ms)) (\<lambda>(a', pt').
      wp (kbind (case data of Some d \<Rightarrow> copy_data a' pt' d | None \<Rightarrow> kreturn ())
        (\<lambda>_. kreturn (ms\<lparr>page_table := pt', areas := vec_push (areas ms) a'\<rparr>))) Q E) E s"
  proof (rule wp_area_map[OF ai a(2) E])
    fix s1 a1 pt1
    assume out: "set (area_vpns a) \<inter> dom (ms_abs (mem s) ms) = {}"
      and m: "area_mapped l s a (page_table ms) (area_vpns a) s1 a1 pt1" and i1: "area_inv l s1 a1 pt1 (set (area_vpns a))"
    let ?ms1 = "ms\<lparr>page_table := pt1, areas := vec_push (areas ms) a1\<rparr>"
    note pu = ms_pushed_mapped[OF inv a out m i1]
    have st: "vpn_range a1 = vpn_range a" "map_type a1 = map_type a" by (subst area_mappedD(4)[OF m], simp)+
    have ppn: "the (area_ppn a1 (area_vpns a1 ! j)) \<in> set (area_ppns a1)" if "j < length (area_vpns a1)" "map_type a = Framed" for j
      by (rule area_the_ppn[of "set (area_vpns a)"]) (use i1 st that in \<open>auto simp: area_inv_def\<close>)
    show "(\<lambda>(a', pt'). wp (kbind (case data of Some d \<Rightarrow> copy_data a' pt' d | None \<Rightarrow> kreturn ())
        (\<lambda>_. kreturn (ms\<lparr>page_table := pt', areas := vec_push (areas ms) a'\<rparr>))) Q E) (a1, pt1) s1"
    proof (cases data)
      case None
      have "area_holds (mem s1) a1 []" if "map_type a = Framed"
        using pu(2) ppn that by (simp add: area_holds_def page_holds_Nil)
      then show ?thesis using Q[OF out pu(1)] None by (simp add: wp_rules)
    next
      case (Some d)
      have d: "map_type a1 = Framed" "map_type a = Framed" "area_vpns a1 \<noteq> []" "length d \<le> 4096 * length (area_vpns a1)"
        using data Some st by auto
      have "wp (copy_data a1 pt1 d) (\<lambda>_ s'. Q ?ms1 s') E s1"
      proof (rule wp_copy_data[OF _ _ d(1,3,4)])
        fix m'
        assume cp: "\<And>j. j < length (area_vpns a1) \<Longrightarrow>
            page_copied (mem s1) m' d (4096 * j) (the (area_ppn a1 (area_vpns a1 ! j)))"
          and same: "same_pages (live l s1 - set (area_ppns a1)) (mem s1) m'"
        have "area_holds m' a1 d"
          unfolding area_holds_def using page_holds_copied[OF pu(2)[OF ppn] cp] d(2) by blast
        then show "Q ?ms1 (s1\<lparr>mem := m'\<rparr>)"
          using Q[OF out ms_pushed_write[OF pu(1) same]] Some by simp
      qed (use i1 st a(2) pu(3) in auto)
      then show ?thesis using Some by (simp add: wp_rules)
    qed
  qed
  then show ?thesis by (simp add: ms_push_def wp_rules wp_case_prod)
qed

section \<open>Changing an area in place\<close>

definition ms_step ::
    "usize \<Rightarrow> mm_state \<Rightarrow> (VirtPageNum \<rightharpoonup> PageTableEntry) \<Rightarrow> MemorySet \<Rightarrow> mm_state \<Rightarrow> MemorySet \<Rightarrow> bool" where
  "ms_step l s extra ms s' ms' \<longleftrightarrow> ms_inv l s' extra ms' \<and> own_step l s (ms_owned ms) s' (ms_owned ms') \<and>
     root_ppn (page_table ms') = root_ppn (page_table ms)"

lemma find_index_Some:
  assumes "find_index P xs = Some i"
  shows "i < length xs" "P (xs ! i)" "xs = take i xs @ [xs ! i] @ drop (Suc i) xs"
proof -
  have "i < length xs \<and> P (xs ! i)"
    using assms by (induction xs arbitrary: i) (auto split: if_splits)
  then show "i < length xs" "P (xs ! i)" "xs = take i xs @ [xs ! i] @ drop (Suc i) xs"
    by (auto simp: id_take_nth_drop)
qed

lemma find_index_None: "find_index P xs = None \<longleftrightarrow> (\<forall>x \<in> set xs. \<not> P x)"
  by (induction xs) auto

lemma ms_area_inv:
  assumes "ms_inv l s extra ms" "a \<in> set (areas ms)"
  shows "area_inv l s a (page_table ms) (set (area_vpns a))" "range_wf (vpn_range a)"
    "set (area_vpns a) \<subseteq> dom (ms_abs (mem s) ms)"
proof -
  note i = ms_invD[OF assms(1)]
  have sub: "set (area_ppns a) \<subseteq> set (areas_ppns (areas ms))" using assms(2) by (auto simp: areas_ppns_def)
  then show "area_inv l s a (page_table ms) (set (area_vpns a))" "range_wf (vpn_range a)"
    using i(1-5) assms(2) by (auto simp: area_inv_def areas_wf_def)
  show "set (area_vpns a) \<subseteq> dom (ms_abs (mem s) ms)"
    using ms_dom[OF assms(1)] assms(2) by (auto simp: set_areas_vpns)
qed

lemma areas_wf_single:
  "areas_wf [a] \<longleftrightarrow> range_wf (vpn_range a) \<and> area_ok (set (area_vpns a)) a"
  using range_wf_distinct by (auto simp: areas_wf_def area_ok_def)

lemma list_update_split: "i < length xs \<Longrightarrow> xs[i := y] = take i xs @ [y] @ drop (Suc i) xs"
  by (simp add: upd_conv_take_nth_drop)

lemma ms_step_append:
  assumes inv: "ms_inv l s extra ms" and i: "i < length (areas ms)" "a = areas ms ! i"
    and e: "range_r (vpn_range a) \<le> e" "unat (vpn_val e) \<le> 2 ^ 27"
    and new: "new = vpns_of \<lparr>range_l = range_r (vpn_range a), range_r = e\<rparr>"
    and out: "set new \<inter> dom (ms_abs (mem s) ms) = {}"
    and m: "area_mapped l s a (page_table ms) new s' a' pt'"
    and i': "area_inv l s' a' pt' (set (area_vpns (range_upto a' e)))"
  shows "ms_step l s extra ms s' (ms\<lparr>page_table := pt', areas := (areas ms)[i := range_upto a' e]\<rparr>)"
proof -
  note d = area_mappedD[OF m]
  have a: "a \<in> set (areas ms)" using i by simp
  note ar = ms_area_inv[OF inv a]
  have r: "vpn_range a' = vpn_range a" "map_perm a' = map_perm a" by (subst d(4), simp)+
  have ord: "range_l (vpn_range a) \<le> range_r (vpn_range a)" using ar(2) by (simp add: range_wf_def)
  have split: "area_vpns (range_upto a' e) = area_vpns a @ new"
    using vpns_of_split[OF ord e(1)] by (simp add: r new)
  have disj: "set new \<inter> set (area_vpns a) = {}" using out ar(3) by blast
  have ms: "ms_inv l s extra \<lparr>page_table = page_table ms, areas = take i (areas ms) @ [a] @ drop (Suc i) (areas ms)\<rparr>"
    using inv id_take_nth_drop[OF i(1)] i(2) by simp
  have own: "own_step l s (pt_owned (page_table ms) \<union> set (areas_ppns [a])) s' (pt_owned pt' \<union> set (areas_ppns [range_upto a' e]))"
    using d(3) by simp
  have wf: "areas_wf [range_upto a' e]"
    using i' e ord by (auto simp: areas_wf_single area_inv_def range_wf_def r)
  have abs1: "pt_abs (mem s') pt' v = area_entry a' v" if "v \<in> set (area_vpns a @ new)" for v
  proof (cases "v \<in> set new")
    case True
    then show ?thesis using d(8,9) by (auto simp: map_add_def restrict_map_def split: option.splits)
  next
    case False
    then have "area_entry a' v = area_entry a v" using d(7) by (simp add: area_entry_def r)
    then show ?thesis using d(9) False ms_invD(6)[OF inv a, of v] that
      by (simp add: map_add_def restrict_map_def)
  qed
  have abs3: "pt_abs (mem s') pt' v = ms_abs (mem s) ms v" if "v \<notin> set new" for v
    using d(9) that by (simp add: map_add_def restrict_map_def)
  have u: "ms_inv l s' extra \<lparr>page_table = pt', areas = take i (areas ms) @ [range_upto a' e] @ drop (Suc i) (areas ms)\<rparr>"
    "own_step l s (ms_owned \<lparr>page_table = page_table ms, areas = take i (areas ms) @ [a] @ drop (Suc i) (areas ms)\<rparr>) s'
       (ms_owned \<lparr>page_table = pt', areas = take i (areas ms) @ [range_upto a' e] @ drop (Suc i) (areas ms)\<rparr>)"
    using ms_inv_update[OF ms own d(1) _ wf] d(6) out split abs1 abs3 by auto
  show ?thesis
    using u d(2) id_take_nth_drop[OF i(1)] i(2) by (simp add: ms_step_def list_update_split[OF i(1)] ms_upd)
qed

lemma ms_step_shrink:
  assumes inv: "ms_inv l s extra ms" and i: "i < length (areas ms)" "a = areas ms ! i"
    and e: "range_l (vpn_range a) \<le> e" "e \<le> range_r (vpn_range a)"
    and old: "old = vpns_of \<lparr>range_l = e, range_r = range_r (vpn_range a)\<rparr>"
    and m: "area_unmapped l s a (page_table ms) old s' a'"
    and i': "area_inv l s' a' (page_table ms) (set (area_vpns (range_upto a' e)))"
  shows "ms_step l s extra ms s' (ms\<lparr>areas := (areas ms)[i := range_upto a' e]\<rparr>)"
proof -
  note d = area_unmappedD[OF m]
  have a: "a \<in> set (areas ms)" using i by simp
  note ar = ms_area_inv[OF inv a]
  have r: "vpn_range a' = vpn_range a" "map_perm a' = map_perm a" by (subst d(3), simp)+
  have split: "area_vpns a = area_vpns (range_upto a' e) @ old"
    using vpns_of_split[OF e] by (simp add: r old)
  then have disj: "set (area_vpns (range_upto a' e)) \<inter> set old = {}"
    using range_wf_distinct[OF ar(2)] by auto
  have ms: "ms_inv l s extra \<lparr>page_table = page_table ms, areas = take i (areas ms) @ [a] @ drop (Suc i) (areas ms)\<rparr>"
    using inv id_take_nth_drop[OF i(1)] i(2) by simp
  have own: "own_step l s (pt_owned (page_table ms) \<union> set (areas_ppns [a])) s' (pt_owned (page_table ms) \<union> set (areas_ppns [range_upto a' e]))"
    using d(2) by simp
  have wf: "areas_wf [range_upto a' e]"
    using i' e ar(2) vpn_steps.pos_le[of e "range_r (vpn_range a)"]
    by (auto simp: areas_wf_single area_inv_def range_wf_def r)
  have abs1: "ms_abs (mem s') ms v = area_entry a' v" if "v \<in> set (area_vpns (range_upto a' e))" for v
  proof -
    have v: "v \<notin> set old" "v \<in> set (area_vpns a)" using that disj split by auto
    then have "area_entry a' v = area_entry a v" using d(5) by (simp add: area_entry_def r)
    then show ?thesis using d(6) v ms_invD(6)[OF inv a, of v] by (simp add: restrict_map_def)
  qed
  have dis: "set (areas_ppns [range_upto a' e]) \<inter> pt_owned (page_table ms) = {}"
    using i' by (simp add: area_inv_def)
  have fresh: "(set (areas_vpns [range_upto a' e]) - set (areas_vpns [a])) \<inter> dom (ms_abs (mem s) ms) = {}"
    using split by auto
  have abs1': "ms_abs (mem s') ms v = area_entry b v"
    if "b \<in> set [range_upto a' e]" "v \<in> set (area_vpns b)" for b v
    using abs1 that by simp
  have abs2: "ms_abs (mem s') ms v = None" if "v \<in> set (areas_vpns [a]) - set (areas_vpns [range_upto a' e])" for v
    using d(6) that split by (auto simp: restrict_map_def)
  have abs3: "ms_abs (mem s') ms v = ms_abs (mem s) ms v"
    if "v \<notin> set (areas_vpns [a]) \<union> set (areas_vpns [range_upto a' e])" for v
    using d(6) that split by (simp add: restrict_map_def)
  note u = ms_inv_update[OF ms own d(1) dis wf fresh abs1' abs2 abs3]
  show ?thesis
    using u id_take_nth_drop[OF i(1)] i(2) by (simp add: ms_step_def list_update_split[OF i(1)] ms_upd)
qed

subsection \<open>Removing an area\<close>

lemma ms_step_remove:
  assumes inv: "ms_inv l s extra \<lparr>page_table = pt, areas = as1 @ [a] @ as2\<rparr>"
    and m: "area_unmapped l s a pt (area_vpns a) s1 a1" and i1: "area_inv l s1 a1 pt {}"
    and drop: "own_step l s1 (set (area_ppns a1)) s' {}" "mem s' = mem s1"
  shows "ms_step l s extra \<lparr>page_table = pt, areas = as1 @ [a] @ as2\<rparr> s' \<lparr>page_table = pt, areas = as1 @ as2\<rparr>"
    "same_pages (live l s' - pt_owned pt) (mem s) (mem s')" "live l s' \<subseteq> live l s"
    "pt_abs (mem s') pt = pt_abs (mem s) pt |` (- set (area_vpns a))"
proof -
  note d = area_unmappedD[OF m]
  have i: "pt_owned pt \<subseteq> live l s1" "pt_owned pt \<inter> set (area_ppns a1) = {}" "pt_inv l s1 pt"
    using i1 by (auto simp: area_inv_def pt_inv_def)
  have own: "own_step l s (pt_owned pt \<union> set (areas_ppns [a])) s' (pt_owned pt \<union> set (areas_ppns []))"
    using own_step_trans[OF d(2)] own_step_frame(1)[OF drop(1) i(1,2)] by (simp add: Un_commute)
  have pt': "pt_inv l s' pt" using pt_inv_cong[OF i(3)] own_step_frame(4)[OF drop(1) i(1,2)] drop(2) by simp
  show abs: "pt_abs (mem s') pt = pt_abs (mem s) pt |` (- set (area_vpns a))" using d(6) drop(2) by simp
  have u: "ms_inv l s' extra \<lparr>page_table = pt, areas = as1 @ [] @ as2\<rparr>"
    "own_step l s (ms_owned \<lparr>page_table = pt, areas = as1 @ [a] @ as2\<rparr>) s' (ms_owned \<lparr>page_table = pt, areas = as1 @ [] @ as2\<rparr>)"
    by (rule ms_inv_update[OF inv own pt']; simp add: areas_wf_def abs restrict_map_def)+
  then show "ms_step l s extra \<lparr>page_table = pt, areas = as1 @ [a] @ as2\<rparr> s' \<lparr>page_table = pt, areas = as1 @ as2\<rparr>"
    by (simp add: ms_step_def)
  have "live l s' \<subseteq> live l s1" using drop(1) by (auto simp: own_step_def)
  then show "same_pages (live l s' - pt_owned pt) (mem s) (mem s')"
    using same_pages_mono[OF d(7)] drop(2) by (metis Diff_mono order_refl)
  show "live l s' \<subseteq> live l s" using own ms_invD(2)[OF inv] by (auto simp: own_step_def pt_inv_def)
qed

lemma wp_area_remove:
  assumes inv: "ms_inv l s extra \<lparr>page_table = pt, areas = as1 @ [a] @ as2\<rparr>"
    and Q: "\<And>s' a'. ms_step l s extra \<lparr>page_table = pt, areas = as1 @ [a] @ as2\<rparr> s' \<lparr>page_table = pt, areas = as1 @ as2\<rparr> \<Longrightarrow>
        same_pages (live l s' - pt_owned pt) (mem s) (mem s') \<Longrightarrow> live l s' \<subseteq> live l s \<Longrightarrow>
        pt_abs (mem s') pt = pt_abs (mem s) pt |` (- set (area_vpns a)) \<Longrightarrow> wp (K pt) Q E s'"
  shows "wp (kbind (area_unmap a pt) (\<lambda>(a', pt'). kbind (drop_MapArea a') (\<lambda>_. K pt'))) Q E s"
proof -
  have a: "a \<in> set (areas \<lparr>page_table = pt, areas = as1 @ [a] @ as2\<rparr>)" by simp
  note ar = ms_area_inv[OF inv a, simplified]
  have "wp (area_unmap a pt) (\<lambda>(a', pt'). wp (kbind (drop_MapArea a') (\<lambda>_. K pt')) Q E) E s"
  proof (rule wp_area_unmap[OF ar])
    fix s1 a1 assume m: "area_unmapped l s a pt (area_vpns a) s1 a1" and i1: "area_inv l s1 a1 pt {}"
    have "wp (drop_MapArea a1) (\<lambda>_. wp (K pt) Q E) E s1"
      by (rule wp_drop_MapArea[of l]) (use i1 Q[OF ms_step_remove[OF inv m i1]] in \<open>auto simp: area_inv_def area_ok_def\<close>)
    then show "(\<lambda>(a', pt'). wp (kbind (drop_MapArea a') (\<lambda>_. K pt')) Q E) (a1, pt) s1" by (simp add: wp_rules)
  qed
  then show ?thesis by (simp add: wp_rules wp_case_prod)
qed

section \<open>Dropping\<close>

lemma wp_drop_areas:
  assumes "mm_inv l s" "distinct (areas_ppns as)" "set (areas_ppns as) \<subseteq> live l s"
    and "\<And>s'. own_step l s (set (areas_ppns as)) s' {} \<Longrightarrow> mem s' = mem s \<Longrightarrow> Q () s'"
  shows "wp (drop_areas as) Q E s"
  using assms unfolding drop_areas_def
proof (induction as arbitrary: s)
  case Nil
  then show ?case by (simp add: wp_rules own_step_refl)
next
  case (Cons a as)
  have "wp (drop_MapArea a) (\<lambda>_. wp (for_loop as (\<lambda>a _. drop_MapArea a) ()) Q E) E s"
  proof (rule wp_drop_MapArea[OF Cons.prems(1)])
    fix s1 assume s1: "own_step l s (set (area_ppns a)) s1 {}" "mem s1 = mem s"
    have R: "set (areas_ppns as) \<subseteq> live l s" "set (areas_ppns as) \<inter> set (area_ppns a) = {}"
      using Cons.prems(2,3) by auto
    note f = own_step_frame[OF s1(1) R]
    show "wp (for_loop as (\<lambda>a _. drop_MapArea a) ()) Q E s1"
    proof (rule Cons.IH)
      fix s' assume "own_step l s1 (set (areas_ppns as)) s' {}" "mem s' = mem s1"
      then show "Q () s'" using Cons.prems(4) own_step_trans[OF f(1)] s1(2) by simp
    qed (use Cons.prems(2) f(4) s1(1) in \<open>auto simp: own_step_def\<close>)
  qed (use Cons.prems in auto)
  then show ?case by (simp add: wp_rules)
qed

lemma wp_drop_MemorySet:
  assumes inv: "ms_inv l s extra ms"
    and Q: "\<And>s'. own_step l s (ms_owned ms) s' {} \<Longrightarrow> mem s' = mem s \<Longrightarrow> Q () s'"
  shows "wp (drop_MemorySet ms) Q E s"
proof -
  note i = ms_invD[OF inv]
  have "wp (drop_PageTable (page_table ms)) (\<lambda>_. wp (drop_areas (areas ms)) Q E) E s"
  proof (rule wp_drop_PageTable[OF i(1,2)])
    fix s1 assume s1: "mm_inv l s1" "live l s1 = live l s - pt_owned (page_table ms)"
      "avail s1 = avail s + length (pt_frames (page_table ms))" "mem s1 = mem s"
    have own: "own_step l s (pt_owned (page_table ms)) s1 {}"
      using i(1,2) s1 card_pt_owned[OF i(2)] by (simp add: own_step_def pt_inv_def)
    note f = own_step_frame[OF own i(4,5)]
    show "wp (drop_areas (areas ms)) Q E s1"
    proof (rule wp_drop_areas[OF s1(1) _ f(4)])
      fix s' assume "own_step l s1 (set (areas_ppns (areas ms))) s' {}" "mem s' = mem s1"
      then show "Q () s'" using Q own_step_trans[OF f(1)] s1(4) by (simp add: ms_owned_def)
    qed (use i(3) in \<open>simp add: areas_wf_def\<close>)
  qed
  then show ?thesis by (simp add: drop_MemorySet_def wp_rules)
qed

end
