(* ===== verification/Memory_Set_Fork.thy ===== *)
theory Memory_Set_Fork
  imports Memory_Set_Spec
begin

text \<open>
  Building address spaces: the empty one, the trampoline page, and the copy of a user address space
  that \<^verbatim>\<open>fork\<close> makes (\<open>from_existed_user\<close>).
\<close>

section \<open>The empty address space and the trampoline\<close>

lemma wp_new_bare:
  assumes "mm_inv l s" "avail s = 0 \<Longrightarrow> E OutOfFrames"
    and "\<And>s' ms. ms_inv l s' Map.empty ms \<Longrightarrow> areas ms = [] \<Longrightarrow> own_step l s {} s' (ms_owned ms) \<Longrightarrow>
        avail s = Suc (avail s') \<Longrightarrow> Q ms s'"
  shows "wp new_bare Q E s"
proof -
  have "wp PageTable_new (\<lambda>pt s'. Q \<lparr>page_table = pt, areas = []\<rparr> s') E s"
  proof (rule wp_PageTable_new[OF assms(1)])
    fix s' pt g
    assume n: "mm_inv l s'" "pt_inv l s' pt" "pt_abs (mem s') pt = Map.empty" "pt_owned pt = {g}"
      "g \<notin> live l s" "live l s' = insert g (live l s)" "avail s = Suc (avail s')"
      "same_pages (live l s) (mem s) (mem s')"
    let ?ms = "\<lparr>page_table = pt, areas = []\<rparr>"
    have "ms_inv l s' Map.empty ?ms" using n by (simp add: ms_inv_def areas_wf_def)
    moreover have "own_step l s {} s' (ms_owned ?ms)"
      using assms(1) n by (simp add: own_step_def ms_owned_def)
    ultimately show "Q ?ms s'" using assms(3) n(7) by simp
  qed (use assms(2) in simp)
  then show ?thesis by (simp add: new_bare_def wp_rules)
qed

definition trampoline_vpn :: VirtPageNum where
  "trampoline_vpn = VirtPageNum 0x7ffffff"

definition trampoline_entry :: "linker_symbols \<Rightarrow> PageTableEntry" where
  "trampoline_entry ld = PageTableEntry_new (PhysAddr_floor (pa_from_usize (strampoline ld))) (PTE_R OR PTE_X OR PTE_V)"

abbreviation tramp :: "linker_symbols \<Rightarrow> VirtPageNum \<rightharpoonup> PageTableEntry" where
  "tramp ld \<equiv> [trampoline_vpn \<mapsto> trampoline_entry ld]"

definition ld_ok :: "linker_symbols \<Rightarrow> bool" where
  "ld_ok ld \<longleftrightarrow> PhysAddr_page_offset (pa_from_usize (strampoline ld)) = 0"

lemma vpn_from_va_TRAMPOLINE: "vpn_from_va (va_from_usize TRAMPOLINE) = Inr trampoline_vpn"
  by (simp add: address_defs TRAMPOLINE_eq trampoline_vpn_def)

lemma wp_map_trampoline:
  assumes inv: "ms_inv l s extra ms" and ld: "ld_ok ld" and out: "trampoline_vpn \<notin> dom (ms_abs (mem s) ms)"
    and E: "avail s < 2 \<Longrightarrow> E OutOfFrames"
    and Q: "\<And>s' ms'. ms_inv l s' (extra(trampoline_vpn \<mapsto> trampoline_entry ld)) ms' \<Longrightarrow> areas ms' = areas ms \<Longrightarrow>
        own_step l s (ms_owned ms) s' (ms_owned ms') \<Longrightarrow> avail s \<le> avail s' + 2 \<Longrightarrow> Q ms' s'"
  shows "wp (map_trampoline ld ms) Q E s"
proof -
  note i = ms_invD[OF inv]
  let ?p = "PhysAddr_floor (pa_from_usize (strampoline ld))"
  have "wp (pt_map (page_table ms) trampoline_vpn ?p (PTE_R OR PTE_X)) (\<lambda>pt' s'. Q (ms\<lparr>page_table := pt'\<rparr>) s') E s"
  proof (rule wp_pt_map[OF i(1,2)])
    fix s' pt'
    assume ext: "pt_ext l s (page_table ms) s' pt'" and av: "avail s \<le> avail s' + 2"
      and abs: "pt_abs (mem s') pt' = (ms_abs (mem s) ms)(trampoline_vpn \<mapsto> PageTableEntry_new ?p ((PTE_R OR PTE_X) OR PTE_V))"
    let ?ms = "ms\<lparr>page_table := pt'\<rparr>"
    have abs': "pt_abs (mem s') pt' v = (if v = trampoline_vpn then Some (trampoline_entry ld) else ms_abs (mem s) ms v)" for v
      by (simp add: abs trampoline_entry_def or.assoc)
    note f = own_step_frame[OF pt_ext_own[OF i(1,2) ext] i(4,5)]
    have outa: "trampoline_vpn \<notin> set (areas_vpns (areas ms))" using out ms_dom[OF inv] by simp
    have "ms_inv l s' (extra(trampoline_vpn \<mapsto> trampoline_entry ld)) ?ms"
      unfolding ms_inv_def
      using ext f(3,4) i(3,6,7,8) outa abs' by (auto simp: pt_ext_def set_areas_vpns)
    moreover have "own_step l s (ms_owned ms) s' (ms_owned ?ms)" using f(1) by (simp add: ms_owned_def)
    ultimately show "Q ?ms s'" using Q av by simp
  qed (use E out in \<open>auto simp: trampoline_vpn_def\<close>)
  then show ?thesis
    using ld by (simp add: map_trampoline_def vpn_from_va_TRAMPOLINE ppn_from_pa_def ld_ok_def wp_rules)
qed

section \<open>Copying the pages of an area\<close>

lemma wp_translate_unwrap:
  "ms_abs (mem s) ms v = Some e \<Longrightarrow> Q e s \<Longrightarrow> wp (translate_unwrap ms v) Q E s"
  by (simp add: translate_unwrap_def ms_translate_def wp_rules pt_translate_abs)

lemma copy_page_mem:
  assumes "page_ok (ppn_val src)" "page_ok (ppn_val dst)"
    and m': "m' = write_bytes m (slice_ptr (get_bytes_array dst))
      (read_bytes m (slice_ptr (get_bytes_array src)) (slice_len (get_bytes_array src)))"
  shows "k < 4096 \<Longrightarrow> m' (paddr (ppn_val dst) k) = m (paddr (ppn_val src) k)"
    "page_ok q \<Longrightarrow> q \<noteq> ppn_val dst \<Longrightarrow> page_eq m m' q"
  using assms(1,2)
  by (auto simp: m' get_bytes_array_def pa_from_ppn_paddr write_bytes_paddr read_bytes_def paddr_add
      intro!: page_eq_sym[OF page_eq_write_bytes])

definition pages_copied ::
    "(VirtPageNum \<Rightarrow> PhysPageNum) \<Rightarrow> (VirtPageNum \<Rightarrow> PhysPageNum) \<Rightarrow> VirtPageNum set \<Rightarrow> mem \<Rightarrow> mem \<Rightarrow> bool" where
  "pages_copied pp cp V m m' \<longleftrightarrow>
     (\<forall>v \<in> V. \<forall>k < 4096. m' (paddr (ppn_val (cp v)) k) = m (paddr (ppn_val (pp v)) k))"

lemma pages_copied_step:
  assumes inv: "mm_inv l s" and cp1: "pages_copied pp cp V (mem s) m1"
    and same1: "same_pages (live l s - cp ` V) (mem s) m1"
    and fr: "cp ` insert v V \<subseteq> live l s" "pp v \<in> live l s - cp ` V" "\<And>w. w \<in> V \<Longrightarrow> cp w \<noteq> cp v"
    and m2: "m2 = write_bytes m1 (slice_ptr (get_bytes_array (cp v)))
      (read_bytes m1 (slice_ptr (get_bytes_array (pp v))) (slice_len (get_bytes_array (pp v))))"
  shows "pages_copied pp cp (insert v V) (mem s) m2" "same_pages (live l s - cp ` insert v V) (mem s) m2"
proof -
  have ok: "page_ok (ppn_val q)" if "q \<in> live l s" for q using live_page_ok[OF inv that] .
  have lv: "pp v \<in> live l s" "cp v \<in> live l s" using fr by auto
  note cpy = copy_page_mem[OF ok[OF lv(1)] ok[OF lv(2)] m2]
  have keep: "page_eq m1 m2 (ppn_val q)" if "q \<in> live l s" "q \<noteq> cp v" for q
    using cpy(2)[OF ok[OF that(1)]] that(2) by (simp add: newtype_eq_iff(3)[symmetric])
  show "pages_copied pp cp (insert v V) (mem s) m2"
    unfolding pages_copied_def
  proof (intro ballI allI impI)
    fix w k assume w: "w \<in> insert v V" and k: "k < (4096 :: nat)"
    show "m2 (paddr (ppn_val (cp w)) k) = mem s (paddr (ppn_val (pp w)) k)"
    proof (cases "w = v")
      case True
      then show ?thesis using cpy(1)[OF k] same1 fr(2) k by (simp add: same_pages_def page_eq_def)
    next
      case False
      then have "w \<in> V" "page_eq m1 m2 (ppn_val (cp w))" using w fr(1,3) keep by auto
      then show ?thesis using cp1 k by (simp add: pages_copied_def page_eq_def)
    qed
  qed
  show "same_pages (live l s - cp ` insert v V) (mem s) m2"
    unfolding same_pages_def
  proof (intro ballI)
    fix q assume q: "q \<in> live l s - cp ` insert v V"
    then have "page_eq (mem s) m1 (ppn_val q)" "page_eq m1 m2 (ppn_val q)"
      using same1 keep by (auto simp: same_pages_def)
    then show "page_eq (mem s) m2 (ppn_val q)" by (rule page_eq_trans)
  qed
qed

lemma wp_copy_pages:
  assumes inv: "mm_inv l s" "pt_inv l s (page_table user)" "pt_inv l s (page_table ms)" and vs: "distinct vs"
    and src: "\<And>v. v \<in> set vs \<Longrightarrow> \<exists>e. ms_abs (mem s) user v = Some e \<and> pte_ppn e = pp v"
    and dst: "\<And>v. v \<in> set vs \<Longrightarrow> \<exists>e. ms_abs (mem s) ms v = Some e \<and> pte_ppn e = cp v"
    and fr: "cp ` set vs \<subseteq> live l s" "pp ` set vs \<subseteq> live l s" "inj_on cp (set vs)"
      "cp ` set vs \<inter> pp ` set vs = {}" "cp ` set vs \<inter> pt_owned (page_table user) = {}"
      "cp ` set vs \<inter> pt_owned (page_table ms) = {}"
    and Q: "\<And>m'. pages_copied pp cp (set vs) (mem s) m' \<Longrightarrow> same_pages (live l s - cp ` set vs) (mem s) m' \<Longrightarrow>
        Q () (s\<lparr>mem := m'\<rparr>)"
  shows "wp (for_loop vs (\<lambda>v _. copy_one_page user ms v) ()) Q E s"
proof -
  define I where "I = (\<lambda>ys (_ :: unit) s'. \<exists>m'. s' = s\<lparr>mem := m'\<rparr> \<and> pages_copied pp cp (set ys) (mem s) m' \<and>
      same_pages (live l s - cp ` set ys) (mem s) m')"
  show ?thesis
  proof (rule wp_for_loop[where I = I])
    show "I [] () s" by (auto simp: I_def pages_copied_def intro!: exI[of _ "mem s"])
  next
    fix ys v zs acc s1 assume split: "vs = ys @ v # zs" and I: "I ys acc s1"
    obtain m1 where s1: "s1 = s\<lparr>mem := m1\<rparr>" and cp1: "pages_copied pp cp (set ys) (mem s) m1"
      and same1: "same_pages (live l s - cp ` set ys) (mem s) m1"
      using I by (auto simp: I_def)
    have v: "v \<in> set vs" "v \<notin> set ys" using vs by (auto simp: split)
    have sub: "pt_owned (page_table user) \<subseteq> live l s - cp ` set ys" "pt_owned (page_table ms) \<subseteq> live l s - cp ` set ys"
      using inv(2,3) fr(5,6) by (auto simp: pt_inv_def split)
    have abs: "ms_abs m1 user = ms_abs (mem s) user" "ms_abs m1 ms = ms_abs (mem s) ms"
      using pt_abs_cong[OF inv(2) same_pages_mono[OF same1 sub(1)]] pt_abs_cong[OF inv(3) same_pages_mono[OF same1 sub(2)]]
      by simp_all
    obtain e e' where e: "ms_abs m1 user v = Some e" "pte_ppn e = pp v" "ms_abs m1 ms v = Some e'" "pte_ppn e' = cp v"
      using src[OF v(1)] dst[OF v(1)] abs by auto
    define m2 where "m2 = write_bytes m1 (slice_ptr (get_bytes_array (cp v)))
        (read_bytes m1 (slice_ptr (get_bytes_array (pp v))) (slice_len (get_bytes_array (pp v))))"
    have fr': "cp ` insert v (set ys) \<subseteq> live l s" "pp v \<in> live l s - cp ` set ys" "\<And>w. w \<in> set ys \<Longrightarrow> cp w \<noteq> cp v"
      using fr(1-4) v by (auto simp: split inj_on_def)
    have "I (ys @ [v]) () (s1\<lparr>mem := m2\<rparr>)"
      using pages_copied_step[OF inv(1) cp1 same1 fr' m2_def] by (auto simp: I_def s1)
    then show "wp (copy_one_page user ms v) (I (ys @ [v])) E s1"
      unfolding copy_one_page_def wp_kbind
      by (intro wp_translate_unwrap[of s1 user v e] wp_translate_unwrap[of s1 ms v e'])
        (simp_all add: e s1 copy_page_def wp_rules m2_def)
  next
    fix acc s' assume "I vs acc s'"
    then show "Q acc s'" using Q by (auto simp: I_def)
  qed
qed

section \<open>Copying an area\<close>

text \<open>An address space that shares no frame with what a computation owns does not notice it.\<close>

lemma ms_inv_frame:
  assumes inv: "ms_inv l s extra ms" and own: "own_step l s Own s' Own'" and disj: "ms_owned ms \<inter> Own = {}"
  shows "ms_inv l s' extra ms" "same_pages (ms_owned ms) (mem s) (mem s')" "ms_owned ms \<inter> Own' = {}"
    "ms_abs (mem s') ms = ms_abs (mem s) ms"
proof -
  note i = ms_invD[OF inv]
  note f = own_step_frame[OF own ms_owned_live[OF inv] disj]
  show "same_pages (ms_owned ms) (mem s) (mem s')" "ms_owned ms \<inter> Own' = {}" by (fact f)+
  have same: "same_pages (pt_owned (page_table ms)) (mem s) (mem s')"
    using same_pages_mono[OF f(2)] by (simp add: ms_owned_def)
  show abs: "ms_abs (mem s') ms = ms_abs (mem s) ms" by (rule pt_abs_cong[OF i(2) same])
  have "pt_inv l s' (page_table ms)" using pt_inv_cong[OF i(2) _ same] f(4) by (simp add: ms_owned_def)
  then show "ms_inv l s' extra ms"
    using i f(4) own unfolding ms_inv_def abs by (auto simp: ms_owned_def own_step_def)
qed

abbreviation area_frame :: "MapArea \<Rightarrow> VirtPageNum \<Rightarrow> PhysPageNum" where
  "area_frame a v \<equiv> the (area_ppn a v)"

definition area_copied :: "mem \<Rightarrow> MapArea \<Rightarrow> mem \<Rightarrow> MapArea \<Rightarrow> bool" where
  "area_copied m a m' a' \<longleftrightarrow> vpn_range a' = vpn_range a \<and> map_type a' = map_type a \<and> map_perm a' = map_perm a \<and>
     pages_copied (area_frame a) (area_frame a') (set (area_vpns a)) m m'"

text \<open>The frames of a framed area of an address space.\<close>

lemma ms_area_frames:
  assumes inv: "ms_inv l s extra ms" and a: "a \<in> set (areas ms)" "map_type a = Framed"
  shows "area_frame a ` set (area_vpns a) \<subseteq> set (area_ppns a)" "inj_on (area_frame a) (set (area_vpns a))"
    "\<And>v. v \<in> set (area_vpns a) \<Longrightarrow> \<exists>e. ms_abs (mem s) ms v = Some e \<and> pte_ppn e = area_frame a v"
    "set (area_ppns a) \<subseteq> ms_owned ms" "set (area_ppns a) \<inter> pt_owned (page_table ms) = {}"
proof -
  note ai = ms_area_inv[OF inv a(1), unfolded area_inv_def]
  have ok: "area_ok (set (area_vpns a)) a" and live: "set (area_ppns a) \<subseteq> live l s" using ai by auto
  have ppn: "area_ppn a v = Some (area_frame a v)" "area_frame a v \<in> set (area_ppns a)" if "v \<in> set (area_vpns a)" for v
    by (rule area_framed_ppn[OF ok a(2) that], simp)+
  show "area_frame a ` set (area_vpns a) \<subseteq> set (area_ppns a)" using ppn(2) by auto
  show "inj_on (area_frame a) (set (area_vpns a))"
  proof (rule inj_onI)
    fix v w assume vw: "v \<in> set (area_vpns a)" "w \<in> set (area_vpns a)" "area_frame a v = area_frame a w"
    show "v = w"
      by (rule area_ppn_inj[OF ok a(2) ppn(1)[OF vw(1)]]) (subst vw(3), rule ppn(1)[OF vw(2)])
  qed
  show "\<exists>e. ms_abs (mem s) ms v = Some e \<and> pte_ppn e = area_frame a v" if v: "v \<in> set (area_vpns a)" for v
  proof -
    obtain p where p: "area_ppn a v = Some p" "p \<in> set (area_ppns a)" by (rule area_framed_ppn[OF ok a(2) v])
    then have "p \<in> live l s" using live by blast
    from pte_ppn_new[OF live_bound[OF ms_invD(1)[OF inv] this]] show ?thesis
      using ms_invD(6)[OF inv a(1) v] p(1) by (simp add: area_entry_def)
  qed
  show "set (area_ppns a) \<subseteq> ms_owned ms" using a(1) by (auto simp: ms_owned_def areas_ppns_def)
  show "set (area_ppns a) \<inter> pt_owned (page_table ms) = {}" using ai by auto
qed

lemma wp_copy_area:
  assumes inv: "ms_inv l s X ms" "ms_inv l s Y user" and disj: "ms_owned user \<inter> ms_owned ms = {}"
    and a: "a \<in> set (areas user)" "map_type a = Framed" "set (area_vpns a) \<inter> dom (ms_abs (mem s) ms) = {}"
    and E: "avail s < 3 * length (area_vpns a) \<Longrightarrow> E OutOfFrames"
    and Q: "\<And>s' ms' a'. ms_pushed l s X ms (a\<lparr>data_frames := []\<rparr>) s' ms' a' \<Longrightarrow> ms_inv l s' Y user \<Longrightarrow>
        ms_owned user \<inter> ms_owned ms' = {} \<Longrightarrow> area_copied (mem s) a (mem s') a' \<Longrightarrow> Q ms' s'"
  shows "wp (copy_area user a ms) Q E s"
proof -
  let ?a0 = "a\<lparr>data_frames := []\<rparr>"
  have wf: "range_wf (vpn_range a)" using ms_area_inv(2)[OF inv(2) a(1)] .
  have new: "from_another a = Inr ?a0"
    using wf by (simp add: from_another_def range_wf_def SimpleRange_new_def get_start_def get_end_def)
  have "wp (ms_push ms ?a0 None) (\<lambda>ms'. wp (for_loop (area_vpns a) (\<lambda>v _. copy_one_page user ms' v) ()) (\<lambda>_. Q ms') E) E s"
  proof (rule wp_ms_push[OF inv(1)])
    fix s1 ms1 a1
    assume p: "ms_pushed l s X ms ?a0 s1 ms1 a1"
    have own1: "own_step l s (ms_owned ms) s1 (ms_owned ms1)" and inv1: "ms_inv l s1 X ms1"
      and areas1: "areas ms1 = areas ms @ [a1]" and st1: "a1 = ?a0\<lparr>data_frames := data_frames a1\<rparr>"
      using p unfolding ms_pushed_def by blast+
    have a1: "a1 \<in> set (areas ms1)" "map_type a1 = Framed" "vpn_range a1 = vpn_range a" "map_perm a1 = map_perm a"
      using areas1 a(2) by (simp, (subst st1, simp)+)
    note fr = ms_inv_frame[OF inv(2) own1 disj]
    note src = ms_area_frames[OF fr(1) a(1,2)] and dst = ms_area_frames[OF inv1 a1(1,2), unfolded a1(3)]
    let ?cp = "area_frame a1" and ?pp = "area_frame a" and ?V = "set (area_vpns a)"
    have cpV: "?cp ` ?V \<subseteq> ms_owned ms1" and ppV: "?pp ` ?V \<subseteq> ms_owned user" using src(1,4) dst(1,4) by blast+
    have live1: "ms_owned ms1 \<subseteq> live l s1" "ms_owned user \<subseteq> live l s1"
      and pts: "pt_owned (page_table user) \<subseteq> ms_owned user"
      using ms_owned_live[OF inv1] ms_owned_live[OF fr(1)] by (auto simp: ms_owned_def)
    show "wp (for_loop (area_vpns a) (\<lambda>v _. copy_one_page user ms1 v) ()) (\<lambda>_. Q ms1) E s1"
    proof (rule wp_copy_pages[where cp = ?cp and pp = ?pp and l = l])
      show "mm_inv l s1" "pt_inv l s1 (page_table user)" "pt_inv l s1 (page_table ms1)"
        using ms_invD(1,2)[OF inv1] ms_invD(2)[OF fr(1)] by auto
      show "?cp ` ?V \<subseteq> live l s1" "?pp ` ?V \<subseteq> live l s1" using cpV ppV live1 by blast+
      show "?cp ` ?V \<inter> ?pp ` ?V = {}" "?cp ` ?V \<inter> pt_owned (page_table user) = {}"
        using cpV ppV fr(3) pts by blast+
      show "?cp ` ?V \<inter> pt_owned (page_table ms1) = {}" using dst(1,5) by blast
    next
      fix m'
      assume cp: "pages_copied ?pp ?cp ?V (mem s1) m'" and same: "same_pages (live l s1 - ?cp ` ?V) (mem s1) m'"
      have same': "same_pages (live l s1 - set (area_ppns a1)) (mem s1) m'"
        using same_pages_mono[OF same] dst(1) by blast
      have usr: "pt_owned (page_table user) \<subseteq> live l s1 - set (area_ppns a1)"
        using live1(2) pts fr(3) dst(4) by blast
      have "area_copied (mem s) a m' a1"
        using cp fr(2) ppV a1 a(2) by (auto simp: area_copied_def pages_copied_def same_pages_def page_eq_def)
      then show "Q ms1 (s1\<lparr>mem := m'\<rparr>)"
        using Q[OF ms_pushed_write[OF p same'] ms_inv_data_write(1)[OF fr(1) same_pages_mono[OF same' usr]] fr(3)]
        by simp
    qed (use src(3) dst(2,3) range_wf_distinct[OF wf] in auto)
  qed (use wf a E in auto)
  then show ?thesis by (simp add: copy_area_def new wp_rules)
qed

section \<open>Copying an address space\<close>

lemma list_all2_in_right: "list_all2 P xs ys \<Longrightarrow> y \<in> set ys \<Longrightarrow> \<exists>x \<in> set xs. P x y"
  by (induction rule: list_all2_induct) auto

lemma area_copied_src:
  assumes "area_copied m a m' a'" "same_pages S m0 m" "area_frame a ` set (area_vpns a) \<subseteq> S"
  shows "area_copied m0 a m' a'"
  using assms by (auto simp: area_copied_def pages_copied_def same_pages_def page_eq_def)

lemma area_copied_dst:
  assumes "area_copied m a m1 a'" "same_pages S m1 m'" "area_frame a' ` set (area_vpns a) \<subseteq> S"
  shows "area_copied m a m' a'"
  using assms(1,3) same_pages_sym[OF assms(2)]
  by (auto simp: area_copied_def pages_copied_def same_pages_def page_eq_def)

lemma areas_vpns_copied: "list_all2 (\<lambda>a. area_copied m a m') as bs \<Longrightarrow> areas_vpns bs = areas_vpns as"
  by (induction rule: list_all2_induct) (simp_all add: area_copied_def)

lemma areas_copied_dst:
  assumes "list_all2 (\<lambda>a. area_copied m a m1) as bs" "same_pages S m1 m'"
    and "\<And>b. b \<in> set bs \<Longrightarrow> area_frame b ` set (area_vpns b) \<subseteq> S"
  shows "list_all2 (\<lambda>a. area_copied m a m') as bs"
  using assms(1,3)
proof (induction rule: list_all2_induct)
  case (Cons a as b bs)
  have "vpn_range b = vpn_range a" using Cons.hyps by (simp add: area_copied_def)
  then have "area_copied m a m' b" using area_copied_dst[OF Cons.hyps(1) assms(2)] Cons.prems[of b] by simp
  then show ?case using Cons by simp
qed simp

text \<open>The child so far: a copy of the visited areas, in frames that were not live before.\<close>

definition fork_inv ::
    "usize \<Rightarrow> mm_state \<Rightarrow> linker_symbols \<Rightarrow> MapArea list \<Rightarrow> mm_state \<Rightarrow> MemorySet \<Rightarrow> bool" where
  "fork_inv l s ld as s' ms \<longleftrightarrow> ms_inv l s' (tramp ld) ms \<and> own_step l s {} s' (ms_owned ms) \<and>
     list_all2 (\<lambda>a. area_copied (mem s) a (mem s')) as (areas ms) \<and>
     avail s \<le> avail s' + 3 + 3 * length (areas_vpns as)"

lemma fork_inv_step:
  assumes f: "fork_inv l s ld ys s1 ms" and user: "ms_inv l s (tramp ld) user" and framed: "\<forall>a \<in> set (areas user). map_type a = Framed"
    and a: "areas user = ys @ a # zs"
    and p: "ms_pushed l s1 (tramp ld) ms (a\<lparr>data_frames := []\<rparr>) s' ms' a'" and cp: "area_copied (mem s1) a (mem s') a'"
  shows "fork_inv l s ld (ys @ [a]) s' ms'"
proof -
  have own: "own_step l s {} s1 (ms_owned ms)" and inv: "ms_inv l s1 (tramp ld) ms"
    and all: "list_all2 (\<lambda>a. area_copied (mem s) a (mem s1)) ys (areas ms)"
    and av: "avail s \<le> avail s1 + 3 + 3 * length (areas_vpns ys)"
    using f by (auto simp: fork_inv_def)
  have p': "ms_inv l s' (tramp ld) ms'" "areas ms' = areas ms @ [a']" "own_step l s1 (ms_owned ms) s' (ms_owned ms')"
    "avail s1 \<le> avail s' + 3 * length (area_vpns a)"
    "same_pages (live l s1 - pt_owned (page_table ms)) (mem s1) (mem s')"
    using p by (auto simp: ms_pushed_def)
  have fr: "same_pages (ms_owned user) (mem s) (mem s1)" using ms_inv_frame(2)[OF user own] by simp
  have "area_frame a ` set (area_vpns a) \<subseteq> ms_owned user"
    using ms_area_frames(1,4)[OF user, of a] framed a by auto
  then have new: "area_copied (mem s) a (mem s') a'" by (rule area_copied_src[OF cp fr])
  have "area_frame b ` set (area_vpns b) \<subseteq> live l s1 - pt_owned (page_table ms)" if b: "b \<in> set (areas ms)" for b
  proof -
    obtain c where "c \<in> set ys" "area_copied (mem s) c (mem s1) b" using list_all2_in_right[OF all b] by blast
    then have "map_type b = Framed" using framed a by (auto simp: area_copied_def)
    from ms_area_frames(1,4,5)[OF inv b this] show ?thesis using ms_owned_live[OF inv] by blast
  qed
  then have "list_all2 (\<lambda>a. area_copied (mem s) a (mem s')) ys (areas ms)" by (rule areas_copied_dst[OF all p'(5)])
  then show ?thesis
    using p'(1,2,4) new av own_step_trans[OF own p'(3)] by (simp add: fork_inv_def list_all2_appendI)
qed

lemma wp_from_existed_user:
  assumes user: "ms_inv l s (tramp ld) user" and ld: "ld_ok ld" and framed: "\<forall>a \<in> set (areas user). map_type a = Framed"
    and E: "avail s < 3 + 3 * length (areas_vpns (areas user)) \<Longrightarrow> E OutOfFrames"
    and Q: "\<And>s' ms. fork_inv l s ld (areas user) s' ms \<Longrightarrow> Q ms s'"
  shows "wp (from_existed_user ld user) Q E s"
proof -
  have copy: "wp (copy_area user a ms) (\<lambda>ms' s'. fork_inv l s ld (ys @ [a]) s' ms') E s1"
    if a: "areas user = ys @ a # zs" and f: "fork_inv l s ld ys s1 ms" for ys a zs ms s1
  proof -
    have own: "own_step l s {} s1 (ms_owned ms)" and inv: "ms_inv l s1 (tramp ld) ms"
      and vp: "areas_vpns (areas ms) = areas_vpns ys" and av: "avail s \<le> avail s1 + 3 + 3 * length (areas_vpns ys)"
      using f areas_vpns_copied by (auto simp: fork_inv_def)
    note fr = ms_inv_frame[OF user own]
    have "set (area_vpns a) \<inter> set (areas_vpns ys) = {}" "set (area_vpns a) \<inter> dom (tramp ld) = {}"
      using ms_invD(3,8)[OF user] a by (auto simp: areas_wf_def)
    then have "set (area_vpns a) \<inter> dom (ms_abs (mem s1) ms) = {}"
      using ms_dom[OF inv] vp by auto
    moreover have "avail s1 < 3 * length (area_vpns a) \<Longrightarrow> E OutOfFrames" using E av a by simp
    ultimately show ?thesis
      using wp_copy_area[OF inv fr(1) fr(3), where a = a] fork_inv_step[OF f user framed a] framed a by simp
  qed
  have "wp new_bare (\<lambda>ms. wp (map_trampoline ld ms) (\<lambda>ms. wp (for_loop (areas user) (copy_area user) ms) Q E) E) E s"
  proof (rule wp_new_bare[OF ms_invD(1)[OF user]])
    fix s1 ms
    assume n: "ms_inv l s1 Map.empty ms" "areas ms = []" "own_step l s {} s1 (ms_owned ms)" "avail s = Suc (avail s1)"
    have out: "trampoline_vpn \<notin> dom (ms_abs (mem s1) ms)" using ms_dom[OF n(1)] n(2) by simp
    show "wp (map_trampoline ld ms) (\<lambda>ms. wp (for_loop (areas user) (copy_area user) ms) Q E) E s1"
    proof (rule wp_map_trampoline[OF n(1) ld out])
      fix s2 ms2
      assume t: "ms_inv l s2 (tramp ld) ms2" "areas ms2 = areas ms" "own_step l s1 (ms_owned ms) s2 (ms_owned ms2)"
        "avail s1 \<le> avail s2 + 2"
      then have "fork_inv l s ld [] s2 ms2"
        using n own_step_trans[OF n(3) t(3)] by (simp add: fork_inv_def)
      then show "wp (for_loop (areas user) (copy_area user) ms2) Q E s2"
        by (rule wp_for_loop[where I = "\<lambda>ys ms s'. fork_inv l s ld ys s' ms"]) (use copy Q in auto)
    qed (use E n(4) in simp)
  qed (use E in simp)
  then show ?thesis by (simp add: from_existed_user_def wp_rules)
qed

end
