(* ===== verification/Memory_Set_Ops.thy ===== *)
theory Memory_Set_Ops
  imports Memory_Set_Fork
begin

text \<open>
  The operations on an address space and what they guarantee: adding a framed area, growing and
  shrinking one, removing areas, dropping everything, and the copy made by \<^verbatim>\<open>fork\<close>. The properties
  are stated on \<open>ms_abs\<close>, the finite map from page numbers to entries that the page table holds.
\<close>

section \<open>Rules for the operations\<close>

abbreviation va_span :: "VirtAddr \<Rightarrow> VirtAddr \<Rightarrow> VPNRange" where
  "va_span lo hi \<equiv> \<lparr>range_l = VirtAddr_floor lo, range_r = VirtAddr_ceil hi\<rparr>"

lemma MapArea_new_eq:
  "MapArea_new lo hi ty perm = (if VirtAddr_floor lo \<le> VirtAddr_ceil hi
     then Inr \<lparr>vpn_range = va_span lo hi, data_frames = [], map_type = ty, map_perm = perm\<rparr> else Inl RangeInverted)"
  by (simp add: MapArea_new_def SimpleRange_new_def)

lemma range_wf_span: "range_wf (va_span lo hi) \<Longrightarrow> VirtAddr_floor lo \<le> VirtAddr_ceil hi"
  by (simp add: range_wf_def)

lemma ms_pushed_abs:
  assumes inv: "ms_inv l s extra ms" and p: "ms_pushed l s extra ms a s' ms' a'" and v: "v \<notin> set (area_vpns a')"
  shows "ms_abs (mem s') ms' v = ms_abs (mem s) ms v"
proof -
  have inv': "ms_inv l s' extra ms'" and as: "areas ms' = areas ms @ [a']" using p unfolding ms_pushed_def by blast+
  show ?thesis
  proof (cases "v \<in> set (areas_vpns (areas ms))")
    case True
    then obtain b where b: "b \<in> set (areas ms)" "v \<in> set (area_vpns b)" by (auto simp: set_areas_vpns)
    then show ?thesis using ms_invD(6)[OF inv b] ms_invD(6)[OF inv' _ b(2)] as by simp
  next
    case False
    then show ?thesis using ms_invD(7)[OF inv False] ms_invD(7)[OF inv', of v] v as by simp
  qed
qed

lemma wp_insert_framed_area:
  assumes inv: "ms_inv l s extra ms" and r: "range_wf (va_span lo hi)"
    and E: "avail s < 3 * length (vpns_of (va_span lo hi)) \<Longrightarrow> E OutOfFrames"
      "set (vpns_of (va_span lo hi)) \<inter> dom (ms_abs (mem s) ms) \<noteq> {} \<Longrightarrow> E AlreadyMapped"
    and Q: "\<And>s' ms' a. set (vpns_of (va_span lo hi)) \<inter> dom (ms_abs (mem s) ms) = {} \<Longrightarrow>
        ms_pushed l s extra ms \<lparr>vpn_range = va_span lo hi, data_frames = [], map_type = Framed, map_perm = perm\<rparr> s' ms' a \<Longrightarrow>
        area_holds (mem s') a [] \<Longrightarrow> Q ms' s'"
  shows "wp (insert_framed_area ms lo hi perm) Q E s"
proof -
  let ?a = "\<lparr>vpn_range = va_span lo hi, data_frames = [], map_type = Framed, map_perm = perm\<rparr>"
  have "wp (ms_push ms ?a None) Q E s"
    by (rule wp_ms_push[OF inv]) (use r E Q in auto)
  then show ?thesis
    by (simp add: insert_framed_area_def MapArea_new_eq range_wf_span[OF r] wp_rules)
qed

text \<open>Growing and shrinking the first area that starts at a page.\<close>

abbreviation area_at :: "MemorySet \<Rightarrow> VirtPageNum \<Rightarrow> nat option" where
  "area_at ms v \<equiv> find_index (\<lambda>a. get_start (vpn_range a) = v) (areas ms)"

definition area_grown :: "usize \<Rightarrow> mm_state \<Rightarrow> MemorySet \<Rightarrow> nat \<Rightarrow> VirtPageNum \<Rightarrow> mm_state \<Rightarrow> MemorySet \<Rightarrow> bool" where
  "area_grown l s ms i e s' ms' \<longleftrightarrow>
     map vpn_range (areas ms') = (map vpn_range (areas ms))[i := \<lparr>range_l = area_get_start (areas ms ! i), range_r = e\<rparr>] \<and>
     map (\<lambda>a. (map_type a, map_perm a)) (areas ms') = map (\<lambda>a. (map_type a, map_perm a)) (areas ms) \<and>
     ms_abs (mem s) ms \<subseteq>\<^sub>m ms_abs (mem s') ms' \<and>
     dom (ms_abs (mem s') ms') =
       dom (ms_abs (mem s) ms) \<union> set (vpns_of \<lparr>range_l = area_get_end (areas ms ! i), range_r = e\<rparr>) \<and>
     same_pages (live l s - pt_owned (page_table ms)) (mem s) (mem s')"

lemma wp_ms_append_to:
  assumes inv: "ms_inv l s extra ms" and i: "area_at ms (VirtAddr_floor start) = Some i"
    and e: "area_get_end (areas ms ! i) \<le> VirtAddr_ceil new_end" "unat (vpn_val (VirtAddr_ceil new_end)) \<le> 2 ^ 27"
    and new: "new = vpns_of \<lparr>range_l = area_get_end (areas ms ! i), range_r = VirtAddr_ceil new_end\<rparr>"
    and E: "avail s < 3 * length new \<Longrightarrow> E OutOfFrames" "set new \<inter> dom (ms_abs (mem s) ms) \<noteq> {} \<Longrightarrow> E AlreadyMapped"
    and Q: "\<And>s' ms'. set new \<inter> dom (ms_abs (mem s) ms) = {} \<Longrightarrow> ms_step l s extra ms s' ms' \<Longrightarrow>
        area_grown l s ms i (VirtAddr_ceil new_end) s' ms' \<Longrightarrow> avail s \<le> avail s' + 3 * length new \<Longrightarrow> Q (True, ms') s'"
  shows "wp (ms_append_to ms start new_end) Q E s"
proof -
  let ?e = "VirtAddr_ceil new_end" and ?a = "areas ms ! i"
  note f = find_index_Some[OF i]
  have a: "?a \<in> set (areas ms)" using f(1) by simp
  note ar = ms_area_inv[OF inv a]
  have e': "range_r (vpn_range ?a) \<le> ?e" and new': "new = vpns_of \<lparr>range_l = range_r (vpn_range ?a), range_r = ?e\<rparr>"
    using e(1) new by (simp_all add: area_get_end_def get_end_def)
  have "wp (area_append_to ?a (page_table ms) ?e)
      (\<lambda>(a', pt'). Q (True, ms\<lparr>page_table := pt', areas := (areas ms)[i := a']\<rparr>)) E s"
  proof (rule wp_area_append_to[OF ar(1,2) e' e(2) new' E])
    fix s' a' pt'
    assume out: "set new \<inter> dom (ms_abs (mem s) ms) = {}" and m: "area_mapped l s ?a (page_table ms) new s' a' pt'"
      and i': "area_inv l s' a' pt' (set (area_vpns (range_upto a' ?e)))"
    let ?ms' = "ms\<lparr>page_table := pt', areas := (areas ms)[i := range_upto a' ?e]\<rparr>"
    note d = area_mappedD[OF m]
    have r: "vpn_range a' = vpn_range ?a" by (subst d(4)) simp
    have tp: "map_type a' = map_type ?a" "map_perm a' = map_perm ?a" by (subst d(4), simp)+
    have kind: "map (\<lambda>a. (map_type a, map_perm a)) (areas ?ms') = map (\<lambda>a. (map_type a, map_perm a)) (areas ms)"
      using f(1) tp by (simp add: map_update list_update_same_conv)
    have "ms_abs (mem s) ms \<subseteq>\<^sub>m ms_abs (mem s') ?ms'"
      using d(9) out by (auto simp: map_le_def map_add_def restrict_map_def split: option.splits)
    moreover have "dom (ms_abs (mem s') ?ms') = dom (ms_abs (mem s) ms) \<union> set new"
      using d(8,9) by auto
    ultimately have "area_grown l s ms i ?e s' ?ms'"
      using d(11) r new kind by (simp add: area_grown_def map_update area_get_start_def get_start_def)
    then show "(\<lambda>(a', pt'). Q (True, ms\<lparr>page_table := pt', areas := (areas ms)[i := a']\<rparr>)) (range_upto a' ?e, pt') s'"
      using Q[OF out ms_step_append[OF inv f(1) refl e' e(2) new' out m i']] d(10) by simp
  qed
  then show ?thesis by (simp add: ms_append_to_def i wp_rules case_prod_unfold)
qed

definition area_cut :: "usize \<Rightarrow> mm_state \<Rightarrow> MemorySet \<Rightarrow> nat \<Rightarrow> VirtPageNum \<Rightarrow> mm_state \<Rightarrow> MemorySet \<Rightarrow> bool" where
  "area_cut l s ms i e s' ms' \<longleftrightarrow>
     map vpn_range (areas ms') = (map vpn_range (areas ms))[i := \<lparr>range_l = area_get_start (areas ms ! i), range_r = e\<rparr>] \<and>
     map (\<lambda>a. (map_type a, map_perm a)) (areas ms') = map (\<lambda>a. (map_type a, map_perm a)) (areas ms) \<and>
     ms_abs (mem s') ms' =
       ms_abs (mem s) ms |` (- set (vpns_of \<lparr>range_l = e, range_r = area_get_end (areas ms ! i)\<rparr>)) \<and>
     same_pages (live l s' - pt_owned (page_table ms')) (mem s) (mem s')"

lemma wp_ms_shrink_to:
  assumes inv: "ms_inv l s extra ms" and i: "area_at ms (VirtAddr_floor start) = Some i"
    and e: "area_get_start (areas ms ! i) \<le> VirtAddr_ceil new_end" "VirtAddr_ceil new_end \<le> area_get_end (areas ms ! i)"
    and Q: "\<And>s' ms'. ms_step l s extra ms s' ms' \<Longrightarrow> area_cut l s ms i (VirtAddr_ceil new_end) s' ms' \<Longrightarrow> Q (True, ms') s'"
  shows "wp (ms_shrink_to ms start new_end) Q E s"
proof -
  let ?e = "VirtAddr_ceil new_end" and ?a = "areas ms ! i"
  let ?old = "vpns_of \<lparr>range_l = ?e, range_r = range_r (vpn_range ?a)\<rparr>"
  note f = find_index_Some[OF i]
  have a: "?a \<in> set (areas ms)" using f(1) by simp
  note ar = ms_area_inv[OF inv a]
  have e': "range_l (vpn_range ?a) \<le> ?e" "?e \<le> range_r (vpn_range ?a)"
    using e by (simp_all add: area_get_start_def area_get_end_def get_start_def get_end_def)
  have "wp (area_shrink_to ?a (page_table ms) ?e)
      (\<lambda>(a', pt'). Q (True, ms\<lparr>page_table := pt', areas := (areas ms)[i := a']\<rparr>)) E s"
  proof (rule wp_area_shrink_to[OF ar(1,2) e' refl ar(3)])
    fix s' a'
    assume m: "area_unmapped l s ?a (page_table ms) ?old s' a'"
      and i': "area_inv l s' a' (page_table ms) (set (area_vpns (range_upto a' ?e)))"
    let ?ms' = "ms\<lparr>areas := (areas ms)[i := range_upto a' ?e]\<rparr>"
    note d = area_unmappedD[OF m]
    have r: "vpn_range a' = vpn_range ?a" by (subst d(3)) simp
    have tp: "map_type a' = map_type ?a" "map_perm a' = map_perm ?a" by (subst d(3), simp)+
    have kind: "map (\<lambda>a. (map_type a, map_perm a)) (areas ?ms') = map (\<lambda>a. (map_type a, map_perm a)) (areas ms)"
      using f(1) tp by (simp add: map_update list_update_same_conv)
    have "area_cut l s ms i ?e s' ?ms'"
      using d(6,7) r kind by (simp add: area_cut_def map_update area_get_start_def area_get_end_def get_start_def get_end_def)
    then show "(\<lambda>(a', pt'). Q (True, ms\<lparr>page_table := pt', areas := (areas ms)[i := a']\<rparr>)) (range_upto a' ?e, page_table ms) s'"
      using Q[OF ms_step_shrink[OF inv f(1) refl e' refl m i']] by simp
  qed
  then show ?thesis by (simp add: ms_shrink_to_def i wp_rules case_prod_unfold)
qed

text \<open>Removing areas.\<close>

lemma ms_step_refl: "ms_inv l s extra ms \<Longrightarrow> ms_step l s extra ms s ms"
  using ms_owned_live[of l s extra ms] by (simp add: ms_step_def ms_inv_def own_step_refl)

lemma ms_step_trans: "ms_step l s extra ms s1 ms1 \<Longrightarrow> ms_step l s1 extra ms1 s2 ms2 \<Longrightarrow> ms_step l s extra ms s2 ms2"
  unfolding ms_step_def using own_step_trans by metis

text \<open>Both ranges that \<open>shrink_to\<close> makes are checked: an end outside of the area is a panic.\<close>

lemma shrink_outside_panics:
  assumes i: "area_at ms (VirtAddr_floor start) = Some i"
    and out: "\<not> (area_get_start (areas ms ! i) \<le> VirtAddr_ceil new_end \<and> VirtAddr_ceil new_end \<le> area_get_end (areas ms ! i))"
  shows "wp (ms_shrink_to ms start new_end) (\<lambda>_ _. False) (\<lambda>_. True) s"
proof -
  let ?a = "areas ms ! i" and ?e = "VirtAddr_ceil new_end"
  have "wp (for_loop vs (\<lambda>vpn (a, pt). unmap_one a pt vpn) (?a, page_table ms))
      (\<lambda>(a', pt'). wp (klift (SimpleRange_new (get_start (vpn_range a')) ?e)) (\<lambda>_ _. False) (\<lambda>_. True)) (\<lambda>_. True) s"
    if "\<not> area_get_start ?a \<le> ?e" for vs
    by (rule wp_for_loop[where I = "\<lambda>_ acc _. vpn_range (fst acc) = vpn_range ?a"])
      (use that in \<open>auto simp: unmap_one_def Let_def wp_rules wp_case_prod SimpleRange_new_def area_get_start_def split: MapType.splits option.splits prod.splits\<close>)
  then show ?thesis using i out
    by (auto simp: ms_shrink_to_def area_shrink_to_def wp_rules SimpleRange_new_def area_get_end_def case_prod_unfold split: if_splits)
qed

definition areas_removed :: "usize \<Rightarrow> mm_state \<Rightarrow> MemorySet \<Rightarrow> MapArea list \<Rightarrow> mm_state \<Rightarrow> MemorySet \<Rightarrow> bool" where
  "areas_removed l s ms gone s' ms' \<longleftrightarrow> page_table ms' = page_table ms \<and>
     ms_abs (mem s') ms' = ms_abs (mem s) ms |` (- set (areas_vpns gone)) \<and> live l s' \<subseteq> live l s \<and>
     same_pages (live l s' - pt_owned (page_table ms')) (mem s) (mem s')"

text \<open>The frames of an area that is gone are free again.\<close>

lemma removed_frames:
  assumes inv: "ms_inv l s extra ms" and st: "ms_step l s extra ms s' ms'" "page_table ms' = page_table ms"
    and a: "a \<in> set (areas ms)" "set (area_ppns a) \<inter> set (areas_ppns (areas ms')) = {}"
  shows "set (area_ppns a) \<inter> live l s' = {}"
proof -
  have "set (area_ppns a) \<subseteq> set (areas_ppns (areas ms))" using a(1) by (auto simp: areas_ppns_def)
  then have "set (area_ppns a) \<subseteq> ms_owned ms" "set (area_ppns a) \<inter> ms_owned ms' = {}"
    using ms_invD(5)[OF inv] st(2) a(2) by (auto simp: ms_owned_def)
  then show ?thesis using st(1) by (auto simp: ms_step_def own_step_def)
qed

lemma areas_removed_trans:
  assumes 1: "areas_removed l s ms as s1 ms1" and 2: "areas_removed l s1 ms1 bs s2 ms2"
  shows "areas_removed l s ms (as @ bs) s2 ms2"
proof -
  have "live l s2 - pt_owned (page_table ms2) \<subseteq> live l s1 - pt_owned (page_table ms1)"
    using 2 by (auto simp: areas_removed_def)
  then have "same_pages (live l s2 - pt_owned (page_table ms2)) (mem s) (mem s2)"
    using same_pages_trans[OF same_pages_mono] 1 2 unfolding areas_removed_def by blast
  then show ?thesis
    using 1 2 by (auto simp: areas_removed_def restrict_map_def fun_eq_iff)
qed

definition area_spans :: "VirtPageNum \<Rightarrow> VirtPageNum \<Rightarrow> MapArea \<Rightarrow> bool" where
  "area_spans lo hi a \<longleftrightarrow> hi \<le> area_get_end a \<and> lo \<ge> area_get_start a"

lemma wp_munmap_loop:
  assumes "ms_inv l s extra \<lparr>page_table = pt, areas = kept @ as\<rparr>"
    and "\<And>s'. ms_step l s extra \<lparr>page_table = pt, areas = kept @ as\<rparr> s' \<lparr>page_table = pt, areas = kept @ filter (\<lambda>a. \<not> area_spans lo hi a) as\<rparr> \<Longrightarrow>
        areas_removed l s \<lparr>page_table = pt, areas = kept @ as\<rparr> (filter (area_spans lo hi) as) s'
          \<lparr>page_table = pt, areas = kept @ filter (\<lambda>a. \<not> area_spans lo hi a) as\<rparr> \<Longrightarrow>
        Q (kept @ filter (\<lambda>a. \<not> area_spans lo hi a) as, pt) s'"
  shows "wp (munmap_loop lo hi as kept pt) Q E s"
  using assms
proof (induction as arbitrary: kept s)
  case Nil
  then show ?case using Nil.prems(2)[of s] ms_step_refl[OF Nil.prems(1)]
    by (simp add: wp_rules areas_removed_def restrict_map_def)
next
  case (Cons a as)
  show ?case
  proof (cases "area_spans lo hi a")
    case True
    have inv: "ms_inv l s extra \<lparr>page_table = pt, areas = kept @ [a] @ as\<rparr>" using Cons.prems(1) by simp
    have "wp (kbind (area_unmap a pt) (\<lambda>(a', pt'). kbind (drop_MapArea a') (\<lambda>_. munmap_loop lo hi as kept pt'))) Q E s"
    proof (rule wp_area_remove[OF inv])
      fix s1
      assume st: "ms_step l s extra \<lparr>page_table = pt, areas = kept @ [a] @ as\<rparr> s1 \<lparr>page_table = pt, areas = kept @ as\<rparr>"
        and rm: "same_pages (live l s1 - pt_owned pt) (mem s) (mem s1)" "live l s1 \<subseteq> live l s"
          "pt_abs (mem s1) pt = pt_abs (mem s) pt |` (- set (area_vpns a))"
      have rm1: "areas_removed l s \<lparr>page_table = pt, areas = kept @ [a] @ as\<rparr> [a] s1 \<lparr>page_table = pt, areas = kept @ as\<rparr>"
        using rm by (simp add: areas_removed_def)
      show "wp (munmap_loop lo hi as kept pt) Q E s1"
      proof (rule Cons.IH)
        show "ms_inv l s1 extra \<lparr>page_table = pt, areas = kept @ as\<rparr>" using st by (simp add: ms_step_def)
      next
        fix s'
        assume "ms_step l s1 extra \<lparr>page_table = pt, areas = kept @ as\<rparr> s' \<lparr>page_table = pt, areas = kept @ filter (\<lambda>a. \<not> area_spans lo hi a) as\<rparr>"
          "areas_removed l s1 \<lparr>page_table = pt, areas = kept @ as\<rparr> (filter (area_spans lo hi) as) s'
            \<lparr>page_table = pt, areas = kept @ filter (\<lambda>a. \<not> area_spans lo hi a) as\<rparr>"
        then show "Q (kept @ filter (\<lambda>a. \<not> area_spans lo hi a) as, pt) s'"
          using Cons.prems(2)[of s'] ms_step_trans[OF st] areas_removed_trans[OF rm1] True by simp
      qed
    qed
    then show ?thesis using True by (simp add: area_spans_def)
  next
    case False
    have "wp (munmap_loop lo hi as (kept @ [a]) pt) Q E s"
      by (rule Cons.IH) (use Cons.prems False in auto)
    then show ?thesis using False by (simp only: munmap_loop.simps if_False area_spans_def)
  qed
qed

lemma wp_munmap_area:
  assumes inv: "ms_inv l s extra ms" and sp: "P = area_spans (VirtAddr_floor lo) (VirtAddr_ceil hi)"
    and Q: "\<And>s' ms'. ms_step l s extra ms s' ms' \<Longrightarrow> areas ms' = filter (\<lambda>a. \<not> P a) (areas ms) \<Longrightarrow>
        areas_removed l s ms (filter P (areas ms)) s' ms' \<Longrightarrow> Q ms' s'"
  shows "wp (munmap_area ms lo hi) Q E s"
proof -
  have "wp (munmap_loop (VirtAddr_floor lo) (VirtAddr_ceil hi) (areas ms) [] (page_table ms))
      (\<lambda>(as, pt). Q (ms\<lparr>page_table := pt, areas := as\<rparr>)) E s"
  proof (rule wp_munmap_loop)
    let ?ms' = "\<lparr>page_table = page_table ms, areas = [] @ filter (\<lambda>a. \<not> area_spans (VirtAddr_floor lo) (VirtAddr_ceil hi) a) (areas ms)\<rparr>"
    fix s'
    assume "ms_step l s extra \<lparr>page_table = page_table ms, areas = [] @ areas ms\<rparr> s' ?ms'"
      "areas_removed l s \<lparr>page_table = page_table ms, areas = [] @ areas ms\<rparr>
        (filter (area_spans (VirtAddr_floor lo) (VirtAddr_ceil hi)) (areas ms)) s' ?ms'"
    then have "Q ?ms' s'" by (intro Q) (simp_all add: sp)
    then show "(\<lambda>(as, pt). Q (ms\<lparr>page_table := pt, areas := as\<rparr>)) ([] @ filter (\<lambda>a. \<not> area_spans (VirtAddr_floor lo) (VirtAddr_ceil hi) a) (areas ms), page_table ms) s'"
      by (simp add: ms_upd)
  qed (use inv in simp)
  then show ?thesis by (simp add: munmap_area_def wp_rules case_prod_unfold)
qed

lemma wp_remove_area_with_start_vpn:
  assumes inv: "ms_inv l s extra ms" and i: "area_at ms v = Some i"
    and Q: "\<And>s' ms'. ms_step l s extra ms s' ms' \<Longrightarrow> areas ms' = vec_remove i (areas ms) \<Longrightarrow>
        areas_removed l s ms [areas ms ! i] s' ms' \<Longrightarrow> Q ms' s'"
  shows "wp (remove_area_with_start_vpn ms v) Q E s"
proof -
  note f = find_index_Some[OF i]
  let ?as1 = "take i (areas ms)" and ?as2 = "drop (Suc i) (areas ms)" and ?a = "areas ms ! i"
  have ms: "ms = \<lparr>page_table = page_table ms, areas = ?as1 @ [?a] @ ?as2\<rparr>"
    using f(3) ms_eta by metis
  have "wp (kbind (area_unmap ?a (page_table ms)) (\<lambda>(a', pt'). kbind (drop_MapArea a') (\<lambda>_.
      kreturn (ms\<lparr>page_table := pt', areas := vec_remove i (areas ms)\<rparr>)))) Q E s"
  proof (rule wp_area_remove[OF inv[unfolded arg_cong[OF ms, of "ms_inv l s extra"]]])
    fix s'
    assume st: "ms_step l s extra \<lparr>page_table = page_table ms, areas = ?as1 @ [?a] @ ?as2\<rparr> s' \<lparr>page_table = page_table ms, areas = ?as1 @ ?as2\<rparr>"
      and rm: "same_pages (live l s' - pt_owned (page_table ms)) (mem s) (mem s')" "live l s' \<subseteq> live l s"
        "ms_abs (mem s') ms = ms_abs (mem s) ms |` (- set (area_vpns ?a))"
    have "Q \<lparr>page_table = page_table ms, areas = ?as1 @ ?as2\<rparr> s'"
      by (rule Q) (use st rm ms in \<open>simp_all add: areas_removed_def vec_remove_def\<close>)
    then show "wp (kreturn (ms\<lparr>page_table := page_table ms, areas := vec_remove i (areas ms)\<rparr>)) Q E s'"
      by (simp add: wp_rules vec_remove_def ms_upd)
  qed
  then show ?thesis by (simp add: remove_area_with_start_vpn_def i)
qed

section \<open>An address space for the witnesses\<close>

text \<open>A user address space made on the machine \<open>boot_mm\<close>: the trampoline and one area of two pages.\<close>

definition boot_ld :: linker_symbols where
  "boot_ld = \<lparr>stext = 0x80200000, etext = 0x80210000, srodata = 0x80210000, erodata = 0x80214000,
     sdata = 0x80214000, edata = 0x80250000, sbss_with_stack = 0x80250000, ebss = 0x80400000,
     ekernel = 0x80400000, strampoline = 0x80201000\<rparr>"

definition boot_user :: "panic + MemorySet \<times> mm_state" where
  "boot_user = kbind new_bare (\<lambda>ms. kbind (map_trampoline boot_ld ms) (\<lambda>ms.
     insert_framed_area ms (VirtAddr 0x10000) (VirtAddr 0x12000) (MP_R OR MP_W OR MP_U))) boot_mm"

lemma boot_ld_ok: "ld_ok boot_ld"
  by (simp add: ld_ok_def boot_ld_def address_defs)

lemma boot_vpns: "vpns_of \<lparr>range_l = VirtPageNum 0x10, range_r = VirtPageNum 0x12\<rparr> = [VirtPageNum 0x10, VirtPageNum 0x11]"
  by (rule vpns_of_inject) (simp add: map_unat_vpns_of newtype_order_defs upt_rec)

lemma boot_span: "va_span (VirtAddr 0x10000) (VirtAddr 0x12000) = \<lparr>range_l = VirtPageNum 0x10, range_r = VirtPageNum 0x12\<rparr>"
  by (simp add: address_defs)

lemma boot_user_facts:
  obtains ms s a where "boot_user = Inr (ms, s)" "ms_inv 0x80400 s (tramp boot_ld) ms" "areas ms = [a]"
    "vpn_range a = \<lparr>range_l = VirtPageNum 0x10, range_r = VirtPageNum 0x12\<rparr>" "map_type a = Framed" "31735 \<le> avail s"
    "area_holds (mem s) a []"
proof -
  let ?r = "\<lparr>range_l = VirtPageNum 0x10, range_r = VirtPageNum 0x12\<rparr>"
  let ?Q = "\<lambda>ms s. \<exists>a. ms_inv 0x80400 s (tramp boot_ld) ms \<and> areas ms = [a] \<and> vpn_range a = ?r \<and>
    map_type a = Framed \<and> 31735 \<le> avail s \<and> area_holds (mem s) a []"
  have "wp new_bare (\<lambda>ms. wp (map_trampoline boot_ld ms) (\<lambda>ms.
      wp (insert_framed_area ms (VirtAddr 0x10000) (VirtAddr 0x12000) (MP_R OR MP_W OR MP_U)) ?Q (\<lambda>_. False)) (\<lambda>_. False))
      (\<lambda>_. False) boot_mm"
  proof (rule wp_new_bare[OF boot_mm_inv])
    fix s1 ms1 assume 1: "ms_inv 0x80400 s1 Map.empty ms1" "areas ms1 = []" "avail boot_mm = Suc (avail s1)"
    show "wp (map_trampoline boot_ld ms1) (\<lambda>ms.
      wp (insert_framed_area ms (VirtAddr 0x10000) (VirtAddr 0x12000) (MP_R OR MP_W OR MP_U)) ?Q (\<lambda>_. False)) (\<lambda>_. False) s1"
    proof (rule wp_map_trampoline[OF 1(1) boot_ld_ok])
      fix s2 ms2
      assume 2: "ms_inv 0x80400 s2 (tramp boot_ld) ms2" "areas ms2 = areas ms1" "avail s1 \<le> avail s2 + 2"
      have dom: "dom (ms_abs (mem s2) ms2) = {trampoline_vpn}" using ms_dom[OF 2(1)] 2(2) 1(2) by simp
      have wf: "range_wf ?r" by (simp add: range_wf_def newtype_order_defs)
      show "wp (insert_framed_area ms2 (VirtAddr 0x10000) (VirtAddr 0x12000) (MP_R OR MP_W OR MP_U)) ?Q (\<lambda>_. False) s2"
      proof (rule wp_insert_framed_area[OF 2(1)], unfold boot_span boot_vpns)
        fix s' ms' a
        assume p: "ms_pushed 0x80400 s2 (tramp boot_ld) ms2
          \<lparr>vpn_range = ?r, data_frames = [], map_type = Framed, map_perm = MP_R OR MP_W OR MP_U\<rparr> s' ms' a"
          and z: "area_holds (mem s') a []"
        have st: "vpn_range a = ?r" "map_type a = Framed"
          using p unfolding ms_pushed_def by (metis MapArea.select_convs MapArea.update_convs)+
        show "?Q ms' s'"
          using p z 1(2,3) 2(2,3) st by (intro exI[of _ a]) (simp add: ms_pushed_def boot_vpns boot_avail)
      qed (use wf dom 1(3) 2(3) in \<open>auto simp: boot_avail trampoline_vpn_def\<close>)
    qed (use ms_dom[OF 1(1)] 1(2,3) in \<open>simp_all add: boot_avail\<close>)
  qed (simp add: boot_avail)
  then have "wp (kbind new_bare (\<lambda>ms. kbind (map_trampoline boot_ld ms) (\<lambda>ms.
     insert_framed_area ms (VirtAddr 0x10000) (VirtAddr 0x12000) (MP_R OR MP_W OR MP_U)))) ?Q (\<lambda>_. False) boot_mm"
    by (simp add: wp_rules)
  from wp_no_panicD[OF this] show ?thesis using that unfolding boot_user_def by blast
qed

section \<open>Properties\<close>

text \<open>
  C10: \<open>from_existed_user\<close>, the copy that \<^verbatim>\<open>fork\<close> makes. With enough frames it returns, the child has the
  areas of the parent (same ranges, types and permissions) in frames that were not live before, every
  page of the child holds the bytes of the parent's page, and neither the parent's address space nor
  any live frame is changed.
\<close>

theorem from_existed_user_copies:
  assumes "ms_inv l s (tramp ld) user" "ld_ok ld" "\<forall>a \<in> set (areas user). map_type a = Framed"
    and "3 + 3 * length (areas_vpns (areas user)) \<le> avail s"
  shows "\<exists>child s'. from_existed_user ld user s = Inr (child, s') \<and>
    ms_inv l s' (tramp ld) child \<and> ms_inv l s' (tramp ld) user \<and> ms_abs (mem s') user = ms_abs (mem s) user \<and>
    dom (ms_abs (mem s') child) = dom (ms_abs (mem s) user) \<and> ms_owned child \<inter> live l s = {} \<and>
    same_pages (live l s) (mem s) (mem s') \<and>
    list_all2 (\<lambda>a. area_copied (mem s) a (mem s')) (areas user) (areas child)"
proof -
  have "wp (from_existed_user ld user) (\<lambda>ms s'. fork_inv l s ld (areas user) s' ms) (\<lambda>_. False) s"
    by (rule wp_from_existed_user[OF assms(1-3)]) (use assms(4) in simp_all)
  from wp_no_panicD[OF this] obtain ms s' where r: "from_existed_user ld user s = Inr (ms, s')"
    and f: "ms_inv l s' (tramp ld) ms" "own_step l s {} s' (ms_owned ms)"
      "list_all2 (\<lambda>a. area_copied (mem s) a (mem s')) (areas user) (areas ms)"
    by (auto simp: fork_inv_def)
  have "ms_owned ms \<inter> live l s = {}" "same_pages (live l s) (mem s) (mem s')"
    using f(2) by (simp_all add: own_step_def)
  moreover have "dom (ms_abs (mem s') ms) = dom (ms_abs (mem s) user)"
    using ms_dom[OF f(1)] ms_dom[OF assms(1)] areas_vpns_copied[OF f(3)] by simp
  moreover note ms_inv_frame(1,4)[OF assms(1) f(2)]
  ultimately show ?thesis using r f by simp
qed

lemma from_existed_user_copies_witness:
  "\<exists>user s child s'. boot_user = Inr (user, s) \<and> from_existed_user boot_ld user s = Inr (child, s') \<and>
     ms_abs (mem s') user = ms_abs (mem s) user \<and> ms_owned child \<inter> ms_owned user = {}"
proof -
  obtain ms s a where b: "boot_user = Inr (ms, s)" "ms_inv 0x80400 s (tramp boot_ld) ms" "areas ms = [a]"
    "vpn_range a = \<lparr>range_l = VirtPageNum 0x10, range_r = VirtPageNum 0x12\<rparr>" "map_type a = Framed" "31735 \<le> avail s"
    by (rule boot_user_facts)
  have "\<forall>a \<in> set (areas ms). map_type a = Framed" "3 + 3 * length (areas_vpns (areas ms)) \<le> avail s"
    using b(3-6) by (simp_all add: boot_vpns)
  from from_existed_user_copies[OF b(2) boot_ld_ok this] show ?thesis
    using b(1) ms_owned_live[OF b(2)] by blast
qed

text \<open>
  C12: \<open>insert_framed_area\<close> of pages that are not mapped. With three frames per page it returns, exactly
  the pages of the range are added to the address space with the permission given, they read as zeros,
  and the data frames of the whole machine keep their bytes.
\<close>

theorem insert_framed_area_correct:
  assumes "ms_inv l s extra ms" "range_wf (va_span lo hi)" "set (vpns_of (va_span lo hi)) \<inter> dom (ms_abs (mem s) ms) = {}"
    and "3 * length (vpns_of (va_span lo hi)) \<le> avail s"
  shows "\<exists>ms' s' a. insert_framed_area ms lo hi perm s = Inr (ms', s') \<and> ms_inv l s' extra ms' \<and>
    areas ms' = areas ms @ [a] \<and> vpn_range a = va_span lo hi \<and> map_type a = Framed \<and> map_perm a = perm \<and>
    area_holds (mem s') a [] \<and>
    (\<forall>v. ms_abs (mem s') ms' v = (if v \<in> set (vpns_of (va_span lo hi)) then area_entry a v else ms_abs (mem s) ms v)) \<and>
    same_pages (live l s - pt_owned (page_table ms)) (mem s) (mem s')"
proof -
  let ?a = "\<lparr>vpn_range = va_span lo hi, data_frames = [], map_type = Framed, map_perm = perm\<rparr>"
  have "wp (insert_framed_area ms lo hi perm) (\<lambda>ms' s'. \<exists>a. ms_pushed l s extra ms ?a s' ms' a \<and> area_holds (mem s') a []) (\<lambda>_. False) s"
    by (rule wp_insert_framed_area[OF assms(1,2)]) (use assms(3,4) in auto)
  from wp_no_panicD[OF this] obtain ms' s' a where r: "insert_framed_area ms lo hi perm s = Inr (ms', s')"
    and p: "ms_pushed l s extra ms ?a s' ms' a" and z: "area_holds (mem s') a []" by blast
  have inv': "ms_inv l s' extra ms'" and as: "areas ms' = areas ms @ [a]" and a: "a = ?a\<lparr>data_frames := data_frames a\<rparr>"
    and same: "same_pages (live l s - pt_owned (page_table ms)) (mem s) (mem s')"
    using p unfolding ms_pushed_def by blast+
  have st: "vpn_range a = va_span lo hi" "map_type a = Framed" "map_perm a = perm" by (subst a, simp)+
  have "ms_abs (mem s') ms' v = (if v \<in> set (vpns_of (va_span lo hi)) then area_entry a v else ms_abs (mem s) ms v)" for v
    using ms_pushed_abs[OF assms(1) p, of v] ms_invD(6)[OF inv', of a v] as st(1) by simp
  then show ?thesis using r inv' as st z same by blast
qed

lemma insert_framed_area_correct_witness:
  "\<exists>ms s ms' s'. boot_user = Inr (ms, s) \<and>
     insert_framed_area ms (VirtAddr 0x12000) (VirtAddr 0x13000) (MP_R OR MP_U) s = Inr (ms', s') \<and>
     length (areas ms') = 2"
proof -
  obtain ms s a where b: "boot_user = Inr (ms, s)" "ms_inv 0x80400 s (tramp boot_ld) ms" "areas ms = [a]"
    "vpn_range a = \<lparr>range_l = VirtPageNum 0x10, range_r = VirtPageNum 0x12\<rparr>" "map_type a = Framed" "31735 \<le> avail s"
    by (rule boot_user_facts)
  have sp: "va_span (VirtAddr 0x12000) (VirtAddr 0x13000) = \<lparr>range_l = VirtPageNum 0x12, range_r = VirtPageNum 0x13\<rparr>"
    by (simp add: address_defs)
  have vs: "vpns_of (va_span (VirtAddr 0x12000) (VirtAddr 0x13000)) = [VirtPageNum 0x12]" unfolding sp
    by (rule vpns_of_inject) (simp add: map_unat_vpns_of newtype_order_defs upt_rec)
  have wf: "range_wf (va_span (VirtAddr 0x12000) (VirtAddr 0x13000))" unfolding sp by (simp add: range_wf_def newtype_order_defs)
  have "set (vpns_of (va_span (VirtAddr 0x12000) (VirtAddr 0x13000))) \<inter> dom (ms_abs (mem s) ms) = {}"
    "3 * length (vpns_of (va_span (VirtAddr 0x12000) (VirtAddr 0x13000))) \<le> avail s"
    unfolding vs using ms_dom[OF b(2)] b(3,4,6) by (simp_all add: boot_vpns trampoline_vpn_def)
  from insert_framed_area_correct[OF b(2) wf this, of "MP_R OR MP_U"] show ?thesis
    using b(1,3) by fastforce
qed

text \<open>
  \<open>insert_framed_area\<close> over a page that is already mapped panics, so a caller that must not bring
  the kernel down has to look first.
\<close>

theorem insert_framed_area_overlap_panics:
  assumes "ms_inv l s extra ms" "range_wf (va_span lo hi)" "set (vpns_of (va_span lo hi)) \<inter> dom (ms_abs (mem s) ms) \<noteq> {}"
  shows "\<exists>e. insert_framed_area ms lo hi perm s = Inl e \<and>
    (e = AlreadyMapped \<or> e = OutOfFrames \<and> avail s < 3 * length (vpns_of (va_span lo hi)))"
proof -
  have "wp (insert_framed_area ms lo hi perm) (\<lambda>_ _. False)
      (\<lambda>e. e = AlreadyMapped \<or> e = OutOfFrames \<and> avail s < 3 * length (vpns_of (va_span lo hi))) s"
    by (rule wp_insert_framed_area[OF assms(1,2)]) (use assms(3) in auto)
  then show ?thesis by (auto simp: wp_def split: sum.splits)
qed

lemma insert_framed_area_overlap_panics_witness:
  "\<exists>ms s. boot_user = Inr (ms, s) \<and>
     insert_framed_area ms (VirtAddr 0x10000) (VirtAddr 0x12000) MP_R s = Inl AlreadyMapped"
proof -
  obtain ms s a where b: "boot_user = Inr (ms, s)" "ms_inv 0x80400 s (tramp boot_ld) ms" "areas ms = [a]"
    "vpn_range a = \<lparr>range_l = VirtPageNum 0x10, range_r = VirtPageNum 0x12\<rparr>" "map_type a = Framed" "31735 \<le> avail s"
    by (rule boot_user_facts)
  have "range_wf (va_span (VirtAddr 0x10000) (VirtAddr 0x12000))"
    "set (vpns_of (va_span (VirtAddr 0x10000) (VirtAddr 0x12000))) \<inter> dom (ms_abs (mem s) ms) \<noteq> {}"
    unfolding boot_span boot_vpns using ms_dom[OF b(2)] b(3,4)
    by (auto simp: boot_vpns range_wf_def newtype_order_defs)
  from insert_framed_area_overlap_panics[OF b(2) this, of MP_R] show ?thesis
    using b(1,6) unfolding boot_span boot_vpns by auto
qed

text \<open>
  C27: \<open>append_to\<close> grows the first area that starts at a page. With three frames per new page and none of
  them mapped it answers true, exactly the pages up to the new end are added, every old page keeps its
  entry, and no data frame of the machine changes.
\<close>

theorem ms_append_to_correct:
  assumes "ms_inv l s extra ms" "area_at ms (VirtAddr_floor start) = Some i"
    and "area_get_end (areas ms ! i) \<le> VirtAddr_ceil new_end" "unat (vpn_val (VirtAddr_ceil new_end)) \<le> 2 ^ 27"
    and "set (vpns_of \<lparr>range_l = area_get_end (areas ms ! i), range_r = VirtAddr_ceil new_end\<rparr>) \<inter> dom (ms_abs (mem s) ms) = {}"
    and "3 * length (vpns_of \<lparr>range_l = area_get_end (areas ms ! i), range_r = VirtAddr_ceil new_end\<rparr>) \<le> avail s"
  shows "\<exists>ms' s'. ms_append_to ms start new_end s = Inr ((True, ms'), s') \<and> ms_inv l s' extra ms' \<and>
    area_grown l s ms i (VirtAddr_ceil new_end) s' ms'"
proof -
  have "wp (ms_append_to ms start new_end) (\<lambda>(b, ms') s'. b \<and> ms_inv l s' extra ms' \<and>
      area_grown l s ms i (VirtAddr_ceil new_end) s' ms') (\<lambda>_. False) s"
    by (rule wp_ms_append_to[OF assms(1-4) refl]) (use assms(5,6) in \<open>auto simp: ms_step_def\<close>)
  from wp_no_panicD[OF this] show ?thesis by auto
qed

lemma boot_area_at: "areas ms = [a] \<Longrightarrow> vpn_range a = \<lparr>range_l = VirtPageNum 0x10, range_r = VirtPageNum 0x12\<rparr> \<Longrightarrow>
    area_at ms (VirtPageNum 0x10) = Some 0 \<and> area_get_start (areas ms ! 0) = VirtPageNum 0x10 \<and>
    area_get_end (areas ms ! 0) = VirtPageNum 0x12"
  by (simp add: get_start_def get_end_def area_get_start_def area_get_end_def)

lemma ms_append_to_correct_witness:
  "\<exists>ms s ms' s'. boot_user = Inr (ms, s) \<and>
     ms_append_to ms (VirtAddr 0x10000) (VirtAddr 0x12001) s = Inr ((True, ms'), s') \<and>
     VirtPageNum 0x12 \<in> dom (ms_abs (mem s') ms')"
proof -
  obtain ms s a where b: "boot_user = Inr (ms, s)" "ms_inv 0x80400 s (tramp boot_ld) ms" "areas ms = [a]"
    "vpn_range a = \<lparr>range_l = VirtPageNum 0x10, range_r = VirtPageNum 0x12\<rparr>" "map_type a = Framed" "31735 \<le> avail s"
    by (rule boot_user_facts)
  have fl: "VirtAddr_floor (VirtAddr 0x10000) = VirtPageNum 0x10" "VirtAddr_ceil (VirtAddr 0x12001) = VirtPageNum 0x13"
    by (simp_all add: address_defs)
  have vs: "vpns_of \<lparr>range_l = VirtPageNum 0x12, range_r = VirtPageNum 0x13\<rparr> = [VirtPageNum 0x12]"
    by (rule vpns_of_inject) (simp add: map_unat_vpns_of newtype_order_defs upt_rec)
  note at = boot_area_at[OF b(3,4)]
  have out: "VirtPageNum 0x12 \<notin> dom (ms_abs (mem s) ms)" using ms_dom[OF b(2)] b(3,4) by (simp add: boot_vpns trampoline_vpn_def)
  show ?thesis
    using ms_append_to_correct[OF b(2), of "VirtAddr 0x10000" 0 "VirtAddr 0x12001"] at out b(1,6)
    by (fastforce simp: fl vs newtype_order_defs area_grown_def)
qed

text \<open>
  C28: \<open>shrink_to\<close> on every branch. Without an area that starts at the given page it answers false and changes nothing.
  With a new end inside that area, both ends included, it answers true and does not panic: exactly the pages behind the
  new end are unmapped, and no data frame that stays live changes. With any other end, before the area or behind it,
  it panics.
\<close>

theorem ms_shrink_to_correct:
  assumes "ms_inv l s extra ms"
  shows "case area_at ms (VirtAddr_floor start) of
      None \<Rightarrow> ms_shrink_to ms start new_end s = Inr ((False, ms), s)
    | Some i \<Rightarrow>
        if area_get_start (areas ms ! i) \<le> VirtAddr_ceil new_end \<and> VirtAddr_ceil new_end \<le> area_get_end (areas ms ! i)
        then \<exists>ms' s'. ms_shrink_to ms start new_end s = Inr ((True, ms'), s') \<and> ms_inv l s' extra ms' \<and>
          area_cut l s ms i (VirtAddr_ceil new_end) s' ms'
        else \<exists>p. ms_shrink_to ms start new_end s = Inl p"
proof (cases "area_at ms (VirtAddr_floor start)")
  case None
  then show ?thesis by (simp add: ms_shrink_to_def kreturn_def)
next
  case (Some i)
  show ?thesis
  proof (cases "area_get_start (areas ms ! i) \<le> VirtAddr_ceil new_end \<and> VirtAddr_ceil new_end \<le> area_get_end (areas ms ! i)")
    case True
    then have "wp (ms_shrink_to ms start new_end) (\<lambda>(b, ms') s'. b \<and> ms_inv l s' extra ms' \<and>
        area_cut l s ms i (VirtAddr_ceil new_end) s' ms') (\<lambda>_. False) s"
      by (intro wp_ms_shrink_to[OF assms Some]) (auto simp: ms_step_def)
    from wp_no_panicD[OF this] show ?thesis using True Some by auto
  next
    case False
    then have "wp (ms_shrink_to ms start new_end) (\<lambda>_ _. False) (\<lambda>_. True) s" by (rule shrink_outside_panics[OF Some])
    then show ?thesis using False Some by (auto simp: wp_def split: sum.splits)
  qed
qed

lemma ms_shrink_to_correct_witness:
  "\<exists>ms s ms' s'. boot_user = Inr (ms, s) \<and>
     ms_shrink_to ms (VirtAddr 0x10000) (VirtAddr 0x11000) s = Inr ((True, ms'), s') \<and>
     ms_abs (mem s') ms' = ms_abs (mem s) ms |` (- {VirtPageNum 0x11})"
proof -
  obtain ms s a where b: "boot_user = Inr (ms, s)" "ms_inv 0x80400 s (tramp boot_ld) ms" "areas ms = [a]"
    "vpn_range a = \<lparr>range_l = VirtPageNum 0x10, range_r = VirtPageNum 0x12\<rparr>" "map_type a = Framed" "31735 \<le> avail s"
    by (rule boot_user_facts)
  have fl: "VirtAddr_floor (VirtAddr 0x10000) = VirtPageNum 0x10" "VirtAddr_ceil (VirtAddr 0x11000) = VirtPageNum 0x11"
    by (simp_all add: address_defs)
  have vs: "vpns_of \<lparr>range_l = VirtPageNum 0x11, range_r = VirtPageNum 0x12\<rparr> = [VirtPageNum 0x11]"
    by (rule vpns_of_inject) (simp add: map_unat_vpns_of newtype_order_defs upt_rec)
  note at = boot_area_at[OF b(3,4)]
  show ?thesis
    using ms_shrink_to_correct[OF b(2), of "VirtAddr 0x10000" "VirtAddr 0x11000"] at b(1)
    by (fastforce simp: fl vs newtype_order_defs area_cut_def)
qed

text \<open>
  C29: \<open>munmap_area\<close> never panics. It removes exactly the areas that contain the whole range, with all
  their pages, and keeps the others in order; their pages keep their entries and their bytes.
\<close>

theorem munmap_area_correct:
  assumes "ms_inv l s extra ms"
  shows "\<exists>ms' s'. munmap_area ms lo hi s = Inr (ms', s') \<and> ms_inv l s' extra ms' \<and>
    areas ms' = filter (\<lambda>a. \<not> area_spans (VirtAddr_floor lo) (VirtAddr_ceil hi) a) (areas ms) \<and>
    areas_removed l s ms (filter (area_spans (VirtAddr_floor lo) (VirtAddr_ceil hi)) (areas ms)) s' ms'"
proof -
  let ?P = "area_spans (VirtAddr_floor lo) (VirtAddr_ceil hi)"
  have "wp (munmap_area ms lo hi) (\<lambda>ms' s'. ms_inv l s' extra ms' \<and> areas ms' = filter (\<lambda>a. \<not> ?P a) (areas ms) \<and>
      areas_removed l s ms (filter ?P (areas ms)) s' ms') (\<lambda>_. False) s"
    by (rule wp_munmap_area[OF assms refl]) (simp add: ms_step_def)
  from wp_no_panicD[OF this] show ?thesis by blast
qed

lemma munmap_area_correct_witness:
  "\<exists>ms s ms' s'. boot_user = Inr (ms, s) \<and> munmap_area ms (VirtAddr 0x10000) (VirtAddr 0x11000) s = Inr (ms', s') \<and>
     areas ms' = [] \<and> VirtPageNum 0x11 \<notin> dom (ms_abs (mem s') ms')"
proof -
  obtain ms s a where b: "boot_user = Inr (ms, s)" "ms_inv 0x80400 s (tramp boot_ld) ms" "areas ms = [a]"
    "vpn_range a = \<lparr>range_l = VirtPageNum 0x10, range_r = VirtPageNum 0x12\<rparr>" "map_type a = Framed" "31735 \<le> avail s"
    by (rule boot_user_facts)
  have "area_spans (VirtAddr_floor (VirtAddr 0x10000)) (VirtAddr_ceil (VirtAddr 0x11000)) a"
    using b(4) by (simp add: area_spans_def area_get_start_def area_get_end_def get_start_def get_end_def address_defs newtype_order_defs)
  with munmap_area_correct[OF b(2), of "VirtAddr 0x10000" "VirtAddr 0x11000"] show ?thesis
    using b(1,3,4) by (fastforce simp: areas_removed_def boot_vpns)
qed

text \<open>
  \<open>remove_area_with_start_vpn\<close> removes the first area that starts at the page, with all its pages,
  and never panics; without such an area it changes nothing.
\<close>

theorem remove_area_with_start_vpn_correct:
  assumes "ms_inv l s extra ms"
  shows "\<exists>ms' s'. remove_area_with_start_vpn ms v s = Inr (ms', s') \<and> ms_inv l s' extra ms' \<and>
    (case area_at ms v of None \<Rightarrow> ms' = ms \<and> s' = s
     | Some i \<Rightarrow> areas ms' = vec_remove i (areas ms) \<and> areas_removed l s ms [areas ms ! i] s' ms')"
proof (cases "area_at ms v")
  case None
  then show ?thesis using assms by (simp add: remove_area_with_start_vpn_def kreturn_def)
next
  case (Some i)
  have "wp (remove_area_with_start_vpn ms v) (\<lambda>ms' s'. ms_inv l s' extra ms' \<and> areas ms' = vec_remove i (areas ms) \<and>
      areas_removed l s ms [areas ms ! i] s' ms') (\<lambda>_. False) s"
    by (rule wp_remove_area_with_start_vpn[OF assms Some]) (simp add: ms_step_def)
  from wp_no_panicD[OF this] show ?thesis using Some by auto
qed

lemma remove_area_with_start_vpn_correct_witness:
  "\<exists>ms s ms' s'. boot_user = Inr (ms, s) \<and> remove_area_with_start_vpn ms (VirtPageNum 0x10) s = Inr (ms', s') \<and>
     areas ms' = []"
proof -
  obtain ms s a where b: "boot_user = Inr (ms, s)" "ms_inv 0x80400 s (tramp boot_ld) ms" "areas ms = [a]"
    "vpn_range a = \<lparr>range_l = VirtPageNum 0x10, range_r = VirtPageNum 0x12\<rparr>" "map_type a = Framed" "31735 \<le> avail s"
    by (rule boot_user_facts)
  from remove_area_with_start_vpn_correct[OF b(2), of "VirtPageNum 0x10"] show ?thesis
    using b(1,3) boot_area_at[OF b(3,4)] by (auto simp: vec_remove_def)
qed

text \<open>
  C30: dropping an address space never panics and gives back exactly the frames of its tables and areas.
\<close>

theorem drop_MemorySet_correct:
  assumes "ms_inv l s extra ms"
  shows "\<exists>s'. drop_MemorySet ms s = Inr ((), s') \<and> mm_inv l s' \<and> mem s' = mem s \<and>
    live l s' = live l s - ms_owned ms \<and> avail s' = avail s + card (ms_owned ms)"
proof -
  have "wp (drop_MemorySet ms) (\<lambda>_ s'. mm_inv l s' \<and> mem s' = mem s \<and> live l s' = live l s - ms_owned ms \<and>
    avail s' = avail s + card (ms_owned ms)) (\<lambda>_. False) s"
    by (rule wp_drop_MemorySet[OF assms]) (simp add: own_step_def)
  from wp_no_panicD[OF this] show ?thesis by auto
qed

lemma drop_MemorySet_correct_witness:
  "\<exists>ms s s'. boot_user = Inr (ms, s) \<and> drop_MemorySet ms s = Inr ((), s') \<and> live 0x80400 s' = live 0x80400 s - ms_owned ms"
proof -
  obtain ms s a where b: "boot_user = Inr (ms, s)" "ms_inv 0x80400 s (tramp boot_ld) ms" "areas ms = [a]"
    "vpn_range a = \<lparr>range_l = VirtPageNum 0x10, range_r = VirtPageNum 0x12\<rparr>" "map_type a = Framed" "31735 \<le> avail s"
    by (rule boot_user_facts)
  from drop_MemorySet_correct[OF b(2)] show ?thesis using b(1) by blast
qed

text \<open>
  \<open>recycle_data_pages\<close>, called when a task exits, never panics and gives back the data frames of every
  area while the tables stay allocated for the parent's \<^verbatim>\<open>waitpid\<close> to drop; the memory is not touched, so
  the page table still translates as before.
\<close>

theorem recycle_data_pages_correct:
  assumes "ms_inv l s extra ms"
  shows "\<exists>s'. recycle_data_pages ms s = Inr (ms\<lparr>areas := []\<rparr>, s') \<and> pt_inv l s' (page_table ms) \<and> mem s' = mem s \<and>
    live l s' = live l s - set (areas_ppns (areas ms)) \<and> avail s' = avail s + length (areas_ppns (areas ms))"
proof -
  note i = ms_invD[OF assms]
  have d: "distinct (areas_ppns (areas ms))" using i(3) by (simp add: areas_wf_def)
  have sub: "pt_owned (page_table ms) \<subseteq> live l s" "pt_owned (page_table ms) \<inter> set (areas_ppns (areas ms)) = {}"
    using i(2,5) by (auto simp: pt_inv_def)
  have "wp (recycle_data_pages ms) (\<lambda>ms' s'. ms' = ms\<lparr>areas := []\<rparr> \<and> pt_inv l s' (page_table ms) \<and> mem s' = mem s \<and>
      live l s' = live l s - set (areas_ppns (areas ms)) \<and> avail s' = avail s + length (areas_ppns (areas ms))) (\<lambda>_. False) s"
    unfolding recycle_data_pages_def wp_kbind
  proof (rule wp_drop_areas[OF i(1) d i(4)])
    fix s' assume o: "own_step l s (set (areas_ppns (areas ms))) s' {}" "mem s' = mem s"
    have "pt_inv l s' (page_table ms)" using pt_inv_cong[OF i(2)] own_step_frame(4)[OF o(1) sub] o(2) by simp
    then show "wp (kreturn (ms\<lparr>areas := []\<rparr>)) (\<lambda>ms' s'. ms' = ms\<lparr>areas := []\<rparr> \<and> pt_inv l s' (page_table ms) \<and> mem s' = mem s \<and>
      live l s' = live l s - set (areas_ppns (areas ms)) \<and> avail s' = avail s + length (areas_ppns (areas ms))) (\<lambda>_. False) s'"
      using o distinct_card[OF d] by (simp add: wp_rules own_step_def)
  qed
  from wp_no_panicD[OF this] show ?thesis by auto
qed

lemma recycle_data_pages_correct_witness:
  "\<exists>ms s s'. boot_user = Inr (ms, s) \<and> recycle_data_pages ms s = Inr (ms\<lparr>areas := []\<rparr>, s') \<and> mem s' = mem s"
proof -
  obtain ms s a where b: "boot_user = Inr (ms, s)" "ms_inv 0x80400 s (tramp boot_ld) ms" "areas ms = [a]"
    "vpn_range a = \<lparr>range_l = VirtPageNum 0x10, range_r = VirtPageNum 0x12\<rparr>" "map_type a = Framed" "31735 \<le> avail s"
    by (rule boot_user_facts)
  from recycle_data_pages_correct[OF b(2)] show ?thesis using b(1) by blast
qed

text \<open>
  the two checks of \<^verbatim>\<open>mmap\<close> and \<^verbatim>\<open>munmap\<close>. \<open>check_mapping\<close> answers whether some page of the area is
  mapped and \<open>check_unmapping\<close> whether some page is not; neither panics.
\<close>

theorem check_mapping_correct:
  assumes "range_wf (vpn_range a)"
  shows "check_mapping m a pt = Inr (set (area_vpns a) \<inter> dom (pt_abs m pt) \<noteq> {}) \<and>
    check_unmapping m a pt = Inr (\<not> set (area_vpns a) \<subseteq> dom (pt_abs m pt))"
  using check_mapping_eq[OF assms] check_unmapping_eq[OF assms] by simp

lemma check_mapping_correct_witness:
  "\<exists>ms s. boot_user = Inr (ms, s) \<and> check_mapping (mem s) (areas ms ! 0) (page_table ms) = Inr True \<and>
     check_unmapping (mem s) (areas ms ! 0) (page_table ms) = Inr False"
proof -
  obtain ms s a where b: "boot_user = Inr (ms, s)" "ms_inv 0x80400 s (tramp boot_ld) ms" "areas ms = [a]"
    "vpn_range a = \<lparr>range_l = VirtPageNum 0x10, range_r = VirtPageNum 0x12\<rparr>" "map_type a = Framed" "31735 \<le> avail s"
    by (rule boot_user_facts)
  have "range_wf (vpn_range a)" using b(4) by (simp add: range_wf_def newtype_order_defs)
  from check_mapping_correct[OF this, of "mem s" "page_table ms"] show ?thesis
    using b(1,3,4) ms_dom[OF b(2)] by (intro exI[of _ ms] exI[of _ s]) (simp add: boot_vpns)
qed

end
