(* ===== verification/Memory_Set_Elf.thy ===== *)
theory Memory_Set_Elf
  imports Memory_Set_Ops
begin

text \<open>
  Loading an application: \<open>from_elf\<close> builds the address space that \<open>elf_image\<close> describes, a list of
  page ranges with their permission and contents. The parser is the parameter \<open>parse\<close>; \<open>elf_ok\<close>
  collects what the loader needs of a parsed file.
\<close>

section \<open>Images\<close>

type_synonym segment = "VPNRange \<times> MapPermission \<times> u8 list"

definition seg_pages :: "segment list \<Rightarrow> VirtPageNum list" where
  "seg_pages segs = concat (map (\<lambda>seg. vpns_of (fst seg)) segs)"

definition area_is :: "mem \<Rightarrow> segment \<Rightarrow> MapArea \<Rightarrow> bool" where
  "area_is m seg a \<longleftrightarrow> vpn_range a = fst seg \<and> map_type a = Framed \<and> map_perm a = fst (snd seg) \<and>
     area_holds m a (snd (snd seg))"

definition image_ok :: "segment list \<Rightarrow> bool" where
  "image_ok segs \<longleftrightarrow> (\<forall>seg \<in> set segs. range_wf (fst seg)) \<and> distinct (seg_pages segs) \<and>
     trampoline_vpn \<notin> set (seg_pages segs)"

lemma seg_pages_simps [simp]:
  "seg_pages [] = []" "seg_pages (x # xs) = vpns_of (fst x) @ seg_pages xs"
  "seg_pages (xs @ ys) = seg_pages xs @ seg_pages ys"
  by (simp_all add: seg_pages_def)

lemma set_seg_pages: "set (seg_pages segs) = (\<Union>seg \<in> set segs. set (vpns_of (fst seg)))"
  by (auto simp: seg_pages_def)

text \<open>Ranges in ascending order have no page in common.\<close>

definition ascending :: "segment list \<Rightarrow> bool" where
  "ascending segs \<longleftrightarrow> (\<forall>seg \<in> set segs. range_wf (fst seg)) \<and>
     sorted_wrt (\<lambda>x y. range_r (fst x) \<le> range_l (fst y)) segs"

lemma ascending_distinct: "ascending segs \<Longrightarrow> distinct (seg_pages segs)"
proof (induction segs)
  case (Cons x xs)
  have wf: "range_l (fst y) \<le> range_r (fst y)" if "y \<in> set (x # xs)" for y
    using Cons.prems that by (auto simp: ascending_def range_wf_def)
  have "set (vpns_of (fst x)) \<inter> set (vpns_of (fst y)) = {}" if "y \<in> set xs" for y
  proof -
    have "range_r (fst x) \<le> range_l (fst y)" using Cons.prems that by (simp add: ascending_def)
    then show ?thesis
      using set_vpns_of[OF wf[of x]] set_vpns_of[OF wf[of y]] that by (auto dest: order.strict_trans2)
  qed
  then show ?case
    using Cons range_wf_distinct by (auto simp: ascending_def set_seg_pages)
qed simp

lemma ascending_below:
  assumes "ascending (segs @ [x])" "y \<in> set segs"
  shows "range_r (fst y) \<le> range_l (fst x)"
  using assms by (auto simp: ascending_def sorted_wrt_append)

section \<open>Building an image\<close>

definition built :: "usize \<Rightarrow> mm_state \<Rightarrow> linker_symbols \<Rightarrow> segment list \<Rightarrow> mm_state \<Rightarrow> MemorySet \<Rightarrow> bool" where
  "built l s ld segs s' ms \<longleftrightarrow> ms_inv l s' (tramp ld) ms \<and> own_step l s {} s' (ms_owned ms) \<and>
     list_all2 (area_is (mem s')) segs (areas ms) \<and> avail s \<le> avail s' + 3 + 3 * length (seg_pages segs)"

lemma built_pages: "list_all2 (area_is m) segs as \<Longrightarrow> areas_vpns as = seg_pages segs"
  by (induction rule: list_all2_induct) (simp_all add: area_is_def)

lemma area_holds_same:
  assumes "area_holds m a d" "same_pages S m m'" "area_frame a ` set (area_vpns a) \<subseteq> S"
  shows "area_holds m' a d"
proof -
  have "page_holds m' d k (area_frame a (area_vpns a ! j))"
    if "j < length (area_vpns a)" "page_holds m d k (area_frame a (area_vpns a ! j))" for j k
  proof -
    have "area_frame a (area_vpns a ! j) \<in> S" using that(1) assms(3) nth_mem by blast
    then show ?thesis using that(2) same_pages_sym[OF assms(2)] by (simp add: page_holds_def same_pages_def page_eq_def)
  qed
  then show ?thesis using assms(1) by (simp add: area_holds_def)
qed

lemma built_step:
  assumes b: "built l s ld segs s1 ms" and p: "ms_pushed l s1 (tramp ld) ms a s' ms' a'" and new: "area_is (mem s') seg a'"
    and len: "length (area_vpns a) = length (vpns_of (fst seg))"
  shows "built l s ld (segs @ [seg]) s' ms'"
proof -
  have b': "ms_inv l s1 (tramp ld) ms" "own_step l s {} s1 (ms_owned ms)" "list_all2 (area_is (mem s1)) segs (areas ms)"
    "avail s \<le> avail s1 + 3 + 3 * length (seg_pages segs)"
    using b by (auto simp: built_def)
  have p': "ms_inv l s' (tramp ld) ms'" "areas ms' = areas ms @ [a']" "own_step l s1 (ms_owned ms) s' (ms_owned ms')"
    "avail s1 \<le> avail s' + 3 * length (area_vpns a)"
    "same_pages (live l s1 - pt_owned (page_table ms)) (mem s1) (mem s')"
    using p by (auto simp: ms_pushed_def)
  have keep: "area_is (mem s') x c" if "c \<in> set (areas ms)" "area_is (mem s1) x c" for x c
  proof -
    have fr: "map_type c = Framed" using that(2) by (simp add: area_is_def)
    have "area_frame c ` set (area_vpns c) \<subseteq> live l s1 - pt_owned (page_table ms)"
      using ms_area_frames(1,4,5)[OF b'(1) that(1) fr] ms_owned_live[OF b'(1)] by blast
    then show ?thesis using that(2) area_holds_same[OF _ p'(5)] by (simp add: area_is_def)
  qed
  have "list_all2 (area_is (mem s')) segs (areas ms)"
    by (rule list.rel_mono_strong[OF b'(3)]) (use keep in blast)
  then show ?thesis
    using p'(1,2,4) b'(4) new len own_step_trans[OF b'(2) p'(3)] by (simp add: built_def list_all2_appendI)
qed

lemma wp_push_segment:
  assumes b: "built l s ld segs s1 ms" and ok: "image_ok (segs @ seg # rest)" and seg: "seg = (r, perm, content)"
    and data: "case data of None \<Rightarrow> content = [] | Some d \<Rightarrow> content = d \<and> vpns_of r \<noteq> [] \<and> length d \<le> 4096 * length (vpns_of r)"
    and E: "avail s < 3 + 3 * length (seg_pages (segs @ [seg])) \<Longrightarrow> E OutOfFrames"
    and Q: "\<And>s' ms'. built l s ld (segs @ [seg]) s' ms' \<Longrightarrow> Q ms' s'"
  shows "wp (ms_push ms \<lparr>vpn_range = r, data_frames = [], map_type = Framed, map_perm = perm\<rparr> data) Q E s1"
proof -
  let ?a = "\<lparr>vpn_range = r, data_frames = [], map_type = Framed, map_perm = perm\<rparr>"
  have inv: "ms_inv l s1 (tramp ld) ms" and av: "avail s \<le> avail s1 + 3 + 3 * length (seg_pages segs)"
    and pages: "areas_vpns (areas ms) = seg_pages segs"
    using b built_pages by (auto simp: built_def)
  have out: "set (vpns_of r) \<inter> dom (ms_abs (mem s1) ms) = {}"
    using ok ms_dom[OF inv] pages by (auto simp: image_ok_def seg)
  show ?thesis
  proof (rule wp_ms_push[OF inv])
    fix s' ms' a'
    assume p: "ms_pushed l s1 (tramp ld) ms ?a s' ms' a'"
      and h: "map_type ?a = Framed \<Longrightarrow> area_holds (mem s') a' (case data of None \<Rightarrow> [] | Some d \<Rightarrow> d)"
    have a': "a' = ?a\<lparr>data_frames := data_frames a'\<rparr>" using p by (simp add: ms_pushed_def)
    have "area_is (mem s') seg a'"
      using h data a' unfolding area_is_def seg by (auto split: option.splits) (metis MapArea.select_convs MapArea.update_convs)+
    then show "Q ms' s'" using Q built_step[OF b p] by (simp add: seg)
  qed (use ok data out E av in \<open>auto simp: image_ok_def seg split: option.splits\<close>)
qed

section \<open>What an ELF file describes\<close>

definition ph_span :: "elf_ph \<Rightarrow> VPNRange" where
  "ph_span ph = va_span (va_from_usize (ph_virtual_addr ph)) (va_from_usize (ph_virtual_addr ph + ph_mem_size ph))"

definition ph_seg :: "elf_file \<Rightarrow> elf_ph \<Rightarrow> segment" where
  "ph_seg elf ph = (ph_span ph, elf_perm ph, take (unat (ph_file_size ph)) (drop (unat (ph_offset ph)) (elf_input elf)))"

text \<open>The headers of type LOAD among the first \<open>n\<close>, and the end of the last of them.\<close>

definition load_phs :: "elf_file \<Rightarrow> nat \<Rightarrow> elf_ph list" where
  "load_phs elf n = filter (\<lambda>ph. ph_get_type ph = Some PT_Load) (map (\<lambda>i. the (elf_program_header elf i)) [0..<n])"

definition elf_end :: "elf_file \<Rightarrow> nat \<Rightarrow> VirtPageNum" where
  "elf_end elf n = (if load_phs elf n = [] then VirtPageNum 0 else range_r (ph_span (last (load_phs elf n))))"

text \<open>The user stack after a guard page, the empty heap, and the page of the trap context.\<close>

definition stack_segs :: "VirtPageNum \<Rightarrow> segment list" where
  "stack_segs e =
     [(\<lparr>range_l = VirtPageNum (vpn_val e + 1), range_r = VirtPageNum (vpn_val e + 3)\<rparr>, MP_R OR MP_W OR MP_U, []),
      (\<lparr>range_l = VirtPageNum (vpn_val e + 3), range_r = VirtPageNum (vpn_val e + 3)\<rparr>, MP_R OR MP_W OR MP_U, []),
      (\<lparr>range_l = VirtPageNum 0x7fffffe, range_r = VirtPageNum 0x7ffffff\<rparr>, MP_R OR MP_W, [])]"

definition elf_image :: "elf_file \<Rightarrow> segment list" where
  "elf_image elf = map (ph_seg elf) (load_phs elf (elf_ph_count elf)) @ stack_segs (elf_end elf (elf_ph_count elf))"

text \<open>
  What the loader needs: the headers can be read, the LOAD segments are non-empty, in ascending order
  and inside the file, and the last one leaves room for the stack below the trap context.
\<close>

definition ph_ok :: "elf_file \<Rightarrow> elf_ph \<Rightarrow> bool" where
  "ph_ok elf ph \<longleftrightarrow> vpns_of (ph_span ph) \<noteq> [] \<and> ph_offset ph \<le> ph_offset ph + ph_file_size ph \<and>
     unat (ph_offset ph + ph_file_size ph) \<le> length (elf_input elf) \<and>
     unat (ph_file_size ph) \<le> 4096 * length (vpns_of (ph_span ph))"

definition elf_ok :: "elf_file \<Rightarrow> bool" where
  "elf_ok elf \<longleftrightarrow> elf_magic elf = [0x7f, 0x45, 0x4c, 0x46] \<and>
     (\<forall>i < elf_ph_count elf. \<exists>ph. elf_program_header elf i = Some ph \<and> ph_get_type ph \<noteq> None) \<and>
     (\<forall>ph \<in> set (load_phs elf (elf_ph_count elf)). ph_ok elf ph) \<and>
     ascending (map (ph_seg elf) (load_phs elf (elf_ph_count elf))) \<and>
     unat (vpn_val (elf_end elf (elf_ph_count elf))) + 3 \<le> 0x7fffffe"

lemma load_phs_Suc:
  "load_phs elf (Suc n) = load_phs elf n @ (let ph = the (elf_program_header elf n) in
     if ph_get_type ph = Some PT_Load then [ph] else [])"
  by (simp add: load_phs_def Let_def)

lemma load_phs_prefix: "n \<le> k \<Longrightarrow> \<exists>zs. load_phs elf k = load_phs elf n @ zs"
proof (induction k)
  case (Suc k)
  then show ?case by (cases "n = Suc k") (auto simp: load_phs_Suc le_Suc_eq)
qed simp

lemma ascending_end_below:
  assumes "ascending (map (ph_seg elf) (load_phs elf n))" "ph \<in> set (load_phs elf n)"
  shows "range_r (ph_span ph) \<le> elf_end elf n"
proof (cases "load_phs elf n" rule: rev_cases)
  case (snoc xs x)
  have wf: "range_l (ph_span x) \<le> range_r (ph_span x)"
    using assms(1) by (simp add: snoc ascending_def range_wf_def ph_seg_def)
  show ?thesis
  proof (cases "ph \<in> set xs")
    case True
    then have "range_r (ph_span ph) \<le> range_l (ph_span x)"
      using ascending_below[of "map (ph_seg elf) xs" "ph_seg elf x" "ph_seg elf ph"] assms(1)
      by (simp add: snoc ph_seg_def)
    then show ?thesis using wf by (simp add: elf_end_def snoc)
  qed (use assms(2) in \<open>simp add: elf_end_def snoc\<close>)
qed (use assms in simp)

text \<open>The words of the pages behind the last segment.\<close>

lemma unat_page_add:
  assumes "unat (vpn_val e) + 3 \<le> 0x7fffffe" "k \<le> 3"
  shows "unat (vpn_val e + of_nat k) = unat (vpn_val e) + k"
  using assms by (simp add: unat_word_ariths unat_of_nat)

lemma elf_image_ok:
  assumes "elf_ok elf"
  shows "image_ok (elf_image elf)"
proof -
  let ?e = "elf_end elf (elf_ph_count elf)" and ?phs = "load_phs elf (elf_ph_count elf)"
  have asc: "ascending (map (ph_seg elf) ?phs)" and e: "unat (vpn_val ?e) + 3 \<le> 0x7fffffe" using assms by (auto simp: elf_ok_def)
  have u: "unat (vpn_val ?e + 1) = unat (vpn_val ?e) + 1" "unat (vpn_val ?e + 3) = unat (vpn_val ?e) + 3"
    using unat_page_add[OF e, of 1] unat_page_add[OF e, of 3] by simp_all
  have last: "unat (vpn_val (range_r (ph_span ph))) \<le> unat (vpn_val ?e)" if "ph \<in> set ?phs" for ph
    using ascending_end_below[OF asc that] by (simp add: newtype_order_defs word_le_nat_alt)
  have asc': "ascending (elf_image elf)"
    using asc last e u
    by (auto simp: ascending_def elf_image_def stack_segs_def sorted_wrt_append range_wf_def newtype_order_defs
        word_le_nat_alt ph_seg_def dest!: last)
  have "trampoline_vpn \<notin> set (vpns_of r)" if "r \<in> fst ` set (elf_image elf)" for r
  proof -
    have "unat (vpn_val (range_r r)) \<le> 0x7ffffff"
      using that last e u by (auto simp: elf_image_def stack_segs_def ph_seg_def dest!: last)
    moreover have "range_l r \<le> range_r r" using that asc' by (auto simp: ascending_def range_wf_def)
    ultimately show ?thesis by (simp add: set_vpns_of trampoline_vpn_def newtype_order_defs word_less_nat_alt)
  qed
  then show ?thesis
    using asc' ascending_distinct[OF asc'] by (auto simp: image_ok_def ascending_def set_seg_pages)
qed

section \<open>Loading\<close>

lemma wp_load_segment:
  assumes elf: "elf_ok elf" and i: "i < elf_ph_count elf"
    and b: "built l s ld (map (ph_seg elf) (load_phs elf i)) s1 ms"
    and E: "avail s < 3 + 3 * length (seg_pages (elf_image elf)) \<Longrightarrow> E OutOfFrames"
    and Q: "\<And>s' ms'. built l s ld (map (ph_seg elf) (load_phs elf (Suc i))) s' ms' \<Longrightarrow> Q (ms', elf_end elf (Suc i)) s'"
  shows "wp (load_segment elf i (ms, elf_end elf i)) Q E s1"
proof -
  obtain ph ty where ph: "elf_program_header elf i = Some ph" "ph_get_type ph = Some ty" using elf i by (auto simp: elf_ok_def)
  show ?thesis
  proof (cases "ty = PT_Load")
    case False
    then have "load_phs elf (Suc i) = load_phs elf i" using ph by (simp add: load_phs_Suc)
    then have "elf_end elf (Suc i) = elf_end elf i" "built l s ld (map (ph_seg elf) (load_phs elf (Suc i))) s1 ms"
      using b by (simp_all add: elf_end_def)
    then show ?thesis using False ph Q[of s1 ms] by (simp add: load_segment_def wp_rules)
  next
    case True
    have S: "load_phs elf (Suc i) = load_phs elf i @ [ph]" using ph True by (simp add: load_phs_Suc)
    obtain zs where z: "load_phs elf (elf_ph_count elf) = load_phs elf i @ ph # zs"
      using load_phs_prefix[of "Suc i" "elf_ph_count elf" elf] i S by auto
    have img: "image_ok (map (ph_seg elf) (load_phs elf i) @ ph_seg elf ph #
        (map (ph_seg elf) zs @ stack_segs (elf_end elf (elf_ph_count elf))))"
      using elf_image_ok[OF elf] by (simp add: elf_image_def z)
    have ok: "ph_ok elf ph" "range_wf (ph_span ph)"
      using elf img by (auto simp: elf_ok_def z image_ok_def ph_seg_def)
    have area: "MapArea_new (va_from_usize (ph_virtual_addr ph)) (va_from_usize (ph_virtual_addr ph + ph_mem_size ph)) Framed (elf_perm ph) =
        Inr \<lparr>vpn_range = ph_span ph, data_frames = [], map_type = Framed, map_perm = elf_perm ph\<rparr>"
      using ok(2) by (simp add: MapArea_new_eq ph_span_def range_wf_def)
    have "unat (ph_offset ph + ph_file_size ph) - unat (ph_offset ph) = unat (ph_file_size ph)"
      using ok(1) unat_sub[of "ph_offset ph" "ph_offset ph + ph_file_size ph"] by (simp add: ph_ok_def)
    then have slice: "slice_input (elf_input elf) (ph_offset ph) (ph_offset ph + ph_file_size ph) = Inr (snd (snd (ph_seg elf ph)))"
      using ok(1) by (simp add: slice_input_def ph_ok_def ph_seg_def)
    let ?d = "snd (snd (ph_seg elf ph))"
    have "wp (ms_push ms \<lparr>vpn_range = ph_span ph, data_frames = [], map_type = Framed, map_perm = elf_perm ph\<rparr> (Some ?d))
        (\<lambda>ms'. Q (ms', elf_end elf (Suc i))) E s1"
    proof (rule wp_push_segment[OF b img])
      show "ph_seg elf ph = (ph_span ph, elf_perm ph, ?d)" by (simp add: ph_seg_def)
    qed (use ok E Q in \<open>auto simp: ph_ok_def ph_seg_def S elf_image_def z\<close>)
    then show ?thesis
      using ph True by (simp add: load_segment_def wp_rules area slice elf_end_def S get_end_def)
  qed
qed

lemma wp_load_segments:
  assumes elf: "elf_ok elf" and b: "built l s ld [] s1 ms"
    and E: "avail s < 3 + 3 * length (seg_pages (elf_image elf)) \<Longrightarrow> E OutOfFrames"
    and Q: "\<And>s' ms'. built l s ld (map (ph_seg elf) (load_phs elf (elf_ph_count elf))) s' ms' \<Longrightarrow>
        Q (ms', elf_end elf (elf_ph_count elf)) s'"
  shows "wp (for_loop [0..<elf_ph_count elf] (load_segment elf) (ms, VirtPageNum 0)) Q E s1"
proof -
  define I where "I ys acc st \<longleftrightarrow> (\<exists>ms. acc = (ms, elf_end elf (length ys)) \<and>
      built l s ld (map (ph_seg elf) (load_phs elf (length ys))) st ms)" for ys :: "nat list" and acc st
  show ?thesis
  proof (rule wp_for_loop[where I = I])
    show "I [] (ms, VirtPageNum 0) s1" using b by (simp add: I_def load_phs_def elf_end_def)
  next
    fix ys i zs acc st
    assume split: "[0..<elf_ph_count elf] = ys @ i # zs" and I: "I ys acc st"
    have "length ys < length [0..<elf_ph_count elf]" by (subst split) simp
    moreover from this have "i = length ys" using arg_cong[OF split, of "\<lambda>xs. xs ! length ys"] by simp
    ultimately have i: "i < elf_ph_count elf" "length ys = i" by simp_all
    obtain ms where acc: "acc = (ms, elf_end elf i)" and b1: "built l s ld (map (ph_seg elf) (load_phs elf i)) st ms"
      using I i by (auto simp: I_def)
    show "wp (load_segment elf i acc) (I (ys @ [i])) E st"
      unfolding acc by (rule wp_load_segment[OF elf i(1) b1]) (use E i(2) in \<open>auto simp: I_def\<close>)
  next
    fix acc st assume "I [0..<elf_ph_count elf] acc st"
    then show "Q acc st" using Q by (auto simp: I_def)
  qed
qed

lemma stack_spans:
  assumes e: "unat (vpn_val e) + 3 \<le> 0x7fffffe"
  defines "u \<equiv> va_val (va_from_vpn e) + PAGE_SIZE"
  shows "VirtAddr_floor (va_from_usize u) = VirtPageNum (vpn_val e + 1)"
    "VirtAddr_floor (va_from_usize (u + USER_STACK_SIZE)) = VirtPageNum (vpn_val e + 3)"
    "VirtAddr_ceil (va_from_usize (u + USER_STACK_SIZE)) = VirtPageNum (vpn_val e + 3)"
proof -
  have p: "unat (push_bit 12 (vpn_val e)) = unat (vpn_val e) * 4096" using e by (intro unat_push_bit_12) simp
  have u: "unat u = (unat (vpn_val e) + 1) * 4096" using e p
    by (simp add: u_def address_defs unat_word_ariths)
  have t: "unat (u + USER_STACK_SIZE) = (unat (vpn_val e) + 3) * 4096"
    using e u by (simp add: USER_STACK_SIZE_def unat_word_ariths)
  have b: "unat u < 2 ^ 39" "unat (u + USER_STACK_SIZE) < 2 ^ 39" using e u t by simp_all
  have n: "unat (vpn_val e + 1) = unat (vpn_val e) + 1" "unat (vpn_val e + 3) = unat (vpn_val e) + 3"
    using unat_page_add[OF e, of 1] unat_page_add[OF e, of 3] by simp_all
  show "VirtAddr_floor (va_from_usize u) = VirtPageNum (vpn_val e + 1)"
    by (simp add: newtype_eq_iff word_unat_eq_iff unat_VirtAddr_floor va_from_usize_id[OF b(1)] u n)
  show "VirtAddr_floor (va_from_usize (u + USER_STACK_SIZE)) = VirtPageNum (vpn_val e + 3)"
    by (simp add: newtype_eq_iff word_unat_eq_iff unat_VirtAddr_floor va_from_usize_id[OF b(2)] t n)
  have "unat (va_val (VirtAddr (u + USER_STACK_SIZE))) + 4095 < 2 ^ 64" using b(2) by simp
  then show "VirtAddr_ceil (va_from_usize (u + USER_STACK_SIZE)) = VirtPageNum (vpn_val e + 3)"
    by (simp add: newtype_eq_iff word_unat_eq_iff unat_VirtAddr_ceil va_from_usize_id[OF b(2)] t n)
qed

lemma trap_context_span: "va_span (va_from_usize TRAP_CONTEXT_BASE) (va_from_usize TRAMPOLINE) =
    \<lparr>range_l = VirtPageNum 0x7fffffe, range_r = VirtPageNum 0x7ffffff\<rparr>"
  by (simp add: address_defs TRAP_CONTEXT_BASE_eq TRAMPOLINE_eq)

lemma wp_push_framed:
  assumes b: "built l s ld segs s1 ms" and ok: "image_ok (segs @ (r, perm, []) # rest)"
    and r: "va_span (va_from_usize lo) (va_from_usize hi) = r"
    and E: "avail s < 3 + 3 * length (seg_pages (segs @ (r, perm, []) # rest)) \<Longrightarrow> E OutOfFrames"
    and Q: "\<And>s' ms'. built l s ld (segs @ [(r, perm, [])]) s' ms' \<Longrightarrow> Q ms' s'"
  shows "wp (push_framed lo hi perm ms) Q E s1"
proof -
  have le: "VirtAddr_floor (va_from_usize lo) \<le> VirtAddr_ceil (va_from_usize hi)"
    using ok r by (auto simp: image_ok_def range_wf_def)
  have "wp (ms_push ms \<lparr>vpn_range = r, data_frames = [], map_type = Framed, map_perm = perm\<rparr> None) Q E s1"
    by (rule wp_push_segment[OF b ok refl]) (use E Q in simp_all)
  then show ?thesis by (simp add: push_framed_def MapArea_new_eq le r wp_rules)
qed

lemma wp_push_stack:
  assumes elf: "elf_ok elf" and e: "e = elf_end elf (elf_ph_count elf)"
    and b: "built l s ld (map (ph_seg elf) (load_phs elf (elf_ph_count elf))) s1 ms"
    and u: "u = va_val (va_from_vpn e) + PAGE_SIZE" "t = u + USER_STACK_SIZE"
    and E: "avail s < 3 + 3 * length (seg_pages (elf_image elf)) \<Longrightarrow> E OutOfFrames"
    and Q: "\<And>s' ms'. built l s ld (elf_image elf) s' ms' \<Longrightarrow> wp (K ms') Q E s'"
  shows "wp (kbind (push_framed u t (MP_R OR MP_W OR MP_U) ms) (\<lambda>ms.
      kbind (push_framed t t (MP_R OR MP_W OR MP_U) ms) (\<lambda>ms.
      kbind (push_framed TRAP_CONTEXT_BASE TRAMPOLINE (MP_R OR MP_W) ms) K))) Q E s1"
proof -
  let ?segs = "map (ph_seg elf) (load_phs elf (elf_ph_count elf))"
  have bound: "unat (vpn_val e) + 3 \<le> 0x7fffffe" using elf e by (simp add: elf_ok_def)
  note sp = stack_spans[OF bound, folded u]
  obtain x y z where x: "stack_segs e = [x, y, z]" "x = (va_span (va_from_usize u) (va_from_usize t), MP_R OR MP_W OR MP_U, [])"
    "y = (va_span (va_from_usize t) (va_from_usize t), MP_R OR MP_W OR MP_U, [])"
    "z = (va_span (va_from_usize TRAP_CONTEXT_BASE) (va_from_usize TRAMPOLINE), MP_R OR MP_W, [])"
    using sp trap_context_span by (simp add: stack_segs_def)
  have img: "image_ok (?segs @ x # [y, z])" "image_ok ((?segs @ [x]) @ y # [z])" "image_ok (((?segs @ [x]) @ [y]) @ z # [])"
    and all: "elf_image elf = ((?segs @ [x]) @ [y]) @ [z]"
    using elf_image_ok[OF elf] x(1) e by (simp_all add: elf_image_def)
  have EE: "avail s < 3 + 3 * length (seg_pages (?segs @ x # [y, z])) \<Longrightarrow> E OutOfFrames"
    "avail s < 3 + 3 * length (seg_pages ((?segs @ [x]) @ y # [z])) \<Longrightarrow> E OutOfFrames"
    "avail s < 3 + 3 * length (seg_pages (((?segs @ [x]) @ [y]) @ z # [])) \<Longrightarrow> E OutOfFrames"
    using E all by simp_all
  show ?thesis
    unfolding wp_kbind
  proof (rule wp_push_framed[OF b img(1)[unfolded x(2)] refl])
    fix s2 ms2 assume b2: "built l s ld (?segs @ [(va_span (va_from_usize u) (va_from_usize t), MP_R OR MP_W OR MP_U, [])]) s2 ms2"
    show "wp (push_framed t t (MP_R OR MP_W OR MP_U) ms2) (\<lambda>ms. wp (push_framed TRAP_CONTEXT_BASE TRAMPOLINE (MP_R OR MP_W) ms) (\<lambda>ms. wp (K ms) Q E) E) E s2"
    proof (rule wp_push_framed[OF b2[folded x(2)] img(2)[unfolded x(3)] refl])
      fix s3 ms3 assume b3: "built l s ld ((?segs @ [x]) @ [(va_span (va_from_usize t) (va_from_usize t), MP_R OR MP_W OR MP_U, [])]) s3 ms3"
      show "wp (push_framed TRAP_CONTEXT_BASE TRAMPOLINE (MP_R OR MP_W) ms3) (\<lambda>ms. wp (K ms) Q E) E s3"
        by (rule wp_push_framed[OF b3[folded x(3)] img(3)[unfolded x(4)] refl])
          (use Q all EE(3) in \<open>simp_all flip: x(4)\<close>)
    qed (use EE(2)[unfolded x(3)] in blast)
  qed (use EE(1)[unfolded x(2)] in blast)
qed

definition user_stack_top :: "elf_file \<Rightarrow> usize" where
  "user_stack_top elf = (vpn_val (elf_end elf (elf_ph_count elf)) + 3) * 4096"

lemma wp_from_elf:
  assumes mm: "mm_inv l s" and ld: "ld_ok ld" and parse: "parse elf_data = Some elf" and elf: "elf_ok elf"
    and E: "avail s < 3 + 3 * length (seg_pages (elf_image elf)) \<Longrightarrow> E OutOfFrames"
    and Q: "\<And>s' ms. built l s ld (elf_image elf) s' ms \<Longrightarrow> Q (ms, user_stack_top elf, elf_entry_point elf) s'"
  shows "wp (from_elf ld parse elf_data) Q E s"
proof -
  let ?e = "elf_end elf (elf_ph_count elf)"
  define u where "u = va_val (va_from_vpn ?e) + PAGE_SIZE"
  define t where "t = u + USER_STACK_SIZE"
  have t: "t = user_stack_top elf"
    by (simp add: t_def u_def user_stack_top_def address_defs push_bit_12 USER_STACK_SIZE_def algebra_simps)
  define K :: "MemorySet \<Rightarrow> (mm_state, MemorySet \<times> usize \<times> usize) km"
    where "K ms = kreturn (ms, t, elf_entry_point elf)" for ms
  define load where "load ms = kbind (for_loop [0..<elf_ph_count elf] (load_segment elf) (ms, VirtPageNum 0)) (\<lambda>(ms, e).
      let user_stack_bottom = va_val (va_from_vpn e) + PAGE_SIZE; user_stack_top = user_stack_bottom + USER_STACK_SIZE in
      kbind (push_framed user_stack_bottom user_stack_top (MP_R OR MP_W OR MP_U) ms) (\<lambda>ms.
      kbind (push_framed user_stack_top user_stack_top (MP_R OR MP_W OR MP_U) ms) (\<lambda>ms.
      kbind (push_framed TRAP_CONTEXT_BASE TRAMPOLINE (MP_R OR MP_W) ms) (\<lambda>ms.
      kreturn (ms, user_stack_top, elf_entry_point elf)))))" for ms
  have load: "wp (load ms) Q E s2" if b: "built l s ld [] s2 ms" for ms s2
    unfolding load_def wp_kbind
  proof (rule wp_load_segments[OF elf b])
    fix s3 ms3 assume b3: "built l s ld (map (ph_seg elf) (load_phs elf (elf_ph_count elf))) s3 ms3"
    have "wp (kbind (push_framed u t (MP_R OR MP_W OR MP_U) ms3) (\<lambda>ms. kbind (push_framed t t (MP_R OR MP_W OR MP_U) ms) (\<lambda>ms.
        kbind (push_framed TRAP_CONTEXT_BASE TRAMPOLINE (MP_R OR MP_W) ms) K))) Q E s3"
      by (rule wp_push_stack[OF elf refl b3 u_def t_def]) (use E Q in \<open>simp_all add: K_def wp_rules t\<close>)
    then show "wp (case (ms3, ?e) of (ms, e) \<Rightarrow>
      let user_stack_bottom = va_val (va_from_vpn e) + PAGE_SIZE; user_stack_top = user_stack_bottom + USER_STACK_SIZE in
      kbind (push_framed user_stack_bottom user_stack_top (MP_R OR MP_W OR MP_U) ms) (\<lambda>ms.
      kbind (push_framed user_stack_top user_stack_top (MP_R OR MP_W OR MP_U) ms) (\<lambda>ms.
      kbind (push_framed TRAP_CONTEXT_BASE TRAMPOLINE (MP_R OR MP_W) ms) (\<lambda>ms.
      kreturn (ms, user_stack_top, elf_entry_point elf))))) Q E s3"
      by (simp add: Let_def K_def[abs_def] flip: u_def t_def)
  qed (use E in simp)
  have "wp new_bare (\<lambda>ms. wp (map_trampoline ld ms) (\<lambda>ms. wp (load ms) Q E) E) E s"
  proof (rule wp_new_bare[OF mm])
    fix s1 ms
    assume n: "ms_inv l s1 Map.empty ms" "areas ms = []" "own_step l s {} s1 (ms_owned ms)" "avail s = Suc (avail s1)"
    have out: "trampoline_vpn \<notin> dom (ms_abs (mem s1) ms)" using ms_dom[OF n(1)] n(2) by simp
    show "wp (map_trampoline ld ms) (\<lambda>ms. wp (load ms) Q E) E s1"
    proof (rule wp_map_trampoline[OF n(1) ld out])
      fix s2 ms2
      assume t: "ms_inv l s2 (tramp ld) ms2" "areas ms2 = areas ms" "own_step l s1 (ms_owned ms) s2 (ms_owned ms2)"
        "avail s1 \<le> avail s2 + 2"
      then show "wp (load ms2) Q E s2"
        using load[of s2 ms2] n own_step_trans[OF n(3) t(3)] by (simp add: built_def)
    qed (use E n(4) in simp)
  qed (use E in simp)
  then show ?thesis
    using elf parse by (simp add: from_elf_def wp_rules elf_ok_def load_def)
qed

section \<open>Properties\<close>

text \<open>
  C11: \<open>from_elf\<close> loads a well-formed file completely. With enough frames it returns an address space
  whose areas are exactly those of the image: each LOAD segment at its pages with its permissions and
  the bytes of the file, from the start of the first page on and followed by zeros, then the stack behind a guard page, the empty heap and the
  page of the trap context; besides them only the trampoline is mapped. The stack top and the entry
  point are handed back, the frames were not live before, and no live frame is changed.
\<close>

theorem from_elf_loads:
  assumes "mm_inv l s" "ld_ok ld" "parse elf_data = Some elf" "elf_ok elf"
    and "3 + 3 * length (seg_pages (elf_image elf)) \<le> avail s"
  shows "\<exists>ms s'. from_elf ld parse elf_data s = Inr ((ms, user_stack_top elf, elf_entry_point elf), s') \<and>
    ms_inv l s' (tramp ld) ms \<and> list_all2 (area_is (mem s')) (elf_image elf) (areas ms) \<and>
    dom (ms_abs (mem s') ms) = insert trampoline_vpn (set (seg_pages (elf_image elf))) \<and>
    ms_owned ms \<inter> live l s = {} \<and> same_pages (live l s) (mem s) (mem s')"
proof -
  have "wp (from_elf ld parse elf_data) (\<lambda>(ms, sp, entry) s'. sp = user_stack_top elf \<and> entry = elf_entry_point elf \<and>
      built l s ld (elf_image elf) s' ms) (\<lambda>_. False) s"
    by (rule wp_from_elf[where parse = parse and elf_data = elf_data, OF assms(1-4)]) (use assms(5) in simp_all)
  from wp_no_panicD[OF this] obtain ms s'
    where r: "from_elf ld parse elf_data s = Inr ((ms, user_stack_top elf, elf_entry_point elf), s')"
    and b: "ms_inv l s' (tramp ld) ms" "own_step l s {} s' (ms_owned ms)" "list_all2 (area_is (mem s')) (elf_image elf) (areas ms)"
    by (auto simp: built_def)
  have "dom (ms_abs (mem s') ms) = insert trampoline_vpn (set (seg_pages (elf_image elf)))"
    using ms_dom[OF b(1)] built_pages[OF b(3)] by simp
  then show ?thesis using r b by (simp add: own_step_def)
qed

text \<open>A file with one segment of one page at \<open>0x10000\<close>, holding four bytes.\<close>

definition boot_ph :: elf_ph where
  "boot_ph = \<lparr>ph_get_type = Some PT_Load, ph_virtual_addr = 0x10000, ph_mem_size = 0x1000, ph_offset = 0, ph_file_size = 4,
     ph_is_read = True, ph_is_write = False, ph_is_execute = True\<rparr>"

definition boot_elf :: elf_file where
  "boot_elf = \<lparr>elf_magic = [0x7f, 0x45, 0x4c, 0x46], elf_ph_count = 1,
     elf_program_header = (\<lambda>i. if i = 0 then Some boot_ph else None), elf_entry_point = 0x10000,
     elf_input = [0x7f, 0x45, 0x4c, 0x46]\<rparr>"

lemma boot_elf_image:
  "elf_image boot_elf = (\<lparr>range_l = VirtPageNum 0x10, range_r = VirtPageNum 0x11\<rparr>, MP_U OR MP_R OR MP_X, [0x7f, 0x45, 0x4c, 0x46])
     # stack_segs (VirtPageNum 0x11)" "elf_end boot_elf 1 = VirtPageNum 0x11"
  by (simp_all add: elf_image_def load_phs_def boot_elf_def boot_ph_def elf_end_def ph_seg_def ph_span_def address_defs elf_perm_def or.assoc)

lemma single_page:
  assumes "unat v < 2 ^ 27"
  shows "vpns_of \<lparr>range_l = VirtPageNum v, range_r = VirtPageNum (v + 1)\<rparr> = [VirtPageNum v]"
proof (rule vpns_of_inject)
  have "unat (v + 1) = Suc (unat v)" using assms by (simp add: unat_word_ariths)
  then show "map (\<lambda>v. unat (vpn_val v)) (vpns_of \<lparr>range_l = VirtPageNum v, range_r = VirtPageNum (v + 1)\<rparr>) =
      map (\<lambda>v. unat (vpn_val v)) [VirtPageNum v]"
    by (simp add: map_unat_vpns_of newtype_order_defs word_le_nat_alt)
qed

lemma boot_elf_ok: "elf_ok boot_elf"
proof -
  have "load_phs boot_elf 1 = [boot_ph]" by (simp add: load_phs_def boot_elf_def boot_ph_def)
  moreover have sp: "ph_span boot_ph = \<lparr>range_l = VirtPageNum 0x10, range_r = VirtPageNum 0x11\<rparr>"
    by (simp add: ph_span_def boot_ph_def address_defs)
  moreover have "ph_ok boot_elf boot_ph"
    using single_page[of "0x10"] by (simp add: ph_ok_def sp) (simp add: boot_ph_def boot_elf_def)
  ultimately show ?thesis
    using boot_elf_image(2) unfolding elf_ok_def
    by (simp add: ascending_def ph_seg_def range_wf_def newtype_order_defs boot_elf_def) (simp add: boot_ph_def)
qed

lemma boot_elf_pages:
  "seg_pages (elf_image boot_elf) = [VirtPageNum 0x10, VirtPageNum 0x12, VirtPageNum 0x13, VirtPageNum 0x7fffffe]"
proof -
  have vs: "vpns_of \<lparr>range_l = VirtPageNum 0x12, range_r = VirtPageNum 0x14\<rparr> = [VirtPageNum 0x12, VirtPageNum 0x13]"
    "vpns_of \<lparr>range_l = VirtPageNum 0x14, range_r = VirtPageNum 0x14\<rparr> = []"
    by (rule vpns_of_inject, simp add: map_unat_vpns_of newtype_order_defs upt_rec)+
  show ?thesis using single_page[of "0x10"] single_page[of "0x7fffffe"] by (simp add: boot_elf_image stack_segs_def vs)
qed

lemma from_elf_loads_witness:
  "\<exists>ms s'. from_elf boot_ld (\<lambda>_. Some boot_elf) [] boot_mm = Inr ((ms, 0x14000, 0x10000), s') \<and>
     VirtPageNum 0x10 \<in> dom (ms_abs (mem s') ms) \<and> length (areas ms) = 4"
proof -
  have "user_stack_top boot_elf = 0x14000" "elf_entry_point boot_elf = 0x10000" "length (elf_image boot_elf) = 4"
    using boot_elf_image by (simp_all add: user_stack_top_def boot_elf_def stack_segs_def)
  moreover have "3 + 3 * length (seg_pages (elf_image boot_elf)) \<le> avail boot_mm" by (simp add: boot_elf_pages boot_avail)
  ultimately show ?thesis
    using from_elf_loads[OF boot_mm_inv boot_ld_ok, of "\<lambda>_. Some boot_elf" "[]" boot_elf] boot_elf_ok boot_elf_pages
    by (fastforce dest: list_all2_lengthD)
qed

end
