(* ===== verification/User_Access.thy ===== *)
theory User_Access
  imports Memory_Set_Elf
begin

text \<open>
  How the kernel reaches into a user address space: \<^verbatim>\<open>translated_byte_buffer\<close>,
  \<^verbatim>\<open>translated_and_write_bytes\<close>, \<^verbatim>\<open>translated_str\<close>, \<^verbatim>\<open>translated_refmut\<close> and \<^verbatim>\<open>UserBuffer\<close> of
  \<^verbatim>\<open>src/mm/page_table.rs\<close>. The loops need not end (a pointer at \<open>2^39\<close> or above starts over at the
  address modulo \<open>2^39\<close>), so they are partial functions whose value \<open>None\<close> is "does not return".
  The bytes behind the kernel's \<^verbatim>\<open>data\<close> pointer are a function of the index.
\<close>

section \<open>Definitions\<close>

text \<open>\<^verbatim>\<open>&a[lo..]\<close> and \<^verbatim>\<open>&a[lo..hi]\<close>\<close>

definition slice_from :: "slice \<Rightarrow> usize \<Rightarrow> panic + slice" where
  "slice_from sl lo = (if unat lo \<le> slice_len sl
     then Inr \<lparr>slice_ptr = slice_ptr sl + lo, slice_len = slice_len sl - unat lo\<rparr> else Inl SliceIndex)"

definition slice_range :: "slice \<Rightarrow> usize \<Rightarrow> usize \<Rightarrow> panic + slice" where
  "slice_range sl lo hi = (if lo \<le> hi \<and> unat hi \<le> slice_len sl
     then Inr \<lparr>slice_ptr = slice_ptr sl + lo, slice_len = unat hi - unat lo\<rparr> else Inl SliceIndex)"

text \<open>
  The part the two loops share: the frame of the page that holds \<open>start\<close>, and the addresses where the
  access to this page starts and ends.
\<close>

definition access_page :: "mem \<Rightarrow> PageTable \<Rightarrow> usize \<Rightarrow> usize \<Rightarrow> panic + (PhysPageNum \<times> VirtAddr \<times> VirtAddr)" where
  "access_page m pt start end_addr =
     (let start_va = va_from_usize start; vpn = VirtAddr_floor start_va in
      case pt_translate m pt vpn of
        Inl e \<Rightarrow> Inl e
      | Inr None \<Rightarrow> Inl UnwrapNone
      | Inr (Some pte) \<Rightarrow> Inr (pte_ppn pte, start_va, min (va_from_vpn (vpn_step vpn)) (va_from_usize end_addr)))"

definition page_slice :: "PhysPageNum \<Rightarrow> VirtAddr \<Rightarrow> VirtAddr \<Rightarrow> panic + slice" where
  "page_slice ppn start_va end_va =
     (if VirtAddr_page_offset end_va = 0
      then slice_from (get_bytes_array ppn) (VirtAddr_page_offset start_va)
      else slice_range (get_bytes_array ppn) (VirtAddr_page_offset start_va) (VirtAddr_page_offset end_va))"

partial_function (option) translated_byte_buffer_loop ::
    "mem \<Rightarrow> PageTable \<Rightarrow> usize \<Rightarrow> usize \<Rightarrow> slice list \<Rightarrow> (panic + slice list) option" where
  "translated_byte_buffer_loop m pt start end_addr v =
     (if start < end_addr then
        (case access_page m pt start end_addr of
           Inl e \<Rightarrow> Some (Inl e)
         | Inr (ppn, start_va, end_va) \<Rightarrow>
             (case page_slice ppn start_va end_va of
                Inl e \<Rightarrow> Some (Inl e)
              | Inr sl \<Rightarrow> translated_byte_buffer_loop m pt (va_val end_va) end_addr (v @ [sl])))
      else Some (Inr v))"

definition translated_byte_buffer :: "mem \<Rightarrow> usize \<Rightarrow> usize \<Rightarrow> usize \<Rightarrow> (panic + slice list) option" where
  "translated_byte_buffer m token ptr len = translated_byte_buffer_loop m (from_token token) ptr (ptr + len) []"

text \<open>\<^verbatim>\<open>for i in lo..hi { write_volatile(base.add(i), *data.add(write_cnt)); write_cnt += 1; }\<close>\<close>

fun write_page_loop :: "usize \<Rightarrow> nat list \<Rightarrow> (nat \<Rightarrow> u8) \<Rightarrow> mem \<times> nat \<Rightarrow> mem \<times> nat" where
  "write_page_loop base [] data (m, cnt) = (m, cnt)"
| "write_page_loop base (i # is) data (m, cnt) =
     write_page_loop base is data (m(base + of_nat i := data cnt), Suc cnt)"

partial_function (option) translated_and_write_bytes_loop ::
    "PageTable \<Rightarrow> (nat \<Rightarrow> u8) \<Rightarrow> usize \<Rightarrow> usize \<Rightarrow> nat \<Rightarrow> mem \<Rightarrow> (panic + mem) option" where
  "translated_and_write_bytes_loop pt data start end_addr write_cnt m =
     (if start < end_addr then
        (case access_page m pt start end_addr of
           Inl e \<Rightarrow> Some (Inl e)
         | Inr (ppn, start_va, end_va) \<Rightarrow>
             (let hi = (if VirtAddr_page_offset end_va = 0 then PAGE_SIZE else VirtAddr_page_offset end_va);
                  (m', cnt') = write_page_loop (slice_ptr (get_bytes_array ppn))
                     [unat (VirtAddr_page_offset start_va)..<unat hi] data (m, write_cnt)
              in translated_and_write_bytes_loop pt data (va_val end_va) end_addr cnt' m'))
      else Some (Inr m))"

definition translated_and_write_bytes :: "usize \<Rightarrow> usize \<Rightarrow> (nat \<Rightarrow> u8) \<Rightarrow> usize \<Rightarrow> mem \<Rightarrow> (panic + mem) option" where
  "translated_and_write_bytes token ptr data len m =
     translated_and_write_bytes_loop (from_token token) data ptr (ptr + len) 0 m"

text \<open>A string is the list of its characters, each of which comes from one byte.\<close>

partial_function (option) translated_str_loop ::
    "mem \<Rightarrow> PageTable \<Rightarrow> usize \<Rightarrow> u8 list \<Rightarrow> (panic + u8 list) option" where
  "translated_str_loop m pt va str =
     (case translate_va m pt (va_from_usize va) of
        Inl e \<Rightarrow> Some (Inl e)
      | Inr None \<Rightarrow> Some (Inl UnwrapNone)
      | Inr (Some pa) \<Rightarrow>
          (let ch = m (pa_val pa) in
           if ch = 0 then Some (Inr str) else translated_str_loop m pt (va + 1) (str @ [ch])))"

definition translated_str :: "mem \<Rightarrow> usize \<Rightarrow> usize \<Rightarrow> (panic + u8 list) option" where
  "translated_str m token ptr = translated_str_loop m (from_token token) ptr []"

text \<open>The reference is the address it points to.\<close>

definition translated_refmut :: "mem \<Rightarrow> usize \<Rightarrow> usize \<Rightarrow> panic + usize" where
  "translated_refmut m token ptr =
     (case translate_va m (from_token token) (va_from_usize ptr) of
        Inl e \<Rightarrow> Inl e
      | Inr None \<Rightarrow> Inl UnwrapNone
      | Inr (Some pa) \<Rightarrow> Inr (pa_val pa))"

record UserBuffer =
  buffers :: "slice list"

definition UserBuffer_new :: "slice list \<Rightarrow> UserBuffer" where
  "UserBuffer_new bs = \<lparr>buffers = bs\<rparr>"

definition UserBuffer_len :: "UserBuffer \<Rightarrow> usize" where
  "UserBuffer_len b = fold (\<lambda>sl total. total + of_nat (slice_len sl)) (buffers b) 0"

section \<open>The user's view of memory\<close>

text \<open>The physical address of a user address, through the finite map that the page table holds.\<close>

definition user_pa :: "mem \<Rightarrow> PageTable \<Rightarrow> usize \<Rightarrow> usize option" where
  "user_pa m pt a = map_option (\<lambda>e. paddr (ppn_val (pte_ppn e)) (unat a mod 4096)) (pt_abs m pt (VirtAddr_floor (VirtAddr a)))"

definition user_mapped :: "mem \<Rightarrow> PageTable \<Rightarrow> usize \<Rightarrow> nat \<Rightarrow> bool" where
  "user_mapped m pt a n \<longleftrightarrow> (\<forall>i < n. user_pa m pt (a + of_nat i) \<noteq> None)"

definition user_addrs :: "mem \<Rightarrow> PageTable \<Rightarrow> usize \<Rightarrow> nat \<Rightarrow> usize list" where
  "user_addrs m pt a n = map (\<lambda>i. the (user_pa m pt (a + of_nat i))) [0..<n]"

definition slice_addrs :: "slice \<Rightarrow> usize list" where
  "slice_addrs sl = map (\<lambda>i. slice_ptr sl + of_nat i) [0..<slice_len sl]"

lemma length_user_addrs [simp]: "length (user_addrs m pt a n) = n"
  by (simp add: user_addrs_def)

lemma user_addrs_add: "user_addrs m pt a (n + k) = user_addrs m pt a n @ user_addrs m pt (a + of_nat n) k"
  by (rule nth_equalityI) (auto simp: user_addrs_def nth_append)

lemma user_mapped_add: "user_mapped m pt a (n + k) \<longleftrightarrow> user_mapped m pt a n \<and> user_mapped m pt (a + of_nat n) k"
proof -
  have "(\<forall>i < n + k. P i) \<longleftrightarrow> (\<forall>i < n. P i) \<and> (\<forall>i < k. P (n + i))" for P :: "nat \<Rightarrow> bool"
    by (metis add_less_cancel_left le_add_diff_inverse not_less trans_less_add1)
  then show ?thesis by (simp add: user_mapped_def add.assoc)
qed

lemma same_page:
  assumes "unat a mod 4096 + i < 4096" "unat a + i < 2 ^ 64"
  shows "VirtAddr_floor (VirtAddr (a + of_nat i)) = VirtAddr_floor (VirtAddr a)"
    "unat (a + of_nat i) mod 4096 = unat a mod 4096 + i"
proof -
  have u: "unat (a + of_nat i) = unat a + i" using assms by (simp add: unat_word_ariths unat_of_nat)
  have "(unat a + i) mod 4096 = unat a mod 4096 + i"
    using assms(1) mod_add_left_eq[of "unat a" 4096 i] by simp
  moreover have "(unat a + i) div 4096 = unat a div 4096"
    using assms(1) div_add1_eq[of "unat a" i 4096] by simp
  ultimately show "VirtAddr_floor (VirtAddr (a + of_nat i)) = VirtAddr_floor (VirtAddr a)"
      "unat (a + of_nat i) mod 4096 = unat a mod 4096 + i"
    using u by (simp_all add: newtype_eq_iff word_unat_eq_iff unat_VirtAddr_floor)
qed

section \<open>One page\<close>

definition chunk :: "usize \<Rightarrow> usize \<Rightarrow> nat" where
  "chunk start end_addr = min (4096 - unat start mod 4096) (unat end_addr - unat start)"

lemma chunk_facts:
  assumes "start < end_addr" "unat end_addr < 2 ^ 39"
  shows "0 < chunk start end_addr" "unat start mod 4096 + chunk start end_addr \<le> 4096"
    "unat (start + of_nat (chunk start end_addr)) = unat start + chunk start end_addr"
    "unat start + chunk start end_addr \<le> unat end_addr"
proof -
  have lt: "unat start < unat end_addr" using assms(1) by (simp add: word_less_nat_alt)
  have m: "unat start mod 4096 < 4096" by simp
  show "0 < chunk start end_addr" using lt m by (simp add: chunk_def)
  show "unat start mod 4096 + chunk start end_addr \<le> 4096" using m unfolding chunk_def by linarith
  show le: "unat start + chunk start end_addr \<le> unat end_addr" using lt unfolding chunk_def by linarith
  then show "unat (start + of_nat (chunk start end_addr)) = unat start + chunk start end_addr"
    using assms(2) by (simp add: unat_word_ariths unat_of_nat)
qed

lemma access_page_mapped:
  assumes lt: "start < end_addr" "unat end_addr < 2 ^ 39"
    and e: "pt_abs m pt (VirtAddr_floor (VirtAddr start)) = Some e"
  shows "access_page m pt start end_addr =
    Inr (pte_ppn e, VirtAddr start, VirtAddr (start + of_nat (chunk start end_addr)))"
proof -
  note c = chunk_facts[OF lt]
  let ?v = "VirtAddr_floor (VirtAddr start)"
  have s: "unat start < 2 ^ 39" using lt by (simp add: word_less_nat_alt)
  have v: "unat (vpn_val ?v) = unat start div 4096" by (simp add: unat_VirtAddr_floor)
  then have v1: "unat (vpn_val (vpn_step ?v)) = unat start div 4096 + 1"
    using s by (simp add: vpn_val_step unat_word_ariths)
  then have "unat (va_val (va_from_vpn (vpn_step ?v))) = (unat start div 4096 + 1) * 4096"
    using s by (simp add: va_from_vpn_def PAGE_SIZE_BITS_def unat_push_bit_12)
  moreover have "(unat start div 4096 + 1) * 4096 = unat start + (4096 - unat start mod 4096)"
  proof -
    have *: "(q + 1) * 4096 = n + (4096 - r)" if "r < 4096" "q * 4096 + r = n" for q r n :: nat
      using that by (auto simp: algebra_simps)
    show ?thesis by (rule *) simp_all
  qed
  ultimately have nxt: "unat (va_val (va_from_vpn (vpn_step ?v))) = unat start + (4096 - unat start mod 4096)" by simp
  have "min (va_from_vpn (vpn_step ?v)) (VirtAddr end_addr) = VirtAddr (start + of_nat (chunk start end_addr))"
  proof (cases "unat start + (4096 - unat start mod 4096) \<le> unat end_addr")
    case True
    then have "chunk start end_addr = 4096 - unat start mod 4096" by (simp add: chunk_def)
    then have "va_from_vpn (vpn_step ?v) = VirtAddr (start + of_nat (chunk start end_addr))"
      using nxt c(3) by (simp add: newtype_eq_iff word_unat_eq_iff)
    moreover have "va_from_vpn (vpn_step ?v) \<le> VirtAddr end_addr"
      using True nxt by (simp add: newtype_order_defs word_le_nat_alt)
    ultimately show ?thesis by (simp add: min_def)
  next
    case False
    then have "unat start + chunk start end_addr = unat end_addr" using c(4) by (simp add: chunk_def)
    then have "VirtAddr end_addr = VirtAddr (start + of_nat (chunk start end_addr))"
      using c(3) by (simp add: word_unat_eq_iff)
    moreover have "\<not> va_from_vpn (vpn_step ?v) \<le> VirtAddr end_addr"
      using False nxt by (simp add: newtype_order_defs word_le_nat_alt)
    ultimately show ?thesis by (simp add: min_def)
  qed
  then show ?thesis
    using pt_translate_abs[OF e] by (simp add: access_page_def va_from_usize_id[OF s] va_from_usize_id[OF lt(2)])
qed

text \<open>Where the access to a page ends, as an offset into the page.\<close>

lemma end_offset:
  assumes lt: "start < end_addr" "unat end_addr < 2 ^ 39"
  defines "end_va \<equiv> VirtAddr (start + of_nat (chunk start end_addr))"
  shows "unat (if VirtAddr_page_offset end_va = 0 then PAGE_SIZE else VirtAddr_page_offset end_va) =
      unat start mod 4096 + chunk start end_addr"
proof -
  note c = chunk_facts[OF lt]
  let ?o = "unat start mod 4096 + chunk start end_addr"
  have off: "unat (VirtAddr_page_offset end_va) = ?o mod 4096"
    by (simp add: unat_VirtAddr_page_offset end_va_def c(3) mod_add_left_eq)
  have z: "VirtAddr_page_offset end_va = 0 \<longleftrightarrow> ?o mod 4096 = 0" using off by (simp add: unat_eq_0[symmetric])
  show ?thesis
  proof (cases "?o = 4096")
    case True
    then show ?thesis using z by (simp add: PAGE_SIZE_def)
  next
    case False
    then have o: "?o mod 4096 = ?o" using c(2) by simp
    then show ?thesis using z off c(1) by simp
  qed
qed

lemma page_slice_mapped:
  assumes lt: "start < end_addr" "unat end_addr < 2 ^ 39"
  shows "page_slice p (VirtAddr start) (VirtAddr (start + of_nat (chunk start end_addr))) =
    Inr \<lparr>slice_ptr = paddr (ppn_val p) (unat start mod 4096), slice_len = chunk start end_addr\<rparr>"
proof -
  note c = chunk_facts[OF lt] and e = end_offset[OF lt]
  have off: "VirtAddr_page_offset (VirtAddr start) = of_nat (unat start mod 4096)"
    by (simp add: word_unat_eq_iff unat_VirtAddr_page_offset unat_of_nat)
  have le: "unat (VirtAddr_page_offset (VirtAddr start)) = unat start mod 4096"
    by (simp add: unat_VirtAddr_page_offset)
  show ?thesis
    using e c le
    by (auto simp: page_slice_def slice_from_def slice_range_def get_bytes_array_def pa_from_ppn_paddr off paddr_def
        word_le_nat_alt PAGE_SIZE_def split: if_splits)
qed

lemma user_pa_chunk:
  assumes lt: "start < end_addr" "unat end_addr < 2 ^ 39" and i: "i < chunk start end_addr"
    and e: "pt_abs m pt (VirtAddr_floor (VirtAddr start)) = Some e"
  shows "user_pa m pt (start + of_nat i) = Some (paddr (ppn_val (pte_ppn e)) (unat start mod 4096 + i))"
proof -
  have "unat start mod 4096 + i < 4096" "unat start + i < 2 ^ 64"
    using chunk_facts[OF lt] i lt(2) by simp_all
  from same_page[OF this] show ?thesis using e by (simp add: user_pa_def)
qed

section \<open>The loops\<close>

lemma user_mapped_chunk:
  assumes lt: "start < end_addr" "unat end_addr < 2 ^ 39" and m: "user_mapped m pt start (unat end_addr - unat start)"
  obtains e where "pt_abs m pt (VirtAddr_floor (VirtAddr start)) = Some e"
    "user_addrs m pt start (chunk start end_addr) =
      map (\<lambda>i. paddr (ppn_val (pte_ppn e)) (unat start mod 4096 + i)) [0..<chunk start end_addr]"
    "user_addrs m pt start (unat end_addr - unat start) = user_addrs m pt start (chunk start end_addr) @
      user_addrs m pt (start + of_nat (chunk start end_addr)) (unat end_addr - unat (start + of_nat (chunk start end_addr)))"
    "user_mapped m pt (start + of_nat (chunk start end_addr)) (unat end_addr - unat (start + of_nat (chunk start end_addr)))"
proof -
  note c = chunk_facts[OF lt]
  have "0 < unat end_addr - unat start" using c by linarith
  then have "user_pa m pt (start + of_nat 0) \<noteq> None" using m unfolding user_mapped_def by blast
  then obtain e where e: "pt_abs m pt (VirtAddr_floor (VirtAddr start)) = Some e" by (auto simp: user_pa_def)
  have split: "unat end_addr - unat start = chunk start end_addr + (unat end_addr - unat (start + of_nat (chunk start end_addr)))"
    using c by simp
  have "user_mapped m pt (start + of_nat (chunk start end_addr)) (unat end_addr - unat (start + of_nat (chunk start end_addr)))"
    using m unfolding split user_mapped_add by blast
  moreover have "user_addrs m pt start (unat end_addr - unat start) = user_addrs m pt start (chunk start end_addr) @
      user_addrs m pt (start + of_nat (chunk start end_addr)) (unat end_addr - unat (start + of_nat (chunk start end_addr)))"
    by (subst split) (rule user_addrs_add)
  moreover have "user_addrs m pt start (chunk start end_addr) =
      map (\<lambda>i. paddr (ppn_val (pte_ppn e)) (unat start mod 4096 + i)) [0..<chunk start end_addr]"
    by (simp add: user_addrs_def user_pa_chunk[OF lt _ e])
  ultimately show ?thesis using that e by blast
qed

lemma translated_byte_buffer_loop_mapped:
  assumes "unat end_addr < 2 ^ 39" "user_mapped m pt start (unat end_addr - unat start)"
  shows "\<exists>sls. translated_byte_buffer_loop m pt start end_addr v = Some (Inr (v @ sls)) \<and>
    concat (map slice_addrs sls) = user_addrs m pt start (unat end_addr - unat start)"
  using assms(2)
proof (induction "unat end_addr - unat start" arbitrary: start v rule: less_induct)
  case less
  show ?case
  proof (cases "start < end_addr")
    case True
    let ?n = "chunk start end_addr"
    let ?nxt = "start + of_nat ?n"
    note c = chunk_facts[OF True assms(1)]
    obtain e where e: "pt_abs m pt (VirtAddr_floor (VirtAddr start)) = Some e"
      "user_addrs m pt start ?n = map (\<lambda>i. paddr (ppn_val (pte_ppn e)) (unat start mod 4096 + i)) [0..<?n]"
      "user_addrs m pt start (unat end_addr - unat start) = user_addrs m pt start ?n @ user_addrs m pt ?nxt (unat end_addr - unat ?nxt)"
      "user_mapped m pt ?nxt (unat end_addr - unat ?nxt)"
      by (rule user_mapped_chunk[OF True assms(1) less.prems])
    let ?sl = "\<lparr>slice_ptr = paddr (ppn_val (pte_ppn e)) (unat start mod 4096), slice_len = ?n\<rparr>"
    have "unat end_addr - unat ?nxt < unat end_addr - unat start" using c by simp
    from less.hyps[OF this e(4)] obtain sls where
      s: "translated_byte_buffer_loop m pt ?nxt end_addr (v @ [?sl]) = Some (Inr ((v @ [?sl]) @ sls))"
        "concat (map slice_addrs sls) = user_addrs m pt ?nxt (unat end_addr - unat ?nxt)" by blast
    have "slice_addrs ?sl = user_addrs m pt start ?n" by (simp add: slice_addrs_def e(2) paddr_add)
    then have "concat (map slice_addrs (?sl # sls)) = user_addrs m pt start (unat end_addr - unat start)"
      using s(2) e(3) by simp
    moreover have "translated_byte_buffer_loop m pt start end_addr v = Some (Inr (v @ ?sl # sls))"
      by (subst translated_byte_buffer_loop.simps)
        (simp add: True access_page_mapped[OF True assms(1) e(1)] page_slice_mapped[OF True assms(1)] s(1))
    ultimately show ?thesis by blast
  next
    case False
    then have "unat end_addr - unat start = 0" by (simp add: word_less_nat_alt)
    then show ?thesis using False by (subst translated_byte_buffer_loop.simps) (simp add: user_addrs_def)
  qed
qed

text \<open>Bytes written one after the other, and what they leave alone.\<close>

fun write_addrs :: "mem \<Rightarrow> usize list \<Rightarrow> u8 list \<Rightarrow> mem" where
  "write_addrs m (x # xs) (d # ds) = write_addrs (m(x := d)) xs ds"
| "write_addrs m _ _ = m"

lemma write_addrs_append:
  "length xs = length ds \<Longrightarrow> write_addrs m (xs @ ys) (ds @ es) = write_addrs (write_addrs m xs ds) ys es"
  by (induction xs ds arbitrary: m rule: list_induct2) auto

lemma write_addrs_other: "length xs = length ds \<Longrightarrow> x \<notin> set xs \<Longrightarrow> write_addrs m xs ds x = m x"
  by (induction xs ds arbitrary: m rule: list_induct2) auto

lemma write_addrs_read:
  "length xs = length ds \<Longrightarrow> distinct xs \<Longrightarrow> map (write_addrs m xs ds) xs = ds"
  by (induction xs ds arbitrary: m rule: list_induct2) (auto simp: write_addrs_other)

lemma write_page_loop_eq:
  "write_page_loop base is data (m, cnt) =
    (write_addrs m (map (\<lambda>i. base + of_nat i) is) (map data [cnt..<cnt + length is]), cnt + length is)"
proof (induction "is" arbitrary: m cnt)
  case (Cons i "is")
  have eq: "[cnt..<cnt + length (i # is)] = cnt # [Suc cnt..<Suc cnt + length is]"
    by (simp add: upt_conv_Cons del: upt_Suc)
  show ?case unfolding write_page_loop.simps Cons.IH eq list.map write_addrs.simps by (simp del: upt_Suc)
qed simp

lemma write_addrs_same_pages:
  assumes "length xs = length ds" "\<And>x. x \<in> set xs \<Longrightarrow> \<exists>p k. x = paddr p k \<and> k < 4096 \<and> page_ok p \<and> p \<notin> ppn_val ` S"
    and "\<And>q. q \<in> S \<Longrightarrow> page_ok (ppn_val q)"
  shows "same_pages S m (write_addrs m xs ds)"
proof -
  have "write_addrs m xs ds (paddr (ppn_val q) k) = m (paddr (ppn_val q) k)" if "q \<in> S" "k < 4096" for q k
  proof (rule write_addrs_other[OF assms(1)])
    show "paddr (ppn_val q) k \<notin> set xs" using assms(2,3) that paddr_eq_iff by (metis imageI)
  qed
  then show ?thesis by (simp add: same_pages_def page_eq_def)
qed

lemma access_page_root: "root_ppn pt' = root_ppn pt \<Longrightarrow> access_page m pt' a b = access_page m pt a b"
  by (simp add: access_page_def pt_translate_eq)

definition user_data :: "mem \<Rightarrow> PageTable \<Rightarrow> usize \<Rightarrow> nat \<Rightarrow> bool" where
  "user_data m pt a n \<longleftrightarrow>
     (\<forall>i < n. \<exists>e. pt_abs m pt (VirtAddr_floor (VirtAddr (a + of_nat i))) = Some e \<and> pte_ppn e \<notin> pt_owned pt)"

lemma user_data_mapped: "user_data m pt a n \<Longrightarrow> user_mapped m pt a n"
  by (fastforce simp: user_data_def user_mapped_def user_pa_def)

lemma user_data_le: "user_data m pt a (n + k) \<Longrightarrow> user_data m pt (a + of_nat n) k"
  unfolding user_data_def
proof (intro allI impI)
  fix i assume "\<forall>i < n + k. \<exists>e. pt_abs m pt (VirtAddr_floor (VirtAddr (a + of_nat i))) = Some e \<and> pte_ppn e \<notin> pt_owned pt" "i < k"
  from this(1)[rule_format, of "n + i"] this(2)
  show "\<exists>e. pt_abs m pt (VirtAddr_floor (VirtAddr (a + of_nat n + of_nat i))) = Some e \<and> pte_ppn e \<notin> pt_owned pt"
    by (simp add: add.assoc)
qed

lemma translated_and_write_bytes_loop_mapped:
  fixes data :: "nat \<Rightarrow> u8"
  assumes inv: "mm_inv l s" "pt_inv l s pt" and root: "root_ppn pt' = root_ppn pt" and lim: "unat end_addr < 2 ^ 39"
    and ud: "user_data (mem s) pt start (unat end_addr - unat start)" and same: "same_pages (pt_owned pt) (mem s) m"
  defines "w \<equiv> \<lambda>start cnt m. write_addrs m (user_addrs (mem s) pt start (unat end_addr - unat start))
    (map data [cnt..<cnt + (unat end_addr - unat start)])"
  shows "translated_and_write_bytes_loop pt' data start end_addr cnt m = Some (Inr (w start cnt m)) \<and>
    same_pages (pt_owned pt) (mem s) (w start cnt m)"
  using ud same
proof (induction "unat end_addr - unat start" arbitrary: start cnt m rule: less_induct)
  case less
  show ?case
  proof (cases "start < end_addr")
    case False
    then have "unat end_addr - unat start = 0" by (simp add: word_less_nat_alt)
    then show ?thesis using False less.prems by (subst translated_and_write_bytes_loop.simps) (simp add: user_addrs_def w_def)
  next
    case True
    let ?n = "chunk start end_addr"
    let ?nxt = "start + of_nat ?n"
    note c = chunk_facts[OF True lim]
    have abs: "pt_abs m pt = pt_abs (mem s) pt" by (rule pt_abs_cong[OF inv(2) less.prems(2)])
    obtain e where e: "pt_abs (mem s) pt (VirtAddr_floor (VirtAddr start)) = Some e"
      "user_addrs (mem s) pt start ?n = map (\<lambda>i. paddr (ppn_val (pte_ppn e)) (unat start mod 4096 + i)) [0..<?n]"
      "user_addrs (mem s) pt start (unat end_addr - unat start) =
        user_addrs (mem s) pt start ?n @ user_addrs (mem s) pt ?nxt (unat end_addr - unat ?nxt)"
      by (rule user_mapped_chunk[OF True lim user_data_mapped[OF less.prems(1)]])
    have split: "unat end_addr - unat start = ?n + (unat end_addr - unat ?nxt)" using c by simp
    have ud': "user_data (mem s) pt ?nxt (unat end_addr - unat ?nxt)"
      using less.prems(1) unfolding split by (rule user_data_le)
    have "0 < unat end_addr - unat start" using c by linarith
    then have "pte_ppn e \<notin> pt_owned pt" using less.prems(1) e(1) unfolding user_data_def by force
    then have notin: "ppn_val (pte_ppn e) \<notin> ppn_val ` pt_owned pt" using PhysPageNum.expand by blast
    define m1 where "m1 = write_addrs m (user_addrs (mem s) pt start ?n) (map data [cnt..<cnt + ?n])"
    have "same_pages (pt_owned pt) m m1" unfolding m1_def
    proof (rule write_addrs_same_pages)
      show "\<exists>p k. x = paddr p k \<and> k < 4096 \<and> page_ok p \<and> p \<notin> ppn_val ` pt_owned pt"
        if x: "x \<in> set (user_addrs (mem s) pt start ?n)" for x
      proof -
        obtain i where i: "i < ?n" "x = paddr (ppn_val (pte_ppn e)) (unat start mod 4096 + i)" using x by (auto simp: e(2))
        have "unat start mod 4096 + i < 4096" using i(1) c(2) by linarith
        moreover have "page_ok (ppn_val (pte_ppn e))" using pte_ppn_bound[of e] by simp
        ultimately show ?thesis using i(2) notin by blast
      qed
      show "page_ok (ppn_val q)" if "q \<in> pt_owned pt" for q
        using live_page_ok[OF inv(1)] inv(2) that by (auto simp: pt_inv_def)
    qed (simp add: user_addrs_def)
    then have same1: "same_pages (pt_owned pt) (mem s) m1" by (rule same_pages_trans[OF less.prems(2)])
    have acc: "access_page m pt' start end_addr = Inr (pte_ppn e, VirtAddr start, VirtAddr ?nxt)"
      using access_page_mapped[OF True lim, of m pt e] e(1) abs access_page_root[OF root] by simp
    have "map (\<lambda>i. paddr (ppn_val (pte_ppn e)) 0 + of_nat i) [unat start mod 4096..<unat start mod 4096 + ?n] =
        user_addrs (mem s) pt start ?n"
      by (rule nth_equalityI) (auto simp: e(2) paddr_add[of _ 0, simplified])
    then have wr: "write_page_loop (slice_ptr (get_bytes_array (pte_ppn e))) [unat start mod 4096..<unat start mod 4096 + ?n] data (m, cnt) =
        (m1, cnt + ?n)"
      by (simp add: write_page_loop_eq m1_def get_bytes_array_def pa_from_ppn_paddr)
    have dec: "unat end_addr - unat ?nxt < unat end_addr - unat start" using c by linarith
    note IH = less.hyps[OF dec ud' same1, of "cnt + ?n"]
    have "[cnt..<cnt + (unat end_addr - unat start)] = [cnt..<cnt + ?n] @ [cnt + ?n..<cnt + ?n + (unat end_addr - unat ?nxt)]"
      unfolding split add.assoc[symmetric] by (rule upt_add_eq_append) simp
    then have "w start cnt m = w ?nxt (cnt + ?n) m1"
      by (simp add: w_def e(3) m1_def write_addrs_append)
    moreover have "translated_and_write_bytes_loop pt' data start end_addr cnt m =
        translated_and_write_bytes_loop pt' data ?nxt end_addr (cnt + ?n) m1"
      using wr end_offset[OF True lim]
      by (subst translated_and_write_bytes_loop.simps) (simp add: True acc Let_def unat_VirtAddr_page_offset)
    ultimately show ?thesis using IH by simp
  qed
qed

text \<open>Reading a string byte by byte.\<close>

lemma translated_str_loop_mapped:
  assumes "unat va + length str < 2 ^ 39" "user_mapped m pt va (Suc (length str))"
    and "map m (user_addrs m pt va (Suc (length str))) = str @ [0]" "0 \<notin> set str"
  shows "translated_str_loop m pt va acc = Some (Inr (acc @ str))"
  using assms
proof (induction str arbitrary: va acc)
  case Nil
  have b: "unat va < 2 ^ 39" using Nil.prems(1) by simp
  obtain e where e: "pt_abs m pt (VirtAddr_floor (VirtAddr va)) = Some e" "m (paddr (ppn_val (pte_ppn e)) (unat va mod 4096)) = 0"
    using Nil.prems(2,3) by (auto simp: user_mapped_def user_addrs_def user_pa_def)
  show ?case
    by (subst translated_str_loop.simps) (simp add: va_from_usize_id[OF b] translate_va_abs[OF e(1)] e(2))
next
  case (Cons c str)
  have b: "unat va < 2 ^ 39" using Cons.prems(1) by simp
  have u: "unat (va + 1) = unat va + 1" using Cons.prems(1) by (simp add: unat_word_ariths)
  have addrs: "user_addrs m pt va (Suc (length (c # str))) = the (user_pa m pt va) # user_addrs m pt (va + 1) (Suc (length str))"
    using user_addrs_add[of m pt va 1 "Suc (length str)"] by (simp add: user_addrs_def)
  have map1: "user_mapped m pt (va + 1) (Suc (length str))" "user_pa m pt va \<noteq> None"
    using Cons.prems(2) user_mapped_add[of m pt va 1 "Suc (length str)"] by (simp_all add: user_mapped_def)
  obtain e where e: "pt_abs m pt (VirtAddr_floor (VirtAddr va)) = Some e" using map1(2) by (auto simp: user_pa_def)
  have c: "m (paddr (ppn_val (pte_ppn e)) (unat va mod 4096)) = c" "map m (user_addrs m pt (va + 1) (Suc (length str))) = str @ [0]"
    using Cons.prems(3) unfolding addrs by (simp_all add: user_pa_def e)
  have "translated_str_loop m pt (va + 1) (acc @ [c]) = Some (Inr ((acc @ [c]) @ str))"
    by (rule Cons.IH) (use Cons.prems(1,4) u map1(1) c(2) in simp_all)
  moreover have "c \<noteq> 0" using Cons.prems(4) by auto
  ultimately show ?case
    by (subst translated_str_loop.simps) (simp add: va_from_usize_id[OF b] translate_va_abs[OF e] c(1))
qed

lemma diverges_at_1:
  assumes "pt_translate m pt (VirtPageNum 0) = Inr (Some e)"
  shows "translated_byte_buffer_loop m pt 1 0x8000000001 v = None"
proof (rule ccontr)
  assume "translated_byte_buffer_loop m pt 1 0x8000000001 v \<noteq> None"
  then obtain r where ret: "translated_byte_buffer_loop m pt 1 0x8000000001 v = Some r" by blast
  have acc: "access_page m pt 1 0x8000000001 = Inr (pte_ppn e, VirtAddr 1, VirtAddr 1)"
    using assms by (simp add: access_page_def address_defs vpn_step_def min_def newtype_order_defs Let_def word_le_nat_alt)
  have sl: "page_slice (pte_ppn e) (VirtAddr 1) (VirtAddr 1) = Inr \<lparr>slice_ptr = slice_ptr (get_bytes_array (pte_ppn e)) + 1, slice_len = 0\<rparr>"
    by (simp add: page_slice_def slice_range_def address_defs get_bytes_array_def)
  have "\<not> (m' = m \<and> pt' = pt \<and> start = 1 \<and> end_addr = 0x8000000001)"
    if "translated_byte_buffer_loop m' pt' start end_addr v' = Some r'" for m' pt' start end_addr v' r'
  proof (rule translated_byte_buffer_loop.raw_induct[where P = "\<lambda>m' pt' start end_addr v' r'.
        \<not> (m' = m \<and> pt' = pt \<and> start = 1 \<and> end_addr = 0x8000000001)", OF _ that])
    fix f m' pt' start end_addr v' r'
    assume IH: "\<And>m' pt' start end_addr v' r'. f m' pt' start end_addr v' = Some r' \<Longrightarrow>
        \<not> (m' = m \<and> pt' = pt \<and> start = 1 \<and> end_addr = 0x8000000001)"
      and eq: "(if start < end_addr then
        (case access_page m' pt' start end_addr of
           Inl e \<Rightarrow> Some (Inl e)
         | Inr (ppn, start_va, end_va) \<Rightarrow>
             (case page_slice ppn start_va end_va of
                Inl e \<Rightarrow> Some (Inl e)
              | Inr sl \<Rightarrow> f m' pt' (va_val end_va) end_addr (v' @ [sl])))
        else Some (Inr v')) = Some r'"
    show "\<not> (m' = m \<and> pt' = pt \<and> start = 1 \<and> end_addr = 0x8000000001)"
    proof
      assume "m' = m \<and> pt' = pt \<and> start = 1 \<and> end_addr = 0x8000000001"
      then have "f m pt 1 0x8000000001 (v' @ [\<lparr>slice_ptr = slice_ptr (get_bytes_array (pte_ppn e)) + 1, slice_len = 0\<rparr>]) = Some r'"
        using eq acc sl by simp
      from IH[OF this] show False by simp
    qed
  qed
  from this[OF ret] show False by simp
qed

section \<open>Properties\<close>

text \<open>
  C13: \<open>translated_byte_buffer\<close> of a mapped range below \<open>2^39\<close> returns, and its slices one after the other
  are exactly the physical bytes of the range in order; their lengths add up to the length asked for.
\<close>

theorem translated_byte_buffer_correct:
  assumes "unat ptr + unat len < 2 ^ 39" "user_mapped m (from_token token) ptr (unat len)"
  shows "\<exists>sls. translated_byte_buffer m token ptr len = Some (Inr sls) \<and>
    concat (map slice_addrs sls) = user_addrs m (from_token token) ptr (unat len) \<and>
    sum_list (map slice_len sls) = unat len"
proof -
  have u: "unat (ptr + len) = unat ptr + unat len" using assms(1) by (simp add: unat_word_ariths)
  have "unat (ptr + len) < 2 ^ 39" "user_mapped m (from_token token) ptr (unat (ptr + len) - unat ptr)"
    using assms u by simp_all
  from translated_byte_buffer_loop_mapped[OF this, of "[]"] obtain sls
    where s: "translated_byte_buffer m token ptr len = Some (Inr sls)"
      "concat (map slice_addrs sls) = user_addrs m (from_token token) ptr (unat len)"
    by (auto simp: translated_byte_buffer_def u)
  have "length (concat (map slice_addrs sls)) = sum_list (map slice_len sls)"
    by (simp add: length_concat comp_def slice_addrs_def)
  then show ?thesis using s by simp
qed

text \<open>
  C15: \<open>translated_and_write_bytes\<close> to a mapped range below \<open>2^39\<close> that holds none of the address space's own
  tables returns, the range then reads as the data, and no other byte of memory and no mapping changes.
\<close>

theorem translated_and_write_bytes_correct:
  assumes "mm_inv l s" "pt_inv l s pt" "unat ptr + unat len < 2 ^ 39" "user_data (mem s) pt ptr (unat len)"
    and "distinct (user_addrs (mem s) pt ptr (unat len))"
  shows "\<exists>m'. translated_and_write_bytes (pt_token pt) ptr data len (mem s) = Some (Inr m') \<and>
    map m' (user_addrs (mem s) pt ptr (unat len)) = map data [0..<unat len] \<and>
    (\<forall>x. x \<notin> set (user_addrs (mem s) pt ptr (unat len)) \<longrightarrow> m' x = mem s x) \<and> pt_abs m' pt = pt_abs (mem s) pt"
proof -
  have u: "unat (ptr + len) = unat ptr + unat len" using assms(3) by (simp add: unat_word_ariths)
  have ud: "user_data (mem s) pt ptr (unat (ptr + len) - unat ptr)" and lim: "unat (ptr + len) < 2 ^ 39"
    using assms u by simp_all
  let ?m = "write_addrs (mem s) (user_addrs (mem s) pt ptr (unat len)) (map data [0..<unat len])"
  have r: "translated_and_write_bytes (pt_token pt) ptr data len (mem s) = Some (Inr ?m)" "same_pages (pt_owned pt) (mem s) ?m"
    using translated_and_write_bytes_loop_mapped[OF assms(1,2) root_from_token[OF pt_root_bound[OF assms(1,2)]] lim ud same_pages_refl,
        of data 0]
    by (simp_all add: translated_and_write_bytes_def u)
  then show ?thesis
    using write_addrs_read[of "user_addrs (mem s) pt ptr (unat len)" "map data [0..<unat len]" "mem s"] assms(5)
      write_addrs_other[of "user_addrs (mem s) pt ptr (unat len)" "map data [0..<unat len]" _ "mem s"]
      pt_abs_cong[OF assms(2) r(2)]
    by simp
qed

text \<open>
  \<open>translated_str\<close> of a mapped, zero-terminated string below \<open>2^39\<close> returns exactly the bytes before the
  terminator.
\<close>

theorem translated_str_correct:
  assumes "unat ptr + length str < 2 ^ 39" "user_mapped m (from_token token) ptr (Suc (length str))"
    and "map m (user_addrs m (from_token token) ptr (Suc (length str))) = str @ [0]" "0 \<notin> set str"
  shows "translated_str m token ptr = Some (Inr str)"
  using translated_str_loop_mapped[OF assms] by (simp add: translated_str_def)

text \<open>
  C35: \<open>translated_byte_buffer\<close> of one byte at address \<open>2^39\<close> never returns once page 0 has a leaf table,
  mapped or not: the end of the range is reduced modulo \<open>2^39\<close> and the loop stays at address 1.
\<close>

theorem translated_byte_buffer_diverges:
  assumes "pt_translate m (from_token token) (VirtPageNum 0) = Inr (Some e)"
  shows "translated_byte_buffer m token 0x8000000000 1 = None"
proof -
  have acc: "access_page m (from_token token) 0x8000000000 0x8000000001 = Inr (pte_ppn e, VirtAddr 0, VirtAddr 1)"
    using assms by (simp add: access_page_def address_defs vpn_step_def min_def newtype_order_defs Let_def word_le_nat_alt)
  have "page_slice (pte_ppn e) (VirtAddr 0) (VirtAddr 1) = Inr \<lparr>slice_ptr = slice_ptr (get_bytes_array (pte_ppn e)), slice_len = 1\<rparr>"
    by (simp add: page_slice_def slice_range_def address_defs get_bytes_array_def)
  then show ?thesis
    unfolding translated_byte_buffer_def
    by (subst translated_byte_buffer_loop.simps) (simp add: acc diverges_at_1[OF assms])
qed

section \<open>Witnesses\<close>

lemma single_page_addrs:
  assumes "pt_abs m pt (VirtAddr_floor (VirtAddr a)) = Some e" "unat a mod 4096 + n \<le> 4096" "unat a + n < 2 ^ 64"
  shows "user_addrs m pt a n = map (\<lambda>i. paddr (ppn_val (pte_ppn e)) (unat a mod 4096 + i)) [0..<n]"
    "user_mapped m pt a n" "pte_ppn e \<notin> pt_owned pt \<Longrightarrow> user_data m pt a n" "distinct (user_addrs m pt a n)"
proof -
  have pa: "user_pa m pt (a + of_nat i) = Some (paddr (ppn_val (pte_ppn e)) (unat a mod 4096 + i))"
    "VirtAddr_floor (VirtAddr (a + of_nat i)) = VirtAddr_floor (VirtAddr a)" if "i < n" for i
    using same_page[of a i] that assms by (simp_all add: user_pa_def)
  show addrs: "user_addrs m pt a n = map (\<lambda>i. paddr (ppn_val (pte_ppn e)) (unat a mod 4096 + i)) [0..<n]"
    by (simp add: user_addrs_def pa)
  show "user_mapped m pt a n" by (simp add: user_mapped_def pa)
  show "user_data m pt a n" if "pte_ppn e \<notin> pt_owned pt" using that assms(1) by (simp add: user_data_def pa(2))
  have ok: "page_ok (ppn_val (pte_ppn e))" using pte_ppn_bound[of e] by simp
  show "distinct (user_addrs m pt a n)"
    unfolding addrs distinct_map using assms(2) by (auto simp: inj_on_def paddr_eq_iff[OF ok ok])
qed

text \<open>The first page of the witness address space: where it is and that it holds zeros.\<close>

lemma boot_user_page:
  obtains ms s e where "boot_user = Inr (ms, s)" "mm_inv 0x80400 s" "pt_inv 0x80400 s (page_table ms)"
    "pt_abs (mem s) (page_table ms) (VirtPageNum 0x10) = Some e" "pte_ppn e \<notin> pt_owned (page_table ms)"
    "page_zero (mem s) (pte_ppn e)"
proof -
  obtain ms s a where b: "boot_user = Inr (ms, s)" "ms_inv 0x80400 s (tramp boot_ld) ms" "areas ms = [a]"
    "vpn_range a = \<lparr>range_l = VirtPageNum 0x10, range_r = VirtPageNum 0x12\<rparr>" "map_type a = Framed" "31735 \<le> avail s"
    "area_holds (mem s) a []" by (rule boot_user_facts)
  have v: "VirtPageNum 0x10 \<in> set (area_vpns a)" and a: "a \<in> set (areas ms)" using b(3,4) by (simp_all add: boot_vpns)
  note fr = ms_area_frames[OF b(2) a b(5)]
  obtain e where e: "ms_abs (mem s) ms (VirtPageNum 0x10) = Some e" "pte_ppn e = area_frame a (VirtPageNum 0x10)"
    using fr(3)[OF v] by blast
  then have "pte_ppn e \<notin> pt_owned (page_table ms)" using fr(1,5) v by auto
  moreover have "page_zero (mem s) (pte_ppn e)"
    using b(7)[unfolded area_holds_def, rule_format, of 0] e(2) b(4) by (simp add: boot_vpns page_holds_def page_zero_def)
  ultimately show ?thesis using that b(1) ms_invD(1,2)[OF b(2)] e(1) by blast
qed

lemma translated_byte_buffer_correct_witness:
  "\<exists>ms s sls. boot_user = Inr (ms, s) \<and> translated_byte_buffer (mem s) (pt_token (page_table ms)) 0x10ff0 16 = Some (Inr sls) \<and>
     sum_list (map slice_len sls) = 16"
proof -
  obtain ms s e where b: "boot_user = Inr (ms, s)" "mm_inv 0x80400 s" "pt_inv 0x80400 s (page_table ms)"
    "pt_abs (mem s) (page_table ms) (VirtPageNum 0x10) = Some e" by (rule boot_user_page)
  have "pt_abs (mem s) (from_token (pt_token (page_table ms))) (VirtAddr_floor (VirtAddr 0x10ff0)) = Some e"
    using pt_abs_from_token[OF b(2,3)] b(4) by (simp add: address_defs)
  from single_page_addrs(2)[OF this, of 16]
  have "user_mapped (mem s) (from_token (pt_token (page_table ms))) 0x10ff0 (unat (16 :: usize))" by simp
  from translated_byte_buffer_correct[OF _ this] show ?thesis using b(1) by auto
qed

lemma translated_and_write_bytes_correct_witness:
  "\<exists>ms s m'. boot_user = Inr (ms, s) \<and>
     translated_and_write_bytes (pt_token (page_table ms)) 0x10008 (\<lambda>i. of_nat i) 4 (mem s) = Some (Inr m') \<and>
     pt_abs m' (page_table ms) = pt_abs (mem s) (page_table ms)"
proof -
  obtain ms s e where b: "boot_user = Inr (ms, s)" "mm_inv 0x80400 s" "pt_inv 0x80400 s (page_table ms)"
    "pt_abs (mem s) (page_table ms) (VirtPageNum 0x10) = Some e" "pte_ppn e \<notin> pt_owned (page_table ms)" by (rule boot_user_page)
  have e: "pt_abs (mem s) (page_table ms) (VirtAddr_floor (VirtAddr 0x10008)) = Some e" using b(4) by (simp add: address_defs)
  have "user_data (mem s) (page_table ms) 0x10008 (unat (4 :: usize))" "distinct (user_addrs (mem s) (page_table ms) 0x10008 (unat (4 :: usize)))"
    using single_page_addrs(3,4)[OF e, of 4] b(5) by simp_all
  from translated_and_write_bytes_correct[OF b(2,3) _ this, of "\<lambda>i. of_nat i"] show ?thesis using b(1) by auto
qed

lemma translated_byte_buffer_diverges_witness:
  "\<exists>ms s. boot_user = Inr (ms, s) \<and> translated_byte_buffer (mem s) (pt_token (page_table ms)) 0x8000000000 1 = None"
proof -
  obtain ms s e where b: "boot_user = Inr (ms, s)" "mm_inv 0x80400 s" "pt_inv 0x80400 s (page_table ms)"
    "pt_abs (mem s) (page_table ms) (VirtPageNum 0x10) = Some e" by (rule boot_user_page)
  have root: "root_ppn (from_token (pt_token (page_table ms))) = root_ppn (page_table ms)"
    by (rule root_from_token[OF pt_root_bound[OF b(2,3)]])
  have ix: "take 2 (indexes (VirtPageNum 0x10)) = take 2 (indexes (VirtPageNum 0))"
  proof -
    have "drop_bit 18 (0x10 :: usize) = 0" "drop_bit 9 (0x10 :: usize) = 0"
      by (simp_all only: word_unat_eq_iff unat_drop_bit_div) simp_all
    then show ?thesis by (simp only: indexes_eq VirtPageNum.sel) (simp add: numeral_2_eq_2)
  qed
  have "\<exists>e. pt_translate (mem s) (from_token (pt_token (page_table ms))) (VirtPageNum 0) = Inr (Some e)"
    using b(4) ix by (auto simp: pt_translate_eq root pt_abs_def pt_lookup_def split: if_splits option.splits)
  then show ?thesis using translated_byte_buffer_diverges b(1) by blast
qed

lemma translated_str_correct_witness:
  "\<exists>ms s. boot_user = Inr (ms, s) \<and> translated_str (mem s) (pt_token (page_table ms)) 0x10008 = Some (Inr [])"
proof -
  obtain ms s e where b: "boot_user = Inr (ms, s)" "mm_inv 0x80400 s" "pt_inv 0x80400 s (page_table ms)"
    "pt_abs (mem s) (page_table ms) (VirtPageNum 0x10) = Some e" "pte_ppn e \<notin> pt_owned (page_table ms)" "page_zero (mem s) (pte_ppn e)"
    by (rule boot_user_page)
  let ?pt = "from_token (pt_token (page_table ms))"
  have e: "pt_abs (mem s) ?pt (VirtAddr_floor (VirtAddr 0x10008)) = Some e"
    using pt_abs_from_token[OF b(2,3)] b(4) by (simp add: address_defs)
  note sp = single_page_addrs[OF e, of 1]
  have "user_mapped (mem s) ?pt 0x10008 (Suc (length ([] :: u8 list)))" "map (mem s) (user_addrs (mem s) ?pt 0x10008 (Suc (length ([] :: u8 list)))) = [] @ [0]"
    using sp(1,2) b(6) by (simp_all add: page_zero_def)
  from translated_str_correct[OF _ this] show ?thesis using b(1) by auto
qed

lemma list_all2_in_left: "list_all2 P xs ys \<Longrightarrow> x \<in> set xs \<Longrightarrow> \<exists>y \<in> set ys. P x y"
  by (induction rule: list_all2_induct) auto

text \<open>
  C34: the flags of a page play no part in these accesses. In the address space of a freshly loaded
  program the page of the trap context is mapped without the user flag, yet a buffer that a system
  call is given may lie there: all \<open>296\<close> bytes of the trap context, with the kernel's stack pointer and
  the address of its trap handler, are replaced.
\<close>

theorem trap_context_overwritten:
  assumes "mm_inv l s0" "ld_ok ld" "parse elf_data = Some elf" "elf_ok elf" "3 + 3 * length (seg_pages (elf_image elf)) \<le> avail s0"
    and "from_elf ld parse elf_data s0 = Inr ((ms, sp, entry), s)"
  shows "\<exists>e m'. ms_abs (mem s) ms (VirtPageNum 0x7fffffe) = Some e \<and> \<not> bit (pte_flags e) 4 \<and>
    translated_and_write_bytes (ms_token ms) 0x7fffffe000 data 296 (mem s) = Some (Inr m') \<and>
    (\<forall>k < 296. m' (paddr (ppn_val (pte_ppn e)) k) = data k)"
proof -
  have "wp (from_elf ld parse elf_data) (\<lambda>(ms, sp, entry) s'. built l s0 ld (elf_image elf) s' ms) (\<lambda>_. False) s0"
    by (rule wp_from_elf[where parse = parse and elf_data = elf_data, OF assms(1-4)]) (use assms(5) in simp_all)
  from wpD[OF this assms(6)] have inv: "ms_inv l s (tramp ld) ms" and all: "list_all2 (area_is (mem s)) (elf_image elf) (areas ms)"
    by (simp_all add: built_def)
  let ?seg = "(\<lparr>range_l = VirtPageNum 0x7fffffe, range_r = VirtPageNum 0x7ffffff\<rparr>, MP_R OR MP_W, [] :: u8 list)"
  have "?seg \<in> set (elf_image elf)" by (simp add: elf_image_def stack_segs_def)
  then obtain a where a: "a \<in> set (areas ms)" "area_is (mem s) ?seg a"
    using list_all2_in_left[OF all] by blast
  have vs: "vpn_range a = fst ?seg" "map_type a = Framed" "map_perm a = MP_R OR MP_W" using a(2) by (simp_all add: area_is_def)
  have v: "VirtPageNum 0x7fffffe \<in> set (area_vpns a)" using single_page[of "0x7fffffe"] by (simp add: vs)
  note fr = ms_area_frames[OF inv a(1) vs(2)]
  obtain e where e: "ms_abs (mem s) ms (VirtPageNum 0x7fffffe) = Some e" "pte_ppn e = area_frame a (VirtPageNum 0x7fffffe)"
    using fr(3)[OF v] by blast
  have "pte_flags e = (MP_R OR MP_W) OR PTE_V"
    using ms_invD(6)[OF inv a(1) v] e(1) vs(3)
    by (cases "area_ppn a (VirtPageNum 0x7fffffe)") (simp_all add: area_entry_def)
  then have U: "\<not> bit (pte_flags e) 4" by (simp add: bit_or_iff MP_R_def MP_W_def PTE_V_def bit_push_bit_iff)
  have nt: "pte_ppn e \<notin> pt_owned (page_table ms)" using fr(1,5) v e(2) by auto
  have fl: "pt_abs (mem s) (page_table ms) (VirtAddr_floor (VirtAddr 0x7fffffe000)) = Some e"
    using e(1) by (simp add: address_defs)
  note sp = single_page_addrs[OF fl, of 296]
  have ud: "user_data (mem s) (page_table ms) 0x7fffffe000 (unat (296 :: usize))"
    and di: "distinct (user_addrs (mem s) (page_table ms) 0x7fffffe000 (unat (296 :: usize)))"
    using sp(3,4) nt by simp_all
  obtain m' where m': "translated_and_write_bytes (ms_token ms) 0x7fffffe000 data 296 (mem s) = Some (Inr m')"
    "same_pages (pt_owned (page_table ms)) (mem s) m'"
    "m' = write_addrs (mem s) (user_addrs (mem s) (page_table ms) 0x7fffffe000 296) (map data [0..<296])"
    using translated_and_write_bytes_loop_mapped[OF ms_invD(1,2)[OF inv] root_from_token[OF pt_root_bound[OF ms_invD(1,2)[OF inv]]],
        of "0x7fffffe128" "0x7fffffe000" "mem s" data 0] ud
    by (simp add: translated_and_write_bytes_def ms_token_def)
  have "map m' (user_addrs (mem s) (page_table ms) 0x7fffffe000 296) = map data [0..<296]"
    unfolding m'(3) by (rule write_addrs_read) (use di in simp_all)
  then have "\<forall>k < 296. m' (paddr (ppn_val (pte_ppn e)) k) = data k" using sp(1) by (simp add: comp_def)
  then show ?thesis using e(1) U m'(1) by blast
qed

lemma trap_context_overwritten_witness:
  "\<exists>ms sp entry s m'. from_elf boot_ld (\<lambda>_. Some boot_elf) [] boot_mm = Inr ((ms, sp, entry), s) \<and>
     translated_and_write_bytes (ms_token ms) 0x7fffffe000 (\<lambda>_. 0x41) 296 (mem s) = Some (Inr m')"
proof -
  have "wp (from_elf boot_ld (\<lambda>_. Some boot_elf) []) (\<lambda>_ _. True) (\<lambda>_. False) boot_mm"
    by (rule wp_from_elf[OF boot_mm_inv boot_ld_ok _ boot_elf_ok]) (use boot_elf_pages in \<open>simp_all add: boot_avail\<close>)
  from wp_no_panicD[OF this] obtain ms sp entry s where r: "from_elf boot_ld (\<lambda>_. Some boot_elf) [] boot_mm = Inr ((ms, sp, entry), s)"
    by (metis prod.exhaust)
  have "3 + 3 * length (seg_pages (elf_image boot_elf)) \<le> avail boot_mm" by (simp add: boot_elf_pages boot_avail)
  from trap_context_overwritten[OF boot_mm_inv boot_ld_ok refl boot_elf_ok this r, of "\<lambda>_. 0x41"] show ?thesis using r by blast
qed

end
