(* ===== verification/Fs.thy ===== *)
theory Fs
  imports User_Access
begin

text \<open>
  Files of \<^verbatim>\<open>src/fs\<close>: open files on the disk (\<^verbatim>\<open>OSInode\<close>, \<^verbatim>\<open>open_file\<close>, \<^verbatim>\<open>OpenFlags\<close>) and the console
  files \<^verbatim>\<open>Stdin\<close> and \<^verbatim>\<open>Stdout\<close>. The file system itself is the crate \<^verbatim>\<open>easy_fs\<close>, which is not part of the
  repository: the functions of it that the kernel calls are the fields of the record \<open>efs\<close>, over an
  abstract type of disks \<open>'fs\<close> and of inodes \<open>'i\<close>.
\<close>

section \<open>The file system that the kernel calls\<close>

datatype InodeType = FILE | DIR

record ('fs, 'i) efs =
  root_find :: "'fs \<Rightarrow> u8 list \<Rightarrow> 'i option"
  root_create :: "u8 list \<Rightarrow> 'fs \<Rightarrow> 'i option \<times> 'fs"
  root_linkat :: "u8 list \<Rightarrow> u8 list \<Rightarrow> 'fs \<Rightarrow> isize \<times> 'fs"
  root_unlinkat :: "u8 list \<Rightarrow> 'fs \<Rightarrow> isize \<times> 'fs"
  root_find_inode_id_by_block :: "'fs \<Rightarrow> u32 \<Rightarrow> usize \<Rightarrow> u32 option"
  inode_clear :: "'i \<Rightarrow> 'fs \<Rightarrow> 'fs"
  inode_read_at :: "'fs \<Rightarrow> 'i \<Rightarrow> usize \<Rightarrow> nat \<Rightarrow> u8 list" \<comment> \<open>the bytes put at the start of a buffer of the given length\<close>
  inode_write_at :: "'i \<Rightarrow> usize \<Rightarrow> u8 list \<Rightarrow> 'fs \<Rightarrow> usize \<times> 'fs"
  inode_get_nlink :: "'fs \<Rightarrow> 'i \<Rightarrow> u32"
  inode_get_block_metadata :: "'fs \<Rightarrow> 'i \<Rightarrow> usize \<times> usize"
  inode_find_file_type :: "'fs \<Rightarrow> 'i \<Rightarrow> InodeType"

section \<open>Open files on the disk\<close>

record 'i OSInode =
  os_readable :: bool
  os_writable :: bool
  os_offset :: usize
  os_inode :: 'i

definition OSInode_new :: "bool \<Rightarrow> bool \<Rightarrow> 'i \<Rightarrow> 'i OSInode" where
  "OSInode_new r w i = \<lparr>os_readable = r, os_writable = w, os_offset = 0, os_inode = i\<rparr>"

text \<open>The loop of \<open>read_all\<close> ends when a read hands back nothing.\<close>

partial_function (option) read_all_loop ::
    "('fs, 'i) efs \<Rightarrow> 'fs \<Rightarrow> 'i OSInode \<Rightarrow> u8 list \<Rightarrow> (u8 list \<times> 'i OSInode) option" where
  "read_all_loop e d f v =
     (let buffer = inode_read_at e d (os_inode f) (os_offset f) 512; len = length buffer in
      if len = 0 then Some (v, f)
      else read_all_loop e d (f\<lparr>os_offset := os_offset f + of_nat len\<rparr>) (v @ buffer))"

definition read_all :: "('fs, 'i) efs \<Rightarrow> 'fs \<Rightarrow> 'i OSInode \<Rightarrow> (u8 list \<times> 'i OSInode) option" where
  "read_all e d f = read_all_loop e d f []"

definition get_offset :: "'i OSInode \<Rightarrow> usize" where
  "get_offset f = os_offset f"

type_synonym OpenFlags = u32

definition OF_RDONLY :: OpenFlags where "OF_RDONLY = 0"
definition OF_WRONLY :: OpenFlags where "OF_WRONLY = push_bit 0 1"
definition OF_RDWR :: OpenFlags where "OF_RDWR = push_bit 1 1"
definition OF_CREATE :: OpenFlags where "OF_CREATE = push_bit 9 1"
definition OF_TRUNC :: OpenFlags where "OF_TRUNC = push_bit 10 1"

definition OpenFlags_from_bits :: "u32 \<Rightarrow> OpenFlags option" where
  "OpenFlags_from_bits b =
     (if b AND NOT (OF_RDONLY OR OF_WRONLY OR OF_RDWR OR OF_CREATE OR OF_TRUNC) = 0 then Some b else None)"

definition flags_contains :: "OpenFlags \<Rightarrow> OpenFlags \<Rightarrow> bool" where
  "flags_contains f g \<longleftrightarrow> f AND g = g"

definition read_write :: "OpenFlags \<Rightarrow> bool \<times> bool" where
  "read_write f =
     (if f = 0 then (True, False)
      else if flags_contains f OF_WRONLY then (False, True)
      else (True, True))"

definition open_file :: "('fs, 'i) efs \<Rightarrow> u8 list \<Rightarrow> OpenFlags \<Rightarrow> 'fs \<Rightarrow> 'i OSInode option \<times> 'fs" where
  "open_file e name flags d =
     (let (r, w) = read_write flags in
      if flags_contains flags OF_CREATE then
        (case root_find e d name of
           Some inode \<Rightarrow> (Some (OSInode_new r w inode), inode_clear e inode d)
         | None \<Rightarrow> let (created, d') = root_create e name d in (map_option (OSInode_new r w) created, d'))
      else
        (case root_find e d name of
           Some inode \<Rightarrow>
             (Some (OSInode_new r w inode), if flags_contains flags OF_TRUNC then inode_clear e inode d else d)
         | None \<Rightarrow> (None, d)))"

fun os_read_loop :: "('fs, 'i) efs \<Rightarrow> 'fs \<Rightarrow> slice list \<Rightarrow> 'i OSInode \<Rightarrow> usize \<Rightarrow> mem \<Rightarrow> usize \<times> 'i OSInode \<times> mem" where
  "os_read_loop e d [] f total_size m = (total_size, f, m)"
| "os_read_loop e d (sl # sls) f total_size m =
     (let bs = inode_read_at e d (os_inode f) (os_offset f) (slice_len sl);
          m' = write_bytes m (slice_ptr sl) bs;
          read_size = of_nat (length bs)
      in if read_size = 0 then (total_size, f, m')
         else os_read_loop e d sls (f\<lparr>os_offset := os_offset f + read_size\<rparr>) (total_size + read_size) m')"

definition os_read :: "('fs, 'i) efs \<Rightarrow> 'fs \<Rightarrow> 'i OSInode \<Rightarrow> UserBuffer \<Rightarrow> mem \<Rightarrow> usize \<times> 'i OSInode \<times> mem" where
  "os_read e d f buf m = os_read_loop e d (buffers buf) f 0 m"

fun os_write_loop ::
    "('fs, 'i) efs \<Rightarrow> mem \<Rightarrow> slice list \<Rightarrow> 'i OSInode \<Rightarrow> usize \<Rightarrow> 'fs \<Rightarrow> panic + (usize \<times> 'i OSInode \<times> 'fs)" where
  "os_write_loop e m [] f total_size d = Inr (total_size, f, d)"
| "os_write_loop e m (sl # sls) f total_size d =
     (let (write_size, d') = inode_write_at e (os_inode f) (os_offset f) (read_bytes m (slice_ptr sl) (slice_len sl)) d
      in if write_size = of_nat (slice_len sl)
         then os_write_loop e m sls (f\<lparr>os_offset := os_offset f + write_size\<rparr>) (total_size + write_size) d'
         else Inl AssertFailed)"

definition os_write ::
    "('fs, 'i) efs \<Rightarrow> mem \<Rightarrow> 'i OSInode \<Rightarrow> UserBuffer \<Rightarrow> 'fs \<Rightarrow> panic + (usize \<times> 'i OSInode \<times> 'fs)" where
  "os_write e m f buf d = os_write_loop e m (buffers buf) f 0 d"

text \<open>\<^verbatim>\<open>StatMode\<close> and \<^verbatim>\<open>Stat\<close>, whose padding is always zero and has no field here.\<close>

definition SM_NULL :: u32 where "SM_NULL = 0"
definition SM_DIR :: u32 where "SM_DIR = 0x4000"
definition SM_FILE :: u32 where "SM_FILE = 0x8000"

record Stat =
  st_dev :: usize
  st_ino :: usize
  st_mode :: u32
  st_nlink :: u32

definition os_get_stat :: "('fs, 'i) efs \<Rightarrow> 'fs \<Rightarrow> 'i OSInode \<Rightarrow> panic + Stat" where
  "os_get_stat e d f =
     (let nlink = inode_get_nlink e d (os_inode f);
          (blk_id, blk_offset) = inode_get_block_metadata e d (os_inode f)
      in case root_find_inode_id_by_block e d (ucast blk_id) blk_offset of
           None \<Rightarrow> Inl UnwrapNone
         | Some ino \<Rightarrow> Inr \<lparr>st_dev = 0, st_ino = ucast ino,
             st_mode = (case inode_find_file_type e d (os_inode f) of FILE \<Rightarrow> SM_FILE | DIR \<Rightarrow> SM_DIR),
             st_nlink = nlink\<rparr>)"

text \<open>
  The bytes of a \<^verbatim>\<open>Stat\<close> (\<^verbatim>\<open>repr(C)\<close>): two words, the mode and the link count as half words, seven
  words of padding.
\<close>

definition u32_bytes :: "u32 \<Rightarrow> u8 list" where
  "u32_bytes v = map (\<lambda>i. ucast (drop_bit (8 * i) v)) [0..<4]"

definition stat_bytes :: "Stat \<Rightarrow> u8 list" where
  "stat_bytes st = u64_bytes (st_dev st) @ u64_bytes (st_ino st) @ u32_bytes (st_mode st) @ u32_bytes (st_nlink st) @
     replicate 56 0"

section \<open>The console files\<close>

text \<open>
  \<^verbatim>\<open>core::str::from_utf8\<close> followed by \<^verbatim>\<open>chars\<close>: the code points of a well-formed byte sequence.
\<close>

definition utf8_cont :: "u8 \<Rightarrow> bool" where
  "utf8_cont b \<longleftrightarrow> unat b div 0x40 = 2"

definition utf8_three :: "u8 \<Rightarrow> u8 \<Rightarrow> bool" where
  "utf8_three a b \<longleftrightarrow> unat a div 0x10 = 0xE \<and> utf8_cont b \<and>
     (a = 0xE0 \<longrightarrow> 0xA0 \<le> unat b) \<and> (a = 0xED \<longrightarrow> unat b \<le> 0x9F)"

definition utf8_four :: "u8 \<Rightarrow> u8 \<Rightarrow> bool" where
  "utf8_four a b \<longleftrightarrow> 0xF0 \<le> unat a \<and> unat a \<le> 0xF4 \<and> utf8_cont b \<and>
     (a = 0xF0 \<longrightarrow> 0x90 \<le> unat b) \<and> (a = 0xF4 \<longrightarrow> unat b \<le> 0x8F)"

definition utf8_tail :: "nat \<Rightarrow> u8 \<Rightarrow> nat" where
  "utf8_tail acc b = 0x40 * acc + unat b mod 0x40"

fun utf8_decode :: "u8 list \<Rightarrow> nat list option" where
  "utf8_decode [] = Some []"
| "utf8_decode (a # bs) =
     (if unat a < 0x80 then map_option (Cons (unat a)) (utf8_decode bs)
      else (case bs of [] \<Rightarrow> None | b # cs \<Rightarrow>
        if 0xC2 \<le> unat a \<and> unat a \<le> 0xDF \<and> utf8_cont b
        then map_option (Cons (utf8_tail (unat a mod 0x20) b)) (utf8_decode cs)
        else (case cs of [] \<Rightarrow> None | c # ds \<Rightarrow>
          if utf8_three a b \<and> utf8_cont c
          then map_option (Cons (utf8_tail (utf8_tail (unat a mod 0x10) b) c)) (utf8_decode ds)
          else (case ds of [] \<Rightarrow> None | f # es \<Rightarrow>
            if utf8_four a b \<and> utf8_cont c \<and> utf8_cont f
            then map_option (Cons (utf8_tail (utf8_tail (utf8_tail (unat a mod 0x08) b) c) f)) (utf8_decode es)
            else None))))"

text \<open>\<open>write_str\<close> of \<^verbatim>\<open>console.rs\<close>: one \<^verbatim>\<open>console_putchar\<close> per character, recorded in order.\<close>

definition write_str :: "nat list \<Rightarrow> usize list \<Rightarrow> usize list" where
  "write_str s out = out @ map of_nat s"

fun stdout_write_loop :: "mem \<Rightarrow> slice list \<Rightarrow> usize list \<Rightarrow> panic + usize list" where
  "stdout_write_loop m [] out = Inr out"
| "stdout_write_loop m (sl # sls) out =
     (case utf8_decode (read_bytes m (slice_ptr sl) (slice_len sl)) of
        None \<Rightarrow> Inl UnwrapNone
      | Some s \<Rightarrow> stdout_write_loop m sls (write_str s out))"

definition stdout_write :: "mem \<Rightarrow> UserBuffer \<Rightarrow> usize list \<Rightarrow> panic + (usize \<times> usize list)" where
  "stdout_write m buf out = map_sum id (\<lambda>c. (UserBuffer_len buf, c)) (stdout_write_loop m (buffers buf) out)"

text \<open>
  One turn of \<open>Stdin::read\<close> with the character \<open>c\<close> from the console: on a zero the task is suspended
  and the turn is repeated, otherwise the byte is stored.
\<close>

datatype stdin_result = StdinWait | StdinDone usize

definition stdin_read :: "usize \<Rightarrow> UserBuffer \<Rightarrow> mem \<Rightarrow> panic + (stdin_result \<times> mem)" where
  "stdin_read c buf m =
     (if UserBuffer_len buf \<noteq> 1 then Inl AssertFailed
      else if c = 0 then Inr (StdinWait, m)
      else (case buffers buf of
          [] \<Rightarrow> Inl SliceIndex
        | sl # _ \<Rightarrow> Inr (StdinDone 1, m(slice_ptr sl := ucast c))))"

section \<open>The trait\<close>

text \<open>
  \<^verbatim>\<open>Arc<dyn File>\<close>: a reference to an open file. Tasks share the open files on the disk, with their
  offset, so these live in a store \<open>os_inodes\<close>, to which opening a file appends.
\<close>

datatype File = Stdin | Stdout | OSFile nat

record ('fs, 'i) fs_state =
  disk :: 'fs
  os_inodes :: "'i OSInode list"
  console :: "usize list"

fun file_readable :: "('fs, 'i) fs_state \<Rightarrow> File \<Rightarrow> bool" where
  "file_readable fs Stdin = True"
| "file_readable fs Stdout = False"
| "file_readable fs (OSFile a) = os_readable (os_inodes fs ! a)"

fun file_writable :: "('fs, 'i) fs_state \<Rightarrow> File \<Rightarrow> bool" where
  "file_writable fs Stdin = False"
| "file_writable fs Stdout = True"
| "file_writable fs (OSFile a) = os_writable (os_inodes fs ! a)"

text \<open>\<open>None\<close> as the number of bytes read is the suspended \<open>Stdin::read\<close>.\<close>

fun file_read ::
    "('fs, 'i) efs \<Rightarrow> usize \<Rightarrow> File \<Rightarrow> UserBuffer \<Rightarrow> mem \<times> ('fs, 'i) fs_state \<Rightarrow>
     panic + (usize option \<times> mem \<times> ('fs, 'i) fs_state)" where
  "file_read e c Stdin buf (m, fs) =
     (case stdin_read c buf m of
        Inl p \<Rightarrow> Inl p
      | Inr (StdinWait, m') \<Rightarrow> Inr (None, m', fs)
      | Inr (StdinDone n, m') \<Rightarrow> Inr (Some n, m', fs))"
| "file_read e c Stdout buf (m, fs) = Inl ExplicitPanic"
| "file_read e c (OSFile a) buf (m, fs) =
     (let (n, f', m') = os_read e (disk fs) (os_inodes fs ! a) buf m
      in Inr (Some n, m', fs\<lparr>os_inodes := (os_inodes fs)[a := f']\<rparr>))"

fun file_write ::
    "('fs, 'i) efs \<Rightarrow> File \<Rightarrow> UserBuffer \<Rightarrow> mem \<times> ('fs, 'i) fs_state \<Rightarrow> panic + (usize \<times> mem \<times> ('fs, 'i) fs_state)" where
  "file_write e Stdin buf (m, fs) = Inl ExplicitPanic"
| "file_write e Stdout buf (m, fs) =
     map_sum id (\<lambda>(n, c). (n, m, fs\<lparr>console := c\<rparr>)) (stdout_write m buf (console fs))"
| "file_write e (OSFile a) buf (m, fs) =
     map_sum id (\<lambda>(n, f', d'). (n, m, fs\<lparr>disk := d', os_inodes := (os_inodes fs)[a := f']\<rparr>))
       (os_write e m (os_inodes fs ! a) buf (disk fs))"

fun file_get_stat :: "('fs, 'i) efs \<Rightarrow> File \<Rightarrow> ('fs, 'i) fs_state \<Rightarrow> panic + Stat" where
  "file_get_stat e Stdin fs = Inl ExplicitPanic"
| "file_get_stat e Stdout fs = Inl ExplicitPanic"
| "file_get_stat e (OSFile a) fs = os_get_stat e (disk fs) (os_inodes fs ! a)"

end
