(* ===== verification/Fs_Ops.thy ===== *)
theory Fs_Ops
  imports Fs
begin

text \<open>
  What the file operations of \<^verbatim>\<open>src/fs\<close> do, given what \<^verbatim>\<open>easy_fs\<close> promises of \<^verbatim>\<open>read_at\<close>, \<^verbatim>\<open>write_at\<close>, \<^verbatim>\<open>clear\<close> and
  \<^verbatim>\<open>create\<close>: reading and writing at the offset through a user buffer of several pages, reading a whole
  file, opening with every combination of flags, and what the console shows.
\<close>

section \<open>What easy-fs promises\<close>

text \<open>
  \<open>content d i\<close> is the content of inode \<open>i\<close> on disk \<open>d\<close>, and \<open>room d i n\<close> says that the inode can hold \<open>n\<close>
  bytes. A read hands out the bytes from the offset to the end of the file or of the buffer. A write
  that starts inside the file and for which there is room overwrites, and extends the file if needed.
\<close>

definition splice :: "'a list \<Rightarrow> nat \<Rightarrow> 'a list \<Rightarrow> 'a list" where
  "splice c off bs = take off c @ bs @ drop (off + length bs) c"

definition efs_reads :: "('fs, 'i) efs \<Rightarrow> ('fs \<Rightarrow> 'i \<Rightarrow> u8 list) \<Rightarrow> bool" where
  "efs_reads e content \<longleftrightarrow> (\<forall>d i off n. inode_read_at e d i off n = take n (drop (unat off) (content d i)))"

definition efs_writes :: "('fs, 'i) efs \<Rightarrow> ('fs \<Rightarrow> 'i \<Rightarrow> u8 list) \<Rightarrow> ('fs \<Rightarrow> 'i \<Rightarrow> nat \<Rightarrow> bool) \<Rightarrow> bool" where
  "efs_writes e content room \<longleftrightarrow>
     (\<forall>d i off bs n. unat off \<le> length (content d i) \<longrightarrow> unat off + length bs \<le> n \<longrightarrow> room d i n \<longrightarrow>
        (case inode_write_at e i off bs d of (written, d') \<Rightarrow>
           written = of_nat (length bs) \<and> room d' i n \<and>
           content d' = (content d)(i := splice (content d i) (unat off) bs)))"

definition efs_opens :: "('fs, 'i) efs \<Rightarrow> ('fs \<Rightarrow> 'i \<Rightarrow> u8 list) \<Rightarrow> bool" where
  "efs_opens e content \<longleftrightarrow>
     (\<forall>d i. content (inode_clear e i d) = (content d)(i := [])) \<and>
     (\<forall>d i name. root_find e (inode_clear e i d) name = root_find e d name) \<and>
     (\<forall>d name i d'. root_find e d name = None \<longrightarrow> root_create e name d = (Some i, d') \<longrightarrow>
        root_find e d' name = Some i \<and> content d' = (content d)(i := []))"

lemma splice_splice:
  assumes "off \<le> length c"
  shows "splice (splice c off a) (off + length a) b = splice c off (a @ b)"
proof -
  have "min (length c) off = off" using assms by simp
  then show ?thesis using assms by (simp add: splice_def add.commute add.left_commute)
qed

lemma length_splice: "off \<le> length c \<Longrightarrow> off + length a \<le> length (splice c off a)"
  by (simp add: splice_def)

lemma drop_splice: "off \<le> length c \<Longrightarrow> take (length a) (drop off (splice c off a)) = a"
  by (simp add: splice_def)

section \<open>Slices as addresses\<close>

lemma write_bytes_addrs:
  assumes "length bs \<le> 2 ^ 64"
  shows "write_bytes m p bs = write_addrs m (map (\<lambda>i. p + of_nat i) [0..<length bs]) bs"
  using assms
proof (induction bs rule: rev_induct)
  case Nil
  then show ?case by (simp add: write_bytes_def)
next
  case (snoc b bs)
  have lt: "length bs < 2 ^ 64" using snoc.prems by simp
  have "write_bytes m p (bs @ [b]) = (write_bytes m p bs)(p + of_nat (length bs) := b)"
  proof
    fix x
    have "x = p + of_nat (length bs) \<longleftrightarrow> unat (x - p) = length bs"
    proof
      assume "unat (x - p) = length bs"
      then have "x - p = of_nat (length bs)" by (metis of_nat_unat ucast_id)
      then show "x = p + of_nat (length bs)" by (metis add.commute diff_add_cancel)
    qed (use lt in \<open>simp add: unat_of_nat take_bit_nat_eq_self\<close>)
    then show "write_bytes m p (bs @ [b]) x = ((write_bytes m p bs)(p + of_nat (length bs) := b)) x"
      by (auto simp: write_bytes_def nth_append)
  qed
  then show ?case using snoc.IH lt by (simp add: write_addrs_append)
qed

lemma write_bytes_slice:
  assumes "length bs \<le> slice_len sl" "slice_len sl \<le> 2 ^ 64"
  shows "write_bytes m (slice_ptr sl) bs = write_addrs m (take (length bs) (slice_addrs sl)) bs"
  using assms by (simp add: write_bytes_addrs slice_addrs_def take_map)

lemma read_bytes_slice: "read_bytes m (slice_ptr sl) (slice_len sl) = map m (slice_addrs sl)"
  by (simp add: read_bytes_def slice_addrs_def)

lemma length_slice_addrs [simp]: "length (slice_addrs sl) = slice_len sl"
  by (simp add: slice_addrs_def)

definition buf_addrs :: "UserBuffer \<Rightarrow> usize list" where
  "buf_addrs buf = concat (map slice_addrs (buffers buf))"

text \<open>What the slices of a user buffer are: no slice is empty, and together they are shorter than memory.\<close>

definition buf_ok :: "UserBuffer \<Rightarrow> bool" where
  "buf_ok buf \<longleftrightarrow> (\<forall>sl \<in> set (buffers buf). 0 < slice_len sl) \<and> length (buf_addrs buf) < 2 ^ 63"

lemma UserBuffer_len_addrs: "UserBuffer_len buf = of_nat (length (buf_addrs buf))"
proof -
  have "fold (\<lambda>sl total. total + of_nat (slice_len sl)) sls n = n + of_nat (length (concat (map slice_addrs sls)))"
    for sls and n :: usize
    by (induction sls arbitrary: n) simp_all
  then show ?thesis by (simp add: UserBuffer_len_def buf_addrs_def)
qed

section \<open>Reading and writing\<close>

lemma os_read_loop_spec:
  assumes rd: "efs_reads e content" and sz: "length (content d (os_inode f)) < 2 ^ 63"
    and ok: "\<forall>sl \<in> set sls. 0 < slice_len sl" "length (concat (map slice_addrs sls)) < 2 ^ 63"
    and off: "unat (os_offset f) \<le> length (content d (os_inode f))"
  defines "data \<equiv> \<lambda>f sls. take (length (concat (map slice_addrs sls))) (drop (unat (os_offset f)) (content d (os_inode f)))"
  shows "os_read_loop e d sls f n m =
    (n + of_nat (length (data f sls)), f\<lparr>os_offset := os_offset f + of_nat (length (data f sls))\<rparr>,
     write_addrs m (take (length (data f sls)) (concat (map slice_addrs sls))) (data f sls))"
  using ok off sz
proof (induction sls arbitrary: f n m)
  case Nil
  then show ?case by (simp add: data_def)
next
  case (Cons sl sls)
  let ?c = "content d (os_inode f)"
  let ?bs = "take (slice_len sl) (drop (unat (os_offset f)) ?c)"
  let ?f = "f\<lparr>os_offset := os_offset f + of_nat (length ?bs)\<rparr>"
  have r: "inode_read_at e d (os_inode f) (os_offset f) (slice_len sl) = ?bs" using rd by (simp add: efs_reads_def)
  have len: "length ?bs < 2 ^ 63" "length ?bs \<le> slice_len sl" "slice_len sl < 2 ^ 63" using Cons.prems by simp_all
  have nz: "(of_nat (length ?bs) :: usize) = 0 \<longleftrightarrow> ?bs = []"
    using len(1) by (auto simp: word_unat_eq_iff unat_of_nat take_bit_nat_eq_self)
  let ?rest = "drop (unat (os_offset f)) ?c"
  have split: "data f (sl # sls) = ?bs @ data ?f sls \<and>
      take (length ?bs + length (data ?f sls)) (slice_addrs sl @ concat (map slice_addrs sls)) =
        take (length ?bs) (slice_addrs sl) @ take (length (data ?f sls)) (concat (map slice_addrs sls))"
    and off': "unat (os_offset ?f) = unat (os_offset f) + length ?bs"
    if "?bs \<noteq> []"
  proof -
    show o: "unat (os_offset ?f) = unat (os_offset f) + length ?bs"
      using len(1) Cons.prems(3,4) by (simp add: unat_word_ariths unat_of_nat take_bit_nat_eq_self)
    have "data f (sl # sls) = ?bs @ take (length (concat (map slice_addrs sls))) (drop (slice_len sl) ?rest)"
      by (simp add: data_def take_add)
    moreover have d: "data ?f sls = take (length (concat (map slice_addrs sls))) (drop (slice_len sl) ?rest)"
      by (simp only: data_def o) (cases "slice_len sl \<le> length ?rest"; simp add: min_def add.commute)
    ultimately have eq: "data f (sl # sls) = ?bs @ data ?f sls" by simp
    have "length ?bs = length (slice_addrs sl) \<or> data ?f sls = []" using d by (auto simp: min_def)
    moreover have "take (length bs + length ds) (as @ bs') = take (length bs) as @ take (length ds) bs'"
      if "length bs = length as \<or> ds = []" "length bs \<le> length as" for bs ds :: "u8 list" and as bs' :: "usize list"
      using that by auto
    ultimately show "data f (sl # sls) = ?bs @ data ?f sls \<and>
      take (length ?bs + length (data ?f sls)) (slice_addrs sl @ concat (map slice_addrs sls)) =
        take (length ?bs) (slice_addrs sl) @ take (length (data ?f sls)) (concat (map slice_addrs sls))"
      using eq len(2) by (simp del: length_take take_append)
  qed
  show ?case
  proof (cases "?bs = []")
    case True
    then have "?rest = []" using Cons.prems(1) by simp
    then have "data f (sl # sls) = []" by (simp add: data_def)
    then show ?thesis unfolding os_read_loop.simps r Let_def True by (simp add: write_bytes_def)
  next
    case False
    have "unat (os_offset ?f) \<le> length (content d (os_inode ?f))"
      unfolding off'[OF False] using Cons.prems(3) by auto
    from Cons.IH[OF _ _ this, of "n + of_nat (length ?bs)" "write_bytes m (slice_ptr sl) ?bs"] Cons.prems
    have "os_read_loop e d sls ?f (n + of_nat (length ?bs)) (write_bytes m (slice_ptr sl) ?bs) =
      (n + of_nat (length ?bs) + of_nat (length (data ?f sls)), ?f\<lparr>os_offset := os_offset ?f + of_nat (length (data ?f sls))\<rparr>,
       write_addrs (write_bytes m (slice_ptr sl) ?bs) (take (length (data ?f sls)) (concat (map slice_addrs sls))) (data ?f sls))"
      by simp
    moreover have "write_bytes m (slice_ptr sl) ?bs = write_addrs m (take (length ?bs) (slice_addrs sl)) ?bs"
      using write_bytes_slice[OF len(2)] len(3) by simp
    moreover have "length (take (length ?bs) (slice_addrs sl)) = length ?bs" using len(2) by simp
    ultimately show ?thesis
      using False nz split[OF False] unfolding os_read_loop.simps r Let_def
      by (simp del: take_append length_take add: write_addrs_append add.assoc)
  qed
qed


lemma os_write_loop_spec:
  assumes wr: "efs_writes e content room"
  shows "unat (os_offset f) \<le> length (content d (os_inode f)) \<Longrightarrow>
    unat (os_offset f) + length (concat (map slice_addrs sls)) \<le> k \<Longrightarrow> k < 2 ^ 64 \<Longrightarrow> room d (os_inode f) k \<Longrightarrow>
    \<exists>d'. os_write_loop e m sls f n d =
        Inr (n + of_nat (length (concat (map slice_addrs sls))),
             f\<lparr>os_offset := os_offset f + of_nat (length (concat (map slice_addrs sls)))\<rparr>, d') \<and>
      room d' (os_inode f) k \<and>
      content d' = (content d)(os_inode f :=
        splice (content d (os_inode f)) (unat (os_offset f)) (map m (concat (map slice_addrs sls))))"
proof (induction sls arbitrary: f n d)
  case Nil
  then show ?case by (simp add: splice_def)
next
  case (Cons sl sls)
  let ?bs = "map m (slice_addrs sl)" and ?i = "os_inode f"
  obtain w d1 where w: "inode_write_at e ?i (os_offset f) ?bs d = (w, d1)" by fastforce
  have "unat (os_offset f) + length ?bs \<le> k" using Cons.prems(2) by simp
  with wr Cons.prems(1,4) w have d1: "w = of_nat (slice_len sl)" "room d1 ?i k"
      "content d1 = (content d)(?i := splice (content d ?i) (unat (os_offset f)) ?bs)"
    unfolding efs_writes_def by fastforce+
  let ?f = "f\<lparr>os_offset := os_offset f + of_nat (slice_len sl)\<rparr>"
  have off: "unat (os_offset ?f) = unat (os_offset f) + slice_len sl"
    using Cons.prems(2,3) by (simp add: unat_word_ariths unat_of_nat take_bit_nat_eq_self)
  have "unat (os_offset ?f) \<le> length (content d1 (os_inode ?f))"
    using length_splice[OF Cons.prems(1), of ?bs] by (simp only: off) (simp add: d1)
  moreover have "unat (os_offset ?f) + length (concat (map slice_addrs sls)) \<le> k"
    using Cons.prems(2) unfolding off by simp
  moreover have "room d1 (os_inode ?f) k" using d1(2) by simp
  ultimately obtain d'
    where d': "os_write_loop e m sls ?f (n + of_nat (slice_len sl)) d1 =
        Inr (n + of_nat (slice_len sl) + of_nat (length (concat (map slice_addrs sls))),
             ?f\<lparr>os_offset := os_offset ?f + of_nat (length (concat (map slice_addrs sls)))\<rparr>, d')"
      "room d' (os_inode ?f) k" "content d' = (content d1)(os_inode ?f :=
        splice (content d1 (os_inode ?f)) (unat (os_offset ?f)) (map m (concat (map slice_addrs sls))))"
    using Cons.IH[OF _ _ Cons.prems(3), of ?f d1 "n + of_nat (slice_len sl)"] by blast
  have "content d' = (content d)(?i := splice (content d ?i) (unat (os_offset f)) (map m (concat (map slice_addrs (sl # sls)))))"
    using splice_splice[OF Cons.prems(1), of ?bs "map m (concat (map slice_addrs sls))"]
    unfolding d'(3) off by (simp add: d1(3))
  moreover have "os_write_loop e m (sl # sls) f n d =
        Inr (n + of_nat (length (concat (map slice_addrs (sl # sls)))),
             f\<lparr>os_offset := os_offset f + of_nat (length (concat (map slice_addrs (sl # sls))))\<rparr>, d')"
    using d'(1) by (simp add: read_bytes_slice w d1(1) add.assoc)
  moreover have "room d' ?i k" using d'(2) by simp
  ultimately show ?case by blast
qed

lemma read_all_loop_spec:
  assumes rd: "efs_reads e content" and sz: "length (content d (os_inode f)) < 2 ^ 64"
  shows "unat (os_offset f) \<le> length (content d (os_inode f)) \<Longrightarrow>
    read_all_loop e d f v = Some (v @ drop (unat (os_offset f)) (content d (os_inode f)),
      f\<lparr>os_offset := of_nat (length (content d (os_inode f)))\<rparr>)"
  using sz
proof (induction "length (content d (os_inode f)) - unat (os_offset f)" arbitrary: f v rule: less_induct)
  case less
  let ?c = "content d (os_inode f)"
  let ?bs = "take 512 (drop (unat (os_offset f)) ?c)"
  let ?f = "f\<lparr>os_offset := os_offset f + of_nat (length ?bs)\<rparr>"
  have r: "inode_read_at e d (os_inode f) (os_offset f) 512 = ?bs" using rd by (simp add: efs_reads_def)
  show ?case
  proof (cases "?bs = []")
    case True
    then have "length ?c = unat (os_offset f)" using less.prems(1) by simp
    then show ?thesis by (simp add: read_all_loop.simps[of e d f] r)
  next
    case False
    have off: "unat (os_offset ?f) = unat (os_offset f) + length ?bs"
      using less.prems by (simp add: unat_word_ariths unat_of_nat take_bit_nat_eq_self)
    have pos: "0 < length ?bs" using False by simp
    then have "length (content d (os_inode ?f)) - unat (os_offset ?f) < length ?c - unat (os_offset f)"
      unfolding off by simp
    moreover have "unat (os_offset ?f) \<le> length (content d (os_inode ?f))"
      unfolding off using less.prems(1) by auto
    ultimately have "read_all_loop e d ?f (v @ ?bs) = Some ((v @ ?bs) @ drop (unat (os_offset ?f)) ?c,
        ?f\<lparr>os_offset := of_nat (length ?c)\<rparr>)"
      using less.hyps[of ?f "v @ ?bs"] less.prems(2) by simp
    moreover have "?bs @ drop (unat (os_offset f) + length ?bs) ?c = drop (unat (os_offset f)) ?c"
    proof -
      have "take k xs @ drop (length (take k xs)) xs = xs" for k and xs :: "u8 list"
        by (cases "k \<le> length xs") (simp_all add: min_def)
      from this[of 512 "drop (unat (os_offset f)) ?c"] show ?thesis by (simp add: add.commute)
    qed
    ultimately show ?thesis using False unfolding off by (simp add: read_all_loop.simps[of e d f] r Let_def)
  qed
qed

section \<open>The console\<close>

text \<open>The encoding that UTF-8 gives a scalar value, and what is one.\<close>

definition scalar_value :: "nat \<Rightarrow> bool" where
  "scalar_value c \<longleftrightarrow> c < 0xD800 \<or> 0xE000 \<le> c \<and> c < 0x110000"

definition utf8_encode :: "nat \<Rightarrow> u8 list" where
  "utf8_encode c =
     (if c < 0x80 then [of_nat c]
      else if c < 0x800 then [of_nat (0xC0 + c div 0x40), of_nat (0x80 + c mod 0x40)]
      else if c < 0x10000 then
        [of_nat (0xE0 + c div 0x1000), of_nat (0x80 + c div 0x40 mod 0x40), of_nat (0x80 + c mod 0x40)]
      else [of_nat (0xF0 + c div 0x40000), of_nat (0x80 + c div 0x1000 mod 0x40),
        of_nat (0x80 + c div 0x40 mod 0x40), of_nat (0x80 + c mod 0x40)])"

lemma unat_u8: "n < 256 \<Longrightarrow> unat (of_nat n :: u8) = n"
  by (simp add: unat_of_nat take_bit_nat_eq_self)

lemma unat_u8_cont: "unat (of_nat (0x80 + k mod 0x40) :: u8) = 0x80 + k mod 0x40"
  by (rule unat_u8) (simp add: less_Suc_eq_le trans_le_add2 order.strict_trans2[OF add_strict_left_mono[of "k mod 64" 64 128]])

lemma utf8_cont_byte: "utf8_cont (of_nat (0x80 + k mod 0x40))"
  unfolding utf8_cont_def unat_u8_cont by simp

lemma utf8_tail_byte: "utf8_tail acc (of_nat (0x80 + k mod 0x40)) = 0x40 * acc + k mod 0x40"
  unfolding utf8_tail_def unat_u8_cont by (simp add: mod_add_eq[symmetric])

lemma utf8_decode2:
  assumes "0xC2 \<le> unat a" "unat a \<le> 0xDF" "utf8_cont b"
  shows "utf8_decode (a # b # bs) = map_option (Cons (utf8_tail (unat a mod 0x20) b)) (utf8_decode bs)"
  using assms by simp

lemma utf8_decode3:
  assumes "utf8_three a b" "utf8_cont c"
  shows "utf8_decode (a # b # c # bs) = map_option (Cons (utf8_tail (utf8_tail (unat a mod 0x10) b) c)) (utf8_decode bs)"
proof -
  have "unat a div 0x10 = 0xE" using assms(1) by (simp add: utf8_three_def)
  then have "\<not> unat a < 0x80" "\<not> unat a \<le> 0xDF" by linarith+
  then show ?thesis using assms by simp
qed

lemma utf8_decode4:
  assumes "utf8_four a b" "utf8_cont c" "utf8_cont f"
  shows "utf8_decode (a # b # c # f # bs) =
    map_option (Cons (utf8_tail (utf8_tail (utf8_tail (unat a mod 0x08) b) c) f)) (utf8_decode bs)"
proof -
  have a: "0xF0 \<le> unat a" using assms(1) by (simp add: utf8_four_def)
  then have "unat a div 0x10 \<noteq> 0xE" by linarith
  then have "\<not> unat a < 0x80" "\<not> unat a \<le> 0xDF" "\<not> utf8_three a b" using a by (simp_all add: utf8_three_def)
  then show ?thesis using assms by simp
qed

lemma utf8_three_lead:
  assumes "q < 0x10" "q = 0 \<longrightarrow> 0x20 \<le> k mod 0x40" "q = 0xD \<longrightarrow> k mod 0x40 < 0x20"
  shows "utf8_three (of_nat (0xE0 + q)) (of_nat (0x80 + k mod 0x40))"
proof -
  have u: "unat (of_nat (0xE0 + q) :: u8) = 0xE0 + q" by (rule unat_u8) (use assms(1) in simp)
  have "(of_nat (0xE0 + q) :: u8) = 0xE0 \<longleftrightarrow> q = 0" "(of_nat (0xE0 + q) :: u8) = 0xED \<longleftrightarrow> q = 0xD"
    by (simp_all only: word_unat_eq_iff u) simp_all
  moreover have "(0xE0 + q) div 0x10 = 0xE" using assms(1) by linarith
  ultimately show ?thesis using assms utf8_cont_byte[of k] unfolding utf8_three_def u unat_u8_cont by auto
qed

lemma utf8_four_lead:
  assumes "q \<le> 4" "q = 0 \<longrightarrow> 0x10 \<le> k mod 0x40" "q = 4 \<longrightarrow> k mod 0x40 < 0x10"
  shows "utf8_four (of_nat (0xF0 + q)) (of_nat (0x80 + k mod 0x40))"
proof -
  have u: "unat (of_nat (0xF0 + q) :: u8) = 0xF0 + q" by (rule unat_u8) (use assms(1) in simp)
  have "(of_nat (0xF0 + q) :: u8) = 0xF0 \<longleftrightarrow> q = 0" "(of_nat (0xF0 + q) :: u8) = 0xF4 \<longleftrightarrow> q = 4"
    by (simp_all only: word_unat_eq_iff u) simp_all
  then show ?thesis using assms utf8_cont_byte[of k] unfolding utf8_four_def u unat_u8_cont by auto
qed

lemma utf8_decode_encode:
  assumes "scalar_value c"
  shows "utf8_decode (utf8_encode c @ bs) = map_option (Cons c) (utf8_decode bs)"
proof -
  consider "c < 0x80" | "0x80 \<le> c" "c < 0x800" | "0x800 \<le> c" "c < 0x10000" | "0x10000 \<le> c" "c < 0x110000"
    using assms unfolding scalar_value_def by linarith
  then show ?thesis
  proof cases
    case 1
    then show ?thesis by (simp add: utf8_encode_def unat_u8)
  next
    case 2
    let ?a = "of_nat (0xC0 + c div 0x40) :: u8"
    have u: "unat ?a = 0xC0 + c div 0x40" by (rule unat_u8) (use 2 in simp)
    have b: "0xC2 \<le> unat ?a" "unat ?a \<le> 0xDF" unfolding u using 2 by linarith+
    have "unat ?a mod 0x20 = c div 0x40" unfolding u using 2 by (simp add: mod_add_eq[symmetric])
    then show ?thesis
      using 2 utf8_decode2[OF b utf8_cont_byte[of c], of bs] by (simp only: utf8_tail_byte utf8_encode_def) simp
  next
    case 3
    let ?q = "c div 0x1000"
    have q: "?q < 0x10" using 3 by linarith
    have d: "c div 0x40 = 0x40 * ?q + c div 0x40 mod 0x40"
      using div_mult2_eq[of c 64 64] mult_div_mod_eq[of 64 "c div 64"] by simp
    have "?q = 0 \<longrightarrow> 0x20 \<le> c div 0x40 mod 0x40" "?q = 0xD \<longrightarrow> c div 0x40 mod 0x40 < 0x20"
      using d 3 assms by (auto simp: scalar_value_def)
    note l = utf8_decode3[OF utf8_three_lead[OF q this] utf8_cont_byte[of c], of bs]
    have "unat (of_nat (0xE0 + ?q) :: u8) mod 0x10 = ?q"
      using q by (subst unat_u8) (simp_all add: mod_add_eq[symmetric])
    then show ?thesis using 3 l d by (simp only: utf8_tail_byte utf8_encode_def) simp
  next
    case 4
    let ?q = "c div 0x40000"
    have q: "?q \<le> 4" using 4 by linarith
    have d: "c div 0x40 = 0x40 * (c div 0x1000) + c div 0x40 mod 0x40"
      using div_mult2_eq[of c 64 64] mult_div_mod_eq[of 64 "c div 64"] by simp
    have d2: "c div 0x1000 = 0x40 * ?q + c div 0x1000 mod 0x40"
      using div_mult2_eq[of c 4096 64] mult_div_mod_eq[of 64 "c div 4096"] by simp
    have "0x10 \<le> c div 0x1000" "c div 0x1000 < 0x110" using 4 by linarith+
    then have "?q = 0 \<longrightarrow> 0x10 \<le> c div 0x1000 mod 0x40" "?q = 4 \<longrightarrow> c div 0x1000 mod 0x40 < 0x10"
      using d2 by auto
    note l = utf8_decode4[OF utf8_four_lead[OF q this] utf8_cont_byte utf8_cont_byte, of "c div 0x40" c bs]
    have "unat (of_nat (0xF0 + ?q) :: u8) mod 0x08 = ?q"
      using q by (subst unat_u8) (simp_all add: mod_add_eq[symmetric])
    then show ?thesis using 4 l d d2 by (simp only: utf8_tail_byte utf8_encode_def) simp
  qed
qed

lemma utf8_decode_concat:
  assumes "\<forall>c \<in> set cs. scalar_value c"
  shows "utf8_decode (concat (map utf8_encode cs) @ bs) = map_option ((@) cs) (utf8_decode bs)"
  using assms by (cases "utf8_decode bs"; induction cs) (simp_all add: utf8_decode_encode)

text \<open>A lead byte without all of its continuation bytes is refused.\<close>

lemma utf8_decode_short:
  "0x80 \<le> unat a \<Longrightarrow> utf8_decode [a] = None"
  "0xE0 \<le> unat a \<Longrightarrow> utf8_decode [a, b] = None"
  "0xF0 \<le> unat a \<Longrightarrow> utf8_decode [a, b, c] = None"
proof -
  show "0x80 \<le> unat a \<Longrightarrow> utf8_decode [a] = None" "0xE0 \<le> unat a \<Longrightarrow> utf8_decode [a, b] = None" by simp_all
  assume a: "0xF0 \<le> unat a"
  then have "unat a div 0x10 \<noteq> 0xE" by linarith
  then show "utf8_decode [a, b, c] = None" using a by (simp add: utf8_three_def)
qed

lemma utf8_decode_prefix:
  assumes "scalar_value c" "0 < k" "k < length (utf8_encode c)"
  shows "utf8_decode (take k (utf8_encode c)) = None"
proof -
  have lead: "unat (of_nat (n + q) :: u8) = n + q" if "q < 0x20" "n \<le> 0xF0 - 0x20 \<or> n \<le> 0xF0 \<and> q < 0x10" for n q
    by (rule unat_u8) (use that in auto)
  consider "c < 0x80" | "0x80 \<le> c" "c < 0x800" | "0x800 \<le> c" "c < 0x10000" | "0x10000 \<le> c" "c < 0x110000"
    using assms(1) unfolding scalar_value_def by linarith
  then show ?thesis
  proof cases
    case 1
    then show ?thesis using assms(2,3) by (simp add: utf8_encode_def)
  next
    case 2
    have "c div 0x40 < 0x20" using 2 by linarith
    then have "0x80 \<le> unat (of_nat (0xC0 + c div 0x40) :: u8)" by (subst lead) simp_all
    moreover have "k = 1" using 2 assms(2,3) by (simp add: utf8_encode_def)
    ultimately show ?thesis using 2 utf8_decode_short(1) by (simp add: utf8_encode_def del: utf8_decode.simps)
  next
    case 3
    have "c div 0x1000 < 0x10" using 3 by linarith
    then have "0xE0 \<le> unat (of_nat (0xE0 + c div 0x1000) :: u8)" by (subst lead) simp_all
    moreover have "k = 1 \<or> k = 2" using 3 assms(2,3) by (auto simp: utf8_encode_def)
    ultimately show ?thesis
      using 3 utf8_decode_short(1,2) by (auto simp: utf8_encode_def numeral_2_eq_2 simp del: utf8_decode.simps)
  next
    case 4
    have "c div 0x40000 < 0x10" using 4 by linarith
    then have "0xF0 \<le> unat (of_nat (0xF0 + c div 0x40000) :: u8)" by (subst lead) simp_all
    moreover have "k = 1 \<or> k = 2 \<or> k = 3" using 4 assms(2,3) by (auto simp: utf8_encode_def)
    ultimately show ?thesis
      using 4 utf8_decode_short
      by (auto simp: utf8_encode_def numeral_2_eq_2 numeral_3_eq_3 simp del: utf8_decode.simps)
  qed
qed

lemma stdout_write_loop_spec:
  assumes "list_all2 (\<lambda>sl cs. (\<forall>c \<in> set cs. scalar_value c) \<and> map m (slice_addrs sl) = concat (map utf8_encode cs)) sls css"
  shows "stdout_write_loop m sls out = Inr (out @ map of_nat (concat css))"
  using assms
proof (induction sls css arbitrary: out rule: list_all2_induct)
  case (Cons sl sls cs css)
  then have "utf8_decode (map m (slice_addrs sl)) = Some cs"
    using utf8_decode_concat[of cs "[]"] by simp
  then show ?case by (simp add: read_bytes_slice write_str_def Cons.IH)
qed simp

section \<open>Properties\<close>

text \<open>A file system that keeps the content of each file under its name, on which the properties are applied.\<close>

definition name_efs :: "(u8 list \<Rightarrow> u8 list option, u8 list) efs" where
  "name_efs =
     \<lparr>root_find = (\<lambda>d n. if d n = None then None else Some n),
      root_create = (\<lambda>n d. (Some n, d(n := Some []))),
      root_linkat = (\<lambda>_ _ d. (- 1, d)), root_unlinkat = (\<lambda>n d. (0, d(n := None))),
      root_find_inode_id_by_block = (\<lambda>_ b _. Some b),
      inode_clear = (\<lambda>i d. d(i := map_option (\<lambda>_. []) (d i))),
      inode_read_at = (\<lambda>d i off n. take n (drop (unat off) (case d i of None \<Rightarrow> [] | Some c \<Rightarrow> c))),
      inode_write_at = (\<lambda>i off bs d. (of_nat (length bs),
        d(i := Some (splice (case d i of None \<Rightarrow> [] | Some c \<Rightarrow> c) (unat off) bs)))),
      inode_get_nlink = (\<lambda>_ _. 1), inode_get_block_metadata = (\<lambda>_ _. (0, 0)), inode_find_file_type = (\<lambda>_ _. FILE)\<rparr>"

definition name_content :: "(u8 list \<Rightarrow> u8 list option) \<Rightarrow> u8 list \<Rightarrow> u8 list" where
  "name_content d i = (case d i of None \<Rightarrow> [] | Some c \<Rightarrow> c)"

lemma name_efs_laws:
  "efs_reads name_efs name_content" "efs_writes name_efs name_content (\<lambda>_ _ _. True)" "efs_opens name_efs name_content"
  by (auto simp: efs_reads_def efs_writes_def efs_opens_def name_efs_def name_content_def fun_eq_iff split: option.splits)

lemma os_read_spec:
  assumes "efs_reads e content" "length (content d (os_inode f)) < 2 ^ 63" "buf_ok buf" "distinct (buf_addrs buf)"
    and "unat (os_offset f) \<le> length (content d (os_inode f))"
  defines "data \<equiv> take (length (buf_addrs buf)) (drop (unat (os_offset f)) (content d (os_inode f)))"
  shows "\<exists>m'. os_read e d f buf m = (of_nat (length data), f\<lparr>os_offset := os_offset f + of_nat (length data)\<rparr>, m') \<and>
    map m' (take (length data) (buf_addrs buf)) = data \<and>
    (\<forall>x. x \<notin> set (take (length data) (buf_addrs buf)) \<longrightarrow> m' x = m x)"
proof -
  let ?as = "take (length data) (buf_addrs buf)"
  have l: "length ?as = length data" by (simp add: data_def)
  have "os_read e d f buf m = (of_nat (length data), f\<lparr>os_offset := os_offset f + of_nat (length data)\<rparr>, write_addrs m ?as data)"
    using os_read_loop_spec[OF assms(1,2) _ _ assms(5), of "buffers buf" 0 m] assms(3)
    by (simp add: os_read_def buf_ok_def buf_addrs_def data_def)
  then show ?thesis
    using write_addrs_read[OF l] write_addrs_other[OF l] assms(4) by (metis distinct_take)
qed

text \<open>
  C24: \<open>OSInode::read\<close> hands out the bytes of the file from the offset to its end or to the end of the user
  buffer, across the pages of the buffer, returns their number and moves the offset past them; it
  writes nothing else.
\<close>

theorem os_read_correct:
  assumes "efs_reads e content" "length (content d (os_inode f)) < 2 ^ 63" "buf_ok buf" "distinct (buf_addrs buf)"
    and "unat (os_offset f) \<le> length (content d (os_inode f))"
  shows "\<exists>n m'. n = min (length (buf_addrs buf)) (length (content d (os_inode f)) - unat (os_offset f)) \<and>
    os_read e d f buf m = (of_nat n, f\<lparr>os_offset := os_offset f + of_nat n\<rparr>, m') \<and>
    map m' (take n (buf_addrs buf)) = take (length (buf_addrs buf)) (drop (unat (os_offset f)) (content d (os_inode f))) \<and>
    (\<forall>x. x \<notin> set (take n (buf_addrs buf)) \<longrightarrow> m' x = m x)"
  using os_read_spec[OF assms, of m] by (simp add: min.commute)

definition page_buf :: UserBuffer where
  "page_buf = UserBuffer_new [\<lparr>slice_ptr = 0x80400FFE, slice_len = 2\<rparr>, \<lparr>slice_ptr = 0x80407000, slice_len = 3\<rparr>]"

lemma page_buf_facts: "buf_ok page_buf" "distinct (buf_addrs page_buf)" "length (buf_addrs page_buf) = 5"
  by (simp_all add: page_buf_def UserBuffer_new_def buf_ok_def buf_addrs_def slice_addrs_def upt_rec)

theorem os_read_correct_witness:
  "\<exists>m'. os_read name_efs [[97] \<mapsto> replicate 4 7] (OSInode_new True False [97]) page_buf (\<lambda>_. 0) =
      (4, (OSInode_new True False [97])\<lparr>os_offset := 4\<rparr>, m') \<and>
    map m' (take 4 (buf_addrs page_buf)) = replicate 4 7"
  using os_read_correct[OF name_efs_laws(1) _ page_buf_facts(1,2), of "[[97] \<mapsto> replicate 4 7]" "OSInode_new True False [97]" "\<lambda>_. 0"]
  by (simp add: name_content_def OSInode_new_def page_buf_facts(3)) blast

text \<open>
  C21: \<open>OSInode::write\<close> followed by \<open>OSInode::read\<close> of the same inode at the same offset through another user
  buffer of the same length hands back exactly the bytes written, and both report their number.
\<close>

theorem os_write_read_roundtrip:
  assumes "efs_reads e content" "efs_writes e content room"
    and "os_inode g = os_inode f" "os_offset g = os_offset f" "unat (os_offset f) \<le> length (content d (os_inode f))"
    and "length (content d (os_inode f)) < 2 ^ 63" "unat (os_offset f) + length (buf_addrs wbuf) < 2 ^ 63"
    and "room d (os_inode f) (unat (os_offset f) + length (buf_addrs wbuf))"
    and "buf_ok rbuf" "distinct (buf_addrs rbuf)" "length (buf_addrs rbuf) = length (buf_addrs wbuf)"
  shows "\<exists>d' m'. os_write e m f wbuf d =
      Inr (UserBuffer_len wbuf, f\<lparr>os_offset := os_offset f + UserBuffer_len wbuf\<rparr>, d') \<and>
    os_read e d' g rbuf m = (UserBuffer_len wbuf, g\<lparr>os_offset := os_offset g + UserBuffer_len wbuf\<rparr>, m') \<and>
    map m' (buf_addrs rbuf) = map m (buf_addrs wbuf)"
proof -
  let ?c = "content d (os_inode f)" and ?bs = "map m (buf_addrs wbuf)"
  obtain d' where d': "os_write e m f wbuf d =
      Inr (UserBuffer_len wbuf, f\<lparr>os_offset := os_offset f + UserBuffer_len wbuf\<rparr>, d')"
      "content d' (os_inode f) = splice ?c (unat (os_offset f)) ?bs"
    using os_write_loop_spec[OF assms(2,5) _ _ assms(8), of "buffers wbuf" m 0] assms(7)
    unfolding os_write_def UserBuffer_len_addrs buf_addrs_def by fastforce
  have len: "length (splice ?c (unat (os_offset f)) ?bs) < 2 ^ 63" using assms(5-7) by (simp add: splice_def)
  have "unat (os_offset f) \<le> length (splice ?c (unat (os_offset f)) ?bs)"
      "min (length (splice ?c (unat (os_offset f)) ?bs) - unat (os_offset f)) (length (buf_addrs wbuf)) = length (buf_addrs wbuf)"
    using length_splice[OF assms(5), of ?bs] by simp_all
  then show ?thesis
    using os_read_spec[OF assms(1) _ assms(9,10), of d' g m] d' len drop_splice[OF assms(5), of ?bs] assms(3,4,11)
    by (auto simp: UserBuffer_len_addrs)
qed

definition flat_buf :: UserBuffer where
  "flat_buf = UserBuffer_new [\<lparr>slice_ptr = 0x80500000, slice_len = 5\<rparr>]"

lemma flat_buf_facts: "length (buf_addrs flat_buf) = 5" "UserBuffer_len flat_buf = 5"
  by (simp_all add: flat_buf_def UserBuffer_new_def buf_addrs_def UserBuffer_len_def)

theorem os_write_read_roundtrip_witness:
  "\<exists>d' m'. os_write name_efs (\<lambda>a. ucast a) (OSInode_new False True [97]) flat_buf [[97] \<mapsto> []] =
      Inr (5, (OSInode_new False True [97])\<lparr>os_offset := 5\<rparr>, d') \<and>
    os_read name_efs d' (OSInode_new True False [97]) page_buf (\<lambda>a. ucast a) =
      (5, (OSInode_new True False [97])\<lparr>os_offset := 5\<rparr>, m') \<and>
    map m' (buf_addrs page_buf) = map (\<lambda>a. ucast a) (buf_addrs flat_buf)"
  using os_write_read_roundtrip[OF name_efs_laws(1,2), of "OSInode_new True False [97]" "OSInode_new False True [97]"
      "[[97] \<mapsto> []]" flat_buf page_buf "\<lambda>a. ucast a"]
  by (simp add: OSInode_new_def name_content_def page_buf_facts flat_buf_facts)

text \<open>
  C31: \<open>OSInode::read_all\<close> returns, with everything from the offset to the end of the file, and leaves the
  offset at the end.
\<close>

theorem read_all_correct:
  assumes "efs_reads e content" "length (content d (os_inode f)) < 2 ^ 64"
    and "unat (os_offset f) \<le> length (content d (os_inode f))"
  shows "read_all e d f = Some (drop (unat (os_offset f)) (content d (os_inode f)),
    f\<lparr>os_offset := of_nat (length (content d (os_inode f)))\<rparr>)"
  using read_all_loop_spec[OF assms] by (simp add: read_all_def)

theorem read_all_correct_witness:
  "read_all name_efs [[97] \<mapsto> replicate 1000 7] (OSInode_new True False [97]) =
     Some (replicate 1000 7, (OSInode_new True False [97])\<lparr>os_offset := 1000\<rparr>)"
  using read_all_correct[OF name_efs_laws(1), of "[[97] \<mapsto> replicate 1000 7]" "OSInode_new True False [97]"]
  by (simp add: OSInode_new_def name_content_def)

text \<open>
  \<open>open_file\<close> on every branch. An existing file is opened at offset 0, emptied exactly when \<open>CREATE\<close> or
  \<open>TRUNC\<close> is given, readable unless \<open>WRONLY\<close> is given and writable unless no flag is; a missing file is an
  error that leaves the disk alone without \<open>CREATE\<close>, and with it is created empty, or refused by the disk.
\<close>

theorem open_file_correct:
  assumes "efs_opens e content" "open_file e name flags d = (res, d')"
  shows "case root_find e d name of
      Some i \<Rightarrow>
        res = Some \<lparr>os_readable = (\<not> flags_contains flags OF_WRONLY), os_writable = (flags \<noteq> OF_RDONLY),
                    os_offset = 0, os_inode = i\<rparr> \<and>
        root_find e d' = root_find e d \<and>
        content d' = (if flags_contains flags OF_CREATE \<or> flags_contains flags OF_TRUNC then (content d)(i := []) else content d)
    | None \<Rightarrow>
        if flags_contains flags OF_CREATE
        then (case res of
            None \<Rightarrow> fst (root_create e name d) = None
          | Some f \<Rightarrow> os_offset f = 0 \<and> os_writable f \<and> os_readable f = (\<not> flags_contains flags OF_WRONLY) \<and>
              root_find e d' name = Some (os_inode f) \<and> content d' = (content d)(os_inode f := []))
        else res = None \<and> d' = d"
proof -
  have rw: "read_write flags = (\<not> flags_contains flags OF_WRONLY, flags \<noteq> OF_RDONLY)"
    by (auto simp: read_write_def flags_contains_def OF_WRONLY_def OF_RDONLY_def)
  have nz: "flags_contains flags OF_CREATE \<Longrightarrow> flags \<noteq> OF_RDONLY"
    by (auto simp: flags_contains_def OF_CREATE_def OF_RDONLY_def)
  note laws = assms(1)[unfolded efs_opens_def]
  obtain created d1 where cr: "root_create e name d = (created, d1)" by fastforce
  show ?thesis
  proof (cases "root_find e d name")
    case None
    then have "root_create e name d = (Some i, d') \<Longrightarrow> root_find e d' name = Some i \<and> content d' = (content d)(i := [])" for i d'
      using laws by blast
    then show ?thesis using assms(2) None nz cr
      by (cases created) (auto simp: open_file_def rw OSInode_new_def split: if_splits)
  next
    case (Some i)
    have "content (inode_clear e i d) = (content d)(i := [])" "root_find e (inode_clear e i d) = root_find e d"
      using laws by (simp_all add: fun_eq_iff)
    then show ?thesis using assms(2) Some by (auto simp: open_file_def rw OSInode_new_def split: if_splits)
  qed
qed

theorem open_file_correct_witness:
  "open_file name_efs [98] (OF_CREATE OR OF_WRONLY) [[98] \<mapsto> [1]] = (Some (OSInode_new False True [98]), [[98] \<mapsto> []]) \<and>
   name_content [[98] \<mapsto> []] = (name_content [[98] \<mapsto> [1]])([98] := [])"
proof -
  have r: "open_file name_efs [98] (OF_CREATE OR OF_WRONLY) [[98] \<mapsto> [1]] = (Some (OSInode_new False True [98]), [[98] \<mapsto> []])"
    by (simp add: open_file_def read_write_def flags_contains_def OF_CREATE_def OF_WRONLY_def OF_RDONLY_def name_efs_def
        OSInode_new_def)
  from open_file_correct[OF name_efs_laws(3) r] r show ?thesis
    by (simp add: name_efs_def flags_contains_def OF_CREATE_def OF_WRONLY_def OF_TRUNC_def)
qed

text \<open>
  \<open>Stdout::write\<close> of a buffer whose slices are each the UTF-8 encoding of some characters prints exactly
  these characters in order and returns the length of the buffer in bytes.
\<close>

theorem stdout_write_correct:
  assumes "list_all2 (\<lambda>sl cs. (\<forall>c \<in> set cs. scalar_value c) \<and> map m (slice_addrs sl) = concat (map utf8_encode cs))
    (buffers buf) css"
  shows "stdout_write m buf out = Inr (of_nat (length (buf_addrs buf)), out @ map of_nat (concat css))"
  using stdout_write_loop_spec[OF assms] by (simp add: stdout_write_def UserBuffer_len_addrs)

definition euro_mem :: mem where
  "euro_mem = (\<lambda>_. 65)(0x80400FFE := 0xE2, 0x80400FFF := 0x82, 0x80407000 := 0xAC)"

theorem stdout_write_correct_witness:
  "stdout_write euro_mem (UserBuffer_new [\<lparr>slice_ptr = 0x80500000, slice_len = 2\<rparr>]) [] = Inr (2, [65, 65])"
  using stdout_write_correct[of euro_mem "UserBuffer_new [\<lparr>slice_ptr = 0x80500000, slice_len = 2\<rparr>]" "[[65, 65]]" "[]"]
  by (simp add: UserBuffer_new_def buf_addrs_def slice_addrs_def upt_rec euro_mem_def scalar_value_def utf8_encode_def)

text \<open>
  C37: \<open>Stdout::write\<close> panics the kernel when a page boundary, which separates two slices, falls inside the
  encoding of a character, even though the bytes of the whole buffer are valid UTF-8.
\<close>

theorem stdout_write_split_panics:
  assumes "\<forall>c \<in> set cs. scalar_value c" "scalar_value c" "0 < k" "k < length (utf8_encode c)"
    and "map m (slice_addrs sl) = concat (map utf8_encode cs) @ take k (utf8_encode c)"
  shows "stdout_write m (UserBuffer_new (sl # sls)) out = Inl UnwrapNone"
  using utf8_decode_concat[OF assms(1), of "take k (utf8_encode c)"] utf8_decode_prefix[OF assms(2-4)] assms(5)
  by (simp add: stdout_write_def UserBuffer_new_def read_bytes_slice)

theorem stdout_write_split_panics_witness:
  "map euro_mem (buf_addrs page_buf) = utf8_encode 0x20AC @ [65, 65] \<and> stdout_write euro_mem page_buf [] = Inl UnwrapNone"
proof -
  have "map euro_mem (buf_addrs page_buf) = utf8_encode 0x20AC @ [65, 65]"
    by (simp add: page_buf_def UserBuffer_new_def buf_addrs_def slice_addrs_def upt_rec euro_mem_def utf8_encode_def)
  then show ?thesis
    using stdout_write_split_panics[where cs = "[]" and c = "0x20AC" and k = 2 and m = euro_mem and out = "[]"
        and sl = "\<lparr>slice_ptr = 0x80400FFE, slice_len = 2\<rparr>" and sls = "[\<lparr>slice_ptr = 0x80407000, slice_len = 3\<rparr>]"]
    by (simp add: page_buf_def slice_addrs_def upt_rec euro_mem_def scalar_value_def utf8_encode_def)
qed

end
