(* ===== verification/Task_Context.thy ===== *)
theory Task_Context
  imports Phys_Memory
begin

text \<open>
  The contexts of \<^verbatim>\<open>src/task/context.rs\<close> and \<^verbatim>\<open>src/trap/context.rs\<close>, their layout in memory, and the
  assembly that fills and uses them: \<^verbatim>\<open>__alltraps\<close> and \<^verbatim>\<open>__restore\<close> of \<^verbatim>\<open>src/trap/trap.S\<close>, \<^verbatim>\<open>__switch\<close> of
  \<^verbatim>\<open>src/task/switch.S\<close>. The assembly is a list of instructions, run by a small machine with the
  integer registers, the control registers that occur and memory; how the hardware translates an
  address under \<^verbatim>\<open>satp\<close> is a parameter.
\<close>

section \<open>Task contexts\<close>

record TaskContext =
  tc_ra :: usize
  tc_sp :: usize
  tc_s :: "usize list"

definition TaskContext_zero_init :: TaskContext where
  "TaskContext_zero_init = \<lparr>tc_ra = 0, tc_sp = 0, tc_s = replicate 12 0\<rparr>"

definition goto_trap_return :: "usize \<Rightarrow> usize \<Rightarrow> TaskContext" where
  "goto_trap_return trap_return kstack_ptr = \<lparr>tc_ra = trap_return, tc_sp = kstack_ptr, tc_s = replicate 12 0\<rparr>"

section \<open>Trap contexts\<close>

record TrapContext =
  cx_x :: "usize list"
  cx_sstatus :: usize
  cx_sepc :: usize
  cx_kernel_satp :: usize
  cx_kernel_sp :: usize
  cx_trap_handler :: usize

definition set_sp :: "TrapContext \<Rightarrow> usize \<Rightarrow> TrapContext" where
  "set_sp cx sp = cx\<lparr>cx_x := (cx_x cx)[2 := sp]\<rparr>"

text \<open>
  \<open>sst\<close> is what \<^verbatim>\<open>sstatus::read\<close> returns; the bits of \<^verbatim>\<open>sstatus\<close> that matter are \<open>SIE\<close> (1), \<open>SPIE\<close> (5) and
  \<open>SPP\<close> (8), the mode that a return from the trap goes to, which is clear for user mode.
\<close>

definition set_spp_user :: "usize \<Rightarrow> usize" where
  "set_spp_user s = unset_bit 8 s"

definition app_init_context :: "usize \<Rightarrow> usize \<Rightarrow> usize \<Rightarrow> usize \<Rightarrow> usize \<Rightarrow> usize \<Rightarrow> TrapContext" where
  "app_init_context sst entry sp kernel_satp kernel_sp trap_handler =
     (let cx = \<lparr>cx_x = replicate 32 0, cx_sstatus = set_spp_user sst, cx_sepc = entry, cx_kernel_satp = kernel_satp,
                cx_kernel_sp = kernel_sp, cx_trap_handler = trap_handler\<rparr>
      in set_sp cx sp)"

lemma app_init_user: "\<not> bit (cx_sstatus (app_init_context sst entry sp satp ksp th)) 8"
  by (simp add: app_init_context_def set_sp_def set_spp_user_def Let_def bit_simps)

text \<open>The layout in memory (\<^verbatim>\<open>repr(C)\<close>): 37 words.\<close>

definition cx_words :: "TrapContext \<Rightarrow> usize list" where
  "cx_words cx = cx_x cx @ [cx_sstatus cx, cx_sepc cx, cx_kernel_satp cx, cx_kernel_sp cx, cx_trap_handler cx]"

definition word_at :: "usize \<Rightarrow> nat \<Rightarrow> usize" where
  "word_at base i = base + 8 * of_nat i"

fun store_words :: "mem \<Rightarrow> usize \<Rightarrow> usize list \<Rightarrow> mem" where
  "store_words m a [] = m"
| "store_words m a (v # vs) = store_words (write_u64 m a v) (a + 8) vs"

definition load_words :: "mem \<Rightarrow> usize \<Rightarrow> nat \<Rightarrow> usize list" where
  "load_words m a n = map (\<lambda>i. read_u64 m (word_at a i)) [0..<n]"

definition store_cx :: "mem \<Rightarrow> usize \<Rightarrow> TrapContext \<Rightarrow> mem" where
  "store_cx m a cx = store_words m a (cx_words cx)"

definition load_cx :: "mem \<Rightarrow> usize \<Rightarrow> TrapContext" where
  "load_cx m a =
     \<lparr>cx_x = load_words m a 32, cx_sstatus = read_u64 m (word_at a 32), cx_sepc = read_u64 m (word_at a 33),
      cx_kernel_satp = read_u64 m (word_at a 34), cx_kernel_sp = read_u64 m (word_at a 35),
      cx_trap_handler = read_u64 m (word_at a 36)\<rparr>"

section \<open>The machine\<close>

datatype csr = Sscratch | Sstatus | Sepc | Satp

datatype instr =
    Sd nat usize nat     \<comment> \<open>\<^verbatim>\<open>sd src, off(base)\<close>\<close>
  | Ld nat usize nat     \<comment> \<open>\<^verbatim>\<open>ld dst, off(base)\<close>\<close>
  | Csrr nat csr
  | Csrw csr nat
  | Csrrw nat csr nat
  | Mv nat nat
  | SfenceVma
  | Jr nat
  | Sret

record machine =
  regs :: "nat \<Rightarrow> usize"
  csrs :: "csr \<Rightarrow> usize"
  pc :: usize
  m_mem :: mem

definition set_reg :: "nat \<Rightarrow> usize \<Rightarrow> machine \<Rightarrow> machine" where
  "set_reg r v M = (if r = 0 then M else M\<lparr>regs := (regs M)(r := v)\<rparr>)"

text \<open>
  What the hardware does to \<^verbatim>\<open>sstatus\<close>: a trap from user mode saves and clears \<open>SIE\<close> and records user mode in \<open>SPP\<close>;
  \<^verbatim>\<open>sret\<close> takes \<open>SIE\<close> back, and leaves \<open>SPIE\<close> set and \<open>SPP\<close> clear.
\<close>

definition trap_status :: "usize \<Rightarrow> usize" where
  "trap_status s = unset_bit 8 (unset_bit 1 (if bit s 1 then set_bit 5 s else unset_bit 5 s))"

definition sret_status :: "usize \<Rightarrow> usize" where
  "sret_status s = unset_bit 8 (set_bit 5 (if bit s 5 then set_bit 1 s else unset_bit 1 s))"

lemma sret_trap_status:
  assumes "bit s 5" "\<not> bit s 8"
  shows "sret_status (trap_status s) = s"
  by (rule bit_word_eqI) (use assms in \<open>auto simp: sret_status_def trap_status_def bit_simps\<close>)

fun exec_instr :: "(usize \<Rightarrow> usize \<Rightarrow> usize) \<Rightarrow> instr \<Rightarrow> machine \<Rightarrow> machine" where
  "exec_instr vtop (Sd src off base) M =
     M\<lparr>m_mem := write_u64 (m_mem M) (vtop (csrs M Satp) (regs M base + off)) (regs M src)\<rparr>"
| "exec_instr vtop (Ld dst off base) M =
     set_reg dst (read_u64 (m_mem M) (vtop (csrs M Satp) (regs M base + off))) M"
| "exec_instr vtop (Csrr rd c) M = set_reg rd (csrs M c) M"
| "exec_instr vtop (Csrw c rs) M = M\<lparr>csrs := (csrs M)(c := regs M rs)\<rparr>"
| "exec_instr vtop (Csrrw rd c rs) M = set_reg rd (csrs M c) (M\<lparr>csrs := (csrs M)(c := regs M rs)\<rparr>)"
| "exec_instr vtop (Mv rd rs) M = set_reg rd (regs M rs) M"
| "exec_instr vtop SfenceVma M = M"
| "exec_instr vtop (Jr rs) M = M\<lparr>pc := regs M rs\<rparr>"
| "exec_instr vtop Sret M = M\<lparr>pc := csrs M Sepc, csrs := (csrs M)(Sstatus := sret_status (csrs M Sstatus))\<rparr>"

definition exec_code :: "(usize \<Rightarrow> usize \<Rightarrow> usize) \<Rightarrow> instr list \<Rightarrow> machine \<Rightarrow> machine" where
  "exec_code vtop code M = fold (exec_instr vtop) code M"

text \<open>The registers by their names in the calling convention.\<close>

abbreviation (input) "x_ra \<equiv> 1 :: nat"
abbreviation (input) "x_sp \<equiv> 2 :: nat"
abbreviation (input) "x_t0 \<equiv> 5 :: nat"
abbreviation (input) "x_t1 \<equiv> 6 :: nat"
abbreviation (input) "x_t2 \<equiv> 7 :: nat"
abbreviation (input) "x_a0 \<equiv> 10 :: nat"
abbreviation (input) "x_a1 \<equiv> 11 :: nat"

definition x_s :: "nat \<Rightarrow> nat" where
  "x_s n = (if n < 2 then 8 + n else 16 + n)"

section \<open>The assembly\<close>

definition SAVE_GP :: "nat \<Rightarrow> instr" where
  "SAVE_GP n = Sd n (8 * of_nat n) x_sp"

definition LOAD_GP :: "nat \<Rightarrow> instr" where
  "LOAD_GP n = Ld n (8 * of_nat n) x_sp"

definition alltraps :: "instr list" where
  "alltraps =
     [Csrrw x_sp Sscratch x_sp, Sd 1 (1 * 8) x_sp, Sd 3 (3 * 8) x_sp] @ map SAVE_GP [5..<5 + 27] @
     [Csrr x_t0 Sstatus, Csrr x_t1 Sepc, Sd x_t0 (32 * 8) x_sp, Sd x_t1 (33 * 8) x_sp,
      Csrr x_t2 Sscratch, Sd x_t2 (2 * 8) x_sp,
      Ld x_t0 (34 * 8) x_sp, Ld x_t1 (36 * 8) x_sp, Ld x_sp (35 * 8) x_sp,
      Csrw Satp x_t0, SfenceVma, Jr x_t1]"

definition restore :: "instr list" where
  "restore =
     [Csrw Satp x_a1, SfenceVma, Csrw Sscratch x_a0, Mv x_sp x_a0,
      Ld x_t0 (32 * 8) x_sp, Ld x_t1 (33 * 8) x_sp, Csrw Sstatus x_t0, Csrw Sepc x_t1,
      Ld 1 (1 * 8) x_sp, Ld 3 (3 * 8) x_sp] @ map LOAD_GP [5..<5 + 27] @
     [Ld x_sp (2 * 8) x_sp, Sret]"

definition SAVE_SN :: "nat \<Rightarrow> instr" where
  "SAVE_SN n = Sd (x_s n) ((of_nat n + 2) * 8) x_a0"

definition LOAD_SN :: "nat \<Rightarrow> instr" where
  "LOAD_SN n = Ld (x_s n) ((of_nat n + 2) * 8) x_a1"

definition switch_code :: "instr list" where
  "switch_code =
     [Sd x_sp 8 x_a0, Sd x_ra 0 x_a0] @ map SAVE_SN [0..<12] @
     [Ld x_ra 0 x_a1] @ map LOAD_SN [0..<12] @ [Ld x_sp 8 x_a1, Jr x_ra]"

section \<open>Words in memory\<close>

lemma read_u64_write_u64_same [simp]: "read_u64 (write_u64 m a v) a = v"
proof -
  have "read_bytes (write_bytes m a (u64_bytes v)) a 8 = u64_bytes v"
    by (rule nth_equalityI) (auto simp: read_bytes_def write_bytes_def unat_of_nat take_bit_nat_eq_self)
  then show ?thesis by (simp add: read_u64_def write_u64_def)
qed

lemma word_diff_add:
  fixes a b :: usize
  assumes "8 \<le> unat (b - a)" "8 \<le> unat (a - b)" "t < 8"
  shows "8 \<le> unat (b + of_nat t - a)"
proof -
  have "(unat (b - a) + unat (a - b)) mod 2 ^ 64 = unat ((b - a) + (a - b))"
    by (simp only: unat_word_ariths) simp
  then have "(unat (b - a) + unat (a - b)) mod 2 ^ 64 = 0" by simp
  then obtain q where q: "unat (b - a) + unat (a - b) = 2 ^ 64 * q" by (metis dvdE mod_0_imp_dvd)
  have lt: "unat (b - a) < 2 ^ 64" "unat (a - b) < 2 ^ 64"
    using unsigned_less[where w = "b - a"] unsigned_less[where w = "a - b"] by simp_all
  have "q \<noteq> 0" using q assms by (intro notI) simp
  moreover have "q < 2" using q lt by simp
  ultimately have "q = 1" by simp
  then have lim: "unat (b - a) + 8 \<le> 2 ^ 64" using q assms by simp
  have eq: "b + of_nat t - a = (b - a) + of_nat t" by simp
  have "unat ((b - a) + of_nat t) = unat (b - a) + t"
    using assms(3) lim by (simp only: unat_word_ariths) (simp add: unat_of_nat take_bit_nat_eq_self)
  then show ?thesis using assms(1) unfolding eq by simp
qed

lemma read_u64_write_u64_other:
  assumes "8 \<le> unat (b - a)" "8 \<le> unat (a - b)"
  shows "read_u64 (write_u64 m a v) b = read_u64 m b"
proof -
  have "write_bytes m a (u64_bytes v) (b + of_nat t) = m (b + of_nat t)" if "t < 8" for t
    using word_diff_add[OF assms that] by (simp add: write_bytes_def)
  then have "read_bytes (write_bytes m a (u64_bytes v)) b 8 = read_bytes m b 8"
    by (simp add: read_bytes_def)
  then show ?thesis by (simp add: read_u64_def write_u64_def)
qed

lemma word_at_diff:
  assumes "i < 2 ^ 32" "j < 2 ^ 32" "i \<noteq> j"
  shows "8 \<le> unat (word_at a i - word_at a j)"
proof -
  let ?d = "of_nat i - of_nat j :: usize"
  have "word_at a i - word_at a j = 8 * ?d" by (simp add: word_at_def algebra_simps)
  moreover have "8 dvd unat (8 * ?d)"
    by (simp only: unat_word_ariths) (simp add: dvd_mod)
  moreover have "8 * ?d \<noteq> 0"
  proof
    assume "8 * ?d = 0"
    then have "8 * of_nat i = (8 * of_nat j :: usize)" by (simp add: algebra_simps)
    then have "unat (of_nat (8 * i) :: usize) = unat (of_nat (8 * j) :: usize)" by simp
    moreover have "unat (of_nat (8 * n) :: usize) = 8 * n" if "n < 2 ^ 32" for n
      using that by (simp only: unat_of_nat) (simp add: take_bit_nat_eq_self)
    ultimately show False using assms by (simp del: of_nat_mult)
  qed
  ultimately show ?thesis by (metis dvd_imp_le not_gr_zero unat_eq_zero)
qed

lemma read_write_word_at:
  assumes "i < 2 ^ 32" "j < 2 ^ 32"
  shows "read_u64 (write_u64 m (word_at a i) v) (word_at a j) = (if i = j then v else read_u64 m (word_at a j))"
  using assms word_at_diff[of j i a] word_at_diff[of i j a] by (auto simp: read_u64_write_u64_other)

text \<open>Storing a list of registers next to one another, and loading them back.\<close>

lemma read_store_words:
  assumes "k + length vs \<le> 2 ^ 32" "j < 2 ^ 32"
  shows "read_u64 (store_words m (word_at a k) vs) (word_at a j) =
    (if k \<le> j \<and> j < k + length vs then vs ! (j - k) else read_u64 m (word_at a j))"
  using assms
proof (induction vs arbitrary: m k)
  case (Cons v vs)
  have nxt: "word_at a k + 8 = word_at a (Suc k)" by (simp add: word_at_def algebra_simps)
  have "read_u64 (store_words (write_u64 m (word_at a k) v) (word_at a (Suc k)) vs) (word_at a j) =
      (if Suc k \<le> j \<and> j < Suc k + length vs then vs ! (j - Suc k) else read_u64 (write_u64 m (word_at a k) v) (word_at a j))"
    using Cons.prems by (intro Cons.IH) simp_all
  then show ?case using Cons.prems by (auto simp: nxt read_write_word_at nth_Cons' less_Suc_eq_le split: if_splits)
qed auto

lemma load_store_cx:
  assumes "length (cx_x cx) = 32"
  shows "load_cx (store_cx m a cx) a = cx"
proof -
  have r: "read_u64 (store_cx m a cx) (word_at a j) = cx_words cx ! j" if "j < 37" for j
    using read_store_words[of 0 "cx_words cx" j m a] that assms
    by (simp add: store_cx_def cx_words_def word_at_def)
  have "load_words (store_cx m a cx) a 32 = cx_x cx"
    using assms by (intro nth_equalityI) (simp_all add: load_words_def r cx_words_def nth_append)
  then show ?thesis
    using assms by (simp add: load_cx_def r cx_words_def nth_append)
qed

section \<open>Runs of stores and loads\<close>

definition saves :: "nat \<Rightarrow> (nat \<times> nat) list \<Rightarrow> instr list" where
  "saves b ps = map (\<lambda>(r, k). Sd r (8 * of_nat k) b) ps"

definition loads :: "nat \<Rightarrow> (nat \<times> nat) list \<Rightarrow> instr list" where
  "loads b ps = map (\<lambda>(r, k). Ld r (8 * of_nat k) b) ps"

lemma exec_code_simps [simp]:
  "exec_code vtop [] M = M"
  "exec_code vtop (i # is) M = exec_code vtop is (exec_instr vtop i M)"
  "exec_code vtop (is @ js) M = exec_code vtop js (exec_code vtop is M)"
  by (simp_all add: exec_code_def)

lemma exec_saves:
  assumes "distinct (map snd ps)" "\<forall>(r, k) \<in> set ps. k < 2 ^ 32 \<and> vtop (csrs M Satp) (regs M b + 8 * of_nat k) = word_at pa k"
  shows "\<exists>m'. exec_code vtop (saves b ps) M = M\<lparr>m_mem := m'\<rparr> \<and>
    (\<forall>(r, k) \<in> set ps. read_u64 m' (word_at pa k) = regs M r) \<and>
    (\<forall>j < 2 ^ 32. j \<notin> snd ` set ps \<longrightarrow> read_u64 m' (word_at pa j) = read_u64 (m_mem M) (word_at pa j)) \<and>
    (\<forall>x. (\<forall>k \<in> snd ` set ps. 8 \<le> unat (x - word_at pa k)) \<longrightarrow> m' x = m_mem M x)"
  using assms
proof (induction ps arbitrary: M)
  case Nil
  then show ?case by (intro exI[of _ "m_mem M"]) (simp add: saves_def)
next
  case (Cons p ps)
  obtain r k where p: "p = (r, k)" by fastforce
  let ?m = "write_u64 (m_mem M) (word_at pa k) (regs M r)"
  let ?M = "M\<lparr>m_mem := ?m\<rparr>"
  have k: "k < 2 ^ 32" "k \<notin> snd ` set ps" using Cons.prems p by auto
  have "\<forall>(r, k) \<in> set ps. k < 2 ^ 32 \<and> vtop (csrs ?M Satp) (regs ?M b + 8 * of_nat k) = word_at pa k"
    using Cons.prems(2) by auto
  with Cons.IH[of ?M] Cons.prems(1) obtain m' where m': "exec_code vtop (saves b ps) ?M = ?M\<lparr>m_mem := m'\<rparr>"
      "\<forall>(r, k) \<in> set ps. read_u64 m' (word_at pa k) = regs M r"
      "\<forall>j < 2 ^ 32. j \<notin> snd ` set ps \<longrightarrow> read_u64 m' (word_at pa j) = read_u64 ?m (word_at pa j)"
      "\<forall>x. (\<forall>k \<in> snd ` set ps. 8 \<le> unat (x - word_at pa k)) \<longrightarrow> m' x = ?m x"
    by auto
  have "exec_code vtop (saves b (p # ps)) M = M\<lparr>m_mem := m'\<rparr>"
    using m'(1) Cons.prems(2) by (simp add: saves_def p)
  moreover have "\<forall>(r, k) \<in> set (p # ps). read_u64 m' (word_at pa k) = regs M r"
    using m'(2,3) k by (auto simp: p)
  moreover have "\<forall>j < 2 ^ 32. j \<notin> snd ` set (p # ps) \<longrightarrow> read_u64 m' (word_at pa j) = read_u64 (m_mem M) (word_at pa j)"
    using m'(3) k(1) by (auto simp: p read_write_word_at)
  moreover have "\<forall>x. (\<forall>k \<in> snd ` set (p # ps). 8 \<le> unat (x - word_at pa k)) \<longrightarrow> m' x = m_mem M x"
    using m'(4) by (auto simp: p write_u64_def write_bytes_def)
  ultimately show ?case by blast
qed

lemma exec_loads:
  assumes "b \<notin> fst ` set ps" "0 \<notin> fst ` set ps" "distinct (map fst ps)"
  shows "exec_code vtop (loads b ps) M = M\<lparr>regs := \<lambda>x. case map_of ps x of
      Some k \<Rightarrow> read_u64 (m_mem M) (vtop (csrs M Satp) (regs M b + 8 * of_nat k)) | None \<Rightarrow> regs M x\<rparr>"
  using assms
proof (induction ps arbitrary: M)
  case Nil
  then show ?case by (simp add: loads_def)
next
  case (Cons p ps)
  obtain r k where p: "p = (r, k)" by fastforce
  have r: "r \<noteq> b" "r \<noteq> 0" "map_of ps r = None" using Cons.prems by (auto simp: p map_of_eq_None_iff)
  let ?M = "M\<lparr>regs := (regs M)(r := read_u64 (m_mem M) (vtop (csrs M Satp) (regs M b + 8 * of_nat k)))\<rparr>"
  have "exec_code vtop (loads b (p # ps)) M = exec_code vtop (loads b ps) ?M"
    using r by (simp add: loads_def p set_reg_def)
  also have "\<dots> = ?M\<lparr>regs := \<lambda>x. case map_of ps x of
      Some k \<Rightarrow> read_u64 (m_mem ?M) (vtop (csrs ?M Satp) (regs ?M b + 8 * of_nat k)) | None \<Rightarrow> regs ?M x\<rparr>"
    using Cons.prems by (intro Cons.IH) auto
  finally show ?case using r by (auto simp: p fun_eq_iff split: option.splits)
qed

section \<open>Traps\<close>

definition gp_slots :: "(nat \<times> nat) list" where
  "gp_slots = [(1, 1), (3, 3)] @ map (\<lambda>n. (n, n)) [5..<32]"

lemma gp_slots_eq: "gp_slots = map (\<lambda>n. (n, n)) ([1, 3] @ [5..<32])"
  by (simp add: gp_slots_def)

lemma gp_slots_facts:
  "distinct (map fst gp_slots)" "distinct (map snd gp_slots)" "snd ` set gp_slots = {1, 3} \<union> {5..<32}"
  "fst ` set gp_slots = {1, 3} \<union> {5..<32}" "(r, k) \<in> set gp_slots \<longleftrightarrow> r = k \<and> r \<in> {1, 3} \<union> {5..<32}"
proof -
  have "map fst gp_slots = [1, 3] @ [5..<32]" "map snd gp_slots = [1, 3] @ [5..<32]"
    unfolding gp_slots_eq map_map comp_def by (simp_all only: fst_conv snd_conv map_ident)
  moreover have "distinct ([1, 3] @ [5..<32])" "set ([1, 3] @ [5..<32]) = {1, 3} \<union> {5..<32 :: nat}"
    by (simp_all only: distinct_append distinct_upt set_append set_upt) simp_all
  ultimately show "distinct (map fst gp_slots)" "distinct (map snd gp_slots)" "snd ` set gp_slots = {1, 3} \<union> {5..<32}"
      "fst ` set gp_slots = {1, 3} \<union> {5..<32}"
    by (simp_all only: set_map[symmetric])
  show "(r, k) \<in> set gp_slots \<longleftrightarrow> r = k \<and> r \<in> {1, 3} \<union> {5..<32}"
    unfolding gp_slots_eq set_map set_append set_upt by fastforce
qed

lemma map_of_gp_slots: "map_of gp_slots r = (if r \<in> {1, 3} \<union> {5..<32} then Some r else None)"
proof (cases "r \<in> {1, 3} \<union> {5..<32}")
  case True
  then have "(r, r) \<in> set gp_slots" by (simp only: gp_slots_facts)
  then show ?thesis using True gp_slots_facts(1) by (simp only: map_of_is_SomeI if_True)
next
  case False
  then show ?thesis unfolding if_not_P[OF False] map_of_eq_None_iff gp_slots_facts(4) .
qed

lemma alltraps_split:
  "alltraps = Csrrw 2 Sscratch 2 # saves 2 gp_slots @
     [Csrr 5 Sstatus, Csrr 6 Sepc] @ saves 2 [(5, 32), (6, 33)] @ [Csrr 7 Sscratch] @ saves 2 [(7, 2)] @
     loads 2 [(5, 34), (6, 36)] @ [Ld 2 (35 * 8) 2, Csrw Satp 5, SfenceVma, Jr 6]"
  by (simp add: alltraps_def saves_def loads_def gp_slots_def SAVE_GP_def)

lemma restore_split:
  "restore = [Csrw Satp 11, SfenceVma, Csrw Sscratch 10, Mv 2 10] @ loads 2 [(5, 32), (6, 33)] @
     [Csrw Sstatus 5, Csrw Sepc 6] @ loads 2 gp_slots @ [Ld 2 (2 * 8) 2, Sret]"
  by (simp add: restore_def loads_def gp_slots_def LOAD_GP_def)

text \<open>The trap context lies at \<open>pa\<close> in memory and at \<open>va\<close> in the address space \<open>satp\<close>.\<close>

definition cx_mapped :: "(usize \<Rightarrow> usize \<Rightarrow> usize) \<Rightarrow> usize \<Rightarrow> usize \<Rightarrow> usize \<Rightarrow> bool" where
  "cx_mapped vtop satp va pa \<longleftrightarrow> (\<forall>i < 37. vtop satp (va + 8 * of_nat i) = word_at pa i)"

lemma cx_mappedD: "cx_mapped vtop satp va pa \<Longrightarrow> i < 37 \<Longrightarrow> vtop satp (va + 8 * of_nat i) = word_at pa i"
  by (simp add: cx_mapped_def)

lemma cx_mapped_numeral:
  assumes "cx_mapped vtop satp va pa"
  shows "vtop satp (va + 16) = word_at pa 2" "vtop satp (va + 256) = word_at pa 32" "vtop satp (va + 264) = word_at pa 33"
    "vtop satp (va + 272) = word_at pa 34" "vtop satp (va + 280) = word_at pa 35" "vtop satp (va + 288) = word_at pa 36"
  using cx_mappedD[OF assms, of 2] cx_mappedD[OF assms, of 32] cx_mappedD[OF assms, of 33] cx_mappedD[OF assms, of 34]
    cx_mappedD[OF assms, of 35] cx_mappedD[OF assms, of 36] by simp_all

lemma exec_alltraps:
  assumes "csrs M Sscratch = va" "cx_mapped vtop (csrs M Satp) va pa"
  defines "M' \<equiv> exec_code vtop alltraps M"
  shows "\<forall>r \<in> {1, 3} \<union> {5..<32}. read_u64 (m_mem M') (word_at pa r) = regs M r"
    "read_u64 (m_mem M') (word_at pa 2) = regs M 2"
    "read_u64 (m_mem M') (word_at pa 32) = csrs M Sstatus" "read_u64 (m_mem M') (word_at pa 33) = csrs M Sepc"
    "\<forall>i \<in> {0, 4, 34, 35, 36}. read_u64 (m_mem M') (word_at pa i) = read_u64 (m_mem M) (word_at pa i)"
    "regs M' 2 = read_u64 (m_mem M) (word_at pa 35)" "csrs M' Satp = read_u64 (m_mem M) (word_at pa 34)"
    "pc M' = read_u64 (m_mem M) (word_at pa 36)" "csrs M' Sscratch = regs M 2"
proof -
  note num = cx_mapped_numeral[OF assms(2)]
  define M0 where "M0 = M\<lparr>csrs := (csrs M)(Sscratch := regs M 2), regs := (regs M)(2 := va)\<rparr>"
  have st: "csrs M0 Satp = csrs M Satp" "regs M0 2 = va" by (simp_all add: M0_def)
  have "\<forall>(r, k) \<in> set gp_slots. k < 2 ^ 32 \<and> vtop (csrs M0 Satp) (regs M0 2 + 8 * of_nat k) = word_at pa k"
  proof (clarify, rule conjI)
    fix r k assume "(r, k) \<in> set gp_slots"
    then have "k < 37" by (auto simp: gp_slots_facts)
    then show "k < 2 ^ 32" "vtop (csrs M0 Satp) (regs M0 2 + 8 * of_nat k) = word_at pa k"
      using cx_mappedD[OF assms(2), of k] by (simp_all add: st)
  qed
  from exec_saves[where vtop = vtop and b = 2 and pa = pa and M = M0, OF gp_slots_facts(2) this] obtain m1 where
      e1: "exec_code vtop (saves 2 gp_slots) M0 = M0\<lparr>m_mem := m1\<rparr>" and
      in1: "\<forall>(r, k) \<in> set gp_slots. read_u64 m1 (word_at pa k) = regs M0 r" and
      out1: "\<forall>j < 2 ^ 32. j \<notin> snd ` set gp_slots \<longrightarrow> read_u64 m1 (word_at pa j) = read_u64 (m_mem M0) (word_at pa j)"
    by blast
  define m2 where "m2 = write_u64 (write_u64 (write_u64 m1 (word_at pa 32) (csrs M Sstatus)) (word_at pa 33) (csrs M Sepc))
      (word_at pa 2) (regs M 2)"
  have m2: "read_u64 m2 (word_at pa j) = (if j = 2 then regs M 2 else if j = 33 then csrs M Sepc
      else if j = 32 then csrs M Sstatus else read_u64 m1 (word_at pa j))" if "j < 37" for j
    using that by (simp add: m2_def read_write_word_at)
  have m1: "read_u64 m1 (word_at pa j) = read_u64 (m_mem M) (word_at pa j)" if "j \<in> {0, 4, 34, 35, 36}" for j
    using that out1 unfolding gp_slots_facts by (auto simp: M0_def)
  have e: "M' = M0\<lparr>m_mem := m2, regs := (regs M0)(5 := read_u64 m2 (word_at pa 34), 6 := read_u64 m2 (word_at pa 36),
      7 := regs M 2, 2 := read_u64 m2 (word_at pa 35)), csrs := (csrs M0)(Satp := read_u64 m2 (word_at pa 34)),
      pc := read_u64 m2 (word_at pa 36)\<rparr>"
  proof -
    have "exec_code vtop alltraps M = exec_code vtop (
        [Csrr 5 Sstatus, Csrr 6 Sepc] @ saves 2 [(5, 32), (6, 33)] @ [Csrr 7 Sscratch] @ saves 2 [(7, 2)] @
        loads 2 [(5, 34), (6, 36)] @ [Ld 2 (35 * 8) 2, Csrw Satp 5, SfenceVma, Jr 6]) (M0\<lparr>m_mem := m1\<rparr>)"
      unfolding alltraps_split exec_code_simps e1[symmetric] by (simp add: M0_def set_reg_def assms(1))
    also have "\<dots> = M0\<lparr>m_mem := m2, regs := (regs M0)(5 := read_u64 m2 (word_at pa 34), 6 := read_u64 m2 (word_at pa 36),
      7 := regs M 2, 2 := read_u64 m2 (word_at pa 35)), csrs := (csrs M0)(Satp := read_u64 m2 (word_at pa 34)),
      pc := read_u64 m2 (word_at pa 36)\<rparr>"
      by (simp add: saves_def loads_def set_reg_def num M0_def m2_def fun_upd_twist)
    finally show ?thesis by (simp add: M'_def)
  qed
  show "\<forall>r \<in> {1, 3} \<union> {5..<32}. read_u64 (m_mem M') (word_at pa r) = regs M r"
  proof
    fix r assume r: "r \<in> {1, 3} \<union> {5..<32 :: nat}"
    then have "read_u64 m1 (word_at pa r) = regs M r" using in1 gp_slots_facts(5)[of r r] by (auto simp: M0_def)
    then show "read_u64 (m_mem M') (word_at pa r) = regs M r" using m2[of r] r by (auto simp: e)
  qed
  show "\<forall>i \<in> {0, 4, 34, 35, 36}. read_u64 (m_mem M') (word_at pa i) = read_u64 (m_mem M) (word_at pa i)"
    using m1 m2 by (auto simp: e)
  show "read_u64 (m_mem M') (word_at pa 2) = regs M 2" "read_u64 (m_mem M') (word_at pa 32) = csrs M Sstatus"
      "read_u64 (m_mem M') (word_at pa 33) = csrs M Sepc" "regs M' 2 = read_u64 (m_mem M) (word_at pa 35)"
      "csrs M' Satp = read_u64 (m_mem M) (word_at pa 34)" "pc M' = read_u64 (m_mem M) (word_at pa 36)"
      "csrs M' Sscratch = regs M 2"
    using m1 m2 by (simp_all add: e M0_def)
qed

lemma exec_restore:
  assumes "regs M 10 = va" "cx_mapped vtop (regs M 11) va pa"
  defines "M' \<equiv> exec_code vtop restore M"
  shows "\<forall>r \<in> {1, 2, 3} \<union> {5..<32}. regs M' r = read_u64 (m_mem M) (word_at pa r)" "regs M' 4 = regs M 4"
    "csrs M' Sstatus = sret_status (read_u64 (m_mem M) (word_at pa 32))" "pc M' = read_u64 (m_mem M) (word_at pa 33)"
    "csrs M' Satp = regs M 11" "csrs M' Sscratch = va" "m_mem M' = m_mem M"
proof -
  note num = cx_mapped_numeral[OF assms(2)]
  let ?w = "\<lambda>i. read_u64 (m_mem M) (word_at pa i)"
  define M1 where "M1 = M\<lparr>regs := (regs M)(2 := va, 5 := ?w 32, 6 := ?w 33),
      csrs := (csrs M)(Satp := regs M 11, Sscratch := va, Sstatus := ?w 32, Sepc := ?w 33)\<rparr>"
  have st: "csrs M1 Satp = regs M 11" "regs M1 2 = va" "m_mem M1 = m_mem M" by (simp_all add: M1_def)
  have b: "2 \<notin> fst ` set gp_slots" "0 \<notin> fst ` set gp_slots" unfolding gp_slots_facts by auto
  define R where "R = (\<lambda>x. if x \<in> {1, 3} \<union> {5..<32} then ?w x else regs M1 x)"
  have "exec_code vtop (loads 2 gp_slots) M1 = M1\<lparr>regs := R\<rparr>"
  proof -
    have "(case map_of gp_slots x of Some k \<Rightarrow> read_u64 (m_mem M1) (vtop (csrs M1 Satp) (regs M1 2 + 8 * of_nat k))
        | None \<Rightarrow> regs M1 x) = R x" for x
    proof (cases "x \<in> {1, 3} \<union> {5..<32}")
      case True
      then have "x < 37" by auto
      then show ?thesis using True cx_mappedD[OF assms(2), of x] by (simp only: map_of_gp_slots R_def st if_True option.case)
    next
      case False
      then show ?thesis unfolding map_of_gp_slots R_def if_not_P[OF False] by simp
    qed
    then show ?thesis unfolding exec_loads[OF b gp_slots_facts(1)] by simp
  qed
  then have e: "M' = M1\<lparr>regs := R(2 := ?w 2), pc := ?w 33, csrs := (csrs M1)(Sstatus := sret_status (?w 32))\<rparr>"
    unfolding M'_def restore_split exec_code_simps
    by (simp add: set_reg_def assms(1) loads_def num) (simp add: M1_def R_def num set_reg_def)
  show "\<forall>r \<in> {1, 2, 3} \<union> {5..<32}. regs M' r = ?w r" "regs M' 4 = regs M 4"
    "csrs M' Sstatus = sret_status (?w 32)" "pc M' = ?w 33" "csrs M' Satp = regs M 11" "csrs M' Sscratch = va" "m_mem M' = m_mem M"
    by (auto simp: e R_def M1_def)
qed

section \<open>Switches\<close>

definition s_slots :: "(nat \<times> nat) list" where
  "s_slots = map (\<lambda>n. (x_s n, n + 2)) [0..<12]"

lemma switch_split:
  "switch_code = saves 10 ([(2, 1), (1, 0)] @ s_slots) @ loads 11 ([(1, 0)] @ s_slots @ [(2, 1)]) @ [Jr 1]"
  by (simp add: switch_code_def saves_def loads_def s_slots_def SAVE_SN_def LOAD_SN_def comp_def algebra_simps)

lemma s_slots_facts:
  "map snd s_slots = [2..<14]" "distinct (map fst s_slots)" "fst ` set s_slots = {8, 9} \<union> {18..<28}"
proof -
  show "map snd s_slots = [2..<14]" by code_simp
  show "distinct (map fst s_slots)" by (auto simp: s_slots_def comp_def distinct_map x_s_def inj_on_def)
  show "fst ` set s_slots = {8, 9} \<union> {18..<28}"
  proof
    show "{8, 9} \<union> {18..<28} \<subseteq> fst ` set s_slots"
    proof
      fix x assume "x \<in> {8, 9} \<union> {18..<28 :: nat}"
      then have "x = x_s (if x < 18 then x - 8 else x - 16)" "(if x < 18 then x - 8 else x - 16) < 12"
        by (auto simp: x_s_def)
      then show "x \<in> fst ` set s_slots" by (force simp: s_slots_def)
    qed
  qed (auto simp: s_slots_def x_s_def split: if_splits)
qed

definition tc_regs :: "nat set" where
  "tc_regs = {1, 2} \<union> ({8, 9} \<union> {18..<28})"

text \<open>A kernel address at which 14 words are mapped to themselves, and two of them that do not overlap.\<close>

definition tc_mapped :: "(usize \<Rightarrow> usize \<Rightarrow> usize) \<Rightarrow> usize \<Rightarrow> usize \<Rightarrow> bool" where
  "tc_mapped vtop satp a \<longleftrightarrow> (\<forall>i < 14. vtop satp (a + 8 * of_nat i) = word_at a i)"

definition tc_disjoint :: "usize \<Rightarrow> usize \<Rightarrow> bool" where
  "tc_disjoint a b \<longleftrightarrow> (\<forall>i < 14. \<forall>j < 14. 8 \<le> unat (word_at a i - word_at b j) \<and> 8 \<le> unat (word_at b j - word_at a i))"

definition slot_of :: "nat \<Rightarrow> nat" where
  "slot_of r = (if r = 1 then 0 else if r = 2 then 1 else the (map_of s_slots r))"

lemma slot_of:
  assumes "r \<in> {8, 9} \<union> {18..<28}"
  shows "map_of s_slots r = Some (slot_of r)" "slot_of r < 14" "(r, slot_of r) \<in> set s_slots"
proof -
  have "r \<in> fst ` set s_slots" using assms unfolding s_slots_facts .
  then obtain k where k: "map_of s_slots r = Some k" by (metis map_of_eq_None_iff not_None_eq)
  have "r \<noteq> 1" "r \<noteq> 2" using assms by auto
  then show m: "map_of s_slots r = Some (slot_of r)" using k by (simp add: slot_of_def)
  then show "(r, slot_of r) \<in> set s_slots" by (rule map_of_SomeD)
  then show "slot_of r < 14" by (auto simp: s_slots_def)
qed

lemma exec_switch:
  assumes "regs M 10 = a" "regs M 11 = b" "tc_mapped vtop (csrs M Satp) a" "tc_mapped vtop (csrs M Satp) b" "tc_disjoint a b"
  defines "M' \<equiv> exec_code vtop switch_code M"
  shows "\<forall>r \<in> tc_regs. read_u64 (m_mem M') (word_at a (slot_of r)) = regs M r"
    "\<forall>r \<in> tc_regs. regs M' r = read_u64 (m_mem M) (word_at b (slot_of r))"
    "pc M' = read_u64 (m_mem M) (word_at b 0)" "csrs M' = csrs M"
proof -
  let ?ps = "[(2, 1), (1, 0)] @ s_slots" and ?qs = "[(1, 0)] @ s_slots @ [(2, 1)]"
  have snd_lt: "k < 14" if "(r, k) \<in> set s_slots" for r k using that by (auto simp: s_slots_def)
  have r12: "1 \<notin> fst ` set s_slots" "2 \<notin> fst ` set s_slots" "0 \<notin> fst ` set s_slots" "11 \<notin> fst ` set s_slots"
    unfolding s_slots_facts by auto
  have d1: "distinct (map snd ?ps)" by (simp add: s_slots_facts)
  have d2: "distinct (map fst ?qs)" using r12 s_slots_facts(2) by simp
  have n2: "11 \<notin> fst ` set ?qs" "0 \<notin> fst ` set ?qs" using r12 by auto
  have p1: "\<forall>(r, k) \<in> set ?ps. k < 2 ^ 32 \<and> vtop (csrs M Satp) (regs M 10 + 8 * of_nat k) = word_at a k"
  proof (clarify, rule conjI)
    fix r k assume "(r, k) \<in> set ?ps"
    then have "k < 14" using snd_lt by auto
    then show "k < 2 ^ 32" "vtop (csrs M Satp) (regs M 10 + 8 * of_nat k) = word_at a k"
      using assms(1,3) by (simp_all add: tc_mapped_def)
  qed
  from exec_saves[where vtop = vtop and b = 10 and pa = a and M = M, OF d1 p1] obtain m1 where
      m1: "exec_code vtop (saves 10 ?ps) M = M\<lparr>m_mem := m1\<rparr>"
        "\<forall>(r, k) \<in> set ?ps. read_u64 m1 (word_at a k) = regs M r"
        "\<forall>x. (\<forall>k \<in> snd ` set ?ps. 8 \<le> unat (x - word_at a k)) \<longrightarrow> m1 x = m_mem M x"
    by blast
  have keep: "read_u64 m1 (word_at b j) = read_u64 (m_mem M) (word_at b j)" if j: "j < 14" for j
  proof -
    have "m1 (word_at b j + of_nat t) = m_mem M (word_at b j + of_nat t)" if t: "t < 8" for t
    proof (rule m1(3)[rule_format])
      fix k assume "k \<in> snd ` set ?ps"
      then have k: "k < 14" using snd_lt by auto
      show "8 \<le> unat (word_at b j + of_nat t - word_at a k)"
        using assms(5) j k t word_diff_add[of "word_at b j" "word_at a k" t] by (simp add: tc_disjoint_def)
    qed
    then have "read_bytes m1 (word_at b j) 8 = read_bytes (m_mem M) (word_at b j) 8" by (simp add: read_bytes_def)
    then show ?thesis by (simp add: read_u64_def)
  qed
  have qs: "map_of ?qs r = Some (slot_of r)" "slot_of r < 14" "(r, slot_of r) \<in> set ?ps" if mem: "r \<in> tc_regs" for r
  proof -
    consider "r = 1" | "r = 2" | "r \<in> {8, 9} \<union> {18..<28}" using mem by (auto simp: tc_regs_def)
    then have "map_of ?qs r = Some (slot_of r) \<and> slot_of r < 14 \<and> (r, slot_of r) \<in> set ?ps"
    proof cases
      case 2
      then have "map_of s_slots r = None" using r12 by (simp add: map_of_eq_None_iff)
      then show ?thesis using 2 by (simp add: slot_of_def map_add_def)
    next
      case 3
      moreover have "r \<noteq> 1" "r \<noteq> 2" using 3 by auto
      ultimately show ?thesis using slot_of[of r] by (simp add: map_add_def)
    qed (simp add: slot_of_def)
    then show "map_of ?qs r = Some (slot_of r)" "slot_of r < 14" "(r, slot_of r) \<in> set ?ps" by simp_all
  qed
  define R where "R = (\<lambda>x. case map_of ?qs x of Some k \<Rightarrow> read_u64 m1 (vtop (csrs M Satp) (regs M 11 + 8 * of_nat k)) | None \<Rightarrow> regs M x)"
  have e: "M' = M\<lparr>m_mem := m1, regs := R, pc := R 1\<rparr>"
    unfolding M'_def switch_split exec_code_simps m1(1) exec_loads[OF n2 d2] by (simp add: R_def cong: option.case_cong)
  have R: "R r = read_u64 (m_mem M) (word_at b (slot_of r))" if "r \<in> tc_regs" for r
    using qs[OF that] assms(2,4) keep[of "slot_of r"] by (simp add: R_def tc_mapped_def del: append.simps)
  show "\<forall>r \<in> tc_regs. read_u64 (m_mem M') (word_at a (slot_of r)) = regs M r"
    using m1(2) qs(3) unfolding e by fastforce
  show "\<forall>r \<in> tc_regs. regs M' r = read_u64 (m_mem M) (word_at b (slot_of r))" using R by (simp add: e)
  have "R 1 = read_u64 (m_mem M) (word_at b 0)" using R[of 1] by (simp add: tc_regs_def slot_of_def)
  then show "pc M' = read_u64 (m_mem M) (word_at b 0)" "csrs M' = csrs M" by (simp_all add: e)
qed

section \<open>Properties\<close>

text \<open>
  C18: a trap and the return from it. \<open>__alltraps\<close> enters the kernel with the kernel's stack pointer, address
  space and handler from the trap context; if the kernel leaves the trap context as \<open>__alltraps\<close> saved it,
  \<open>__restore\<close> gives the user program back all its registers but \<open>x4\<close> (which neither saves) and its program counter,
  and leaves \<^verbatim>\<open>sscratch\<close> ready for the next trap. The status is the one that \<^verbatim>\<open>sret\<close> makes of the saved one: it is the one
  before the trap, if that had \<open>SPIE\<close> set and \<open>SPP\<close> clear, as every return to user mode leaves them.
\<close>

theorem trap_roundtrip:
  assumes "csrs M Sscratch = va" "cx_mapped vtop (csrs M Satp) va pa"
    and "regs K 10 = va" "regs K 11 = csrs M Satp"
    and "load_cx (m_mem K) pa = load_cx (m_mem (exec_code vtop alltraps M)) pa"
  shows "regs (exec_code vtop alltraps M) 2 = cx_kernel_sp (load_cx (m_mem M) pa) \<and>
    csrs (exec_code vtop alltraps M) Satp = cx_kernel_satp (load_cx (m_mem M) pa) \<and>
    pc (exec_code vtop alltraps M) = cx_trap_handler (load_cx (m_mem M) pa) \<and>
    (\<forall>r. 0 < r \<and> r < 32 \<and> r \<noteq> 4 \<longrightarrow> regs (exec_code vtop restore K) r = regs M r) \<and>
    pc (exec_code vtop restore K) = csrs M Sepc \<and> csrs (exec_code vtop restore K) Sstatus = sret_status (csrs M Sstatus) \<and>
    (\<forall>s. csrs M Sstatus = trap_status s \<and> bit s 5 \<and> \<not> bit s 8 \<longrightarrow> csrs (exec_code vtop restore K) Sstatus = s) \<and>
    csrs (exec_code vtop restore K) Satp = csrs M Satp \<and> csrs (exec_code vtop restore K) Sscratch = va"
proof -
  let ?A = "exec_code vtop alltraps M"
  have w: "read_u64 (m_mem K) (word_at pa i) = read_u64 (m_mem ?A) (word_at pa i)" if "i < 34" for i
  proof (cases "i < 32")
    case True
    have "load_words (m_mem K) pa 32 = load_words (m_mem ?A) pa 32" using assms(5) by (simp add: load_cx_def)
    then have "load_words (m_mem K) pa 32 ! i = load_words (m_mem ?A) pa 32 ! i" by simp
    then show ?thesis using True by (simp add: load_words_def)
  next
    case False
    then have "i = 32 \<or> i = 33" using that by auto
    then show ?thesis using assms(5) by (auto simp: load_cx_def)
  qed
  note a = exec_alltraps[OF assms(1,2)] and r = exec_restore[OF assms(3) assms(2)[folded assms(4)]]
  have "regs (exec_code vtop restore K) i = regs M i" if "0 < i" "i < 32" "i \<noteq> 4" for i
  proof (cases "i = 2")
    case True
    then show ?thesis using r(1) a(2) w[of 2] by simp
  next
    case False
    then have "i \<in> {1, 3} \<union> {5..<32}" using that by auto
    then show ?thesis using r(1) a(1) w[of i] that by auto
  qed
  then show ?thesis using a r w[of 32] w[of 33] assms(4) by (simp add: load_cx_def sret_trap_status)
qed

theorem trap_roundtrip_witness:
  "let M = \<lparr>regs = \<lambda>r. of_nat r + 100, csrs = (\<lambda>_. 7)(Sscratch := 0x1000), pc = 0, m_mem = \<lambda>_. 0\<rparr>;
       K = (exec_code (\<lambda>_ a. a) alltraps M)\<lparr>regs := (\<lambda>_. 0)(10 := 0x1000, 11 := 7)\<rparr>
   in \<forall>r. 0 < r \<and> r < 32 \<and> r \<noteq> 4 \<longrightarrow> regs (exec_code (\<lambda>_ a. a) restore K) r = of_nat r + 100"
  using trap_roundtrip[where M = "\<lparr>regs = \<lambda>r. of_nat r + 100, csrs = (\<lambda>_. 7)(Sscratch := 0x1000), pc = 0, m_mem = \<lambda>_. 0\<rparr>"
      and va = "0x1000" and pa = "0x1000" and vtop = "\<lambda>_ a. a" and
      K = "(exec_code (\<lambda>_ a. a) alltraps \<lparr>regs = \<lambda>r. of_nat r + 100, csrs = (\<lambda>_. 7)(Sscratch := 0x1000), pc = 0, m_mem = \<lambda>_. 0\<rparr>)
        \<lparr>regs := (\<lambda>_. 0)(10 := 0x1000, 11 := 7)\<rparr>"]
  by (simp add: cx_mapped_def word_at_def)

text \<open>
  C19: a task that leaves the processor by \<open>__switch\<close> and is later switched back to continues at its return
  address with its stack pointer and its callee-saved registers as they were, if its saved context
  has not been touched in between.
\<close>

theorem switch_roundtrip:
  assumes "regs M 10 = a" "regs M 11 = b" "tc_mapped vtop (csrs M Satp) a" "tc_mapped vtop (csrs M Satp) b" "tc_disjoint a b"
    and "regs K 10 = c" "regs K 11 = a" "tc_mapped vtop (csrs K Satp) c" "tc_mapped vtop (csrs K Satp) a" "tc_disjoint c a"
    and "load_words (m_mem K) a 14 = load_words (m_mem (exec_code vtop switch_code M)) a 14"
  shows "(\<forall>r \<in> tc_regs. regs (exec_code vtop switch_code K) r = regs M r) \<and> pc (exec_code vtop switch_code K) = regs M 1"
proof -
  have w: "read_u64 (m_mem K) (word_at a i) = read_u64 (m_mem (exec_code vtop switch_code M)) (word_at a i)" if "i < 14" for i
    using arg_cong[OF assms(11), of "\<lambda>ws. ws ! i"] that by (simp add: load_words_def)
  note s = exec_switch[OF assms(1-5)] and r = exec_switch[OF assms(6-10)]
  have lt: "slot_of i < 14" if "i \<in> tc_regs" for i
    using that slot_of(2)[of i] by (auto simp: tc_regs_def slot_of_def)
  have "slot_of 1 = 0" "1 \<in> tc_regs" by (simp_all add: slot_of_def tc_regs_def)
  then show ?thesis using s(1) r(2,3) w lt by (metis (no_types, lifting))
qed

lemma tc_disjoint_word_at:
  assumes "14 \<le> k" "k < 2 ^ 31"
  shows "tc_disjoint a (word_at a k)" "tc_disjoint (word_at a k) a"
proof -
  have eq: "word_at (word_at a k) j = word_at a (k + j)" for j by (simp add: word_at_def algebra_simps)
  show "tc_disjoint a (word_at a k)" "tc_disjoint (word_at a k) a"
    unfolding tc_disjoint_def eq using assms by (auto intro!: word_at_diff)
qed

definition switch_out :: machine where
  "switch_out = \<lparr>regs = (\<lambda>r. of_nat r + 100)(10 := 0x1000, 11 := word_at 0x1000 20), csrs = \<lambda>_. 0, pc = 0, m_mem = \<lambda>_. 0\<rparr>"

definition switch_in :: machine where
  "switch_in = (exec_code (\<lambda>_ a. a) switch_code switch_out)\<lparr>regs := (\<lambda>_. 0)(10 := word_at 0x1000 20, 11 := 0x1000)\<rparr>"

theorem switch_roundtrip_witness:
  "regs (exec_code (\<lambda>_ a. a) switch_code switch_in) 27 = 127 \<and> pc (exec_code (\<lambda>_ a. a) switch_code switch_in) = 101"
proof -
  have "tc_mapped (\<lambda>_ a. a) x y" for x y by (simp add: tc_mapped_def word_at_def)
  then have "(\<forall>r \<in> tc_regs. regs (exec_code (\<lambda>_ a. a) switch_code switch_in) r = regs switch_out r) \<and>
      pc (exec_code (\<lambda>_ a. a) switch_code switch_in) = regs switch_out 1"
    using tc_disjoint_word_at[of 20 "0x1000"]
    by (intro switch_roundtrip[where a = "0x1000" and b = "word_at 0x1000 20" and c = "word_at 0x1000 20"])
      (simp_all add: switch_out_def switch_in_def)
  then show ?thesis by (simp add: tc_regs_def switch_out_def)
qed

end
