(* ===== verification/Pid.thy ===== *)
theory Pid
  imports Allocator_Spec Address
begin

text \<open>
  The process identifier allocator of \<^verbatim>\<open>src/task/pid.rs\<close> and the position of the kernel stack
  that an identifier determines. Dropping a \<^verbatim>\<open>PidHandle\<close> is \<open>pa_dealloc\<close> of its number.
\<close>

section \<open>The allocator\<close>

datatype PidHandle = PidHandle (pid_val: usize)

record PidAllocator =
  pa_current :: usize
  pa_recycled :: "usize list"

definition PidAllocator_new :: PidAllocator where
  "PidAllocator_new = \<lparr>pa_current = 0, pa_recycled = []\<rparr>"

definition pa_alloc :: "PidAllocator \<Rightarrow> PidHandle \<times> PidAllocator" where
  "pa_alloc a =
     (case vec_pop (pa_recycled a) of
        (Some pid, rest) \<Rightarrow> (PidHandle pid, a\<lparr>pa_recycled := rest\<rparr>)
      | (None, _) \<Rightarrow>
          let a' = a\<lparr>pa_current := pa_current a + 1\<rparr>
          in (PidHandle (pa_current a' - 1), a'))"

definition pa_dealloc :: "PidAllocator \<Rightarrow> usize \<Rightarrow> panic + PidAllocator" where
  "pa_dealloc a pid =
     (if \<not> pid < pa_current a then Inl AssertFailed
      else if List.find (\<lambda>ppid. ppid = pid) (pa_recycled a) \<noteq> None then Inl AssertFailed
      else Inr (a\<lparr>pa_recycled := vec_push (pa_recycled a) pid\<rparr>))"

section \<open>The kernel stack of an identifier\<close>

definition kernel_stack_position :: "usize \<Rightarrow> usize \<times> usize" where
  "kernel_stack_position app_id =
     (let top = TRAMPOLINE - app_id * (KERNEL_STACK_SIZE + PAGE_SIZE);
          bottom = top - KERNEL_STACK_SIZE
      in (bottom, top))"

section \<open>The allocator meets the contract\<close>

definition pa_invar :: "PidAllocator \<Rightarrow> bool" where
  "pa_invar a \<longleftrightarrow> distinct (pa_recycled a) \<and> (\<forall>x \<in> set (pa_recycled a). x < pa_current a)"

definition pa_live :: "PidAllocator \<Rightarrow> usize set" where
  "pa_live a = {x. x < pa_current a \<and> x \<notin> set (pa_recycled a)}"

text \<open>
  The counter would wrap only after all \<open>2^64 - 1\<close> identifiers have been handed out at once;
  \<open>pa_try_alloc\<close> is \<open>pa_alloc\<close> up to that point.
\<close>

definition pa_try_alloc :: "PidAllocator \<Rightarrow> usize option \<times> PidAllocator" where
  "pa_try_alloc a = (if pa_recycled a = [] \<and> pa_current a = - 1 then (None, a)
     else map_prod (Some \<circ> pid_val) id (pa_alloc a))"

lemma pa_try_alloc_SomeE:
  assumes "pa_try_alloc a = (Some x, a')"
  obtains (recycled) rest where "pa_recycled a = rest @ [x]" "a' = a\<lparr>pa_recycled := rest\<rparr>"
  | (fresh) "pa_recycled a = []" "x = pa_current a" "pa_current a < - 1" "a' = a\<lparr>pa_current := pa_current a + 1\<rparr>"
proof (cases "pa_recycled a" rule: rev_cases)
  case Nil
  then have "pa_current a \<noteq> - 1" using assms by (auto simp: pa_try_alloc_def)
  then have "pa_current a < - 1"
    using word_order.extremum[of "pa_current a"] by (simp add: order_less_le)
  then show ?thesis
    using Nil assms fresh by (auto simp: pa_try_alloc_def pa_alloc_def vec_pop_def Let_def split: if_splits)
next
  case (snoc rest y)
  then show ?thesis
    using assms recycled by (auto simp: pa_try_alloc_def pa_alloc_def vec_pop_def)
qed

lemma pa_find_None: "List.find (\<lambda>v. v = x) xs = None \<longleftrightarrow> x \<notin> set xs"
  by (auto simp: find_None_iff)

lemma pa_dealloc_eq:
  "pa_dealloc a pid = (if pid \<in> pa_live a then Inr (a\<lparr>pa_recycled := vec_push (pa_recycled a) pid\<rparr>) else Inl AssertFailed)"
  by (auto simp: pa_dealloc_def pa_live_def pa_find_None split: if_splits option.splits)

interpretation pids: strict_allocator pa_try_alloc pa_dealloc pa_live pa_invar
proof
  fix s s' x assume inv: "pa_invar s" and al: "pa_try_alloc s = (Some x, s')"
  from al show "pa_invar s' \<and> x \<notin> pa_live s \<and> pa_live s' = insert x (pa_live s)"
  proof (cases rule: pa_try_alloc_SomeE)
    case (recycled rest)
    then show ?thesis using inv by (auto simp: pa_invar_def pa_live_def)
  next
    case fresh
    have up: "y < pa_current s + 1 \<longleftrightarrow> y < pa_current s \<or> y = pa_current s" for y
      using unat_add_1_less[OF fresh(3)]
      by (auto simp: word_less_nat_alt word_unat_eq_iff less_Suc_eq)
    then show ?thesis
      using inv fresh by (auto simp: pa_invar_def pa_live_def)
  qed
next
  fix s s' assume "pa_invar s" "pa_try_alloc s = (None, s')"
  then show "pa_invar s' \<and> pa_live s' = pa_live s"
    by (cases "pa_alloc s") (auto simp: pa_try_alloc_def split: if_splits)
next
  fix s x assume "pa_invar s" "x \<in> pa_live s"
  then show "\<exists>s'. pa_dealloc s x = Inr s' \<and> pa_invar s' \<and> pa_live s' = pa_live s - {x}"
    by (auto simp: pa_dealloc_eq pa_invar_def pa_live_def)
next
  fix s x assume "pa_invar s" "x \<notin> pa_live s"
  then show "\<exists>e. pa_dealloc s x = Inl e" by (simp add: pa_dealloc_eq)
qed

section \<open>Kernel stacks do not overlap\<close>

text \<open>
  The addresses of a kernel stack as the 39-bit virtual addresses that the kernel maps. For every
  identifier below \<open>2^25\<close> they do not wrap.
\<close>

lemma kernel_stack_vas:
  assumes "unat pid < 2 ^ 25" "kernel_stack_position pid = (lo, hi)"
  shows "unat (va_val (va_from_usize hi)) = 2 ^ 39 - 4096 - unat pid * 12288"
    "unat (va_val (va_from_usize lo)) = 2 ^ 39 - 4096 - unat pid * 12288 - 8192"
proof -
  have p: "unat (pid * 12288) = unat pid * 12288"
    using assms(1) by (simp add: unat_word_ariths)
  have t: "hi = TRAMPOLINE - pid * 12288" and b: "lo = hi - 8192"
    using assms(2) by (auto simp: kernel_stack_position_def Let_def KERNEL_STACK_SIZE_def PAGE_SIZE_def)
  have "pid * 12288 \<le> 0xfffffffffffff000" using assms(1) by (simp add: word_le_nat_alt p)
  then have ut: "unat hi = 2 ^ 64 - 4096 - unat pid * 12288"
    by (simp add: t TRAMPOLINE_eq unat_sub p)
  then have "8192 \<le> hi" using assms(1) by (simp add: word_le_nat_alt)
  then have ub: "unat lo = 2 ^ 64 - 4096 - unat pid * 12288 - 8192"
    by (simp add: b unat_sub ut)
  have split: "(2 ^ 64 - 4096 - k) mod 2 ^ 39 = 2 ^ 39 - 4096 - k" if "k + 4096 \<le> 2 ^ 39" for k :: nat
  proof -
    have eq: "2 ^ 64 - 4096 - k = (2 ^ 39 - 4096 - k) + (2 ^ 25 - 1) * 2 ^ 39" using that by simp
    have "(2 ^ 39 - 4096 - k :: nat) < 2 ^ 39" by simp
    then show ?thesis by (simp only: eq mod_mult_self1 mod_less)
  qed
  have k: "unat pid * 12288 + 4096 \<le> 2 ^ 39" "(unat pid * 12288 + 8192) + 4096 \<le> 2 ^ 39"
    using assms(1) by simp_all
  show "unat (va_val (va_from_usize hi)) = 2 ^ 39 - 4096 - unat pid * 12288"
    unfolding unat_from_usize(2) ut by (rule split[OF k(1)])
  show "unat (va_val (va_from_usize lo)) = 2 ^ 39 - 4096 - unat pid * 12288 - 8192"
    unfolding unat_from_usize(2) ub using split[OF k(2)] by (simp only: diff_diff_left add.assoc)
qed

section \<open>Properties\<close>

text \<open>
  process identifiers are never shared and double frees are refused. Allocating any number of them
  yields distinct ones, none live before; giving them back in any order never panics and restores the
  live set; and an identifier that has just been given back is refused a second time.
\<close>

theorem pids_alloc_dealloc_cycle:
  assumes "pa_invar a" "run_allocs pa_try_alloc n a = (xs, a')" "mset ys = mset xs"
  shows "distinct xs \<and> set xs \<inter> pa_live a = {} \<and> pa_live a' = pa_live a \<union> set xs \<and>
    (\<exists>a''. run_deallocs pa_dealloc ys a' = Inr a'' \<and> pa_live a'' = pa_live a) \<and>
    (\<forall>x a1. pa_dealloc a x = Inr a1 \<longrightarrow> (\<exists>e. pa_dealloc a1 x = Inl e))"
  using pids.run_allocs_distinct[OF assms(1,2)] pids.alloc_dealloc_restores[OF assms]
    pids.double_free_refused[OF assms(1)] by blast

lemma pids_alloc_dealloc_cycle_witness:
  "\<exists>a''. run_deallocs pa_dealloc [1, 2, 0] \<lparr>pa_current = 3, pa_recycled = []\<rparr> = Inr a'' \<and>
     pa_live a'' = pa_live PidAllocator_new"
proof -
  have run: "run_allocs pa_try_alloc 3 PidAllocator_new = ([0, 1, 2], \<lparr>pa_current = 3, pa_recycled = []\<rparr>)"
    by (simp add: numeral_3_eq_3 pa_try_alloc_def pa_alloc_def PidAllocator_new_def)
  have "pa_invar PidAllocator_new" by (simp add: pa_invar_def PidAllocator_new_def)
  from pids_alloc_dealloc_cycle[OF this run, of "[1, 2, 0]"] show ?thesis by simp
qed

text \<open>
  C39: kernel stacks do not overlap. For identifiers below \<open>2^25\<close> the 39-bit virtual addresses of a
  stack span exactly two pages below the trampoline page, and the stacks of two different identifiers
  are at least a guard page apart.
\<close>

theorem kernel_stacks_disjoint:
  assumes "unat pid < unat pid'" "unat pid' < 2 ^ 25"
    and "kernel_stack_position pid = (lo, hi)" "kernel_stack_position pid' = (lo', hi')"
  shows "unat (va_val (va_from_usize lo)) + 8192 = unat (va_val (va_from_usize hi)) \<and>
    unat (va_val (va_from_usize hi)) \<le> unat (va_val (va_from_usize TRAMPOLINE)) \<and>
    unat (va_val (va_from_usize hi')) + 4096 \<le> unat (va_val (va_from_usize lo))"
proof -
  have pid: "unat pid < 2 ^ 25" using assms(1,2) by simp
  have "unat (va_val (va_from_usize TRAMPOLINE)) = 2 ^ 39 - 4096"
    by (simp add: TRAMPOLINE_eq unat_from_usize(2))
  moreover have "unat pid * 12288 + 12288 \<le> unat pid' * 12288" using assms(1) by simp
  ultimately show ?thesis
    using kernel_stack_vas[OF pid assms(3)] kernel_stack_vas[OF assms(2,4)] assms(2) by simp
qed

lemma kernel_stacks_disjoint_witness:
  "unat (va_val (va_from_usize 0xffffffffffffc000)) + 4096 \<le> unat (va_val (va_from_usize 0xffffffffffffd000))"
  using kernel_stacks_disjoint[of 0 1 "0xffffffffffffd000" "0xfffffffffffff000" "0xffffffffffffa000" "0xffffffffffffc000"]
  by (simp add: kernel_stack_position_def config_defs)

end
