(* ===== verification/Task.thy ===== *)
theory Task
  imports Fs_Ops Task_Context Pid
begin

text \<open>
  Tasks of \<^verbatim>\<open>src/task\<close>: the task control block with its kernel stack (\<^verbatim>\<open>pid.rs\<close>) and its operations
  (\<^verbatim>\<open>task.rs\<close>), over the global state of the kernel. A reference-counted task is a handle into the store
  \<open>TASKS\<close>; the count of a handle is computed from the places that hold it.
\<close>

section \<open>Data\<close>

type_synonym i32 = "32 word"

datatype KernelStack = KernelStack (ks_pid: usize)

datatype TaskStatus = UnInit | Ready | Running | Zombie

record TaskInfoInner =
  syscall_times :: "u32 list"
  first_run_time :: usize
  first_run_flag :: bool

definition TaskInfoInner_zero_init :: TaskInfoInner where
  "TaskInfoInner_zero_init = \<lparr>syscall_times = replicate MAX_SYSCALL_NUM 0, first_run_time = 0, first_run_flag = True\<rparr>"

text \<open>
  A task that has not run yet has the context that \<open>goto_trap_return\<close> builds. The registers that \<^verbatim>\<open>__switch\<close>
  saves of a suspended task are represented by the place of the kernel where the task goes on:
  in \<open>sys_yield\<close>, in the timer interrupt, or in \<open>Stdin::read\<close> with the buffer it reads to.
\<close>

datatype resume_point = InYield | InTimer | InStdin UserBuffer

datatype task_context = Fresh TaskContext | Suspended resume_point

record TaskControlBlock =
  t_pid :: PidHandle
  kernel_stack :: KernelStack
  trap_cx_ppn :: PhysPageNum
  base_size :: usize
  task_cx :: task_context
  task_status :: TaskStatus
  memory_set :: MemorySet
  t_parent :: "nat option"
  t_child :: "nat list"
  exit_code :: i32
  task_info_inner :: TaskInfoInner
  heap_bottom :: usize
  program_brk :: usize
  t_prio :: usize
  t_stride :: usize
  fd_table :: "File option list"

record ('fs, 'i) kernel =
  k_mm :: mm_state
  KERNEL_SPACE :: MemorySet
  PID_ALLOCATOR :: PidAllocator
  TASKS :: "nat \<rightharpoonup> TaskControlBlock"
  next_task :: nat
  ready_queue :: "nat list"
  current :: "nat option"
  INITPROC :: nat
  k_fs :: "('fs, 'i) fs_state"

text \<open>What the kernel is linked with: the file system, the ELF parser, addresses, and what \<^verbatim>\<open>sstatus\<close> reads as.\<close>

record ('fs, 'i) env =
  env_efs :: "('fs, 'i) efs"
  env_ld :: linker_symbols
  env_parse :: elf_parser
  env_trap_return :: usize
  env_trap_handler :: usize
  env_sstatus :: usize

section \<open>Access to the state\<close>

definition with_mm :: "(mm_state, 'a) km \<Rightarrow> (('fs, 'i) kernel, 'a) km" where
  "with_mm c = (\<lambda>k. case c (k_mm k) of Inl e \<Rightarrow> Inl e | Inr (a, s) \<Rightarrow> Inr (a, k\<lparr>k_mm := s\<rparr>))"

definition deref_task :: "nat \<Rightarrow> (('fs, 'i) kernel, TaskControlBlock) km" where
  "deref_task h = kbind (kget (\<lambda>k. TASKS k h)) (kunwrap UnwrapNone)"

definition set_task :: "nat \<Rightarrow> TaskControlBlock \<Rightarrow> (('fs, 'i) kernel, unit) km" where
  "set_task h t = kmodify (\<lambda>k. k\<lparr>TASKS := (TASKS k)(h \<mapsto> t)\<rparr>)"

text \<open>\<^verbatim>\<open>Arc::new\<close>\<close>

definition new_task :: "TaskControlBlock \<Rightarrow> (('fs, 'i) kernel, nat) km" where
  "new_task t = kbind (kget next_task) (\<lambda>h.
     kbind (kmodify (\<lambda>k. k\<lparr>TASKS := (TASKS k)(h \<mapsto> t), next_task := Suc h\<rparr>)) (\<lambda>_. kreturn h))"

definition write_mem_u64 :: "usize \<Rightarrow> usize \<Rightarrow> (('fs, 'i) kernel, unit) km" where
  "write_mem_u64 a v = kmodify (\<lambda>k. k\<lparr>k_mm := (k_mm k)\<lparr>mem := write_u64 (mem (k_mm k)) a v\<rparr>\<rparr>)"

section \<open>Identifiers and kernel stacks\<close>

definition pid_alloc :: "(('fs, 'i) kernel, PidHandle) km" where
  "pid_alloc = kbind (kget (\<lambda>k. pa_alloc (PID_ALLOCATOR k))) (\<lambda>(p, a).
     kbind (kmodify (\<lambda>k. k\<lparr>PID_ALLOCATOR := a\<rparr>)) (\<lambda>_. kreturn p))"

definition drop_PidHandle :: "PidHandle \<Rightarrow> (('fs, 'i) kernel, unit) km" where
  "drop_PidHandle p = kbind (kget (\<lambda>k. pa_dealloc (PID_ALLOCATOR k) (pid_val p))) (\<lambda>r.
     kbind (klift r) (\<lambda>a. kmodify (\<lambda>k. k\<lparr>PID_ALLOCATOR := a\<rparr>)))"

definition KernelStack_new :: "PidHandle \<Rightarrow> (('fs, 'i) kernel, KernelStack) km" where
  "KernelStack_new p =
     (let (bottom, top_addr) = kernel_stack_position (pid_val p) in
      kbind (kget KERNEL_SPACE) (\<lambda>ks.
      kbind (with_mm (insert_framed_area ks (va_from_usize bottom) (va_from_usize top_addr) (MP_R OR MP_W))) (\<lambda>ks'.
      kbind (kmodify (\<lambda>k. k\<lparr>KERNEL_SPACE := ks'\<rparr>)) (\<lambda>_.
      kreturn (KernelStack (pid_val p))))))"

definition get_top :: "KernelStack \<Rightarrow> usize" where
  "get_top ks = (let (_, top_addr) = kernel_stack_position (ks_pid ks) in top_addr)"

definition drop_KernelStack :: "KernelStack \<Rightarrow> (('fs, 'i) kernel, unit) km" where
  "drop_KernelStack kst =
     (let (bottom, _) = kernel_stack_position (ks_pid kst) in
      kbind (klift (vpn_from_va (va_from_usize bottom))) (\<lambda>vpn.
      kbind (kget KERNEL_SPACE) (\<lambda>ks.
      kbind (with_mm (remove_area_with_start_vpn ks vpn)) (\<lambda>ks'.
      kmodify (\<lambda>k. k\<lparr>KERNEL_SPACE := ks'\<rparr>)))))"

section \<open>Task control blocks\<close>

definition get_user_token :: "TaskControlBlock \<Rightarrow> usize" where
  "get_user_token t = ms_token (memory_set t)"

definition get_pid :: "TaskControlBlock \<Rightarrow> usize" where
  "get_pid t = pid_val (t_pid t)"

text \<open>The address of the trap context that \<open>get_trap_cx\<close> refers to.\<close>

definition get_trap_cx :: "TaskControlBlock \<Rightarrow> usize" where
  "get_trap_cx t = pa_val (pa_from_ppn (trap_cx_ppn t))"

definition is_zombie :: "TaskControlBlock \<Rightarrow> bool" where
  "is_zombie t \<longleftrightarrow> task_status t = Zombie"

text \<open>\<^verbatim>\<open>memory_set.translate(VirtAddr::from(TRAP_CONTEXT_BASE).into()).unwrap().ppn()\<close>\<close>

definition find_trap_cx_ppn :: "MemorySet \<Rightarrow> (mm_state, PhysPageNum) km" where
  "find_trap_cx_ppn ms =
     kbind (klift (vpn_from_va (va_from_usize TRAP_CONTEXT_BASE))) (\<lambda>vpn.
     kbind (translate_unwrap ms vpn) (\<lambda>e. kreturn (pte_ppn e)))"

text \<open>\<^verbatim>\<open>*trap_cx = TrapContext::app_init_context(..)\<close>\<close>

definition init_trap_cx :: "('fs, 'i) env \<Rightarrow> PhysPageNum \<Rightarrow> usize \<Rightarrow> usize \<Rightarrow> usize \<Rightarrow> (('fs, 'i) kernel, unit) km" where
  "init_trap_cx e ppn entry_point user_sp kstack_top =
     kbind (kget (\<lambda>k. ms_token (KERNEL_SPACE k))) (\<lambda>satp.
     kmodify (\<lambda>k. k\<lparr>k_mm := (k_mm k)\<lparr>mem := store_cx (mem (k_mm k)) (pa_val (pa_from_ppn ppn))
       (app_init_context (env_sstatus e) entry_point user_sp satp kstack_top (env_trap_handler e))\<rparr>\<rparr>))"

definition TaskControlBlock_new :: "('fs, 'i) env \<Rightarrow> u8 list \<Rightarrow> (('fs, 'i) kernel, TaskControlBlock) km" where
  "TaskControlBlock_new e elf_data =
     kbind (with_mm (from_elf (env_ld e) (env_parse e) elf_data)) (\<lambda>(ms, user_sp, entry_point).
     kbind (with_mm (find_trap_cx_ppn ms)) (\<lambda>ppn.
     kbind pid_alloc (\<lambda>p.
     kbind (KernelStack_new p) (\<lambda>kst.
     let kstack_top = get_top kst;
         t = \<lparr>t_pid = p, kernel_stack = kst, trap_cx_ppn = ppn, base_size = user_sp,
              task_cx = Fresh (goto_trap_return (env_trap_return e) kstack_top), task_status = Ready, memory_set = ms,
              t_parent = None, t_child = [], exit_code = 0, task_info_inner = TaskInfoInner_zero_init,
              heap_bottom = user_sp, program_brk = user_sp, t_prio = 16, t_stride = 0,
              fd_table = [Some Stdin, Some Stdout, Some Stdout]\<rparr>
     in kbind (init_trap_cx e ppn entry_point user_sp kstack_top) (\<lambda>_. kreturn t)))))"

text \<open>Assigning the new address space drops the old one.\<close>

definition task_exec :: "('fs, 'i) env \<Rightarrow> nat \<Rightarrow> u8 list \<Rightarrow> (('fs, 'i) kernel, unit) km" where
  "task_exec e h elf_data =
     kbind (with_mm (from_elf (env_ld e) (env_parse e) elf_data)) (\<lambda>(ms, user_sp, entry_point).
     kbind (with_mm (find_trap_cx_ppn ms)) (\<lambda>ppn.
     kbind (deref_task h) (\<lambda>t.
     kbind (with_mm (drop_MemorySet (memory_set t))) (\<lambda>_.
     kbind (set_task h (t\<lparr>memory_set := ms, trap_cx_ppn := ppn\<rparr>)) (\<lambda>_.
     init_trap_cx e ppn entry_point user_sp (get_top (kernel_stack t)))))))"

text \<open>The copy of a table of open files shares the files.\<close>

definition clone_fd_table :: "File option list \<Rightarrow> File option list" where
  "clone_fd_table fds = foldl (\<lambda>acc fd. case fd of Some f \<Rightarrow> vec_push acc (Some f) | None \<Rightarrow> vec_push acc None) [] fds"

definition task_fork :: "('fs, 'i) env \<Rightarrow> nat \<Rightarrow> (('fs, 'i) kernel, nat) km" where
  "task_fork e h =
     kbind (deref_task h) (\<lambda>parent.
     kbind (with_mm (from_existed_user (env_ld e) (memory_set parent))) (\<lambda>ms.
     kbind (with_mm (find_trap_cx_ppn ms)) (\<lambda>ppn.
     kbind pid_alloc (\<lambda>p.
     kbind (KernelStack_new p) (\<lambda>kst.
     let kstack_top = get_top kst;
         t = \<lparr>t_pid = p, kernel_stack = kst, trap_cx_ppn = ppn, base_size = base_size parent,
              task_cx = Fresh (goto_trap_return (env_trap_return e) kstack_top), task_status = Ready, memory_set = ms,
              t_parent = Some h, t_child = [], exit_code = 0, task_info_inner = TaskInfoInner_zero_init,
              heap_bottom = heap_bottom parent, program_brk = program_brk parent, t_prio = t_prio parent, t_stride = 0,
              fd_table = clone_fd_table (fd_table parent)\<rparr>
     in
     kbind (new_task t) (\<lambda>c.
     kbind (set_task h (parent\<lparr>t_child := vec_push (t_child parent) c\<rparr>)) (\<lambda>_.
     kbind (write_mem_u64 (word_at (get_trap_cx t) 35) kstack_top) (\<lambda>_.
     kreturn c))))))))"

definition task_spwan :: "('fs, 'i) env \<Rightarrow> nat \<Rightarrow> u8 list \<Rightarrow> (('fs, 'i) kernel, nat) km" where
  "task_spwan e h elf_data =
     kbind (deref_task h) (\<lambda>parent.
     kbind (with_mm (from_elf (env_ld e) (env_parse e) elf_data)) (\<lambda>(ms, user_sp, entry_point).
     kbind (with_mm (find_trap_cx_ppn ms)) (\<lambda>ppn.
     kbind pid_alloc (\<lambda>p.
     kbind (KernelStack_new p) (\<lambda>kst.
     let kstack_top = get_top kst;
         t = \<lparr>t_pid = p, kernel_stack = kst, trap_cx_ppn = ppn, base_size = user_sp,
              task_cx = Fresh (goto_trap_return (env_trap_return e) kstack_top), task_status = Ready, memory_set = ms,
              t_parent = Some h, t_child = [], exit_code = 0, task_info_inner = TaskInfoInner_zero_init,
              heap_bottom = user_sp, program_brk = user_sp, t_prio = 16, t_stride = 0,
              fd_table = clone_fd_table (fd_table parent)\<rparr>
     in
     kbind (new_task t) (\<lambda>c.
     kbind (init_trap_cx e ppn entry_point user_sp kstack_top) (\<lambda>_.
     kbind (set_task h (parent\<lparr>t_child := vec_push (t_child parent) c\<rparr>)) (\<lambda>_.
     kreturn c))))))))"

definition get_task_info_inner :: "TaskControlBlock \<Rightarrow> TaskInfoInner" where
  "get_task_info_inner t = task_info_inner t"

text \<open>The sums are computed as \<^verbatim>\<open>isize\<close> and compared as signed numbers.\<close>

definition change_program_brk :: "nat \<Rightarrow> i32 \<Rightarrow> (('fs, 'i) kernel, usize option) km" where
  "change_program_brk h sz =
     kbind (deref_task h) (\<lambda>t.
     let old_break = program_brk t; new_brk = program_brk t + scast sz in
     if sint new_brk < sint (heap_bottom t) then kreturn None
     else
       kbind (with_mm (if sint sz < 0
                       then ms_shrink_to (memory_set t) (VirtAddr (heap_bottom t)) (VirtAddr new_brk)
                       else ms_append_to (memory_set t) (VirtAddr (heap_bottom t)) (VirtAddr new_brk))) (\<lambda>(ok, ms).
       if ok
       then kbind (set_task h (t\<lparr>memory_set := ms, program_brk := new_brk\<rparr>)) (\<lambda>_. kreturn (Some old_break))
       else kbind (set_task h (t\<lparr>memory_set := ms\<rparr>)) (\<lambda>_. kreturn None)))"

definition BIG_STRIDE :: usize where
  "BIG_STRIDE = 250"

definition update_stride :: "nat \<Rightarrow> (('fs, 'i) kernel, unit) km" where
  "update_stride h =
     kbind (deref_task h) (\<lambda>t.
     kbind (kassert DivideByZero (t_prio t \<noteq> 0)) (\<lambda>_.
     set_task h (t\<lparr>t_stride := t_stride t + BIG_STRIDE div t_prio t\<rparr>)))"

text \<open>An index past the 500 counters is out of range; a counter wraps.\<close>

definition update_syscall_times :: "TaskControlBlock \<Rightarrow> usize \<Rightarrow> panic + TaskControlBlock" where
  "update_syscall_times t syscall_id =
     (let times = syscall_times (task_info_inner t) in
      if unat syscall_id < length times
      then Inr (t\<lparr>task_info_inner := (task_info_inner t)\<lparr>syscall_times := times[unat syscall_id := times ! unat syscall_id + 1]\<rparr>\<rparr>)
      else Inl SliceIndex)"

definition alloc_fd :: "File option list \<Rightarrow> nat \<times> File option list" where
  "alloc_fd fds =
     (case find_index (\<lambda>fd. fd = None) fds of
        Some fd \<Rightarrow> (fd, fds)
      | None \<Rightarrow> (length (vec_push fds None) - 1, vec_push fds None))"

section \<open>Dropping a task\<close>

text \<open>
  The references to a task: from the ready queue, the processor, \<open>INITPROC\<close> and the lists of children. A
  task whose last reference is dropped gives back its identifier, its kernel stack and its address
  space, and then drops its children; \<open>fuel\<close> bounds the depth of the tree.
\<close>

definition strong_count :: "('fs, 'i) kernel \<Rightarrow> nat \<Rightarrow> nat" where
  "strong_count k h = count_list (ready_queue k) h + (if current k = Some h then 1 else 0) +
     (if INITPROC k = h then 1 else 0) +
     (\<Sum>g \<leftarrow> [0..<next_task k]. case TASKS k g of None \<Rightarrow> 0 | Some t \<Rightarrow> count_list (t_child t) h)"

fun drop_task :: "nat \<Rightarrow> nat \<Rightarrow> (('fs, 'i) kernel, unit) km" where
  "drop_task 0 h = kpanic Hang"
| "drop_task (Suc fuel) h =
     kbind (kget (\<lambda>k. strong_count k h)) (\<lambda>n.
     if n \<noteq> 0 then kreturn ()
     else
       kbind (deref_task h) (\<lambda>t.
       kbind (drop_PidHandle (t_pid t)) (\<lambda>_.
       kbind (drop_KernelStack (kernel_stack t)) (\<lambda>_.
       kbind (with_mm (drop_MemorySet (memory_set t))) (\<lambda>_.
       kbind (kmodify (\<lambda>k. k\<lparr>TASKS := (TASKS k)(h := None)\<rparr>)) (\<lambda>_.
       for_loop (t_child t) (\<lambda>c _. drop_task fuel c) ()))))))"

end
