(* ===== verification/Scheduler.thy ===== *)
theory Scheduler
  imports Task
begin

text \<open>
  The stride scheduler of \<^verbatim>\<open>src/task/manager.rs\<close> and the processor of \<^verbatim>\<open>src/task/processor.rs\<close>, with the two
  ways in which a task leaves it (\<^verbatim>\<open>src/task/mod.rs\<close>, \<^verbatim>\<open>src/task/task.rs\<close>). A call of \<open>schedule\<close> switches to the
  idle control flow and so ends what the kernel does for the current task: it has no value here, and
  its caller is the last thing that runs.
\<close>

section \<open>The task manager\<close>

definition TaskManager_new :: "nat list" where
  "TaskManager_new = []"

definition add_task :: "nat \<Rightarrow> (('fs, 'i) kernel, unit) km" where
  "add_task h = kmodify (\<lambda>k. k\<lparr>ready_queue := vec_push (ready_queue k) h\<rparr>)"

text \<open>The loop of \<open>fetch\<close> over the strides of the queue, with the minimum so far and its index.\<close>

fun fetch_loop :: "usize list \<Rightarrow> usize \<Rightarrow> usize \<times> usize \<Rightarrow> usize \<times> usize" where
  "fetch_loop [] cur_idx acc = acc"
| "fetch_loop (current_stride # rest) cur_idx (min_stride, min_stride_idx) =
     fetch_loop rest (cur_idx + 1)
       (if min_stride > current_stride then (current_stride, cur_idx) else (min_stride, min_stride_idx))"

definition queue_strides :: "(('fs, 'i) kernel, usize list) km" where
  "queue_strides = kbind (kget ready_queue) (\<lambda>q.
     for_loop q (\<lambda>h acc. kbind (deref_task h) (\<lambda>t. kreturn (acc @ [t_stride t]))) [])"

definition fetch_task :: "(('fs, 'i) kernel, nat option) km" where
  "fetch_task =
     kbind queue_strides (\<lambda>strides.
     let (_, idx) = fetch_loop strides 0 (- 1, - 1) in
     if idx = - 1 then kreturn None
     else
       kbind (kget ready_queue) (\<lambda>q.
       kbind (kassert SliceIndex (unat idx < length q)) (\<lambda>_.
       kbind (update_stride (q ! unat idx)) (\<lambda>_.
       kbind (kmodify (\<lambda>k. k\<lparr>ready_queue := vec_remove (unat idx) (ready_queue k)\<rparr>)) (\<lambda>_.
       kreturn (Some (q ! unat idx)))))))"

section \<open>The processor\<close>

definition take_current_task :: "(('fs, 'i) kernel, nat option) km" where
  "take_current_task = kbind (kget current) (\<lambda>c. kbind (kmodify (\<lambda>k. k\<lparr>current := None\<rparr>)) (\<lambda>_. kreturn c))"

definition current_task :: "(('fs, 'i) kernel, nat option) km" where
  "current_task = kget current"

text \<open>\<^verbatim>\<open>current_task().unwrap()\<close>, and the block it refers to.\<close>

definition current_handle :: "(('fs, 'i) kernel, nat) km" where
  "current_handle = kbind current_task (kunwrap UnwrapNone)"

definition current_block :: "(('fs, 'i) kernel, TaskControlBlock) km" where
  "current_block = kbind current_handle deref_task"

definition current_user_token :: "(('fs, 'i) kernel, usize) km" where
  "current_user_token = kbind current_block (\<lambda>t. kreturn (get_user_token t))"

definition current_trap_cx :: "(('fs, 'i) kernel, usize) km" where
  "current_trap_cx = kbind current_block (\<lambda>t. kreturn (get_trap_cx t))"

definition current_task_info_inner :: "(('fs, 'i) kernel, TaskInfoInner) km" where
  "current_task_info_inner = kbind current_block (\<lambda>t. kreturn (get_task_info_inner t))"

definition update_current_task_syscall_times :: "usize \<Rightarrow> (('fs, 'i) kernel, unit) km" where
  "update_current_task_syscall_times syscall_id =
     kbind current_handle (\<lambda>h.
     kbind (deref_task h) (\<lambda>t.
     kbind (klift (update_syscall_times t syscall_id)) (set_task h)))"

definition mapping_address_space_for_current_task ::
    "VirtAddr \<Rightarrow> VirtAddr \<Rightarrow> MapPermission \<Rightarrow> (('fs, 'i) kernel, unit) km" where
  "mapping_address_space_for_current_task start_va end_va perm =
     kbind current_handle (\<lambda>h.
     kbind (deref_task h) (\<lambda>t.
     kbind (with_mm (insert_framed_area (memory_set t) start_va end_va perm)) (\<lambda>ms.
     set_task h (t\<lparr>memory_set := ms\<rparr>))))"

definition unmapping_address_space_for_current_task :: "VirtAddr \<Rightarrow> VirtAddr \<Rightarrow> (('fs, 'i) kernel, unit) km" where
  "unmapping_address_space_for_current_task start_va end_va =
     kbind current_handle (\<lambda>h.
     kbind (deref_task h) (\<lambda>t.
     kbind (with_mm (munmap_area (memory_set t) start_va end_va)) (\<lambda>ms.
     set_task h (t\<lparr>memory_set := ms\<rparr>))))"

text \<open>One turn of the loop of \<open>run_tasks\<close>, up to the switch to the task fetched.\<close>

definition run_tasks :: "(('fs, 'i) kernel, nat option) km" where
  "run_tasks =
     kbind fetch_task (\<lambda>r. case r of
       None \<Rightarrow> kreturn None
     | Some h \<Rightarrow>
         kbind (deref_task h) (\<lambda>t.
         kbind (set_task h (t\<lparr>task_status := Running\<rparr>)) (\<lambda>_.
         kbind (kmodify (\<lambda>k. k\<lparr>current := Some h\<rparr>)) (\<lambda>_.
         kreturn (Some h)))))"

section \<open>Leaving the processor\<close>

definition suspend_current_and_run_next :: "resume_point \<Rightarrow> (('fs, 'i) kernel, unit) km" where
  "suspend_current_and_run_next r =
     kbind take_current_task (\<lambda>c.
     kbind (kunwrap UnwrapNone c) (\<lambda>h.
     kbind (deref_task h) (\<lambda>t.
     kbind (set_task h (t\<lparr>task_cx := Suspended r, task_status := Ready\<rparr>)) (\<lambda>_.
     add_task h))))"

text \<open>
  The children of an exiting task go to \<open>INITPROC\<close>. Its own block is borrowed all along, and \<open>INITPROC\<close>'s in the
  loop: borrowing either again is a panic.
\<close>

definition adopt_child :: "nat \<Rightarrow> nat \<Rightarrow> nat \<Rightarrow> (('fs, 'i) kernel, unit) km" where
  "adopt_child h ip c =
     kbind (kassert BorrowMut (c \<noteq> h \<and> c \<noteq> ip)) (\<lambda>_.
     kbind (deref_task c) (\<lambda>ct.
     kbind (set_task c (ct\<lparr>t_parent := Some ip\<rparr>)) (\<lambda>_.
     kbind (deref_task ip) (\<lambda>it.
     set_task ip (it\<lparr>t_child := vec_push (t_child it) c\<rparr>)))))"

definition exit_current_and_run_next :: "i32 \<Rightarrow> (('fs, 'i) kernel, unit) km" where
  "exit_current_and_run_next code =
     kbind take_current_task (\<lambda>c.
     kbind (kunwrap UnwrapNone c) (\<lambda>h.
     kbind (deref_task h) (\<lambda>t.
     kbind (set_task h (t\<lparr>task_status := Zombie, exit_code := code\<rparr>)) (\<lambda>_.
     kbind (kget INITPROC) (\<lambda>ip.
     kbind (kassert BorrowMut (ip \<noteq> h)) (\<lambda>_.
     kbind (for_loop (t_child t) (\<lambda>c _. adopt_child h ip c) ()) (\<lambda>_.
     kbind (with_mm (recycle_data_pages (memory_set t))) (\<lambda>ms.
     kbind (set_task h (t\<lparr>task_status := Zombie, exit_code := code, t_child := [], memory_set := ms\<rparr>)) (\<lambda>_.
     kbind (kget next_task) (\<lambda>n. drop_task n h))))))))))"

end
