(* ===== verification/Scheduler_Ops.thy ===== *)
theory Scheduler_Ops
  imports Scheduler "HOL-Library.Multiset"
begin

text \<open>
  What the stride scheduler promises: \<open>fetch\<close> takes the first task with the least stride, the strides of a
  fixed set of tasks stay close together, a task in the queue is reached after a bounded number of
  turns when all priorities are between 1 and 250, and a priority above 250 starves the others.
\<close>

section \<open>The search for the least stride\<close>

text \<open>The specification: the first task of the queue whose stride is least and not the largest number.\<close>

definition task_stride :: "('fs, 'i) kernel \<Rightarrow> nat \<Rightarrow> usize" where
  "task_stride k h = (case TASKS k h of None \<Rightarrow> 0 | Some t \<Rightarrow> t_stride t)"

definition least_stride :: "usize list \<Rightarrow> nat option" where
  "least_stride ss = find_index (\<lambda>s. s \<noteq> - 1 \<and> (\<forall>r \<in> set ss. s \<le> r)) ss"

lemma find_index_eqI:
  "i < length xs \<Longrightarrow> P (xs ! i) \<Longrightarrow> (\<And>j. j < i \<Longrightarrow> \<not> P (xs ! j)) \<Longrightarrow> find_index P xs = Some i"
proof (induction xs arbitrary: i)
  case (Cons x xs)
  then show ?case
  proof (cases i)
    case (Suc j)
    have "\<not> P x" using Cons.prems(3)[of 0] Suc by simp
    moreover have "find_index P xs = Some j"
    proof (rule Cons.IH)
      show "\<not> P (xs ! n)" if "n < j" for n using Cons.prems(3)[of "Suc n"] Suc that by simp
    qed (use Cons.prems Suc in simp_all)
    ultimately show ?thesis using Suc by simp
  qed simp
qed simp

lemma find_index_first: "find_index P xs = Some i \<Longrightarrow> j < i \<Longrightarrow> \<not> P (xs ! j)"
proof (induction xs arbitrary: i j)
  case (Cons x xs)
  then show ?case by (cases j) (auto split: if_splits)
qed simp

text \<open>The loop keeps the first least stride of the part it has seen.\<close>

definition scan_inv :: "usize list \<Rightarrow> usize \<times> usize \<Rightarrow> bool" where
  "scan_inv seen acc \<longleftrightarrow> (case acc of (m, idx) \<Rightarrow>
     (idx = - 1 \<and> m = - 1 \<and> (\<forall>s \<in> set seen. s = - 1)) \<or>
     (unat idx < length seen \<and> seen ! unat idx = m \<and> m \<noteq> - 1 \<and> (\<forall>s \<in> set seen. m \<le> s) \<and>
      (\<forall>j < unat idx. m < seen ! j)))"

lemma fetch_loop_inv:
  "scan_inv seen acc \<Longrightarrow> length (seen @ ss) < 2 ^ 64 - 1 \<Longrightarrow>
    scan_inv (seen @ ss) (fetch_loop ss (of_nat (length seen)) acc)"
proof (induction ss arbitrary: seen acc)
  case (Cons s ss)
  obtain m idx where acc: "acc = (m, idx)" by fastforce
  let ?acc = "if m > s then (s, of_nat (length seen)) else (m, idx)"
  have len: "unat (of_nat (length seen) :: usize) = length seen"
    using Cons.prems(2) by (simp add: unat_of_nat take_bit_nat_eq_self)
  have "scan_inv (seen @ [s]) ?acc"
  proof (cases "m > s")
    case True
    have "s \<noteq> - 1" using True word_order.extremum[of m] by auto
    moreover have "\<forall>r \<in> set seen. s < r" using Cons.prems(1) True by (auto simp: scan_inv_def acc)
    ultimately show ?thesis using True len by (auto simp: scan_inv_def nth_append intro: less_imp_le)
  next
    case False
    then have "m \<le> s" by simp
    moreover from this have "m = - 1 \<Longrightarrow> s = - 1" using word_order.extremum[of s] by (auto intro: antisym)
    ultimately show ?thesis
      using Cons.prems(1) False by (auto simp: scan_inv_def acc nth_append)
  qed
  from Cons.IH[OF this] Cons.prems(2) show ?case by (simp add: acc add.commute split: if_splits)
qed simp

lemma fetch_loop_least:
  assumes "length ss < 2 ^ 64 - 1"
  shows "snd (fetch_loop ss 0 (- 1, - 1)) = (case least_stride ss of None \<Rightarrow> - 1 | Some i \<Rightarrow> of_nat i)"
proof -
  obtain m idx where r: "fetch_loop ss 0 (- 1, - 1) = (m, idx)" by fastforce
  have "scan_inv ss (m, idx)" using fetch_loop_inv[of "[]" "(- 1, - 1)" ss] assms r by (simp add: scan_inv_def)
  then consider "idx = - 1" "\<forall>s \<in> set ss. s = - 1"
    | "unat idx < length ss" "ss ! unat idx = m" "m \<noteq> - 1" "\<forall>s \<in> set ss. m \<le> s" "\<forall>j < unat idx. m < ss ! j"
    by (auto simp: scan_inv_def)
  then show ?thesis
  proof cases
    case 1
    then have "least_stride ss = None" by (auto simp: least_stride_def find_index_None)
    then show ?thesis using 1 r by simp
  next
    case 2
    have "least_stride ss = Some (unat idx)"
      unfolding least_stride_def
    proof (rule find_index_eqI)
      fix j assume "j < unat idx"
      then show "\<not> (ss ! j \<noteq> - 1 \<and> (\<forall>r \<in> set ss. ss ! j \<le> r))"
        using 2 by (meson leD nth_mem)
    qed (use 2 in auto)
    then show ?thesis using r by simp
  qed
qed

section \<open>Fetching\<close>

definition queue_ok :: "('fs, 'i) kernel \<Rightarrow> bool" where
  "queue_ok k \<longleftrightarrow> distinct (ready_queue k) \<and> length (ready_queue k) < 2 ^ 64 - 1 \<and>
     (\<forall>h \<in> set (ready_queue k). \<exists>t. TASKS k h = Some t \<and> t_prio t \<noteq> 0)"

definition bump_stride :: "TaskControlBlock \<Rightarrow> TaskControlBlock" where
  "bump_stride t = t\<lparr>t_stride := t_stride t + BIG_STRIDE div t_prio t\<rparr>"

lemma queue_strides_eq:
  assumes "queue_ok k"
  shows "queue_strides k = Inr (map (task_stride k) (ready_queue k), k)"
proof -
  have "for_loop q (\<lambda>h acc. kbind (deref_task h) (\<lambda>t. kreturn (acc @ [t_stride t]))) acc k =
      Inr (acc @ map (task_stride k) q, k)" if "\<forall>h \<in> set q. TASKS k h \<noteq> None" for q acc
    using that by (induction q arbitrary: acc) (auto simp: kmonad_defs deref_task_def task_stride_def)
  from this[of "ready_queue k" "[]"] assms show ?thesis
    by (auto simp: queue_strides_def kbind_def kget_def queue_ok_def)
qed

lemma fetch_task_eq:
  assumes ok: "queue_ok k"
  shows "fetch_task k = (case least_stride (map (task_stride k) (ready_queue k)) of
      None \<Rightarrow> Inr (None, k)
    | Some i \<Rightarrow> let h = ready_queue k ! i in
        Inr (Some h, k\<lparr>TASKS := (TASKS k)(h \<mapsto> bump_stride (the (TASKS k h))), ready_queue := vec_remove i (ready_queue k)\<rparr>))"
proof -
  let ?q = "ready_queue k" and ?ss = "map (task_stride k) (ready_queue k)"
  have len: "length ?ss < 2 ^ 64 - 1" using ok by (simp add: queue_ok_def)
  obtain m where r: "fetch_loop ?ss 0 (- 1, - 1) = (m, case least_stride ?ss of None \<Rightarrow> - 1 | Some i \<Rightarrow> of_nat i)"
    using fetch_loop_least[OF len] by (metis prod.collapse)
  show ?thesis
  proof (cases "least_stride ?ss")
    case None
    then show ?thesis using r queue_strides_eq[OF ok] by (simp add: fetch_task_def kbind_def kreturn_def)
  next
    case (Some i)
    then have i: "i < length ?q" using find_index_Some(1) by (fastforce simp: least_stride_def)
    have u: "unat (of_nat i :: usize) = i" using i len by (simp add: unat_of_nat take_bit_nat_eq_self)
    have "(of_nat i :: usize) \<noteq> - 1"
    proof
      assume "(of_nat i :: usize) = - 1"
      then have "i = unat (- 1 :: usize)" using u by simp
      then show False using i len by (simp add: unsigned_minus_1_eq_mask mask_eq_exp_minus_1)
    qed
    moreover obtain t where "TASKS k (?q ! i) = Some t" "t_prio t \<noteq> 0"
      using ok nth_mem[OF i] unfolding queue_ok_def by blast
    ultimately show ?thesis
      using r Some queue_strides_eq[OF ok] i u
      by (simp add: fetch_task_def kmonad_defs update_stride_def deref_task_def set_task_def bump_stride_def Let_def)
  qed
qed

section \<open>Rounds\<close>

text \<open>A turn of the scheduler that the timer ends: a task is run and put back at the end of the queue.\<close>

definition sched_round :: "(('fs, 'i) kernel, nat option) km" where
  "sched_round = kbind run_tasks (\<lambda>r. case r of
     None \<Rightarrow> kreturn None
   | Some h \<Rightarrow> kbind (suspend_current_and_run_next InTimer) (\<lambda>_. kreturn (Some h)))"

fun sched_rounds :: "nat \<Rightarrow> (('fs, 'i) kernel, nat option list) km" where
  "sched_rounds 0 = kreturn []"
| "sched_rounds (Suc n) = kbind sched_round (\<lambda>h. kbind (sched_rounds n) (\<lambda>hs. kreturn (h # hs)))"

definition round_state :: "('fs, 'i) kernel \<Rightarrow> nat \<Rightarrow> ('fs, 'i) kernel" where
  "round_state k i =
     (let h = ready_queue k ! i in
      k\<lparr>current := None,
        TASKS := (TASKS k)(h \<mapsto> (bump_stride (the (TASKS k h)))\<lparr>task_cx := Suspended InTimer, task_status := Ready\<rparr>),
        ready_queue := vec_push (vec_remove i (ready_queue k)) h\<rparr>)"

lemma sched_round_eq:
  assumes ok: "queue_ok k"
  shows "sched_round k = (case least_stride (map (task_stride k) (ready_queue k)) of
      None \<Rightarrow> Inr (None, k)
    | Some i \<Rightarrow> Inr (Some (ready_queue k ! i), round_state k i))"
proof (cases "least_stride (map (task_stride k) (ready_queue k))")
  case None
  then show ?thesis by (simp add: sched_round_def run_tasks_def kmonad_defs fetch_task_eq[OF ok])
next
  case (Some i)
  then show ?thesis
    by (simp add: sched_round_def run_tasks_def kmonad_defs fetch_task_eq[OF ok] Let_def deref_task_def set_task_def
        suspend_current_and_run_next_def take_current_task_def add_task_def round_state_def)
qed

definition task_prio :: "('fs, 'i) kernel \<Rightarrow> nat \<Rightarrow> usize" where
  "task_prio k h = (case TASKS k h of None \<Rightarrow> 0 | Some t \<Rightarrow> t_prio t)"

lemma mset_remove_push: "i < length xs \<Longrightarrow> mset (vec_push (vec_remove i xs) (xs ! i)) = mset xs"
proof -
  assume "i < length xs"
  then have "xs = take i xs @ xs ! i # drop (Suc i) xs" by (rule id_take_nth_drop)
  then have "mset xs = mset (take i xs) + (add_mset (xs ! i) (mset (drop (Suc i) xs)))"
    by (metis mset_append mset.simps(2))
  then show ?thesis by (simp add: vec_push_def vec_remove_def)
qed

lemma least_strideD:
  assumes "least_stride (map (task_stride k) (ready_queue k)) = Some i"
  shows "i < length (ready_queue k)" "task_stride k (ready_queue k ! i) \<noteq> - 1"
    "\<forall>g \<in> set (ready_queue k). task_stride k (ready_queue k ! i) \<le> task_stride k g"
  using find_index_Some(1,2)[OF assms[unfolded least_stride_def]] by (auto simp: nth_map)

lemma least_stride_exists:
  assumes "u \<in> set (ready_queue k)" "task_stride k u \<noteq> - 1"
  shows "\<exists>i. least_stride (map (task_stride k) (ready_queue k)) = Some i"
proof -
  let ?S = "set (map (task_stride k) (ready_queue k))"
  have ne: "finite ?S" "?S \<noteq> {}" using assms(1) by auto
  have "Min ?S \<le> task_stride k u" using assms(1) ne by (intro Min_le) auto
  then have "Min ?S \<noteq> - 1" using assms(2) word_order.extremum[of "task_stride k u"] by (auto intro: antisym)
  moreover have "\<forall>r \<in> ?S. Min ?S \<le> r" using ne by (auto intro: Min_le)
  moreover have "Min ?S \<in> ?S" using ne by (rule Min_in)
  ultimately have "least_stride (map (task_stride k) (ready_queue k)) \<noteq> None"
    unfolding least_stride_def find_index_None by blast
  then show ?thesis by blast
qed

lemma round_facts:
  assumes ok: "queue_ok k" and i: "i < length (ready_queue k)"
  defines "h \<equiv> ready_queue k ! i" and "k' \<equiv> round_state k i"
  shows "h \<in> set (ready_queue k)" "set (ready_queue k') = set (ready_queue k)" "queue_ok k'" "current k' = None"
    "task_prio k' g = task_prio k g"
    "task_stride k' g = (if g = h then task_stride k h + BIG_STRIDE div task_prio k h else task_stride k g)"
proof -
  show h: "h \<in> set (ready_queue k)" using i by (simp add: h_def)
  have q: "mset (ready_queue k') = mset (ready_queue k)"
    using mset_remove_push[OF i] by (simp add: k'_def round_state_def Let_def)
  show "set (ready_queue k') = set (ready_queue k)" by (rule mset_eq_setD[OF q])
  obtain t where t: "TASKS k h = Some t" "t_prio t \<noteq> 0" using ok h by (auto simp: queue_ok_def)
  show "queue_ok k'"
    using ok t mset_eq_setD[OF q] mset_eq_length[OF q] mset_eq_imp_distinct_iff[OF q]
    by (auto simp: queue_ok_def k'_def round_state_def Let_def h_def bump_stride_def)
  show "current k' = None" by (simp add: k'_def round_state_def Let_def)
  show "task_prio k' g = task_prio k g"
    using t by (simp add: k'_def round_state_def Let_def h_def bump_stride_def task_prio_def)
  show "task_stride k' g = (if g = h then task_stride k h + BIG_STRIDE div task_prio k h else task_stride k g)"
    using t by (simp add: k'_def round_state_def Let_def h_def bump_stride_def task_prio_def task_stride_def)
qed

section \<open>Fairness\<close>

text \<open>How far the other tasks of the queue are behind task \<open>u\<close>: the number of turns it may have to wait.\<close>

definition stride_lag :: "('fs, 'i) kernel \<Rightarrow> nat \<Rightarrow> nat" where
  "stride_lag k u = (\<Sum>g \<in> set (ready_queue k) - {u}. Suc (unat (task_stride k u)) - unat (task_stride k g))"

definition prios_in :: "('fs, 'i) kernel \<Rightarrow> nat \<Rightarrow> nat \<Rightarrow> bool" where
  "prios_in k lo hi \<longleftrightarrow> (\<forall>h \<in> set (ready_queue k). lo \<le> unat (task_prio k h) \<and> unat (task_prio k h) \<le> hi)"

lemma unat_pass: "unat (BIG_STRIDE div p) = 250 div unat p"
  by (simp add: BIG_STRIDE_def unat_div)

lemma unat_add_usize: "unat a + unat b < 2 ^ 64 \<Longrightarrow> unat (a + b :: usize) = unat a + unat b"
  by (simp add: unat_word_ariths)

lemma lag_decreases:
  assumes ok: "queue_ok k" and least: "least_stride (map (task_stride k) (ready_queue k)) = Some i"
    and h: "ready_queue k ! i \<noteq> u" and u: "u \<in> set (ready_queue k)" and pr: "prios_in k 1 250"
    and lim: "unat (task_stride k u) + 250 < 2 ^ 64"
  shows "stride_lag (round_state k i) u < stride_lag k u"
proof -
  let ?h = "ready_queue k ! i" and ?k = "round_state k i"
  note l = least_strideD[OF least] and f = round_facts[OF ok least_strideD(1)[OF least]]
  have le: "unat (task_stride k ?h) \<le> unat (task_stride k u)" using l(3) u by (simp add: word_le_nat_alt)
  have p: "1 \<le> unat (task_prio k ?h)" "unat (task_prio k ?h) \<le> 250" using pr f(1) by (auto simp: prios_in_def)
  have "1 \<le> 250 div unat (task_prio k ?h)" using p by (simp add: Suc_le_eq div_greater_zero_iff)
  moreover have "unat (task_stride k ?h) + 250 div unat (task_prio k ?h) < 2 ^ 64"
    using le lim div_le_dividend[of 250 "unat (task_prio k ?h)"] by linarith
  ultimately have s: "unat (task_stride k ?h) < unat (task_stride ?k ?h)"
    using unat_add_usize[of "task_stride k ?h" "BIG_STRIDE div task_prio k ?h"] by (simp add: f(6) unat_pass)
  have su: "task_stride ?k u = task_stride k u" using f(6)[of u] h by simp
  have mono: "Suc (unat (task_stride k u)) - unat (task_stride ?k g) \<le> Suc (unat (task_stride k u)) - unat (task_stride k g)" for g
    using f(6)[of g] s by (cases "g = ?h") auto
  have strict: "Suc (unat (task_stride k u)) - unat (task_stride ?k ?h) < Suc (unat (task_stride k u)) - unat (task_stride k ?h)"
    using s le by linarith
  show ?thesis
    unfolding stride_lag_def su f(2)
    by (rule sum_strict_mono_ex1) (use mono strict f(1) h in auto)
qed

lemma stride_reached:
  "queue_ok k \<Longrightarrow> u \<in> set (ready_queue k) \<Longrightarrow> prios_in k 1 250 \<Longrightarrow> unat (task_stride k u) + 250 < 2 ^ 64 \<Longrightarrow>
    \<exists>n hs k'. n \<le> Suc (stride_lag k u) \<and> sched_rounds n k = Inr (hs, k') \<and> Some u \<in> set hs"
proof (induction "stride_lag k u" arbitrary: k rule: less_induct)
  case less
  have "task_stride k u \<noteq> - 1"
  proof
    assume "task_stride k u = - 1"
    then show False using less.prems(4) by (simp add: unsigned_minus_1_eq_mask mask_eq_exp_minus_1)
  qed
  then obtain i where i: "least_stride (map (task_stride k) (ready_queue k)) = Some i"
    using least_stride_exists less.prems(2) by blast
  let ?h = "ready_queue k ! i" and ?k = "round_state k i"
  have r: "sched_round k = Inr (Some ?h, ?k)" using sched_round_eq[OF less.prems(1)] i by simp
  note f = round_facts[OF less.prems(1) least_strideD(1)[OF i]]
  show ?case
  proof (cases "?h = u")
    case True
    then have "sched_rounds (Suc 0) k = Inr ([Some u], ?k)" using r by (simp add: kmonad_defs)
    then show ?thesis by (intro exI[of _ "Suc 0"]) auto
  next
    case False
    have lt: "stride_lag ?k u < stride_lag k u"
      using lag_decreases[OF less.prems(1) i False less.prems(2-4)] .
    moreover have "prios_in ?k 1 250" using less.prems(3) f(2,5) by (simp add: prios_in_def)
    moreover have "unat (task_stride ?k u) + 250 < 2 ^ 64" using less.prems(4) f(6)[of u] False by simp
    ultimately obtain n hs k' where n: "n \<le> Suc (stride_lag ?k u)" "sched_rounds n ?k = Inr (hs, k')" "Some u \<in> set hs"
      using less.hyps[of ?k] f(2,3) less.prems(2) by blast
    have "sched_rounds (Suc n) k = Inr (Some ?h # hs, k')" using r n(2) by (simp add: kmonad_defs)
    moreover have "Suc n \<le> Suc (stride_lag k u)" using n(1) lt by simp
    ultimately show ?thesis using n(3) by (meson list.set_intros(2))
  qed
qed

section \<open>Properties\<close>

definition idle_task :: "usize \<Rightarrow> usize \<Rightarrow> TaskControlBlock" where
  "idle_task p st =
     \<lparr>t_pid = PidHandle 0, kernel_stack = KernelStack 0, trap_cx_ppn = PhysPageNum 0, base_size = 0,
      task_cx = Suspended InTimer, task_status = Ready,
      memory_set = \<lparr>page_table = \<lparr>root_ppn = PhysPageNum 0, frames = []\<rparr>, areas = []\<rparr>,
      t_parent = None, t_child = [], exit_code = 0, task_info_inner = TaskInfoInner_zero_init,
      heap_bottom = 0, program_brk = 0, t_prio = p, t_stride = st, fd_table = []\<rparr>"

definition three_tasks :: "usize \<Rightarrow> usize \<Rightarrow> usize \<Rightarrow> (unit, unit) kernel" where
  "three_tasks p q r =
     \<lparr>k_mm = \<lparr>mem = \<lambda>_. 0, FRAME_ALLOCATOR = \<lparr>fa_current = 5, fa_end = 9, fa_recycled = []\<rparr>\<rparr>,
      KERNEL_SPACE = \<lparr>page_table = \<lparr>root_ppn = PhysPageNum 0, frames = []\<rparr>, areas = []\<rparr>,
      PID_ALLOCATOR = PidAllocator_new,
      TASKS = [0 \<mapsto> idle_task p 7, 1 \<mapsto> idle_task q 3, 2 \<mapsto> idle_task r 3], next_task = 3,
      ready_queue = [0, 1, 2], current = None, INITPROC = 0,
      k_fs = \<lparr>disk = (), os_inodes = [], console = []\<rparr>\<rparr>"

lemma three_tasks_ok:
  "p \<noteq> 0 \<Longrightarrow> q \<noteq> 0 \<Longrightarrow> r \<noteq> 0 \<Longrightarrow> queue_ok (three_tasks p q r)"
  "ready_queue (three_tasks p q r) = [0, 1, 2]"
  "task_stride (three_tasks p q r) 0 = 7" "task_stride (three_tasks p q r) (Suc 0) = 3" "task_stride (three_tasks p q r) 2 = 3"
  "task_prio (three_tasks p q r) 0 = p" "task_prio (three_tasks p q r) (Suc 0) = q" "task_prio (three_tasks p q r) 2 = r"
  by (simp_all add: queue_ok_def three_tasks_def idle_task_def task_stride_def task_prio_def)

text \<open>
  C16: \<open>fetch\<close> takes the first task of the ready queue whose stride is least, adds its pass to its stride and
  leaves the rest of the queue in order; it finds none exactly when every stride is the largest number.
\<close>

theorem fetch_task_least:
  assumes "queue_ok k"
  shows "case fetch_task k of
      Inl _ \<Rightarrow> False
    | Inr (None, k') \<Rightarrow> k' = k \<and> (\<forall>g \<in> set (ready_queue k). task_stride k g = - 1)
    | Inr (Some h, k') \<Rightarrow> \<exists>before after. ready_queue k = before @ h # after \<and> ready_queue k' = before @ after \<and>
        (\<forall>g \<in> set before. task_stride k h < task_stride k g) \<and> (\<forall>g \<in> set after. task_stride k h \<le> task_stride k g) \<and>
        (\<forall>g. TASKS k' g = (if g = h then map_option bump_stride (TASKS k h) else TASKS k g))"
proof (cases "least_stride (map (task_stride k) (ready_queue k))")
  case None
  then have "\<forall>g \<in> set (ready_queue k). task_stride k g = - 1" using least_stride_exists by fastforce
  then show ?thesis using fetch_task_eq[OF assms] None by simp
next
  case (Some i)
  note l = least_strideD[OF Some]
  let ?q = "ready_queue k"
  have split: "?q = take i ?q @ ?q ! i # drop (Suc i) ?q" using l(1) by (rule id_take_nth_drop)
  have "task_stride k (?q ! i) < task_stride k g" if "g \<in> set (take i ?q)" for g
  proof -
    from that obtain j where j: "j < i" "j < length ?q" "g = ?q ! j" by (auto simp: in_set_conv_nth)
    have "\<not> (task_stride k g \<noteq> - 1 \<and> (\<forall>r \<in> set (map (task_stride k) ?q). task_stride k g \<le> r))"
      using find_index_first[OF Some[unfolded least_stride_def], of j] j by simp
    moreover have "task_stride k (?q ! i) \<le> task_stride k g" using l(3) j by simp
    ultimately show ?thesis using l(2,3) word_order.extremum[of "task_stride k (?q ! i)"]
      by (metis (no_types, lifting) image_iff less_le list.set_map order_trans)
  qed
  moreover have "\<forall>g \<in> set (drop (Suc i) ?q). task_stride k (?q ! i) \<le> task_stride k g"
    using l(3) by (meson in_set_dropD)
  moreover obtain t where "TASKS k (?q ! i) = Some t" using assms nth_mem[OF l(1)] unfolding queue_ok_def by blast
  ultimately show ?thesis
    using fetch_task_eq[OF assms] Some split by (auto simp: Let_def vec_remove_def)
qed

theorem fetch_task_least_witness:
  "\<exists>h k'. fetch_task (three_tasks 2 2 2) = Inr (Some h, k') \<and> h = 1 \<and> ready_queue k' = [0, 2]"
proof -
  note ok = three_tasks_ok(1)[of 2 2 2]
  have t: "case fetch_task (three_tasks 2 2 2) of Inl _ \<Rightarrow> False
    | Inr (None, k') \<Rightarrow> task_stride (three_tasks 2 2 2) 0 = - 1
    | Inr (Some h, k') \<Rightarrow> h = 1 \<and> ready_queue k' = [0, 2]"
    using fetch_task_least[OF ok]
    by (auto simp: three_tasks_ok append_eq_Cons_conv Cons_eq_append_conv split: sum.splits option.splits prod.splits)
  then show ?thesis by (auto simp: three_tasks_ok split: sum.splits option.splits prod.splits)
qed




text \<open>
  C17: no starvation. With priorities between 1 and 250, every task of the ready queue whose stride is not about
  to wrap around is run after at most as many turns as the others are behind it, whatever their
  strides are.
\<close>

theorem stride_liveness:
  assumes "queue_ok k" "u \<in> set (ready_queue k)" "prios_in k 1 250" "unat (task_stride k u) + 250 < 2 ^ 64"
  shows "\<exists>n hs k'. n \<le> Suc (\<Sum>g \<in> set (ready_queue k) - {u}. Suc (unat (task_stride k u)) - unat (task_stride k g)) \<and>
    sched_rounds n k = Inr (hs, k') \<and> Some u \<in> set hs"
  using stride_reached[OF assms] by (simp add: stride_lag_def)

theorem stride_liveness_witness:
  "\<exists>n hs k'. n \<le> 11 \<and> sched_rounds n (three_tasks 2 16 250) = Inr (hs, k') \<and> Some 0 \<in> set hs"
  using stride_liveness[of "three_tasks 2 16 250" 0] by (simp add: three_tasks_ok prios_in_def)

text \<open>
  C33: starvation. A task with a priority above 250, which \<open>sys_set_prio\<close> accepts, has a pass of zero: once its stride is
  below all others, it is the only one that runs, for ever.
\<close>

theorem stride_starvation:
  assumes "queue_ok k" "u \<in> set (ready_queue k)" "250 < unat (task_prio k u)"
    and "\<forall>g \<in> set (ready_queue k) - {u}. task_stride k u < task_stride k g" "task_stride k u \<noteq> - 1"
  shows "\<exists>k'. sched_rounds n k = Inr (replicate n (Some u), k')"
  using assms
proof (induction n arbitrary: k)
  case 0
  then show ?case by (simp add: kmonad_defs)
next
  case (Suc n)
  obtain i where i: "least_stride (map (task_stride k) (ready_queue k)) = Some i"
    using least_stride_exists[OF Suc.prems(2,5)] by blast
  note l = least_strideD[OF i] and f = round_facts[OF Suc.prems(1) least_strideD(1)[OF i]]
  have u: "ready_queue k ! i = u" using l(3) Suc.prems(2,4) f(1) by (meson DiffI leD singletonD)
  have "unat (BIG_STRIDE div task_prio k u) = 0" unfolding unat_pass using Suc.prems(3) by simp
  then have "BIG_STRIDE div task_prio k u = 0" by (simp add: unat_eq_zero)
  then have "task_stride (round_state k i) g = task_stride k g" for g using f(6)[of g] u by simp
  then obtain k' where "sched_rounds n (round_state k i) = Inr (replicate n (Some u), k')"
    using Suc.IH[of "round_state k i"] Suc.prems f(2,3,5) by auto
  then show ?case using sched_round_eq[OF Suc.prems(1)] i u by (simp add: kmonad_defs)
qed

theorem stride_starvation_witness:
  "\<exists>k'. sched_rounds 1000 ((three_tasks 2 2 251)\<lparr>ready_queue := [0, 2]\<rparr>) = Inr (replicate 1000 (Some 2), k')"
  by (rule stride_starvation) (auto simp: queue_ok_def three_tasks_def idle_task_def task_stride_def task_prio_def)

end
