(* ===== verification/Syscall.thy ===== *)
theory Syscall
  imports Scheduler
begin

text \<open>
  The system calls of \<^verbatim>\<open>src/syscall\<close>, the timer of \<^verbatim>\<open>src/timer.rs\<close> and the trap handler of \<^verbatim>\<open>src/trap/mod.rs\<close>. What the
  hardware answers during a call (the time register, the character that the console has, why the
  trap happened) is an argument. A system call either returns a value to the user or leaves the
  processor, by a switch to another task. The kernel's own log messages are not modelled.
\<close>

section \<open>Time\<close>

definition TICKS_PER_SEC :: usize where "TICKS_PER_SEC = 100"
definition MSEC_PER_SEC :: usize where "MSEC_PER_SEC = 1000"
definition MICRO_PER_SEC :: usize where "MICRO_PER_SEC = 1000000"

definition get_time_us :: "usize \<Rightarrow> usize" where
  "get_time_us time = time * MICRO_PER_SEC div CLOCK_FREQ"

definition get_time_ms :: "usize \<Rightarrow> usize" where
  "get_time_ms time = time * MSEC_PER_SEC div CLOCK_FREQ"

text \<open>The value that \<^verbatim>\<open>set_next_trigger\<close> gives to \<^verbatim>\<open>set_timer\<close>.\<close>

definition set_next_trigger :: "usize \<Rightarrow> usize" where
  "set_next_trigger time = time + CLOCK_FREQ div TICKS_PER_SEC"

section \<open>Results\<close>

record hw =
  hw_time :: usize
  hw_char :: usize

datatype outcome = Returned isize | Switched

abbreviation kret :: "isize \<Rightarrow> ('s, outcome) km" where
  "kret v \<equiv> kreturn (Returned v)"

text \<open>A computation on memory that may run for ever, or panic.\<close>

definition kloop :: "(panic + 'a) option \<Rightarrow> ('s, 'a) km" where
  "kloop r = (case r of None \<Rightarrow> kpanic Hang | Some x \<Rightarrow> klift x)"

definition user_str :: "usize \<Rightarrow> usize \<Rightarrow> (('fs, 'i) kernel, u8 list) km" where
  "user_str token ptr = kbind (kget (\<lambda>k. translated_str (mem (k_mm k)) token ptr)) kloop"

definition user_buffer :: "usize \<Rightarrow> usize \<Rightarrow> usize \<Rightarrow> (('fs, 'i) kernel, UserBuffer) km" where
  "user_buffer token ptr len =
     kbind (kget (\<lambda>k. translated_byte_buffer (mem (k_mm k)) token ptr len)) (\<lambda>r.
     kbind (kloop r) (\<lambda>sls. kreturn (UserBuffer_new sls)))"

definition user_write :: "usize \<Rightarrow> usize \<Rightarrow> u8 list \<Rightarrow> (('fs, 'i) kernel, unit) km" where
  "user_write token ptr bs =
     kbind (kget (\<lambda>k. translated_and_write_bytes token ptr (\<lambda>i. bs ! i) (of_nat (length bs)) (mem (k_mm k)))) (\<lambda>r.
     kbind (kloop r) (\<lambda>m. kmodify (\<lambda>k. k\<lparr>k_mm := (k_mm k)\<lparr>mem := m\<rparr>\<rparr>)))"

section \<open>Processes\<close>

definition sys_exit :: "i32 \<Rightarrow> (('fs, 'i) kernel, outcome) km" where
  "sys_exit code = kbind (exit_current_and_run_next code) (\<lambda>_. kreturn Switched)"

definition sys_yield :: "(('fs, 'i) kernel, outcome) km" where
  "sys_yield = kbind (suspend_current_and_run_next InYield) (\<lambda>_. kreturn Switched)"

record TimeVal =
  tv_sec :: usize
  tv_usec :: usize

definition timeval_bytes :: "TimeVal \<Rightarrow> u8 list" where
  "timeval_bytes tv = u64_bytes (tv_sec tv) @ u64_bytes (tv_usec tv)"

definition sys_get_time :: "usize \<Rightarrow> usize \<Rightarrow> (('fs, 'i) kernel, outcome) km" where
  "sys_get_time time ts =
     (let us = get_time_us time; tv = \<lparr>tv_sec = us div 1000000, tv_usec = us mod 1000000\<rparr> in
      kbind current_user_token (\<lambda>token.
      kbind (user_write token ts (timeval_bytes tv)) (\<lambda>_. kret 0)))"

text \<open>
  \<^verbatim>\<open>TaskInfo\<close> is not \<^verbatim>\<open>repr(C)\<close>: how the compiler lays it out in memory is the parameter \<open>layout\<close>.
\<close>

record TaskInfo =
  ti_status :: TaskStatus
  ti_syscall_times :: "u32 list"
  ti_time :: usize

definition sys_task_info :: "(TaskInfo \<Rightarrow> u8 list) \<Rightarrow> usize \<Rightarrow> usize \<Rightarrow> (('fs, 'i) kernel, outcome) km" where
  "sys_task_info layout time ti =
     kbind current_task_info_inner (\<lambda>info.
     let task_info = \<lparr>ti_status = Running, ti_syscall_times = syscall_times info,
                      ti_time = get_time_ms time - first_run_time info\<rparr> in
     kbind current_user_token (\<lambda>token.
     kbind (user_write token ti (layout task_info)) (\<lambda>_. kret 0)))"

definition mmap_perm :: "usize \<Rightarrow> MapPermission" where
  "mmap_perm port =
     (let perm = MP_U;
          perm = (if port AND 1 = 1 then perm OR MP_R else perm);
          perm = (if port AND 2 = 2 then perm OR MP_W else perm)
      in if port AND 4 = 4 then perm OR MP_X else perm)"

definition sys_mmap :: "usize \<Rightarrow> usize \<Rightarrow> usize \<Rightarrow> (('fs, 'i) kernel, outcome) km" where
  "sys_mmap start len port =
     (if port AND 7 = 0 \<or> port AND NOT 7 \<noteq> 0 \<or> start AND (PAGE_SIZE - 1) \<noteq> 0 then kret (- 1)
      else
        let start_va = va_from_usize start; end_va = va_from_usize (start + len); perm = mmap_perm port in
        kbind (klift (MapArea_new start_va end_va Framed perm)) (\<lambda>area.
        kbind current_user_token (\<lambda>token.
        kbind (kget (\<lambda>k. check_map_area_mapping (mem (k_mm k)) token area)) (\<lambda>r.
        kbind (klift r) (\<lambda>mapped.
        if mapped then kret (- 1)
        else kbind (mapping_address_space_for_current_task start_va end_va perm) (\<lambda>_. kret 0))))))"

definition sys_munmap :: "usize \<Rightarrow> usize \<Rightarrow> (('fs, 'i) kernel, outcome) km" where
  "sys_munmap start len =
     (if start mod PAGE_SIZE \<noteq> 0 then kret (- 1)
      else
        let start_va = va_from_usize start; end_va = va_from_usize (start + len) in
        kbind (klift (MapArea_new start_va end_va Framed MP_U)) (\<lambda>area.
        kbind current_user_token (\<lambda>token.
        kbind (kget (\<lambda>k. check_map_area_unmapping (mem (k_mm k)) token area)) (\<lambda>r.
        kbind (klift r) (\<lambda>unmapped.
        if unmapped then kret (- 1)
        else kbind (unmapping_address_space_for_current_task start_va end_va) (\<lambda>_. kret 0))))))"

definition sys_fork :: "('fs, 'i) env \<Rightarrow> (('fs, 'i) kernel, outcome) km" where
  "sys_fork e =
     kbind current_handle (\<lambda>h.
     kbind (task_fork e h) (\<lambda>c.
     kbind (deref_task c) (\<lambda>t.
     kbind (write_mem_u64 (word_at (get_trap_cx t) 10) 0) (\<lambda>_.
     kbind (add_task c) (\<lambda>_.
     kret (get_pid t))))))"

text \<open>\<^verbatim>\<open>open_file(name, RDONLY)\<close> and \<^verbatim>\<open>read_all\<close> of the file, which is closed again.\<close>

definition load_app :: "('fs, 'i) env \<Rightarrow> u8 list \<Rightarrow> (('fs, 'i) kernel, u8 list option) km" where
  "load_app e name =
     kbind (kget (\<lambda>k. open_file (env_efs e) name OF_RDONLY (disk (k_fs k)))) (\<lambda>(r, d).
     kbind (kmodify (\<lambda>k. k\<lparr>k_fs := (k_fs k)\<lparr>disk := d\<rparr>\<rparr>)) (\<lambda>_.
     case r of
       None \<Rightarrow> kreturn None
     | Some f \<Rightarrow> (case read_all (env_efs e) d f of
           None \<Rightarrow> kpanic Hang
         | Some (data, _) \<Rightarrow> kreturn (Some data))))"

definition sys_exec :: "('fs, 'i) env \<Rightarrow> usize \<Rightarrow> (('fs, 'i) kernel, outcome) km" where
  "sys_exec e path =
     kbind current_user_token (\<lambda>token.
     kbind (user_str token path) (\<lambda>name.
     kbind (load_app e name) (\<lambda>r. case r of
       None \<Rightarrow> kret (- 1)
     | Some data \<Rightarrow> kbind current_handle (\<lambda>h. kbind (task_exec e h data) (\<lambda>_. kret 0)))))"

definition sys_spawn :: "('fs, 'i) env \<Rightarrow> usize \<Rightarrow> (('fs, 'i) kernel, outcome) km" where
  "sys_spawn e path =
     kbind current_user_token (\<lambda>token.
     kbind (user_str token path) (\<lambda>name.
     kbind (load_app e name) (\<lambda>r. case r of
       None \<Rightarrow> kret (- 1)
     | Some data \<Rightarrow>
         kbind current_handle (\<lambda>h.
         kbind (task_spwan e h data) (\<lambda>c.
         kbind (deref_task c) (\<lambda>t.
         kbind (add_task c) (\<lambda>_. kret (get_pid t))))))))"

text \<open>
  An older version of the call, which nothing calls. It makes the task first and puts it under its parent
  afterwards; what \<^verbatim>\<open>dump_metadata\<close> prints is left out.
\<close>

definition sys_spawn1 :: "('fs, 'i) env \<Rightarrow> usize \<Rightarrow> (('fs, 'i) kernel, outcome) km" where
  "sys_spawn1 e path =
     kbind current_user_token (\<lambda>token.
     kbind (user_str token path) (\<lambda>path_name.
     kbind (load_app e path_name) (\<lambda>r. case r of
       None \<Rightarrow> kret (- 1)
     | Some elf_data \<Rightarrow>
         if length elf_data = 0 then kret (- 1)
         else
           kbind (TaskControlBlock_new e elf_data) (\<lambda>new.
           kbind (new_task new) (\<lambda>c.
           kbind current_handle (\<lambda>h.
           kbind (deref_task c) (\<lambda>t.
           kbind (set_task c (t\<lparr>t_parent := Some h\<rparr>)) (\<lambda>_.
           kbind (deref_task h) (\<lambda>parent.
           kbind (set_task h (parent\<lparr>t_child := vec_push (t_child parent) c\<rparr>)) (\<lambda>_.
           kbind (add_task c) (\<lambda>_. kret (get_pid new))))))))))))"

text \<open>
  \<open>sys_waitpid\<close>: the child found is taken out of the list, nothing else may refer to it, and it is dropped when
  the call returns. The predicates dereference each child in order.
\<close>

definition child_blocks :: "nat list \<Rightarrow> (('fs, 'i) kernel, TaskControlBlock list) km" where
  "child_blocks hs = for_loop hs (\<lambda>h acc. kbind (deref_task h) (\<lambda>t. kreturn (acc @ [t]))) []"

definition write_mem_u32 :: "usize \<Rightarrow> u32 \<Rightarrow> (('fs, 'i) kernel, unit) km" where
  "write_mem_u32 a v = kmodify (\<lambda>k. k\<lparr>k_mm := (k_mm k)\<lparr>mem := write_bytes (mem (k_mm k)) a (u32_bytes v)\<rparr>\<rparr>)"

definition sys_waitpid :: "isize \<Rightarrow> usize \<Rightarrow> (('fs, 'i) kernel, outcome) km" where
  "sys_waitpid pid exit_code_ptr =
     kbind current_handle (\<lambda>h.
     kbind (deref_task h) (\<lambda>t.
     kbind (child_blocks (t_child t)) (\<lambda>cs.
     if \<not> list_ex (\<lambda>c. get_pid c = pid \<or> pid = - 1) cs then kret (- 1)
     else (case find_index (\<lambda>c. is_zombie c \<and> (pid = - 1 \<or> get_pid c = pid)) cs of
         None \<Rightarrow> kret (- 2)
       | Some idx \<Rightarrow>
           kbind (set_task h (t\<lparr>t_child := vec_remove idx (t_child t)\<rparr>)) (\<lambda>_.
           kbind (kget (\<lambda>k. strong_count k (t_child t ! idx) + 1)) (\<lambda>n.
           kbind (kassert AssertFailed (n = 1)) (\<lambda>_.
           let child = cs ! idx in
           kbind (kget (\<lambda>k. translated_refmut (mem (k_mm k)) (get_user_token t) exit_code_ptr)) (\<lambda>r.
           kbind (klift r) (\<lambda>pa.
           kbind (write_mem_u32 pa (exit_code child)) (\<lambda>_.
           kbind (kget next_task) (\<lambda>fuel.
           kbind (drop_task fuel (t_child t ! idx)) (\<lambda>_.
           kret (get_pid child)))))))))))))"

definition sys_sbrk :: "i32 \<Rightarrow> (('fs, 'i) kernel, outcome) km" where
  "sys_sbrk sz =
     kbind current_handle (\<lambda>h.
     kbind (change_program_brk h sz) (\<lambda>r. case r of Some old_brk \<Rightarrow> kret old_brk | None \<Rightarrow> kret (- 1)))"

definition sys_getpid :: "(('fs, 'i) kernel, outcome) km" where
  "sys_getpid = kbind current_block (\<lambda>t. kret (get_pid t))"

definition sys_set_prio :: "isize \<Rightarrow> (('fs, 'i) kernel, outcome) km" where
  "sys_set_prio prio =
     (if sint prio \<le> 1 then kret (- 1)
      else
        kbind current_handle (\<lambda>h.
        kbind (deref_task h) (\<lambda>t.
        kbind (set_task h (t\<lparr>t_prio := prio\<rparr>)) (\<lambda>_. kret prio))))"

section \<open>Files\<close>

text \<open>The entry of a descriptor: \<open>None\<close> when it is out of range or free.\<close>

definition fd_entry :: "File option list \<Rightarrow> usize \<Rightarrow> File option" where
  "fd_entry fds fd = (if unat fd \<ge> length fds then None else fds ! unat fd)"

definition sys_write :: "('fs, 'i) env \<Rightarrow> usize \<Rightarrow> usize \<Rightarrow> usize \<Rightarrow> (('fs, 'i) kernel, outcome) km" where
  "sys_write e fd buf len =
     kbind current_user_token (\<lambda>token.
     kbind current_block (\<lambda>t. case fd_entry (fd_table t) fd of
       None \<Rightarrow> kret (- 1)
     | Some f \<Rightarrow>
         kbind (user_buffer token buf len) (\<lambda>ub.
         kbind (kget (\<lambda>k. file_write (env_efs e) f ub (mem (k_mm k), k_fs k))) (\<lambda>r.
         kbind (klift r) (\<lambda>(n, m, fs).
         kbind (kmodify (\<lambda>k. k\<lparr>k_mm := (k_mm k)\<lparr>mem := m\<rparr>, k_fs := fs\<rparr>)) (\<lambda>_. kret n))))))"

text \<open>A read that finds no character suspends the task inside \<open>Stdin::read\<close>.\<close>

definition file_read_step :: "('fs, 'i) env \<Rightarrow> usize \<Rightarrow> File \<Rightarrow> UserBuffer \<Rightarrow> (('fs, 'i) kernel, outcome) km" where
  "file_read_step e c f ub =
     kbind (kget (\<lambda>k. file_read (env_efs e) c f ub (mem (k_mm k), k_fs k))) (\<lambda>r.
     kbind (klift r) (\<lambda>(n, m, fs).
     kbind (kmodify (\<lambda>k. k\<lparr>k_mm := (k_mm k)\<lparr>mem := m\<rparr>, k_fs := fs\<rparr>)) (\<lambda>_.
     case n of
       Some n \<Rightarrow> kret n
     | None \<Rightarrow> kbind (suspend_current_and_run_next (InStdin ub)) (\<lambda>_. kreturn Switched))))"

definition sys_read :: "('fs, 'i) env \<Rightarrow> usize \<Rightarrow> usize \<Rightarrow> usize \<Rightarrow> usize \<Rightarrow> (('fs, 'i) kernel, outcome) km" where
  "sys_read e c fd buf len =
     kbind current_user_token (\<lambda>token.
     kbind current_block (\<lambda>t. case fd_entry (fd_table t) fd of
       None \<Rightarrow> kret (- 1)
     | Some f \<Rightarrow> kbind (user_buffer token buf len) (file_read_step e c f)))"

definition sys_open :: "('fs, 'i) env \<Rightarrow> usize \<Rightarrow> u32 \<Rightarrow> (('fs, 'i) kernel, outcome) km" where
  "sys_open e path flags =
     kbind current_handle (\<lambda>h.
     kbind current_user_token (\<lambda>token.
     kbind (user_str token path) (\<lambda>name.
     kbind (kunwrap UnwrapNone (OpenFlags_from_bits flags)) (\<lambda>fl.
     kbind (kget (\<lambda>k. open_file (env_efs e) name fl (disk (k_fs k)))) (\<lambda>(r, d).
     kbind (kmodify (\<lambda>k. k\<lparr>k_fs := (k_fs k)\<lparr>disk := d\<rparr>\<rparr>)) (\<lambda>_.
     case r of
       None \<Rightarrow> kret (- 1)
     | Some inode \<Rightarrow>
         kbind (kget (\<lambda>k. length (os_inodes (k_fs k)))) (\<lambda>a.
         kbind (kmodify (\<lambda>k. k\<lparr>k_fs := (k_fs k)\<lparr>os_inodes := os_inodes (k_fs k) @ [inode]\<rparr>\<rparr>)) (\<lambda>_.
         kbind (deref_task h) (\<lambda>t.
         let (fd, fds) = alloc_fd (fd_table t) in
         kbind (set_task h (t\<lparr>fd_table := fds[fd := Some (OSFile a)]\<rparr>)) (\<lambda>_. kret (of_nat fd)))))))))))"

definition sys_close :: "usize \<Rightarrow> (('fs, 'i) kernel, outcome) km" where
  "sys_close fd =
     kbind current_handle (\<lambda>h.
     kbind (deref_task h) (\<lambda>t.
     if unat fd \<ge> length (fd_table t) then kret (- 1)
     else if fd_table t ! unat fd = None then kret (- 1)
     else kbind (set_task h (t\<lparr>fd_table := (fd_table t)[unat fd := None]\<rparr>)) (\<lambda>_. kret 0)))"

definition sys_fstat :: "('fs, 'i) env \<Rightarrow> usize \<Rightarrow> usize \<Rightarrow> (('fs, 'i) kernel, outcome) km" where
  "sys_fstat e fd st =
     kbind current_block (\<lambda>t.
     if unat fd \<ge> length (fd_table t) \<or> fd_table t ! unat fd = None then kret (- 1)
     else
       kbind current_user_token (\<lambda>token.
       kbind (kunwrap UnwrapNone (fd_table t ! unat fd)) (\<lambda>f.
       kbind (kget (\<lambda>k. file_get_stat (env_efs e) f (k_fs k))) (\<lambda>r.
       kbind (klift r) (\<lambda>stat.
       kbind (user_write token st (stat_bytes stat)) (\<lambda>_. kret 0))))))"

definition on_disk :: "('fs \<Rightarrow> isize \<times> 'fs) \<Rightarrow> (('fs, 'i) kernel, outcome) km" where
  "on_disk f =
     kbind (kget (\<lambda>k. f (disk (k_fs k)))) (\<lambda>(v, d).
     kbind (kmodify (\<lambda>k. k\<lparr>k_fs := (k_fs k)\<lparr>disk := d\<rparr>\<rparr>)) (\<lambda>_. kret v))"

definition sys_linkat :: "('fs, 'i) env \<Rightarrow> usize \<Rightarrow> usize \<Rightarrow> (('fs, 'i) kernel, outcome) km" where
  "sys_linkat e old_path new_path =
     kbind current_user_token (\<lambda>token.
     kbind (user_str token old_path) (\<lambda>old_name.
     kbind (user_str token new_path) (\<lambda>new_name.
     if old_name = new_name then kret (- 1)
     else on_disk (root_linkat (env_efs e) old_name new_name))))"

definition sys_unlinkat :: "('fs, 'i) env \<Rightarrow> usize \<Rightarrow> (('fs, 'i) kernel, outcome) km" where
  "sys_unlinkat e path =
     kbind current_user_token (\<lambda>token.
     kbind (user_str token path) (\<lambda>name. on_disk (root_unlinkat (env_efs e) name)))"

section \<open>The dispatcher\<close>

definition SYSCALL_UNLINKAT :: usize where "SYSCALL_UNLINKAT = 35"
definition SYSCALL_LINKAT :: usize where "SYSCALL_LINKAT = 37"
definition SYSCALL_OPEN :: usize where "SYSCALL_OPEN = 56"
definition SYSCALL_CLOSE :: usize where "SYSCALL_CLOSE = 57"
definition SYSCALL_READ :: usize where "SYSCALL_READ = 63"
definition SYSCALL_WRITE :: usize where "SYSCALL_WRITE = 64"
definition SYSCALL_FSTAT :: usize where "SYSCALL_FSTAT = 80"
definition SYSCALL_EXIT :: usize where "SYSCALL_EXIT = 93"
definition SYSCALL_YIELD :: usize where "SYSCALL_YIELD = 124"
definition SYSCALL_SET_PRIO :: usize where "SYSCALL_SET_PRIO = 140"
definition SYSCALL_GET_TIME :: usize where "SYSCALL_GET_TIME = 169"
definition SYSCALL_GETPID :: usize where "SYSCALL_GETPID = 172"
definition SYSCALL_SBRK :: usize where "SYSCALL_SBRK = 214"
definition SYSCALL_MUNMAP :: usize where "SYSCALL_MUNMAP = 215"
definition SYSCALL_FORK :: usize where "SYSCALL_FORK = 220"
definition SYSCALL_EXEC :: usize where "SYSCALL_EXEC = 221"
definition SYSCALL_MMAP :: usize where "SYSCALL_MMAP = 222"
definition SYSCALL_WAITPID :: usize where "SYSCALL_WAITPID = 260"
definition SYSCALL_TASK_INFO :: usize where "SYSCALL_TASK_INFO = 410"
definition SYSCALL_SPAWN :: usize where "SYSCALL_SPAWN = 400"

lemmas syscall_ids = SYSCALL_UNLINKAT_def SYSCALL_LINKAT_def SYSCALL_OPEN_def SYSCALL_CLOSE_def SYSCALL_READ_def
  SYSCALL_WRITE_def SYSCALL_FSTAT_def SYSCALL_EXIT_def SYSCALL_YIELD_def SYSCALL_SET_PRIO_def SYSCALL_GET_TIME_def
  SYSCALL_GETPID_def SYSCALL_SBRK_def SYSCALL_MUNMAP_def SYSCALL_FORK_def SYSCALL_EXEC_def SYSCALL_MMAP_def
  SYSCALL_WAITPID_def SYSCALL_TASK_INFO_def SYSCALL_SPAWN_def

definition syscall ::
    "('fs, 'i) env \<Rightarrow> (TaskInfo \<Rightarrow> u8 list) \<Rightarrow> hw \<Rightarrow> usize \<Rightarrow> usize list \<Rightarrow> (('fs, 'i) kernel, outcome) km" where
  "syscall e layout w syscall_id args =
     kbind (update_current_task_syscall_times syscall_id) (\<lambda>_.
     if syscall_id = SYSCALL_LINKAT then sys_linkat e (args ! 1) (args ! 3)
     else if syscall_id = SYSCALL_UNLINKAT then sys_unlinkat e (args ! 1)
     else if syscall_id = SYSCALL_FSTAT then sys_fstat e (args ! 0) (args ! 1)
     else if syscall_id = SYSCALL_OPEN then sys_open e (args ! 1) (ucast (args ! 2))
     else if syscall_id = SYSCALL_CLOSE then sys_close (args ! 0)
     else if syscall_id = SYSCALL_READ then sys_read e (hw_char w) (args ! 0) (args ! 1) (args ! 2)
     else if syscall_id = SYSCALL_WRITE then sys_write e (args ! 0) (args ! 1) (args ! 2)
     else if syscall_id = SYSCALL_EXIT then sys_exit (ucast (args ! 0))
     else if syscall_id = SYSCALL_YIELD then sys_yield
     else if syscall_id = SYSCALL_GETPID then sys_getpid
     else if syscall_id = SYSCALL_GET_TIME then sys_get_time (hw_time w) (args ! 0)
     else if syscall_id = SYSCALL_TASK_INFO then sys_task_info layout (hw_time w) (args ! 0)
     else if syscall_id = SYSCALL_MUNMAP then sys_munmap (args ! 0) (args ! 1)
     else if syscall_id = SYSCALL_MMAP then sys_mmap (args ! 0) (args ! 1) (args ! 2)
     else if syscall_id = SYSCALL_FORK then sys_fork e
     else if syscall_id = SYSCALL_EXEC then sys_exec e (args ! 0)
     else if syscall_id = SYSCALL_WAITPID then sys_waitpid (args ! 0) (args ! 1)
     else if syscall_id = SYSCALL_SBRK then sys_sbrk (ucast (args ! 0))
     else if syscall_id = SYSCALL_SPAWN then sys_spawn e (args ! 0)
     else if syscall_id = SYSCALL_SET_PRIO then sys_set_prio (args ! 0)
     else kpanic ExplicitPanic)"

end
