(* ===== verification/Kernel_Tree.thy ===== *)
theory Kernel_Tree
  imports Scheduler_Ops Syscall
begin

text \<open>
  The shape of the task tree. Every task but \<open>INITPROC\<close> is in the list of children of its parent and nowhere
  else, an exited task has no children, and the ready queue and the processor hold exactly the tasks that
  are ready and running. The lemmas carry this over each way in which the kernel changes the tree: a task
  is created, suspended, run, exits (its children go to \<open>INITPROC\<close>) or is reaped by its parent.
\<close>

section \<open>The tree\<close>

type_synonym tasks = "nat \<rightharpoonup> TaskControlBlock"

definition kids :: "tasks \<Rightarrow> nat \<Rightarrow> nat list" where
  "kids T h = (case T h of None \<Rightarrow> [] | Some t \<Rightarrow> t_child t)"

definition par :: "tasks \<Rightarrow> nat \<Rightarrow> nat option" where
  "par T h = (case T h of None \<Rightarrow> None | Some t \<Rightarrow> t_parent t)"

definition status :: "tasks \<Rightarrow> nat \<Rightarrow> TaskStatus option" where
  "status T h = map_option task_status (T h)"

definition prio :: "tasks \<Rightarrow> nat \<Rightarrow> usize option" where
  "prio T h = map_option t_prio (T h)"

lemma tree_view_upd [simp]:
  "kids (T(h \<mapsto> t)) g = (if g = h then t_child t else kids T g)"
  "par (T(h \<mapsto> t)) g = (if g = h then t_parent t else par T g)"
  "status (T(h \<mapsto> t)) g = (if g = h then Some (task_status t) else status T g)"
  "prio (T(h \<mapsto> t)) g = (if g = h then Some (t_prio t) else prio T g)"
  "kids (T(h := None)) g = (if g = h then [] else kids T g)"
  "par (T(h := None)) g = (if g = h then None else par T g)"
  "status (T(h := None)) g = (if g = h then None else status T g)"
  "prio (T(h := None)) g = (if g = h then None else prio T g)"
  by (simp_all add: kids_def par_def status_def prio_def)

lemma tree_view_Some:
  "T h = Some t \<Longrightarrow> kids T h = t_child t" "T h = Some t \<Longrightarrow> par T h = t_parent t"
  "T h = Some t \<Longrightarrow> status T h = Some (task_status t)" "T h = Some t \<Longrightarrow> prio T h = Some (t_prio t)"
  by (simp_all add: kids_def par_def status_def prio_def)

lemma tree_view_None:
  "status T h = None \<longleftrightarrow> T h = None" "T h = None \<Longrightarrow> kids T h = []" "T h = None \<Longrightarrow> par T h = None" "T h = None \<Longrightarrow> prio T h = None"
  by (simp_all add: kids_def par_def status_def prio_def)

text \<open>A child is younger than its parent: its handle is larger, so the tree has no cycles.\<close>

definition tree_inv :: "tasks \<Rightarrow> nat \<Rightarrow> nat \<Rightarrow> bool" where
  "tree_inv T n ip \<longleftrightarrow> (\<forall>h. status T h \<noteq> None \<longrightarrow> ip \<le> h \<and> h < n) \<and> status T ip \<noteq> None \<and> status T ip \<noteq> Some Zombie \<and>
     (\<forall>h. status T h \<noteq> Some UnInit) \<and> (\<forall>h. prio T h \<noteq> Some 0) \<and>
     (\<forall>h. distinct (kids T h)) \<and> (\<forall>h. status T h = Some Zombie \<longrightarrow> kids T h = []) \<and>
     (\<forall>g h. g \<in> set (kids T h) \<longleftrightarrow> status T g \<noteq> None \<and> g \<noteq> ip \<and> par T g = Some h) \<and>
     (\<forall>g. status T g \<noteq> None \<longrightarrow> g \<noteq> ip \<longrightarrow> (\<exists>h < g. par T g = Some h))"

definition sched_inv :: "tasks \<Rightarrow> nat list \<Rightarrow> nat option \<Rightarrow> bool" where
  "sched_inv T q c \<longleftrightarrow> distinct q \<and> (\<forall>h. h \<in> set q \<longleftrightarrow> status T h = Some Ready) \<and>
     (\<forall>h. status T h = Some Running \<longleftrightarrow> c = Some h)"

lemma sched_invD:
  assumes "sched_inv T q c"
  shows "distinct q" "\<And>h. h \<in> set q \<longleftrightarrow> status T h = Some Ready" "\<And>h. status T h = Some Running \<longleftrightarrow> c = Some h"
  using assms unfolding sched_inv_def by simp_all

lemma sched_invI:
  assumes "distinct q" "\<And>h. h \<in> set q \<longleftrightarrow> status T h = Some Ready" "\<And>h. status T h = Some Running \<longleftrightarrow> c = Some h"
  shows "sched_inv T q c"
  using assms unfolding sched_inv_def by simp

lemma tree_invD:
  assumes "tree_inv T n ip"
  shows "\<And>h. status T h \<noteq> None \<Longrightarrow> ip \<le> h \<and> h < n" "status T ip \<noteq> None" "status T ip \<noteq> Some Zombie"
    "\<And>h. status T h \<noteq> Some UnInit" "\<And>h. prio T h \<noteq> Some 0"
    "\<And>h. distinct (kids T h)" "\<And>h. status T h = Some Zombie \<Longrightarrow> kids T h = []"
    "\<And>g h. g \<in> set (kids T h) \<longleftrightarrow> status T g \<noteq> None \<and> g \<noteq> ip \<and> par T g = Some h"
    "\<And>g. status T g \<noteq> None \<Longrightarrow> g \<noteq> ip \<Longrightarrow> \<exists>h < g. par T g = Some h"
  using assms unfolding tree_inv_def by auto

lemma tree_invI:
  assumes "\<And>h. status T h \<noteq> None \<Longrightarrow> ip \<le> h \<and> h < n" "status T ip \<noteq> None" "status T ip \<noteq> Some Zombie"
    "\<And>h. status T h \<noteq> Some UnInit" "\<And>h. prio T h \<noteq> Some 0"
    "\<And>h. distinct (kids T h)" "\<And>h. status T h = Some Zombie \<Longrightarrow> kids T h = []"
    "\<And>g h. g \<in> set (kids T h) \<longleftrightarrow> status T g \<noteq> None \<and> g \<noteq> ip \<and> par T g = Some h"
    "\<And>g. status T g \<noteq> None \<Longrightarrow> g \<noteq> ip \<Longrightarrow> \<exists>h < g. par T g = Some h"
  shows "tree_inv T n ip"
  using assms unfolding tree_inv_def by simp

lemma kids_younger:
  assumes "tree_inv T n ip" "g \<in> set (kids T h)"
  shows "h < g"
proof -
  have "status T g \<noteq> None" "g \<noteq> ip" "par T g = Some h" using tree_invD(8)[OF assms(1)] assms(2) by blast+
  then show ?thesis using tree_invD(9)[OF assms(1), of g] by auto
qed

section \<open>Changes\<close>

text \<open>Everything else in a block may change, and the status as long as the task does not exit.\<close>

lemma tree_inv_update:
  assumes inv: "tree_inv T n ip" and t: "T h = Some t"
    and same: "t_child t' = t_child t" "t_parent t' = t_parent t" "t_prio t' \<noteq> 0" "task_status t' \<noteq> UnInit"
      "task_status t' = Zombie \<longleftrightarrow> task_status t = Zombie"
  shows "tree_inv (T(h \<mapsto> t')) n ip"
proof -
  note i = tree_invD[OF inv] note v = tree_view_Some[of T h, OF t]
  let ?T = "T(h \<mapsto> t')"
  have k: "kids ?T = kids T" "par ?T = par T" "\<And>g. status ?T g = None \<longleftrightarrow> status T g = None"
    "\<And>g. status ?T g = Some Zombie \<longleftrightarrow> status T g = Some Zombie"
    using same v t by (auto simp: fun_eq_iff)
  have "status ?T g \<noteq> Some UnInit" "prio ?T g \<noteq> Some 0" for g using i(4,5)[of g] same by auto
  then show ?thesis by (intro tree_invI) (simp_all only: k, simp_all add: i del: tree_view_upd)
qed

lemma tree_inv_create:
  assumes inv: "tree_inv T n ip" and t: "T h = Some t" "task_status t \<noteq> Zombie"
    and c: "t_child c = []" "t_parent c = Some h" "t_prio c \<noteq> 0" "task_status c = Ready"
  shows "tree_inv (T(n \<mapsto> c, h \<mapsto> t\<lparr>t_child := t_child t @ [n]\<rparr>)) (Suc n) ip"
proof -
  note i = tree_invD[OF inv] note v = tree_view_Some[of T h, OF t(1)]
  let ?T = "T(n \<mapsto> c, h \<mapsto> t\<lparr>t_child := t_child t @ [n]\<rparr>)"
  have n: "status T n = None" "h < n" "ip < n" "ip \<le> h"
    using i(1)[of n] i(1)[of h] i(1)[OF i(2)] v by (cases "status T n"; simp)+
  have k: "kids ?T g = (if g = h then kids T h @ [n] else kids T g)" "par ?T g = (if g = n then Some h else par T g)"
    "status ?T g = (if g = n then Some Ready else status T g)" "prio ?T g = (if g = n then Some (t_prio c) else prio T g)" for g
    using n v c t tree_view_None(1-2)[of T n] by auto
  have nk: "n \<notin> set (kids T g)" for g using i(8)[of n g] n by simp
  show ?thesis
  proof (rule tree_invI, goal_cases)
    case (1 g)
    then show ?case using i(1)[of g] n(3) unfolding k by (auto split: if_splits)
  next
    case (6 g)
    then show ?case using i(6)[of g] i(6)[of h] nk unfolding k by auto
  next
    case (7 g)
    then show ?case using i(7)[of g] v t(2) unfolding k by (auto split: if_splits)
  next
    case (8 g f)
    then show ?case using i(8)[of g f] i(8)[of g h] n nk unfolding k by auto
  next
    case (9 g)
    then show ?case using i(9)[of g] n unfolding k by (auto split: if_splits)
  qed (use i(2,3,4,5) n c(3) k in auto)
qed

lemma tree_inv_reap:
  assumes inv: "tree_inv T n ip" and t: "T h = Some t" and c: "i < length (t_child t)" "status T (t_child t ! i) = Some Zombie"
  shows "tree_inv (T(h \<mapsto> t\<lparr>t_child := vec_remove i (t_child t)\<rparr>, t_child t ! i := None)) n ip"
proof -
  note i = tree_invD[OF inv] note v = tree_view_Some[of T h, OF t]
  let ?c = "t_child t ! i" let ?T = "T(h \<mapsto> t\<lparr>t_child := vec_remove i (t_child t)\<rparr>, ?c := None)"
  have split: "t_child t = take i (t_child t) @ ?c # drop (Suc i) (t_child t)" using c(1) by (rule id_take_nth_drop)
  have "distinct (take i (t_child t) @ ?c # drop (Suc i) (t_child t))" using i(6)[of h] v split by simp
  then have rem: "set (vec_remove i (t_child t)) = set (t_child t) - {?c}" "distinct (vec_remove i (t_child t))"
    using arg_cong[OF split, of set] by (auto simp: vec_remove_def)
  have cin: "?c \<in> set (kids T h)" using v c(1) by simp
  then have ch: "h < ?c" "?c \<noteq> ip" "par T ?c = Some h" using kids_younger[OF inv cin] i(8)[of ?c h] by auto
  have nokids: "kids T ?c = []" using i(7)[OF c(2)] .
  have k: "kids ?T g = (if g = h then vec_remove i (t_child t) else kids T g)" "par ?T g = (if g = ?c then None else par T g)"
    "status ?T g = (if g = ?c then None else status T g)" "prio ?T g = (if g = ?c then None else prio T g)" for g
    using v ch nokids t by auto
  show ?thesis
  proof (rule tree_invI, goal_cases)
    case (6 g)
    then show ?case using i(6)[of g] rem(2) unfolding k by simp
  next
    case (7 g)
    then have z: "status T g = Some Zombie" unfolding k by (simp split: if_splits)
    moreover have "g \<noteq> h" using i(7)[OF z] cin by auto
    ultimately show ?case unfolding k using i(7) by simp
  next
    case (8 g f)
    then show ?case using i(8)[of g f] rem(1) ch v(1) unfolding k by (cases "f = h"; cases "g = ?c") simp_all
  next
    case (9 g)
    then show ?case using i(9)[of g] unfolding k by (auto split: if_splits)
  qed (use i(1,2,3,4,5) ch in \<open>auto simp only: k split: if_splits\<close>)
qed

text \<open>The state of one task changes, and with it its place.\<close>

lemma sched_inv_change:
  assumes inv: "sched_inv T q c" and T': "\<And>g. status T' g = (if g = h then st else status T g)"
    and q': "distinct q'" "\<And>g. g \<noteq> h \<Longrightarrow> g \<in> set q' \<longleftrightarrow> g \<in> set q" "h \<in> set q' \<longleftrightarrow> st = Some Ready"
    and c': "\<And>g. g \<noteq> h \<Longrightarrow> c' = Some g \<longleftrightarrow> c = Some g" "c' = Some h \<longleftrightarrow> st = Some Running"
  shows "sched_inv T' q' c'"
proof (rule sched_invI)
  note i = sched_invD[OF inv]
  show "g \<in> set q' \<longleftrightarrow> status T' g = Some Ready" for g
    using i(2)[of g] q'(2)[of g] q'(3) by (cases "g = h") (simp_all add: T')
  show "status T' g = Some Running \<longleftrightarrow> c' = Some g" for g
    using i(3)[of g] c'(1)[of g] c'(2) by (cases "g = h") (simp_all add: T')
qed (fact q'(1))

lemma sched_inv_update:
  assumes "sched_inv T q c" "T h = Some t" "task_status t' = task_status t"
  shows "sched_inv (T(h \<mapsto> t')) q c"
proof -
  have "status (T(h \<mapsto> t')) = status T" using assms(3) tree_view_Some(3)[of T h t, OF assms(2)] by (simp add: fun_eq_iff)
  then show ?thesis using assms(1) unfolding sched_inv_def by simp
qed

lemma sched_inv_create:
  assumes inv: "sched_inv T q c" and n: "T n = None" and t: "task_status t = Ready"
  shows "sched_inv (T(n \<mapsto> t)) (q @ [n]) c"
proof -
  have "status T n = None" using n by (simp add: status_def)
  then have "n \<notin> set q" "c \<noteq> Some n" using sched_invD(2,3)[OF inv, of n] by simp_all
  then show ?thesis using sched_invD(1)[OF inv] t by (intro sched_inv_change[OF inv, where h = n]) auto
qed

lemma sched_inv_suspend:
  assumes inv: "sched_inv T q (Some h)" and t: "task_status t = Ready"
  shows "sched_inv (T(h \<mapsto> t)) (q @ [h]) None"
proof -
  have "h \<notin> set q" using sched_invD(2,3)[OF inv, of h] by auto
  then show ?thesis using sched_invD(1)[OF inv] t by (intro sched_inv_change[OF inv, where h = h]) auto
qed

lemma sched_inv_exit:
  assumes inv: "sched_inv T q (Some h)" and t: "task_status t = Zombie"
  shows "sched_inv (T(h \<mapsto> t)) q None"
proof -
  have "h \<notin> set q" using sched_invD(2,3)[OF inv, of h] by auto
  then show ?thesis using sched_invD(1)[OF inv] t by (intro sched_inv_change[OF inv, where h = h]) auto
qed

lemma sched_inv_run:
  assumes inv: "sched_inv T q None" and i: "i < length q" and t: "task_status t = Running"
  shows "sched_inv (T(q ! i \<mapsto> t)) (vec_remove i q) (Some (q ! i))"
proof -
  have q: "q = take i q @ q ! i # drop (Suc i) q" using i by (rule id_take_nth_drop)
  have d: "distinct q" using sched_invD(1)[OF inv] .
  then have d': "distinct (take i q @ q ! i # drop (Suc i) q)" using q by simp
  have "set (vec_remove i q) = set q - {q ! i}" "distinct (vec_remove i q)"
    using d' arg_cong[OF q, of set] by (auto simp: vec_remove_def)
  then show ?thesis using t by (intro sched_inv_change[OF inv, where h = "q ! i"]) auto
qed

lemma sched_inv_reap:
  assumes inv: "sched_inv T q c" and z: "status T h = Some Zombie"
  shows "sched_inv (T(h := None)) q c"
proof -
  have "h \<notin> set q" "c \<noteq> Some h" using sched_invD(2,3)[OF inv, of h] z by auto
  then show ?thesis using sched_invD(1)[OF inv] by (intro sched_inv_change[OF inv, where h = h]) auto
qed

section \<open>Exit\<close>

text \<open>The tasks \<open>cs\<close> become children of \<open>ip\<close>.\<close>

definition adopted :: "nat \<Rightarrow> nat list \<Rightarrow> tasks \<Rightarrow> tasks" where
  "adopted ip cs T = (\<lambda>g. if g = ip then map_option (\<lambda>t. t\<lparr>t_child := t_child t @ cs\<rparr>) (T ip)
     else if g \<in> set cs then map_option (\<lambda>t. t\<lparr>t_parent := Some ip\<rparr>) (T g) else T g)"

lemma adopted_view:
  assumes "status T ip \<noteq> None" "ip \<notin> set cs" "\<forall>c \<in> set cs. status T c \<noteq> None"
  shows "kids (adopted ip cs T) g = (if g = ip then kids T ip @ cs else kids T g)"
    "par (adopted ip cs T) g = (if g \<in> set cs then Some ip else par T g)"
    "status (adopted ip cs T) g = status T g" "prio (adopted ip cs T) g = prio T g"
  using assms by (auto simp: adopted_def kids_def par_def status_def prio_def map_option_case split: option.splits)

lemma tree_inv_exit:
  assumes inv: "tree_inv T n ip" and t: "T h = Some t" "task_status t \<noteq> Zombie" and h: "h \<noteq> ip"
    and t': "t_child t' = []" "t_parent t' = t_parent t" "t_prio t' = t_prio t" "task_status t' = Zombie"
  shows "tree_inv ((adopted ip (t_child t) T)(h \<mapsto> t')) n ip"
proof -
  note i = tree_invD[OF inv] note v = tree_view_Some[of T h, OF t(1)]
  let ?T = "(adopted ip (t_child t) T)(h \<mapsto> t')"
  have cs: "ip \<notin> set (t_child t)" "\<forall>c \<in> set (t_child t). status T c \<noteq> None" "h \<notin> set (t_child t)" "distinct (t_child t)"
    using i(8)[of _ h] v kids_younger[OF inv, of h h] i(6)[of h] by auto
  note a = adopted_view[OF i(2) cs(1,2)]
  have k: "kids ?T g = (if g = h then [] else if g = ip then kids T ip @ t_child t else kids T g)"
    "par ?T g = (if g \<in> set (t_child t) then Some ip else par T g)"
    "status ?T g = (if g = h then Some Zombie else status T g)" "prio ?T g = prio T g" for g
    using a t t' v cs by auto
  show ?thesis
  proof (rule tree_invI, goal_cases)
    case (1 g)
    then show ?case using i(1)[of g] v unfolding k by (auto split: if_splits)
  next
    case (6 g)
    then show ?case using i(6)[of g] i(8)[of _ ip] i(8)[of _ h] cs(4) v h unfolding k by auto
  next
    case (7 g)
    then show ?case using i(3) i(7)[of g] h unfolding k by (auto split: if_splits)
  next
    case (8 g f)
    then show ?case using i(8)[of g f] i(8)[of g h] i(8)[of g ip] cs v h unfolding k by auto
  next
    case (9 g)
    then show ?case using i(1)[of g] i(9)[of g] v unfolding k by (auto simp: le_less split: if_splits)
  qed (use i(2,3,4,5) h in \<open>auto simp only: k split: if_splits\<close>)
qed

lemma sched_inv_adopted:
  assumes "sched_inv T q c" "status T ip \<noteq> None" "ip \<notin> set cs" "\<forall>c \<in> set cs. status T c \<noteq> None"
  shows "sched_inv (adopted ip cs T) q c"
  using assms(1) adopted_view(3)[OF assms(2-4)] unfolding sched_inv_def by simp

end
