(* ===== verification/Kernel_Inv.thy ===== *)
theory Kernel_Inv
  imports Kernel_Tree
begin

text \<open>
  The invariant of the whole kernel, in three parts: the frames are divided among the address spaces
  of the kernel and of the tasks, which are all well formed (\<open>mem_inv\<close>); every task has an identifier and
  a kernel stack of its own (\<open>stack_inv\<close>); and the tasks form a tree under \<open>INITPROC\<close>, of which the ready queue and
  the processor hold exactly the ones that can run (\<open>tree_inv\<close>). Each part comes with the rules that carry it
  over a step of one task while the others stay as they are.
\<close>

section \<open>Rules for the state\<close>

lemma wp_with_mm [wp_rules]: "wp (with_mm c) Q E = (\<lambda>k. wp c (\<lambda>a s. Q a (k\<lparr>k_mm := s\<rparr>)) E (k_mm k))"
  by (auto simp: wp_def with_mm_def fun_eq_iff split: sum.splits)

lemma wp_deref_task: "TASKS k h = Some t \<Longrightarrow> wp (deref_task h) Q E k = Q t k"
  by (simp add: deref_task_def wp_rules)

lemma wp_set_task [wp_rules]: "wp (set_task h t) Q E = (\<lambda>k. Q () (k\<lparr>TASKS := (TASKS k)(h \<mapsto> t)\<rparr>))"
  by (simp add: set_task_def wp_rules)

lemma wp_new_task [wp_rules]:
  "wp (new_task t) Q E = (\<lambda>k. Q (next_task k) (k\<lparr>TASKS := (TASKS k)(next_task k \<mapsto> t), next_task := Suc (next_task k)\<rparr>))"
  by (simp add: new_task_def wp_rules)

lemma wp_write_mem_u64 [wp_rules]:
  "wp (write_mem_u64 a v) Q E = (\<lambda>k. Q () (k\<lparr>k_mm := (k_mm k)\<lparr>mem := write_u64 (mem (k_mm k)) a v\<rparr>\<rparr>))"
  by (simp add: write_mem_u64_def wp_rules)

section \<open>Address spaces\<close>

definition trap_cx_vpn :: VirtPageNum where
  "trap_cx_vpn = VirtPageNum 0x7fffffe"

text \<open>The trap context of a task lies in a frame of its own address space.\<close>

definition cx_area :: "MemorySet \<Rightarrow> PhysPageNum \<Rightarrow> bool" where
  "cx_area ms p \<longleftrightarrow> (\<exists>a \<in> set (areas ms). trap_cx_vpn \<in> set (area_vpns a) \<and> area_frame a trap_cx_vpn = p)"

abbreviation t_owned :: "TaskControlBlock \<Rightarrow> PhysPageNum set" where
  "t_owned t \<equiv> ms_owned (memory_set t)"

text \<open>An exited task has given back its data and keeps only its page tables.\<close>

definition space_inv :: "usize \<Rightarrow> linker_symbols \<Rightarrow> mm_state \<Rightarrow> TaskControlBlock \<Rightarrow> bool" where
  "space_inv l ld s t \<longleftrightarrow>
     (if task_status t = Zombie then areas (memory_set t) = [] \<and> pt_inv l s (page_table (memory_set t))
      else ms_inv l s (tramp ld) (memory_set t) \<and> (\<forall>a \<in> set (areas (memory_set t)). map_type a = Framed) \<and>
        cx_area (memory_set t) (trap_cx_ppn t))"

text \<open>
  The frames that can be allocated are fewer than \<open>2^25\<close> and lie above the kernel's image, in which the
  trampoline is.
\<close>

definition layout_ok :: "usize \<Rightarrow> linker_symbols \<Rightarrow> mm_state \<Rightarrow> bool" where
  "layout_ok l ld s \<longleftrightarrow> ld_ok ld \<and> 0 < l \<and> ppn_val (pte_ppn (trampoline_entry ld)) < l \<and>
     card (live l s) + avail s \<le> 2 ^ 25"

lemma layout_ok_step:
  assumes "layout_ok l ld s" and own: "own_step l s Own s' Own'"
  shows "layout_ok l ld s'"
proof -
  have d: "Own \<subseteq> live l s" "Own' \<inter> (live l s - Own) = {}" "live l s' = (live l s - Own) \<union> Own'"
      "avail s + card Own = avail s' + card Own'" "finite (live l s)"
    using own finite_live by (auto simp: own_step_def)
  have fin: "finite Own" "finite Own'" using own_step_finite[OF own] by blast+
  have "card (live l s') = card (live l s - Own) + card Own'"
    unfolding d(3) using d(2,5) fin by (intro card_Un_disjoint) auto
  moreover have "card (live l s) = card (live l s - Own) + card Own"
    using card_Diff_subset[OF fin(1) d(1)] card_mono[OF d(5,1)] by simp
  ultimately show ?thesis using assms(1) d(4) by (simp add: layout_ok_def)
qed

definition mem_inv :: "usize \<Rightarrow> linker_symbols \<Rightarrow> mm_state \<Rightarrow> MemorySet \<Rightarrow> (nat \<rightharpoonup> TaskControlBlock) \<Rightarrow> bool" where
  "mem_inv l ld s ks T \<longleftrightarrow> layout_ok l ld s \<and> ms_inv l s (tramp ld) ks \<and>
     (\<forall>h t. T h = Some t \<longrightarrow> space_inv l ld s t \<and> t_owned t \<inter> ms_owned ks = {}) \<and>
     (\<forall>h t h' t'. T h = Some t \<longrightarrow> T h' = Some t' \<longrightarrow> h \<noteq> h' \<longrightarrow> t_owned t \<inter> t_owned t' = {})"

lemma mem_invD:
  assumes "mem_inv l ld s ks T"
  shows "mm_inv l s" "ms_inv l s (tramp ld) ks" "\<And>h t. T h = Some t \<Longrightarrow> space_inv l ld s t"
    "\<And>h t. T h = Some t \<Longrightarrow> t_owned t \<inter> ms_owned ks = {}"
    "\<And>h t h' t'. T h = Some t \<Longrightarrow> T h' = Some t' \<Longrightarrow> h \<noteq> h' \<Longrightarrow> t_owned t \<inter> t_owned t' = {}"
    "layout_ok l ld s"
  using assms ms_invD(1) unfolding mem_inv_def by blast+

lemma space_inv_live:
  assumes "space_inv l ld s t"
  shows "t_owned t \<subseteq> live l s"
proof (cases "task_status t = Zombie")
  case True
  then show ?thesis using assms by (auto simp: space_inv_def ms_owned_def pt_inv_def)
next
  case False
  then show ?thesis using assms ms_owned_live[of l s "tramp ld" "memory_set t"] by (simp add: space_inv_def)
qed

lemma space_inv_frame:
  assumes sp: "space_inv l ld s t" and own: "own_step l s Own s' Own'" and disj: "t_owned t \<inter> Own = {}"
  shows "space_inv l ld s' t" "t_owned t \<inter> Own' = {}"
proof -
  note f = own_step_frame[OF own space_inv_live[OF sp] disj]
  show "t_owned t \<inter> Own' = {}" by (fact f(3))
  show "space_inv l ld s' t"
  proof (cases "task_status t = Zombie")
    case True
    have "same_pages (pt_owned (page_table (memory_set t))) (mem s) (mem s')"
      using same_pages_mono[OF f(2)] by (simp add: ms_owned_def)
    then show ?thesis using sp True pt_inv_cong[of l s _ s'] f(4) by (auto simp: space_inv_def ms_owned_def)
  next
    case False
    then show ?thesis using sp ms_inv_frame(1)[OF _ own disj] by (auto simp: space_inv_def)
  qed
qed

lemma mem_inv_task_step:
  assumes inv: "mem_inv l ld s ks T" and t: "T h = Some t" and own: "own_step l s (t_owned t) s' (t_owned t')"
    and sp: "space_inv l ld s' t'"
  shows "mem_inv l ld s' ks (T(h \<mapsto> t'))"
proof -
  note i = mem_invD[OF inv]
  have ks: "ms_owned ks \<inter> t_owned t = {}" using i(4)[OF t] by blast
  note k = ms_inv_frame[OF i(2) own ks]
  have other: "space_inv l ld s' u" "t_owned u \<inter> t_owned t' = {}" if "T g = Some u" "g \<noteq> h" for g u
    using space_inv_frame[OF i(3)[OF that(1)] own i(5)[OF that(1) t that(2)]] by blast+
  show ?thesis unfolding mem_inv_def
  proof (intro conjI allI impI)
    fix g u assume "(T(h \<mapsto> t')) g = Some u"
    then show "space_inv l ld s' u" "t_owned u \<inter> ms_owned ks = {}"
      using sp k(3) other(1) i(4) by (auto split: if_splits)
  next
    fix g u g' u' assume "(T(h \<mapsto> t')) g = Some u" "(T(h \<mapsto> t')) g' = Some u'" "g \<noteq> g'"
    then show "t_owned u \<inter> t_owned u' = {}"
      using other(2)[of g u] other(2)[of g' u'] i(5)[of g u g' u'] by (auto split: if_splits)
  qed (fact layout_ok_step[OF i(6) own] k(1))+
qed

lemma mem_inv_new_task:
  assumes inv: "mem_inv l ld s ks T" and h: "T h = None" and own: "own_step l s {} s' (t_owned t)"
    and sp: "space_inv l ld s' t"
  shows "mem_inv l ld s' ks (T(h \<mapsto> t))"
proof -
  note i = mem_invD[OF inv]
  note k = ms_inv_frame[OF i(2) own, simplified]
  have other: "space_inv l ld s' u" "t_owned u \<inter> t_owned t = {}" if "T g = Some u" for g u
    using space_inv_frame[OF i(3)[OF that] own] by auto
  show ?thesis unfolding mem_inv_def
  proof (intro conjI allI impI)
    fix g u assume "(T(h \<mapsto> t)) g = Some u"
    then show "space_inv l ld s' u" "t_owned u \<inter> ms_owned ks = {}"
      using sp k(3) other(1) i(4) by (auto split: if_splits)
  next
    fix g u g' u' assume "(T(h \<mapsto> t)) g = Some u" "(T(h \<mapsto> t)) g' = Some u'" "g \<noteq> g'"
    then show "t_owned u \<inter> t_owned u' = {}"
      using other(2)[of g u] other(2)[of g' u'] i(5)[of g u g' u'] by (auto split: if_splits)
  qed (fact layout_ok_step[OF i(6) own] k(1))+
qed

lemma mem_inv_drop_task:
  assumes inv: "mem_inv l ld s ks T" and t: "T h = Some t" and own: "own_step l s (t_owned t) s' {}"
  shows "mem_inv l ld s' ks (T(h := None))"
proof -
  note i = mem_invD[OF inv]
  have ks: "ms_owned ks \<inter> t_owned t = {}" using i(4)[OF t] by blast
  have other: "space_inv l ld s' u" if "T g = Some u" "g \<noteq> h" for g u
    using space_inv_frame[OF i(3)[OF that(1)] own i(5)[OF that(1) t that(2)]] by blast
  show ?thesis
    using ms_inv_frame(1)[OF i(2) own ks] layout_ok_step[OF i(6) own] other i(4,5) by (auto simp: mem_inv_def split: if_splits)
qed

lemma mem_inv_kernel_step:
  assumes inv: "mem_inv l ld s ks T" and own: "own_step l s (ms_owned ks) s' (ms_owned ks')" and ks: "ms_inv l s' (tramp ld) ks'"
  shows "mem_inv l ld s' ks' T"
proof -
  note i = mem_invD[OF inv]
  have "space_inv l ld s' t" "t_owned t \<inter> ms_owned ks' = {}" if "T h = Some t" for h t
    using space_inv_frame[OF i(3)[OF that] own i(4)[OF that]] by blast+
  then show ?thesis using ks i(5) layout_ok_step[OF i(6) own] unfolding mem_inv_def by blast
qed

text \<open>Fields of a block that have nothing to do with its address space.\<close>

lemma mem_inv_cong_task:
  assumes "mem_inv l ld s ks T" "T h = Some t" "memory_set t' = memory_set t" "trap_cx_ppn t' = trap_cx_ppn t"
    and "task_status t' = Zombie \<longleftrightarrow> task_status t = Zombie"
  shows "mem_inv l ld s ks (T(h \<mapsto> t'))"
proof (rule mem_inv_task_step[OF assms(1,2)])
  note i = mem_invD[OF assms(1)]
  show "own_step l s (t_owned t) s (t_owned t')"
    using own_step_refl[OF i(1) space_inv_live[OF i(3)[OF assms(2)]]] assms(3) by simp
  show "space_inv l ld s t'" using i(3)[OF assms(2)] assms(3-5) by (simp add: space_inv_def)
qed

text \<open>Writing to the data of a task, and to its trap context in particular.\<close>

lemma ms_inv_write:
  assumes inv: "ms_inv l s extra ms" and same: "same_pages (pt_owned (page_table ms)) (mem s) m'"
  shows "ms_inv l (s\<lparr>mem := m'\<rparr>) extra ms"
proof -
  note i = ms_invD[OF inv]
  have lv: "live l (s\<lparr>mem := m'\<rparr>) = live l s" "mm_inv l (s\<lparr>mem := m'\<rparr>) = mm_inv l s" by (simp_all add: live_def mm_inv_def)
  have "pt_inv l (s\<lparr>mem := m'\<rparr>) (page_table ms)"
    using pt_inv_cong[OF i(2), of "s\<lparr>mem := m'\<rparr>"] same i(2) lv by (simp add: pt_inv_def)
  then show ?thesis using i lv pt_abs_cong[OF i(2) same] unfolding ms_inv_def by simp
qed

lemma mem_inv_write:
  assumes inv: "mem_inv l ld s ks T" and t: "T h = Some t"
    and D: "D \<subseteq> set (areas_ppns (areas (memory_set t)))" and same: "same_pages (live l s - D) (mem s) m'"
  shows "mem_inv l ld (s\<lparr>mem := m'\<rparr>) ks T"
proof -
  note i = mem_invD[OF inv]
  let ?s = "s\<lparr>mem := m'\<rparr>" and ?ms = "memory_set t"
  have lv: "live l ?s = live l s" "mm_inv l ?s = mm_inv l s" "avail ?s = avail s"
    by (simp_all add: live_def mm_inv_def avail_def)
  have "D \<subseteq> t_owned t" using D by (auto simp: ms_owned_def)
  then have own: "own_step l s (t_owned t) ?s (t_owned t)"
    using i(1) space_inv_live[OF i(3)[OF t]] same_pages_mono[OF same, of "live l s - t_owned t"]
    by (auto simp: own_step_def lv)
  have "space_inv l ld ?s t"
  proof (cases "task_status t = Zombie")
    case True
    then have "D = {}" "pt_inv l s (page_table ?ms)" using i(3)[OF t] D by (auto simp: space_inv_def)
    then have "same_pages (pt_owned (page_table ?ms)) (mem s) m'"
      using same_pages_mono[OF same] by (auto simp: pt_inv_def)
    then show ?thesis using i(3)[OF t] True pt_inv_cong[of l s _ ?s] lv by (auto simp: space_inv_def pt_inv_def)
  next
    case False
    then have ms: "ms_inv l s (tramp ld) ?ms" using i(3)[OF t] by (simp add: space_inv_def)
    have "pt_owned (page_table ?ms) \<subseteq> live l s - D" using ms_invD(2,5)[OF ms] D by (auto simp: pt_inv_def)
    then have "ms_inv l ?s (tramp ld) ?ms" using ms_inv_write[OF ms same_pages_mono[OF same]] by blast
    then show ?thesis using i(3)[OF t] False by (simp add: space_inv_def)
  qed
  from mem_inv_task_step[OF inv t own this] t show ?thesis by (simp add: fun_upd_idem)
qed

lemma store_words_page:
  assumes "page_ok p" "k + length vs \<le> 512"
  shows "page_ok q \<Longrightarrow> q \<noteq> p \<Longrightarrow> page_eq m (store_words m (word_at (push_bit 12 p) k) vs) q"
  using assms(2)
proof (induction vs arbitrary: m k)
  case (Cons v vs)
  have k: "unat (of_nat k :: usize) < 512" using Cons.prems by (simp add: unat_of_nat take_bit_nat_eq_self)
  have "word_at (push_bit 12 p) k = pte_at p (of_nat k)" by (simp add: word_at_def pte_at_def)
  then have 1: "page_eq m (write_u64 m (word_at (push_bit 12 p) k) v) q"
    using page_eq_sym[OF page_eq_write_u64[OF assms(1) Cons.prems(1) k]] Cons.prems(2) by metis
  have nxt: "word_at (push_bit 12 p) k + 8 = word_at (push_bit 12 p) (Suc k)" by (simp add: word_at_def algebra_simps)
  show ?case
    using page_eq_trans[OF 1 Cons.IH[of "Suc k"]] Cons.prems by (simp add: nxt)
qed simp

lemma same_pages_store_words:
  assumes "mm_inv l s" "p \<in> live l s" "k + length vs \<le> 512"
  shows "same_pages (live l s - {p}) m (store_words m (word_at (pa_val (pa_from_ppn p)) k) vs)"
proof -
  have "page_eq m (store_words m (word_at (push_bit 12 (ppn_val p)) k) vs) (ppn_val q)" if "q \<in> live l s - {p}" for q
  proof (rule store_words_page[OF live_page_ok[OF assms(1,2)] assms(3)])
    show "page_ok (ppn_val q)" "ppn_val q \<noteq> ppn_val p"
      using live_page_ok[OF assms(1), of q] that by (auto simp: newtype_eq_iff)
  qed
  then show ?thesis by (simp add: same_pages_def pa_from_ppn_def PAGE_SIZE_BITS_def)
qed

lemma same_pages_write_word:
  assumes "mm_inv l s" "p \<in> live l s" "k < 512"
  shows "same_pages (live l s - {p}) m (write_u64 m (word_at (pa_val (pa_from_ppn p)) k) v)"
  using same_pages_store_words[OF assms(1,2), of k "[v]"] assms(3) by simp

lemma cx_frame:
  assumes inv: "mem_inv l ld s ks T" and t: "T h = Some t" "task_status t \<noteq> Zombie"
  shows "trap_cx_ppn t \<in> set (areas_ppns (areas (memory_set t)))" "trap_cx_ppn t \<in> live l s"
proof -
  have sp: "ms_inv l s (tramp ld) (memory_set t)" "\<forall>a \<in> set (areas (memory_set t)). map_type a = Framed"
      "cx_area (memory_set t) (trap_cx_ppn t)"
    using mem_invD(3)[OF inv t(1)] t(2) by (simp_all add: space_inv_def)
  then obtain a where a: "a \<in> set (areas (memory_set t))" "trap_cx_vpn \<in> set (area_vpns a)" "area_frame a trap_cx_vpn = trap_cx_ppn t"
    by (auto simp: cx_area_def)
  have "trap_cx_ppn t \<in> set (area_ppns a)" using ms_area_frames(1)[OF sp(1) a(1)] sp(2) a by (auto dest: imageI)
  then show in_areas: "trap_cx_ppn t \<in> set (areas_ppns (areas (memory_set t)))" using a(1) by (auto simp: areas_ppns_def)
  then show "trap_cx_ppn t \<in> live l s" using ms_invD(4)[OF sp(1)] by blast
qed

section \<open>Identifiers and kernel stacks\<close>

definition stack_range :: "usize \<Rightarrow> VPNRange" where
  "stack_range p = (let (lo, hi) = kernel_stack_position p in va_span (va_from_usize lo) (va_from_usize hi))"

lemma stack_range_vpns:
  assumes "unat p < 2 ^ 25"
  shows "unat (vpn_val (range_l (stack_range p))) = 2 ^ 27 - 3 - 3 * unat p"
    "unat (vpn_val (range_r (stack_range p))) = 2 ^ 27 - 1 - 3 * unat p"
proof -
  obtain lo hi where k: "kernel_stack_position p = (lo, hi)" by fastforce
  note v = kernel_stack_vas[OF assms k]
  have "unat (va_val (va_from_usize lo)) = (2 ^ 27 - 3 - 3 * unat p) * 4096"
    unfolding v using assms by simp
  then show "unat (vpn_val (range_l (stack_range p))) = 2 ^ 27 - 3 - 3 * unat p"
    by (simp add: stack_range_def k unat_VirtAddr_floor)
  have hi: "unat (va_val (va_from_usize hi)) = (2 ^ 27 - 1 - 3 * unat p) * 4096"
    unfolding v using assms by simp
  moreover have "(n * 4096 + 4095) div 4096 = n" for n :: nat by simp
  ultimately show "unat (vpn_val (range_r (stack_range p))) = 2 ^ 27 - 1 - 3 * unat p"
    using assms by (simp add: stack_range_def k unat_VirtAddr_ceil)
qed

lemma stack_range_wf: "unat p < 2 ^ 25 \<Longrightarrow> range_wf (stack_range p)"
  using stack_range_vpns[of p] by (auto simp: range_wf_def less_eq_VirtPageNum_def word_le_nat_alt)

lemma stack_range_mem:
  assumes "unat p < 2 ^ 25"
  shows "v \<in> set (vpns_of (stack_range p)) \<longleftrightarrow>
    2 ^ 27 - 3 - 3 * unat p \<le> unat (vpn_val v) \<and> unat (vpn_val v) < 2 ^ 27 - 1 - 3 * unat p"
  using set_vpns_of[of "stack_range p" v] stack_range_wf[OF assms] stack_range_vpns[OF assms]
  by (simp add: range_wf_def less_eq_VirtPageNum_def less_VirtPageNum_def word_le_nat_alt word_less_nat_alt)

lemma stack_range_disjoint:
  assumes "unat p < 2 ^ 25" "unat q < 2 ^ 25" "p \<noteq> q"
  shows "set (vpns_of (stack_range p)) \<inter> set (vpns_of (stack_range q)) = {}"
    "range_l (stack_range p) \<noteq> range_l (stack_range q)"
proof -
  have "unat p \<noteq> unat q" using assms(3) by (simp add: word_unat_eq_iff)
  then have "unat p < unat q \<or> unat q < unat p" by auto
  then show "set (vpns_of (stack_range p)) \<inter> set (vpns_of (stack_range q)) = {}"
    using assms(1,2) by (auto simp: stack_range_mem)
  show "range_l (stack_range p) \<noteq> range_l (stack_range q)"
    using stack_range_vpns(1)[OF assms(1)] stack_range_vpns(1)[OF assms(2)] \<open>unat p \<noteq> unat q\<close> assms(1,2) by auto
qed

lemma stack_range_high:
  assumes "unat p < 2 ^ 25" "v \<in> set (vpns_of (stack_range p))"
  shows "2 ^ 25 \<le> unat (vpn_val v)" "v \<noteq> trampoline_vpn"
  using assms by (auto simp: stack_range_mem trampoline_vpn_def)

text \<open>
  The areas of the kernel are those below page \<open>2^25\<close>, which it starts with, and the stacks of the tasks.
\<close>

definition low_area :: "MapArea \<Rightarrow> bool" where
  "low_area a \<longleftrightarrow> unat (vpn_val (range_l (vpn_range a))) < 2 ^ 25 \<and> unat (vpn_val (range_r (vpn_range a))) \<le> 2 ^ 25"

definition task_pids :: "(nat \<rightharpoonup> TaskControlBlock) \<Rightarrow> usize set" where
  "task_pids T = {get_pid t |t h. T h = Some t}"

definition stack_areas :: "MapArea list \<Rightarrow> usize set \<Rightarrow> bool" where
  "stack_areas as P \<longleftrightarrow> (\<forall>a \<in> set as. low_area a \<or> vpn_range a \<in> stack_range ` P) \<and>
     (\<forall>p \<in> P. \<exists>a \<in> set as. vpn_range a = stack_range p)"

definition stack_frames :: "MemorySet \<Rightarrow> usize \<Rightarrow> PhysPageNum set" where
  "stack_frames ks p = {f. \<exists>a \<in> set (areas ks). vpn_range a = stack_range p \<and> f \<in> set (area_ppns a)}"

definition pid_inv :: "PidAllocator \<Rightarrow> (nat \<rightharpoonup> TaskControlBlock) \<Rightarrow> bool" where
  "pid_inv pa T \<longleftrightarrow> pa_invar pa \<and> unat (pa_current pa) \<le> 2 ^ 25 \<and> pa_live pa = task_pids T \<and>
     (\<forall>h t. T h = Some t \<longrightarrow> kernel_stack t = KernelStack (get_pid t)) \<and>
     (\<forall>h t h' t'. T h = Some t \<longrightarrow> T h' = Some t' \<longrightarrow> get_pid t = get_pid t' \<longrightarrow> h = h')"

lemma pid_bound:
  assumes "pid_inv pa T" "p \<in> task_pids T"
  shows "unat p < 2 ^ 25"
proof -
  have "p \<in> pa_live pa" "unat (pa_current pa) \<le> 2 ^ 25" using assms by (simp_all add: pid_inv_def)
  then show ?thesis by (simp add: pa_live_def word_less_nat_alt)
qed

lemma low_area_vpns:
  assumes "low_area a" "range_wf (vpn_range a)" "v \<in> set (area_vpns a)"
  shows "unat (vpn_val v) < 2 ^ 25"
  using assms by (auto simp: low_area_def range_wf_def set_vpns_of less_VirtPageNum_def word_less_nat_alt)

lemma stack_unmapped:
  assumes inv: "ms_inv l s (tramp ld) ks" and st: "stack_areas (areas ks) P" and P: "\<forall>q \<in> P. unat q < 2 ^ 25"
    and p: "unat p < 2 ^ 25" "p \<notin> P"
  shows "set (vpns_of (stack_range p)) \<inter> dom (ms_abs (mem s) ks) = {}"
proof -
  have "v \<notin> dom (ms_abs (mem s) ks)" if v: "v \<in> set (vpns_of (stack_range p))" for v
  proof
    assume "v \<in> dom (ms_abs (mem s) ks)"
    then consider "v = trampoline_vpn" | a where "a \<in> set (areas ks)" "v \<in> set (area_vpns a)"
      using ms_dom[OF inv] by (auto simp: set_areas_vpns split: if_splits)
    then show False
    proof cases
      case 2
      then have wf: "range_wf (vpn_range a)" using ms_invD(3)[OF inv] by (simp add: areas_wf_def)
      consider "low_area a" | q where "q \<in> P" "vpn_range a = stack_range q" using st 2(1) by (auto simp: stack_areas_def)
      then show False
      proof cases
        case 1
        then show False using low_area_vpns[OF 1 wf 2(2)] stack_range_high(1)[OF p(1) v] by simp
      next
        case (2 q)
        then show False using stack_range_disjoint(1)[OF p(1), of q] P p(2) v \<open>v \<in> set (area_vpns a)\<close> by auto
      qed
    qed (use stack_range_high(2)[OF p(1) v] in simp)
  qed
  then show ?thesis by blast
qed

lemma stack_area_at:
  assumes st: "stack_areas (areas ks) P" and P: "\<forall>q \<in> P. unat q < 2 ^ 25" and p: "p \<in> P"
  shows "\<exists>i. area_at ks (range_l (stack_range p)) = Some i \<and> i < length (areas ks) \<and> vpn_range (areas ks ! i) = stack_range p"
proof -
  let ?v = "range_l (stack_range p)"
  obtain a where a: "a \<in> set (areas ks)" "vpn_range a = stack_range p" using st p by (auto simp: stack_areas_def)
  then obtain i where i: "area_at ks ?v = Some i"
    using find_index_None[of "\<lambda>a. get_start (vpn_range a) = ?v" "areas ks"] by (auto simp: get_start_def)
  note f = find_index_Some(1,2)[OF i]
  let ?b = "areas ks ! i"
  have b: "range_l (vpn_range ?b) = ?v" using f(2) by (simp add: get_start_def)
  have "?b \<in> set (areas ks)" using f(1) by simp
  then have "low_area ?b \<or> vpn_range ?b \<in> stack_range ` P" using st by (simp add: stack_areas_def)
  moreover have "\<not> low_area ?b" using stack_range_vpns(1)[of p] P p b by (auto simp: low_area_def)
  ultimately obtain q where q: "q \<in> P" "vpn_range ?b = stack_range q" by auto
  have "q = p" using stack_range_disjoint(2)[of q p] P p q b by auto
  then show ?thesis using i f(1) q(2) by blast
qed

lemma wp_pid_alloc:
  assumes inv: "pa_invar (PID_ALLOCATOR k)" and cur: "unat (pa_current (PID_ALLOCATOR k)) \<le> 2 ^ 25"
    and room: "pa_recycled (PID_ALLOCATOR k) = [] \<Longrightarrow> unat (pa_current (PID_ALLOCATOR k)) < 2 ^ 25"
    and Q: "\<And>p a. p \<notin> pa_live (PID_ALLOCATOR k) \<Longrightarrow> pa_invar a \<Longrightarrow> pa_live a = insert p (pa_live (PID_ALLOCATOR k)) \<Longrightarrow>
        unat (pa_current a) \<le> 2 ^ 25 \<Longrightarrow> unat p < 2 ^ 25 \<Longrightarrow> Q (PidHandle p) (k\<lparr>PID_ALLOCATOR := a\<rparr>)"
  shows "wp pid_alloc Q E k"
proof -
  let ?a = "PID_ALLOCATOR k"
  have nm: "pa_current ?a \<noteq> - 1"
  proof
    assume "pa_current ?a = - 1"
    then show False using cur by (simp add: unsigned_minus_1_eq_mask mask_eq_exp_minus_1)
  qed
  obtain p a where pa: "pa_alloc ?a = (PidHandle p, a)" by (metis PidHandle.exhaust surj_pair)
  have tr: "pa_try_alloc ?a = (Some p, a)" using nm pa by (simp add: pa_try_alloc_def)
  note law = pids.alloc_Some[OF inv tr]
  have "unat (pa_current a) \<le> 2 ^ 25 \<and> unat p < 2 ^ 25"
    using tr
  proof (cases rule: pa_try_alloc_SomeE)
    case (recycled rest)
    then have "p < pa_current ?a" using inv by (simp add: pa_invar_def)
    then show ?thesis using recycled cur by (simp add: word_less_nat_alt)
  next
    case fresh
    then show ?thesis using room unat_add_1_less[OF fresh(3)] by simp
  qed
  then show ?thesis using law Q[of p a] by (simp add: pid_alloc_def wp_rules pa)
qed

lemma wp_KernelStack_new:
  assumes inv: "mem_inv l ld (k_mm k) (KERNEL_SPACE k) T"
    and st: "stack_areas (areas (KERNEL_SPACE k)) P" "\<forall>q \<in> P. unat q < 2 ^ 25" and p: "unat p < 2 ^ 25" "p \<notin> P"
    and E: "avail (k_mm k) < 6 \<Longrightarrow> E OutOfFrames"
    and Q: "\<And>s ks. mem_inv l ld s ks T \<Longrightarrow> stack_areas (areas ks) (insert p P) \<Longrightarrow>
        own_step l (k_mm k) (ms_owned (KERNEL_SPACE k)) s (ms_owned ks) \<Longrightarrow> avail (k_mm k) \<le> avail s + 6 \<Longrightarrow>
        Q (KernelStack p) (k\<lparr>k_mm := s, KERNEL_SPACE := ks\<rparr>)"
  shows "wp (KernelStack_new (PidHandle p)) Q E k"
proof -
  let ?ks = "KERNEL_SPACE k"
  obtain lo hi where pos: "kernel_stack_position p = (lo, hi)" by fastforce
  have r: "va_span (va_from_usize lo) (va_from_usize hi) = stack_range p" by (simp add: stack_range_def pos)
  note ks = mem_invD(2)[OF inv]
  have free: "set (vpns_of (stack_range p)) \<inter> dom (ms_abs (mem (k_mm k)) ?ks) = {}"
    using stack_unmapped[OF ks st p] .
  have "length (vpns_of (stack_range p)) = length (map (\<lambda>v. unat (vpn_val v)) (vpns_of (stack_range p)))" by simp
  also have "\<dots> = 2"
    using map_unat_vpns_of[of "stack_range p"] stack_range_wf[OF p(1)] stack_range_vpns[OF p(1)] p(1)
    by (simp add: range_wf_def)
  finally have len: "length (vpns_of (stack_range p)) = 2" .
  have "wp (insert_framed_area ?ks (va_from_usize lo) (va_from_usize hi) (MP_R OR MP_W))
      (\<lambda>ks s. Q (KernelStack p) (k\<lparr>k_mm := s, KERNEL_SPACE := ks\<rparr>)) E (k_mm k)"
  proof (rule wp_insert_framed_area[OF ks])
    fix s ks' a
    assume m: "ms_pushed l (k_mm k) (tramp ld) ?ks \<lparr>vpn_range = va_span (va_from_usize lo) (va_from_usize hi), data_frames = [],
        map_type = Framed, map_perm = MP_R OR MP_W\<rparr> s ks' a"
    then have d: "ms_inv l s (tramp ld) ks'" "areas ks' = areas ?ks @ [a]" "own_step l (k_mm k) (ms_owned ?ks) s (ms_owned ks')"
        "avail (k_mm k) \<le> avail s + 6"
      by (simp_all add: ms_pushed_def r len)
    have "vpn_range a = stack_range p" using m unfolding ms_pushed_def r by (metis MapArea.select_convs(1) MapArea.update_convs(2))
    then have "stack_areas (areas ks') (insert p P)" using st(1) d(2) by (auto simp: stack_areas_def)
    then show "Q (KernelStack p) (k\<lparr>k_mm := s, KERNEL_SPACE := ks'\<rparr>)"
      using Q mem_inv_kernel_step[OF inv d(3,1)] d(3,4) by blast
  qed (use r free len E stack_range_wf[OF p(1)] in auto)
  then show ?thesis by (simp add: KernelStack_new_def pos wp_rules)
qed

lemma wp_drop_PidHandle:
  assumes inv: "pa_invar (PID_ALLOCATOR k)" and p: "p \<in> pa_live (PID_ALLOCATOR k)"
    and Q: "\<And>a. pa_invar a \<Longrightarrow> pa_live a = pa_live (PID_ALLOCATOR k) - {p} \<Longrightarrow> pa_current a = pa_current (PID_ALLOCATOR k) \<Longrightarrow>
        Q () (k\<lparr>PID_ALLOCATOR := a\<rparr>)"
  shows "wp (drop_PidHandle (PidHandle p)) Q E k"
proof -
  let ?a = "(PID_ALLOCATOR k)\<lparr>pa_recycled := vec_push (pa_recycled (PID_ALLOCATOR k)) p\<rparr>"
  have d: "pa_dealloc (PID_ALLOCATOR k) p = Inr ?a" using p by (simp add: pa_dealloc_eq)
  have "pa_invar ?a" "pa_live ?a = pa_live (PID_ALLOCATOR k) - {p}" using pids.dealloc_Inr[OF inv p d] by blast+
  then show ?thesis using Q[of ?a] d by (simp add: drop_PidHandle_def wp_rules)
qed

lemma stack_areas_remove:
  assumes st: "stack_areas as P" and wf: "areas_wf as" and i: "i < length as" "vpn_range (as ! i) = stack_range p"
    and P: "\<forall>q \<in> P. unat q < 2 ^ 25" and p: "p \<in> P"
  shows "stack_areas (vec_remove i as) (P - {p})" "\<And>a. a \<in> set as \<Longrightarrow> vpn_range a = stack_range p \<Longrightarrow> a = as ! i"
proof -
  let ?b = "as ! i"
  have split: "as = take i as @ ?b # drop (Suc i) as" using i(1) by (rule id_take_nth_drop)
  have "distinct (areas_vpns (take i as @ ?b # drop (Suc i) as))" using wf split by (simp add: areas_wf_def)
  then have d: "set (area_vpns ?b) \<inter> set (areas_vpns (vec_remove i as)) = {}"
    unfolding vec_remove_def areas_vpns_def by auto
  have nonempty: "range_l (stack_range p) \<in> set (vpns_of (stack_range p))"
    using stack_range_vpns[of p] P p by (auto simp: stack_range_mem)
  have sub: "set as = insert ?b (set (vec_remove i as))" by (subst split) (auto simp: vec_remove_def)
  have off: "vpn_range a \<noteq> stack_range p" if "a \<in> set (vec_remove i as)" for a
  proof
    assume "vpn_range a = stack_range p"
    then have "range_l (stack_range p) \<in> set (areas_vpns (vec_remove i as))"
      using that nonempty unfolding areas_vpns_def by (auto intro!: bexI[of _ a])
    then show False using d nonempty i(2) by (simp add: disjoint_iff)
  qed
  have ne: "stack_range q \<noteq> stack_range p" if "q \<in> P - {p}" for q
    using stack_range_disjoint(2)[of q p] P p that by auto
  have "low_area a \<or> vpn_range a \<in> stack_range ` (P - {p})" if "a \<in> set (vec_remove i as)" for a
    using st sub off[OF that] that unfolding stack_areas_def by auto
  moreover have "\<exists>a \<in> set (vec_remove i as). vpn_range a = stack_range q" if q: "q \<in> P - {p}" for q
  proof -
    obtain a where a: "a \<in> set as" "vpn_range a = stack_range q" using st q unfolding stack_areas_def by blast
    then have "a \<noteq> ?b" using ne[OF q] i(2) by auto
    then show ?thesis using a sub by blast
  qed
  ultimately show "stack_areas (vec_remove i as) (P - {p})" unfolding stack_areas_def by blast
  show "a = ?b" if "a \<in> set as" "vpn_range a = stack_range p" for a using that sub off by auto
qed

lemma wp_drop_KernelStack:
  assumes inv: "mem_inv l ld (k_mm k) (KERNEL_SPACE k) T"
    and st: "stack_areas (areas (KERNEL_SPACE k)) P" "\<forall>q \<in> P. unat q < 2 ^ 25" and p: "p \<in> P"
    and Q: "\<And>s ks. mem_inv l ld s ks T \<Longrightarrow> stack_areas (areas ks) (P - {p}) \<Longrightarrow>
        own_step l (k_mm k) (ms_owned (KERNEL_SPACE k)) s (ms_owned ks) \<Longrightarrow> live l s \<subseteq> live l (k_mm k) - stack_frames (KERNEL_SPACE k) p \<Longrightarrow>
        Q () (k\<lparr>k_mm := s, KERNEL_SPACE := ks\<rparr>)"
  shows "wp (drop_KernelStack (KernelStack p)) Q E k"
proof -
  let ?ks = "KERNEL_SPACE k"
  have lt: "unat p < 2 ^ 25" using st(2) p by blast
  obtain lo hi where pos: "kernel_stack_position p = (lo, hi)" by fastforce
  have lo: "range_l (stack_range p) = VirtAddr_floor (va_from_usize lo)" by (simp add: stack_range_def pos)
  have "unat (va_val (va_from_usize lo)) = (2 ^ 27 - 3 - 3 * unat p) * 4096"
    unfolding kernel_stack_vas(2)[OF lt pos] using lt by simp
  then have "VirtAddr_page_offset (va_from_usize lo) = 0" by (simp add: word_unat_eq_iff unat_VirtAddr_page_offset)
  then have v: "vpn_from_va (va_from_usize lo) = Inr (range_l (stack_range p))" by (simp add: vpn_from_va_def lo)
  obtain i where i: "area_at ?ks (range_l (stack_range p)) = Some i" "i < length (areas ?ks)" "vpn_range (areas ?ks ! i) = stack_range p"
    using stack_area_at[OF st p] by blast
  note ks = mem_invD(2)[OF inv]
  have "wp (remove_area_with_start_vpn ?ks (range_l (stack_range p))) (\<lambda>ks s. Q () (k\<lparr>k_mm := s, KERNEL_SPACE := ks\<rparr>)) E (k_mm k)"
  proof (rule wp_remove_area_with_start_vpn[OF ks i(1)])
    fix s ks' assume m: "ms_step l (k_mm k) (tramp ld) ?ks s ks'" "areas ks' = vec_remove i (areas ?ks)"
      "areas_removed l (k_mm k) ?ks [areas ?ks ! i] s ks'"
    note rm = stack_areas_remove[OF st(1) ms_invD(3)[OF ks] i(2,3) st(2) p]
    have "stack_areas (areas ks') (P - {p})" using rm(1) m(2) by simp
    moreover have "mem_inv l ld s ks' T" "own_step l (k_mm k) (ms_owned ?ks) s (ms_owned ks')"
      using mem_inv_kernel_step[OF inv] m(1) by (simp_all add: ms_step_def)
    moreover have "live l s \<subseteq> live l (k_mm k) - stack_frames ?ks p"
    proof -
      have split: "areas ?ks = take i (areas ?ks) @ areas ?ks ! i # drop (Suc i) (areas ?ks)" using i(2) by (rule id_take_nth_drop)
      have "distinct (areas_ppns (take i (areas ?ks) @ areas ?ks ! i # drop (Suc i) (areas ?ks)))"
        using ms_invD(3)[OF ks] split by (simp add: areas_wf_def)
      then have "set (area_ppns (areas ?ks ! i)) \<inter> set (areas_ppns (areas ks')) = {}"
        unfolding m(2) vec_remove_def areas_ppns_def by auto
      from removed_frames[OF ks m(1) _ _ this] i(2) m(3) have "set (area_ppns (areas ?ks ! i)) \<inter> live l s = {}"
        by (simp add: areas_removed_def)
      then show ?thesis using m(3) rm(2) by (auto simp: areas_removed_def stack_frames_def)
    qed
    ultimately show "Q () (k\<lparr>k_mm := s, KERNEL_SPACE := ks'\<rparr>)" using Q by blast
  qed
  then show ?thesis by (simp add: drop_KernelStack_def pos wp_rules v)
qed

lemma wp_drop_space:
  assumes sp: "space_inv l ld s t" and mm: "mm_inv l s"
    and Q: "\<And>s'. own_step l s (t_owned t) s' {} \<Longrightarrow> mem s' = mem s \<Longrightarrow> Q () s'"
  shows "wp (drop_MemorySet (memory_set t)) Q E s"
proof (cases "task_status t = Zombie")
  case False
  then show ?thesis using sp wp_drop_MemorySet[of l s "tramp ld" "memory_set t"] Q by (simp add: space_inv_def)
next
  case True
  let ?pt = "page_table (memory_set t)"
  have z: "areas (memory_set t) = []" "pt_inv l s ?pt" using sp True by (simp_all add: space_inv_def)
  have own: "t_owned t = pt_owned ?pt" by (simp add: ms_owned_def z(1) areas_ppns_def)
  have "wp (drop_PageTable ?pt) Q E s"
  proof (rule wp_drop_PageTable[OF mm z(2)])
    fix s' assume "mm_inv l s'" "live l s' = live l s - pt_owned ?pt" "avail s' = avail s + length (pt_frames ?pt)" "mem s' = mem s"
    then show "Q () s'" using Q z(2) mm card_pt_owned[OF z(2)] by (simp add: own own_step_def pt_inv_def)
  qed
  then show ?thesis by (simp add: drop_MemorySet_def z(1) drop_areas_def wp_rules)
qed

section \<open>The whole invariant\<close>

text \<open>
  A buffer of a user program, as the kernel has translated it: each piece lies in one page, which is a data
  page of the program or below the frames that can be allocated.
\<close>

definition in_page :: "PhysPageNum \<Rightarrow> slice \<Rightarrow> bool" where
  "in_page p sl \<longleftrightarrow> page_ok (ppn_val p) \<and> (\<exists>i < 4096. slice_ptr sl = paddr (ppn_val p) i \<and> i + slice_len sl \<le> 4096)"

definition pieces_ok :: "usize \<Rightarrow> PhysPageNum set \<Rightarrow> slice list \<Rightarrow> bool" where
  "pieces_ok l D sls \<longleftrightarrow> (\<forall>sl \<in> set sls. \<exists>p. (p \<in> D \<or> ppn_val p < l) \<and> in_page p sl)"

abbreviation t_data :: "TaskControlBlock \<Rightarrow> PhysPageNum set" where
  "t_data t \<equiv> set (areas_ppns (areas (memory_set t)))"

definition wait_ok :: "usize \<Rightarrow> TaskControlBlock \<Rightarrow> bool" where
  "wait_ok l t \<longleftrightarrow> (\<forall>ub. task_status t = Ready \<longrightarrow> task_cx t = Suspended (InStdin ub) \<longrightarrow> pieces_ok l (t_data t) (buffers ub))"

definition kinv :: "usize \<Rightarrow> linker_symbols \<Rightarrow> ('fs, 'i) kernel \<Rightarrow> bool" where
  "kinv l ld k \<longleftrightarrow> mem_inv l ld (k_mm k) (KERNEL_SPACE k) (TASKS k) \<and>
     stack_areas (areas (KERNEL_SPACE k)) (task_pids (TASKS k)) \<and> pid_inv (PID_ALLOCATOR k) (TASKS k) \<and>
     tree_inv (TASKS k) (next_task k) (INITPROC k) \<and> sched_inv (TASKS k) (ready_queue k) (current k) \<and>
     (\<forall>h t. TASKS k h = Some t \<longrightarrow> wait_ok l t)"

lemma kinvD:
  assumes "kinv l ld k"
  shows "mem_inv l ld (k_mm k) (KERNEL_SPACE k) (TASKS k)" "stack_areas (areas (KERNEL_SPACE k)) (task_pids (TASKS k))"
    "pid_inv (PID_ALLOCATOR k) (TASKS k)" "tree_inv (TASKS k) (next_task k) (INITPROC k)"
    "sched_inv (TASKS k) (ready_queue k) (current k)" "\<And>h t. TASKS k h = Some t \<Longrightarrow> wait_ok l t"
  using assms unfolding kinv_def by blast+

lemma kinvI:
  assumes "mem_inv l ld (k_mm k) (KERNEL_SPACE k) (TASKS k)" "stack_areas (areas (KERNEL_SPACE k)) (task_pids (TASKS k))"
    "pid_inv (PID_ALLOCATOR k) (TASKS k)" "tree_inv (TASKS k) (next_task k) (INITPROC k)"
    "sched_inv (TASKS k) (ready_queue k) (current k)" "\<And>h t. TASKS k h = Some t \<Longrightarrow> wait_ok l t"
  shows "kinv l ld k"
  using assms unfolding kinv_def by blast

lemma task_pids_eq: "task_pids T = {p. \<exists>h. map_option get_pid (T h) = Some p}"
  unfolding task_pids_def by auto

lemma task_pids_update:
  assumes "T h = Some t" "get_pid t' = get_pid t"
  shows "task_pids (T(h \<mapsto> t')) = task_pids T"
proof -
  have "map_option get_pid ((T(h \<mapsto> t')) g) = map_option get_pid (T g)" for g using assms by simp
  then show ?thesis unfolding task_pids_eq by simp
qed

lemma task_pids_new:
  assumes "T n = None"
  shows "task_pids (T(n \<mapsto> t)) = insert (get_pid t) (task_pids T)"
proof (rule set_eqI)
  fix p
  have "p \<in> task_pids (T(n \<mapsto> t))" if p: "p \<in> task_pids T"
  proof -
    obtain h where h: "map_option get_pid (T h) = Some p" using p unfolding task_pids_eq by blast
    then have "h \<noteq> n" using assms by auto
    then have "map_option get_pid ((T(n \<mapsto> t)) h) = Some p" using h by simp
    then show ?thesis unfolding task_pids_eq by blast
  qed
  moreover have "map_option get_pid ((T(n \<mapsto> t)) n) = Some (get_pid t)" by simp
  then have "get_pid t \<in> task_pids (T(n \<mapsto> t))" unfolding task_pids_eq by blast
  moreover have "p = get_pid t \<or> p \<in> task_pids T" if "p \<in> task_pids (T(n \<mapsto> t))"
    using that unfolding task_pids_eq by (auto split: if_splits)
  ultimately show "p \<in> task_pids (T(n \<mapsto> t)) \<longleftrightarrow> p \<in> insert (get_pid t) (task_pids T)" by blast
qed

lemma pid_inv_update:
  assumes inv: "pid_inv pa T" and t: "T h = Some t" and same: "get_pid t' = get_pid t" "kernel_stack t' = kernel_stack t"
  shows "pid_inv pa (T(h \<mapsto> t'))"
proof -
  have "kernel_stack u = KernelStack (get_pid u)" if "(T(h \<mapsto> t')) g = Some u" for g u
    using inv t same that by (auto simp: pid_inv_def split: if_splits)
  moreover have "g = g'" if u: "(T(h \<mapsto> t')) g = Some u" "(T(h \<mapsto> t')) g' = Some u'" "get_pid u = get_pid u'" for g u g' u'
  proof -
    have "\<exists>v. T g = Some v \<and> get_pid v = get_pid u" "\<exists>v. T g' = Some v \<and> get_pid v = get_pid u'"
      using t same(1) u(1,2) by (auto split: if_splits)
    then obtain v v' where "T g = Some v" "T g' = Some v'" "get_pid v = get_pid v'" using u(3) by auto
    then show ?thesis using inv unfolding pid_inv_def by blast
  qed
  moreover have "pa_invar pa" "unat (pa_current pa) \<le> 2 ^ 25" "pa_live pa = task_pids (T(h \<mapsto> t'))"
    using inv task_pids_update[of T h t t', OF t same(1)] by (simp_all add: pid_inv_def)
  ultimately show ?thesis unfolding pid_inv_def by blast
qed

lemma kinv_pids: "kinv l ld k \<Longrightarrow> \<forall>p \<in> task_pids (TASKS k). unat p < 2 ^ 25"
  using pid_bound kinvD(3) by blast

text \<open>There are fewer tasks than frames.\<close>

lemma task_count:
  assumes inv: "mem_inv l ld s ks T" and fin: "finite (dom T)"
  shows "card (dom T) < 2 ^ 25"
proof -
  note i = mem_invD[OF inv]
  let ?r = "\<lambda>h. root_ppn (page_table (memory_set (the (T h))))"
  have r: "?r h \<in> t_owned t" if "T h = Some t" for h t
  proof -
    have "pt_inv l s (page_table (memory_set t))"
      using i(3)[OF that] ms_invD(2) by (auto simp: space_inv_def split: if_splits)
    then show ?thesis using that by (simp add: pt_inv_def ms_owned_def)
  qed
  have inj: "inj_on ?r (dom T)"
  proof (rule inj_onI, rule ccontr)
    fix g h assume a: "g \<in> dom T" "h \<in> dom T" "?r g = ?r h" "g \<noteq> h"
    then obtain t u where "T g = Some t" "T h = Some u" by blast
    then show False using r[of g t] r[of h u] i(5)[of g t h u] a(3,4) by auto
  qed
  have kr: "root_ppn (page_table ks) \<in> ms_owned ks" using ms_invD(2)[OF i(2)] by (simp add: pt_inv_def ms_owned_def)
  have "?r h \<in> live l s - {root_ppn (page_table ks)}" if h: "h \<in> dom T" for h
  proof -
    obtain t where t: "T h = Some t" using h by blast
    show ?thesis using r[OF t] space_inv_live[OF i(3)[OF t]] i(4)[OF t] kr by auto
  qed
  then have "?r ` dom T \<subseteq> live l s - {root_ppn (page_table ks)}" by (rule image_subsetI)
  then have "card (dom T) \<le> card (live l s - {root_ppn (page_table ks)})"
    using card_inj_on_le[OF inj] finite_live[OF i(1)] by simp
  also have "\<dots> < card (live l s)"
    using kr ms_owned_live[OF i(2)] finite_live[OF i(1)] by (intro card_Diff1_less) auto
  also have "\<dots> \<le> 2 ^ 25" using i(6) by (simp add: layout_ok_def)
  finally show ?thesis .
qed

lemma kinv_count: "kinv l ld k \<Longrightarrow> finite (dom (TASKS k)) \<and> card (dom (TASKS k)) < 2 ^ 25"
proof -
  assume inv: "kinv l ld k"
  have "h < next_task k" if "h \<in> dom (TASKS k)" for h
    using tree_invD(1)[OF kinvD(4)[OF inv], of h] that by (auto simp: status_def)
  then have "finite (dom (TASKS k))" by (auto intro!: finite_subset[of _ "{..<next_task k}"])
  then show ?thesis using task_count[OF kinvD(1)[OF inv]] by blast
qed

lemma pid_room:
  assumes inv: "kinv l ld k" and rec: "pa_recycled (PID_ALLOCATOR k) = []"
  shows "unat (pa_current (PID_ALLOCATOR k)) < 2 ^ 25"
proof -
  let ?c = "pa_current (PID_ALLOCATOR k)" and ?T = "TASKS k"
  have live: "{p. p < ?c} = task_pids ?T"
    using kinvD(3)[OF inv] rec by (auto simp: pid_inv_def pa_live_def)
  have "unat ` {p. p < ?c} = {..<unat ?c}"
  proof (intro equalityI subsetI)
    fix n assume n: "n \<in> {..<unat ?c}"
    then have "unat (of_nat n :: usize) = n" using unat_usize_less[of ?c] by (simp add: unat_of_nat take_bit_nat_eq_self)
    then show "n \<in> unat ` {p. p < ?c}" using n by (intro image_eqI[of _ _ "of_nat n"]) (simp_all add: word_less_nat_alt)
  qed (auto simp: word_less_nat_alt)
  then have "unat ?c = card {p. p < ?c}" using card_image[of unat "{p. p < ?c}"]
    by (simp add: inj_on_def word_unat_eq_iff)
  also have "\<dots> = card ((\<lambda>h. get_pid (the (?T h))) ` dom ?T)"
    unfolding live by (rule arg_cong[where f = card]) (force simp: task_pids_def)
  also have "\<dots> \<le> card (dom ?T)" using kinv_count[OF inv] by (intro card_image_le) blast
  also have "\<dots> < 2 ^ 25" using kinv_count[OF inv] by blast
  finally show ?thesis .
qed

text \<open>Changes to fields that no part of the invariant reads.\<close>

lemma kinv_update:
  assumes inv: "kinv l ld k" and t: "TASKS k h = Some t"
    and same: "memory_set t' = memory_set t" "trap_cx_ppn t' = trap_cx_ppn t" "t_pid t' = t_pid t" "kernel_stack t' = kernel_stack t"
      "t_child t' = t_child t" "t_parent t' = t_parent t" "task_status t' = task_status t" "task_cx t' = task_cx t" "t_prio t' \<noteq> 0"
  shows "kinv l ld (k\<lparr>TASKS := (TASKS k)(h \<mapsto> t')\<rparr>)"
proof -
  note i = kinvD[OF inv]
  have st: "task_status t \<noteq> UnInit" using tree_invD(4)[OF i(4), of h] t by (simp add: status_def)
  have pid: "get_pid t' = get_pid t" by (simp add: get_pid_def same)
  show ?thesis
  proof (rule kinvI, goal_cases)
    case 1
    then show ?case using mem_inv_cong_task[OF i(1) t] same by simp
  next
    case 2
    then show ?case using i(2) task_pids_update[of "TASKS k" h t t', OF t pid] by simp
  next
    case 3
    then show ?case using pid_inv_update[OF i(3) t pid] same by simp
  next
    case 4
    then show ?case using tree_inv_update[OF i(4) t] same st by simp
  next
    case 5
    then show ?case using sched_inv_update[OF i(5) t] same by simp
  next
    case (6 g u)
    have w: "wait_ok l t'" using i(6)[OF t] same by (simp add: wait_ok_def)
    show ?case using 6 w i(6)[of g u] by (simp split: if_splits)
  qed
qed

lemma kinv_fs: "kinv l ld (k\<lparr>k_fs := f\<rparr>) = kinv l ld k"
  by (simp add: kinv_def)

lemma kinv_write:
  assumes inv: "kinv l ld k" and t: "TASKS k h = Some t" and D: "D \<subseteq> t_data t"
    and same: "same_pages (live l (k_mm k) - D) (mem (k_mm k)) m'"
  shows "kinv l ld (k\<lparr>k_mm := (k_mm k)\<lparr>mem := m'\<rparr>\<rparr>)"
  using kinvD[OF inv] mem_inv_write[OF kinvD(1)[OF inv] t D same] by (intro kinvI) simp_all

lemma kinv_write_cx:
  assumes inv: "kinv l ld k" and t: "TASKS k h = Some t" "task_status t \<noteq> Zombie" and i: "i < 512"
  shows "kinv l ld (k\<lparr>k_mm := (k_mm k)\<lparr>mem := write_u64 (mem (k_mm k)) (word_at (get_trap_cx t) i) v\<rparr>\<rparr>)"
proof (rule kinv_write[OF inv t(1), of "{trap_cx_ppn t}"])
  note m = kinvD(1)[OF inv]
  show "{trap_cx_ppn t} \<subseteq> t_data t" using cx_frame(1)[OF m t] by simp
  show "same_pages (live l (k_mm k) - {trap_cx_ppn t}) (mem (k_mm k)) (write_u64 (mem (k_mm k)) (word_at (get_trap_cx t) i) v)"
    using same_pages_write_word[OF mem_invD(1)[OF m] cx_frame(2)[OF m t] i] by (simp add: get_trap_cx_def)
qed

end
