(* ===== verification/Kernel_User.thy ===== *)
theory Kernel_User
  imports Kernel_Inv
begin

text \<open>
  The kernel's access to user memory keeps the invariant, whatever pointer the user passes: the page that a
  user address leads to is a data page of this task, or lies below the frames that can be allocated (the
  trampoline page, and page 0 for an address without a mapping whose tables exist).
\<close>

section \<open>Where a user address leads\<close>

lemma vpn_ok_from_usize: "vpn_ok (VirtAddr_floor (va_from_usize a))"
  by (simp add: unat_VirtAddr_floor unat_from_usize)

lemma user_frame:
  assumes inv: "ms_inv l s (tramp ld) ms" and fr: "\<forall>a \<in> set (areas ms). map_type a = Framed" and lay: "layout_ok l ld s"
    and root: "root_ppn pt = root_ppn (page_table ms)"
    and v: "vpn_ok v" "pt_translate (mem s) pt v = Inr (Some e)"
  shows "pte_ppn e \<in> set (areas_ppns (areas ms)) \<or> ppn_val (pte_ppn e) < l"
proof (cases "is_valid e")
  case True
  have "pt_translate (mem s) (page_table ms) v = Inr (Some e)" using v(2) root by (simp add: pt_translate_eq)
  then have e: "ms_abs (mem s) ms v = Some e" using pt_translate_valid[OF v(1) _ True] by simp
  show ?thesis
  proof (cases "v \<in> set (areas_vpns (areas ms))")
    case False
    then have "tramp ld v = Some e" using ms_invD(7)[OF inv] e by metis
    then show ?thesis using lay by (simp add: layout_ok_def split: if_splits)
  next
    case True
    then obtain a where a: "a \<in> set (areas ms)" "v \<in> set (area_vpns a)" by (auto simp: set_areas_vpns)
    have "pte_ppn e = area_frame a v" using ms_area_frames(3)[OF inv a(1) _ a(2)] fr a(1) e by auto
    then have "pte_ppn e \<in> set (area_ppns a)" using ms_area_frames(1)[OF inv a(1)] fr a by auto
    then show ?thesis using a(1) by (auto simp: areas_ppns_def)
  qed
next
  case False
  note pt = ms_invD(2)[OF inv]
  obtain f where f: "pt_node (view (mem s)) (pt_root (page_table ms)) (take 2 (indexes v)) = Some f" "e = view (mem s) f (indexes v ! 2)"
    using v(2) root by (auto simp: pt_translate_eq)
  have "f \<in> ppn_val ` pt_owned (page_table ms)"
    using pt_treeD_mem[OF _ triples_take[OF indexes_triples] f(1)] pt by (simp add: pt_inv_def)
  then have "e = PageTableEntry 0"
    using pt False f(2) triples_nth[OF indexes_triples, of 2 v] by (auto simp: pt_inv_def pt_clean_def)
  then have "ppn_val (pte_ppn e) = 0" by (simp add: pte_ppn_def address_defs)
  then show ?thesis using lay by (simp add: layout_ok_def)
qed

lemma access_page_frame:
  assumes inv: "ms_inv l s (tramp ld) ms" "\<forall>a \<in> set (areas ms). map_type a = Framed" "layout_ok l ld s"
    and root: "root_ppn pt = root_ppn (page_table ms)"
    and a: "access_page (mem s) pt start end_addr = Inr (p, start_va, end_va)"
  shows "p \<in> set (areas_ppns (areas ms)) \<or> ppn_val p < l" "page_ok (ppn_val p)"
proof -
  obtain e where e: "pt_translate (mem s) pt (VirtAddr_floor (va_from_usize start)) = Inr (Some e)" "p = pte_ppn e"
    using a by (auto simp: access_page_def Let_def split: sum.splits option.splits)
  show "p \<in> set (areas_ppns (areas ms)) \<or> ppn_val p < l"
    using user_frame[OF inv root vpn_ok_from_usize e(1)] e(2) by simp
  show "page_ok (ppn_val p)" using pte_ppn_bound[of e] e(2) by simp
qed

lemma page_slice_in_page:
  assumes "page_slice p start_va end_va = Inr sl" "page_ok (ppn_val p)"
  shows "in_page p sl"
proof -
  let ?i = "unat (VirtAddr_page_offset start_va)"
  have i: "?i < 4096" by (simp add: unat_VirtAddr_page_offset)
  have j: "unat (VirtAddr_page_offset end_va) < 4096" by (simp add: unat_VirtAddr_page_offset)
  have ptr: "slice_ptr sl = paddr (ppn_val p) ?i" and len: "?i + slice_len sl \<le> 4096"
    using assms(1) i j
    by (auto simp: page_slice_def slice_from_def slice_range_def get_bytes_array_def pa_from_ppn_paddr paddr_def word_le_nat_alt
        split: if_splits)
  then show ?thesis using assms(2) i by (auto simp: in_page_def)
qed

lemma byte_buffer_ok:
  assumes inv: "ms_inv l s (tramp ld) ms" "\<forall>a \<in> set (areas ms). map_type a = Framed" "layout_ok l ld s"
    and root: "root_ppn pt = root_ppn (page_table ms)"
    and r: "translated_byte_buffer_loop (mem s) pt start end_addr v = Some r"
  defines "D \<equiv> set (areas_ppns (areas ms))"
  shows "pieces_ok l D v \<longrightarrow> (\<forall>sls. r = Inr sls \<longrightarrow> pieces_ok l D sls)"
proof -
  let ?P = "\<lambda>m' pt' (start :: usize) (end_addr :: usize) v r. m' = mem s \<and> pt' = pt \<and> pieces_ok l D v \<longrightarrow>
      (\<forall>sls. r = Inr sls \<longrightarrow> pieces_ok l D sls)"
  have "?P (mem s) pt start end_addr v r"
  proof (rule translated_byte_buffer_loop.raw_induct[where P = ?P, OF _ r], rule impI, elim conjE)
    fix f m' pt' start end_addr v r
    assume IH: "\<And>m' pt' start end_addr v r. f m' pt' start end_addr v = Some r \<Longrightarrow> ?P m' pt' start end_addr v r"
      and eq: "(if start < end_addr then (case access_page m' pt' start end_addr of Inl e \<Rightarrow> Some (Inl e)
        | Inr (ppn, start_va, end_va) \<Rightarrow> (case page_slice ppn start_va end_va of Inl e \<Rightarrow> Some (Inl e)
            | Inr sl \<Rightarrow> f m' pt' (va_val end_va) end_addr (v @ [sl]))) else Some (Inr v)) = Some r"
      and st: "m' = mem s" "pt' = pt" and v: "pieces_ok l D v"
    show "\<forall>sls. r = Inr sls \<longrightarrow> pieces_ok l D sls"
    proof (intro allI impI)
      fix sls assume r: "r = Inr sls"
      show "pieces_ok l D sls"
      proof (cases "start < end_addr")
        case False
        then show ?thesis using eq r v by simp
      next
        case True
        then obtain p sva eva sl where a: "access_page (mem s) pt start end_addr = Inr (p, sva, eva)" "page_slice p sva eva = Inr sl"
            "f m' pt' (va_val eva) end_addr (v @ [sl]) = Some r"
          using eq r st by (auto split: sum.splits prod.splits)
        note fr = access_page_frame[OF inv root a(1)]
        have "pieces_ok l D (v @ [sl])"
          using v fr(1) page_slice_in_page[OF a(2) fr(2)] by (auto simp: pieces_ok_def D_def)
        then show ?thesis using IH[OF a(3)] st r by blast
      qed
    qed
  qed
  then show ?thesis by blast
qed

section \<open>Writing to user memory\<close>

lemma live_above: "p \<in> live l s \<Longrightarrow> l \<le> ppn_val p"
  by (auto simp: live_def fa_live_def)

lemma layout_ok_mem [simp]: "layout_ok l ld (s\<lparr>mem := m\<rparr>) = layout_ok l ld s"
  by (simp add: layout_ok_def live_def avail_def)

lemma live_mem [simp]: "live l (s\<lparr>mem := m\<rparr>) = live l s"
  by (simp add: live_def)

lemma mm_inv_mem [simp]: "mm_inv l (s\<lparr>mem := m\<rparr>) = mm_inv l s"
  by (simp add: mm_inv_def)

text \<open>A page that a user address leads to is not a frame outside the data of the task.\<close>

lemma user_page_frame:
  assumes "p \<in> D \<or> ppn_val p < l"
  shows "ppn_val p \<notin> ppn_val ` (live l s - D)"
proof
  assume "ppn_val p \<in> ppn_val ` (live l s - D)"
  then obtain q where q: "q \<in> live l s - D" "p = q" by (auto simp: newtype_eq_iff)
  then show False using assms live_above[of q l s] by auto
qed

lemma same_pages_slice:
  assumes p: "in_page p sl" "p \<in> D \<or> ppn_val p < l" and bs: "length bs \<le> slice_len sl" and inv: "mm_inv l s"
  shows "same_pages (live l s - D) m (write_bytes m (slice_ptr sl) bs)"
proof -
  obtain i where i: "page_ok (ppn_val p)" "i < 4096" "slice_ptr sl = paddr (ppn_val p) i" "i + slice_len sl \<le> 4096"
    using p(1) by (auto simp: in_page_def)
  have "write_bytes m (slice_ptr sl) bs (paddr (ppn_val q) j) = m (paddr (ppn_val q) j)" if q: "q \<in> live l s - D" "j < 4096" for q j
  proof -
    have ne: "ppn_val p \<noteq> ppn_val q" using user_page_frame[OF p(2), of s] q(1) by (metis imageI)
    show ?thesis using write_bytes_paddr[of "ppn_val p" "ppn_val q" i bs j m] i bs q live_page_ok[OF inv, of q] ne by simp
  qed
  then show ?thesis by (simp add: same_pages_def page_eq_def)
qed

lemma write_page_same:
  assumes p: "p \<in> D \<or> ppn_val p < l" "page_ok (ppn_val p)" and js: "\<forall>i \<in> set js. i < 4096" and inv: "mm_inv l s"
    and w: "write_page_loop (slice_ptr (get_bytes_array p)) js data (m, cnt) = (m', cnt')"
  shows "same_pages (live l s - D) m m'"
proof -
  let ?xs = "map (\<lambda>i. slice_ptr (get_bytes_array p) + of_nat i) js"
  have m': "m' = write_addrs m ?xs (map data [cnt..<cnt + length js])" using w unfolding write_page_loop_eq by blast
  have "\<exists>q k. x = paddr q k \<and> k < 4096 \<and> page_ok q \<and> q \<notin> ppn_val ` (live l s - D)" if x: "x \<in> set ?xs" for x
  proof -
    obtain i where "i \<in> set js" "x = paddr (ppn_val p) i"
      using x by (auto simp: get_bytes_array_def pa_from_ppn_paddr paddr_def)
    then show ?thesis using js p(2) user_page_frame[OF p(1), of s] by blast
  qed
  then show ?thesis unfolding m' using live_page_ok[OF inv] by (intro write_addrs_same_pages) auto
qed

lemma write_loop_same:
  assumes inv: "ms_inv l s (tramp ld) ms" "\<forall>a \<in> set (areas ms). map_type a = Framed" "layout_ok l ld s"
    and root: "root_ppn pt = root_ppn (page_table ms)"
    and r: "translated_and_write_bytes_loop pt data start end_addr cnt m = Some r"
  defines "D \<equiv> set (areas_ppns (areas ms))"
  shows "same_pages (live l s - D) (mem s) m \<longrightarrow> (\<forall>m'. r = Inr m' \<longrightarrow> same_pages (live l s - D) (mem s) m')"
proof -
  let ?P = "\<lambda>pt' (data :: nat \<Rightarrow> u8) (start :: usize) (end_addr :: usize) (cnt :: nat) m r.
      pt' = pt \<and> same_pages (live l s - D) (mem s) m \<longrightarrow> (\<forall>m'. r = Inr m' \<longrightarrow> same_pages (live l s - D) (mem s) m')"
  have "?P pt data start end_addr cnt m r"
  proof (rule translated_and_write_bytes_loop.raw_induct[where P = ?P, OF _ r], intro impI allI, elim conjE)
    fix f pt' data start end_addr cnt m r m'
    assume IH: "\<And>pt' data start end_addr cnt m r. f pt' data start end_addr cnt m = Some r \<Longrightarrow> ?P pt' data start end_addr cnt m r"
      and eq: "(if start < end_addr then (case access_page m pt' start end_addr of Inl e \<Rightarrow> Some (Inl e)
         | Inr (ppn, start_va, end_va) \<Rightarrow>
             (let hi = (if VirtAddr_page_offset end_va = 0 then PAGE_SIZE else VirtAddr_page_offset end_va);
                  (m', cnt') = write_page_loop (slice_ptr (get_bytes_array ppn))
                     [unat (VirtAddr_page_offset start_va)..<unat hi] data (m, cnt)
              in f pt' data (va_val end_va) end_addr cnt' m')) else Some (Inr m)) = Some r"
      and st: "pt' = pt" "same_pages (live l s - D) (mem s) m" and r: "r = Inr m'"
    show "same_pages (live l s - D) (mem s) m'"
    proof (cases "start < end_addr")
      case False
      then show ?thesis using eq r st by simp
    next
      case True
      then obtain p sva eva m1 c1 where a: "access_page m pt start end_addr = Inr (p, sva, eva)"
          "write_page_loop (slice_ptr (get_bytes_array p)) [unat (VirtAddr_page_offset sva)..<unat (if VirtAddr_page_offset eva = 0
             then PAGE_SIZE else VirtAddr_page_offset eva)] data (m, cnt) = (m1, c1)"
          "f pt' data (va_val eva) end_addr c1 m1 = Some r"
        using eq r st by (auto simp: Let_def split: sum.splits prod.splits)
      have "pt_owned (page_table ms) \<subseteq> live l s - D" using ms_invD(2,5)[OF inv(1)] by (auto simp: D_def pt_inv_def)
      then have inv': "ms_inv l (s\<lparr>mem := m\<rparr>) (tramp ld) ms"
        using ms_inv_write[OF inv(1) same_pages_mono[OF st(2)]] by blast
      note fr = access_page_frame[OF inv' inv(2) _ root, of start end_addr p sva eva]
      have hi: "unat (if VirtAddr_page_offset eva = 0 then PAGE_SIZE else VirtAddr_page_offset eva) \<le> 4096"
        using unat_VirtAddr_page_offset[of eva] by (simp add: PAGE_SIZE_def less_imp_le)
      have "same_pages (live l s - D) m m1"
        using write_page_same[OF _ _ _ ms_invD(1)[OF inv(1)] a(2)] fr a(1) inv(3) hi by (auto simp: D_def)
      then show ?thesis using IH[OF a(3)] st r same_pages_trans by blast
    qed
  qed
  then show ?thesis by blast
qed

section \<open>The running task\<close>

text \<open>
  What a step of task \<open>h\<close> leaves alone: every other task that has not exited keeps its address space, its state and
  all the frames it owns, page tables and data, byte for byte.
\<close>

definition kept :: "nat \<Rightarrow> ('fs, 'i) kernel \<Rightarrow> ('fs, 'i) kernel \<Rightarrow> bool" where
  "kept h k k' \<longleftrightarrow> (\<forall>g u. g \<noteq> h \<longrightarrow> TASKS k g = Some u \<longrightarrow> task_status u \<noteq> Zombie \<longrightarrow>
     (\<exists>u'. TASKS k' g = Some u' \<and> memory_set u' = memory_set u \<and> trap_cx_ppn u' = trap_cx_ppn u \<and> task_status u' = task_status u) \<and>
     same_pages (t_owned u) (mem (k_mm k)) (mem (k_mm k')))"

lemma kept_refl [simp]: "kept h k k"
  by (simp add: kept_def)

lemma keptD:
  assumes "kept h k k'" "g \<noteq> h" "TASKS k g = Some u" "task_status u \<noteq> Zombie"
  obtains u' where "TASKS k' g = Some u'" "memory_set u' = memory_set u" "trap_cx_ppn u' = trap_cx_ppn u" "task_status u' = task_status u"
    "same_pages (t_owned u) (mem (k_mm k)) (mem (k_mm k'))"
  using assms unfolding kept_def by blast

lemma kept_trans:
  assumes "kept h k k1" "kept h k1 k2"
  shows "kept h k k2"
  unfolding kept_def
proof (intro allI impI)
  fix g u assume u: "g \<noteq> h" "TASKS k g = Some u" "task_status u \<noteq> Zombie"
  obtain u1 where u1: "TASKS k1 g = Some u1" "memory_set u1 = memory_set u" "trap_cx_ppn u1 = trap_cx_ppn u" "task_status u1 = task_status u"
    "same_pages (t_owned u) (mem (k_mm k)) (mem (k_mm k1))" by (rule keptD[OF assms(1) u])
  have "task_status u1 \<noteq> Zombie" using u(3) u1(4) by simp
  from keptD[OF assms(2) u(1) u1(1) this] obtain u2 where u2: "TASKS k2 g = Some u2" "memory_set u2 = memory_set u1"
    "trap_cx_ppn u2 = trap_cx_ppn u1" "task_status u2 = task_status u1" "same_pages (t_owned u1) (mem (k_mm k1)) (mem (k_mm k2))" .
  have "same_pages (t_owned u) (mem (k_mm k)) (mem (k_mm k2))" using same_pages_trans[OF u1(5)] u2(5) u1(2) by simp
  then show "(\<exists>u'. TASKS k2 g = Some u' \<and> memory_set u' = memory_set u \<and> trap_cx_ppn u' = trap_cx_ppn u \<and> task_status u' = task_status u) \<and>
      same_pages (t_owned u) (mem (k_mm k)) (mem (k_mm k2))"
    using u1(2-4) u2(1-4) by simp
qed

lemma kept_cong:
  assumes "kept h k k1" "k_mm k2 = k_mm k1" "\<And>g. g \<noteq> h \<Longrightarrow> TASKS k2 g = TASKS k1 g"
  shows "kept h k k2"
  using assms by (simp add: kept_def)

lemma kept_upd [simp]:
  "kept h k (k'\<lparr>k_fs := f\<rparr>) = kept h k k'" "kept h k (k'\<lparr>TASKS := (TASKS k')(h \<mapsto> t)\<rparr>) = kept h k k'"
  "kept h (k\<lparr>k_fs := f\<rparr>) k' = kept h k k'" "kept h (k\<lparr>TASKS := (TASKS k)(h \<mapsto> t)\<rparr>) k' = kept h k k'"
  by (simp_all add: kept_def)

lemma keptI:
  assumes inv: "kinv l ld k" and t: "TASKS k h = Some t"
    and same: "same_pages (live l (k_mm k) - (t_owned t \<union> ms_owned (KERNEL_SPACE k))) (mem (k_mm k)) (mem (k_mm k'))"
    and T: "\<And>g u. g \<noteq> h \<Longrightarrow> TASKS k g = Some u \<Longrightarrow> task_status u \<noteq> Zombie \<Longrightarrow>
      \<exists>u'. TASKS k' g = Some u' \<and> memory_set u' = memory_set u \<and> trap_cx_ppn u' = trap_cx_ppn u \<and> task_status u' = task_status u"
  shows "kept h k k'"
proof -
  note m = mem_invD[OF kinvD(1)[OF inv]]
  have "same_pages (t_owned u) (mem (k_mm k)) (mem (k_mm k'))" if "g \<noteq> h" "TASKS k g = Some u" for g u
    using same_pages_mono[OF same] space_inv_live[OF m(3)[OF that(2)]] m(4)[OF that(2)] m(5)[OF that(2) t that(1)] by blast
  then show ?thesis using T by (simp add: kept_def)
qed

lemma kept_write:
  assumes "kinv l ld k" "TASKS k h = Some t" "D \<subseteq> t_owned t" "same_pages (live l (k_mm k) - D) (mem (k_mm k)) m"
  shows "kept h k (k\<lparr>k_mm := (k_mm k)\<lparr>mem := m\<rparr>\<rparr>)"
proof (rule keptI[OF assms(1,2)])
  have "live l (k_mm k) - (t_owned t \<union> ms_owned (KERNEL_SPACE k)) \<subseteq> live l (k_mm k) - D" using assms(3) by blast
  from same_pages_mono[OF assms(4) this]
  show "same_pages (live l (k_mm k) - (t_owned t \<union> ms_owned (KERNEL_SPACE k))) (mem (k_mm k)) (mem (k_mm (k\<lparr>k_mm := (k_mm k)\<lparr>mem := m\<rparr>\<rparr>)))"
    by simp
qed simp

text \<open>
  What a system call of \<open>h\<close> leaves: the caller is still running, or it has left the processor, and the others keep
  their memory.
\<close>

definition sys_post :: "usize \<Rightarrow> linker_symbols \<Rightarrow> nat \<Rightarrow> ('fs, 'i) kernel \<Rightarrow> outcome \<Rightarrow> ('fs, 'i) kernel \<Rightarrow> bool" where
  "sys_post l ld h k r k' \<longleftrightarrow> kinv l ld k' \<and> (case r of Returned _ \<Rightarrow> current k' = Some h | Switched \<Rightarrow> current k' = None) \<and> kept h k k'"

abbreviation wlp :: "('s, 'a) km \<Rightarrow> ('a \<Rightarrow> 's \<Rightarrow> bool) \<Rightarrow> 's \<Rightarrow> bool" where
  "wlp m Q k \<equiv> wp m Q (\<lambda>_. True) k"

definition running :: "usize \<Rightarrow> linker_symbols \<Rightarrow> ('fs, 'i) kernel \<Rightarrow> nat \<Rightarrow> TaskControlBlock \<Rightarrow> bool" where
  "running l ld k h t \<longleftrightarrow> kinv l ld k \<and> current k = Some h \<and> TASKS k h = Some t"

lemma runningD:
  assumes "running l ld k h t"
  shows "kinv l ld k" "current k = Some h" "TASKS k h = Some t" "task_status t = Running"
    "ms_inv l (k_mm k) (tramp ld) (memory_set t)" "\<forall>a \<in> set (areas (memory_set t)). map_type a = Framed"
    "cx_area (memory_set t) (trap_cx_ppn t)" "layout_ok l ld (k_mm k)"
proof -
  show k: "kinv l ld k" "current k = Some h" "TASKS k h = Some t" using assms by (simp_all add: running_def)
  have "status (TASKS k) h = Some Running" using sched_invD(3)[OF kinvD(5)[OF k(1)], of h] k(2) by simp
  then show st: "task_status t = Running" using k(3) by (simp add: status_def)
  have "space_inv l ld (k_mm k) t" using mem_invD(3)[OF kinvD(1)[OF k(1)] k(3)] .
  then show "ms_inv l (k_mm k) (tramp ld) (memory_set t)" "\<forall>a \<in> set (areas (memory_set t)). map_type a = Framed"
    "cx_area (memory_set t) (trap_cx_ppn t)" using st by (simp_all add: space_inv_def)
  show "layout_ok l ld (k_mm k)" using mem_invD(6)[OF kinvD(1)[OF k(1)]] .
qed

lemma running_exists: "kinv l ld k \<Longrightarrow> current k = Some h \<Longrightarrow> \<exists>t. running l ld k h t"
  using sched_invD(3)[OF kinvD(5), of l ld k h] by (auto simp: running_def status_def)

lemma running_token:
  assumes "running l ld k h t"
  shows "root_ppn (from_token (get_user_token t)) = root_ppn (page_table (memory_set t))"
proof -
  note ms = runningD(5)[OF assms]
  have "root_ppn (page_table (memory_set t)) \<in> live l (k_mm k)" using ms_invD(2)[OF ms] by (auto simp: pt_inv_def)
  then show ?thesis
    using root_from_token live_bound[OF ms_invD(1)[OF ms]] by (simp add: get_user_token_def ms_token_def)
qed

lemma wp_current:
  assumes "running l ld k h t"
  shows "wp current_handle Q1 E k = Q1 h k" "wp current_block Q2 E k = Q2 t k"
    "wp current_user_token Q3 E k = Q3 (get_user_token t) k" "wp current_trap_cx Q3 E k = Q3 (get_trap_cx t) k"
    "wp current_task_info_inner Q4 E k = Q4 (task_info_inner t) k" "wp (deref_task h) Q2 E k = Q2 t k"
  using runningD(2,3)[OF assms]
  by (simp_all add: current_handle_def current_task_def current_block_def current_user_token_def current_trap_cx_def
      current_task_info_inner_def get_task_info_inner_def deref_task_def wp_rules)

lemma running_upd:
  assumes "running l ld k h t" "kinv l ld (k\<lparr>k_mm := s\<rparr>)"
  shows "running l ld (k\<lparr>k_mm := s\<rparr>) h t"
  using assms by (simp add: running_def)

lemma running_write:
  assumes "running l ld k h t" "same_pages (live l (k_mm k) - t_data t) (mem (k_mm k)) m"
  shows "running l ld (k\<lparr>k_mm := (k_mm k)\<lparr>mem := m\<rparr>\<rparr>) h t"
  using kinv_write[OF runningD(1,3)[OF assms(1)] subset_refl assms(2)] running_upd[OF assms(1)] by blast

lemma kept_running_write:
  assumes "running l ld k h t" "same_pages (live l (k_mm k) - t_data t) (mem (k_mm k)) m"
  shows "kept h k (k\<lparr>k_mm := (k_mm k)\<lparr>mem := m\<rparr>\<rparr>)"
  by (rule kept_write[OF runningD(1,3)[OF assms(1)] _ assms(2)]) (simp add: ms_owned_def)

lemma running_fs: "running l ld (k\<lparr>k_fs := f\<rparr>) h t = running l ld k h t"
  by (simp add: running_def kinv_fs)

lemma running_task:
  assumes "running l ld k h t" "memory_set t' = memory_set t" "trap_cx_ppn t' = trap_cx_ppn t" "t_pid t' = t_pid t"
    "kernel_stack t' = kernel_stack t" "t_child t' = t_child t" "t_parent t' = t_parent t" "task_status t' = task_status t"
    "task_cx t' = task_cx t" "t_prio t' \<noteq> 0"
  shows "running l ld (k\<lparr>TASKS := (TASKS k)(h \<mapsto> t')\<rparr>) h t'"
  using kinv_update[OF runningD(1,3)[OF assms(1)] assms(2-)] runningD(2)[OF assms(1)] by (simp add: running_def)

lemma running_prio: "running l ld k h t \<Longrightarrow> t_prio t \<noteq> 0"
  using tree_invD(5)[OF kinvD(4)[OF runningD(1)], of l ld k h t h] runningD(3)[of l ld k h t] by (auto simp: prio_def)

lemma sys_post_returned: "running l ld k' h t \<Longrightarrow> kept h k k' \<Longrightarrow> sys_post l ld h k (Returned v) k'"
  by (simp add: running_def sys_post_def)

lemma sys_post_same: "running l ld k h t \<Longrightarrow> sys_post l ld h k (Returned v) k"
  by (simp add: sys_post_returned)

lemma sys_post_trans: "sys_post l ld h k1 r k2 \<Longrightarrow> kept h k k1 \<Longrightarrow> sys_post l ld h k r k2"
  using kept_trans by (auto simp: sys_post_def)

lemma sys_post_fs: "sys_post l ld h (k\<lparr>k_fs := f\<rparr>) = sys_post l ld h k"
  by (simp add: sys_post_def fun_eq_iff)

section \<open>Access to user memory\<close>

lemma wlp_kloop: "wp (kloop r) Q (\<lambda>_. True) k \<longleftrightarrow> (\<forall>x. r = Some (Inr x) \<longrightarrow> Q x k)"
  by (auto simp: kloop_def wp_rules split: option.splits sum.splits)

lemma wlp_user_str:
  assumes "\<And>name. Q name k"
  shows "wlp (user_str token ptr) Q k"
  using assms by (simp add: user_str_def wp_rules wlp_kloop)

lemma wlp_user_write:
  assumes run: "running l ld k h t"
    and Q: "\<And>m. same_pages (live l (k_mm k) - t_data t) (mem (k_mm k)) m \<Longrightarrow>
        running l ld (k\<lparr>k_mm := (k_mm k)\<lparr>mem := m\<rparr>\<rparr>) h t \<Longrightarrow> kept h k (k\<lparr>k_mm := (k_mm k)\<lparr>mem := m\<rparr>\<rparr>) \<Longrightarrow> Q () (k\<lparr>k_mm := (k_mm k)\<lparr>mem := m\<rparr>\<rparr>)"
  shows "wlp (user_write (get_user_token t) ptr bs) Q k"
proof -
  note r = runningD[OF run]
  have "same_pages (live l (k_mm k) - t_data t) (mem (k_mm k)) m"
    if "translated_and_write_bytes (get_user_token t) ptr (\<lambda>i. bs ! i) (of_nat (length bs)) (mem (k_mm k)) = Some (Inr m)" for m
    using write_loop_same[OF r(5,6,8) running_token[OF run]] that by (simp add: translated_and_write_bytes_def)
  then show ?thesis using Q running_write[OF run] kept_running_write[OF run] by (simp add: user_write_def wp_rules wlp_kloop)
qed

lemma wlp_user_buffer:
  assumes run: "running l ld k h t"
    and Q: "\<And>ub. pieces_ok l (t_data t) (buffers ub) \<Longrightarrow> Q ub k"
  shows "wlp (user_buffer (get_user_token t) ptr len) Q k"
proof -
  note r = runningD[OF run]
  have "pieces_ok l (t_data t) sls" if "translated_byte_buffer (mem (k_mm k)) (get_user_token t) ptr len = Some (Inr sls)" for sls
    using byte_buffer_ok[OF r(5,6,8) running_token[OF run]] that by (simp add: translated_byte_buffer_def pieces_ok_def)
  then show ?thesis using Q by (simp add: user_buffer_def wp_rules wlp_kloop UserBuffer_new_def)
qed

end
