(* ===== verification/Kernel_Calls.thy ===== *)
theory Kernel_Calls
  imports Kernel_User
begin

text \<open>
  The system calls that leave the task tree and the address spaces alone keep the invariant of the kernel:
  files, time, priority, and giving up the processor.
\<close>

section \<open>Leaving the processor\<close>

lemma wp_suspend:
  assumes run: "running l ld k h t" and r: "\<And>ub. r = InStdin ub \<Longrightarrow> pieces_ok l (t_data t) (buffers ub)"
    and Q: "\<And>k'. kinv l ld k' \<Longrightarrow> current k' = None \<Longrightarrow> k' = k\<lparr>current := None,
        TASKS := (TASKS k)(h \<mapsto> t\<lparr>task_cx := Suspended r, task_status := Ready\<rparr>), ready_queue := ready_queue k @ [h]\<rparr> \<Longrightarrow> Q () k'"
  shows "wp (suspend_current_and_run_next r) Q E k"
proof -
  note i = kinvD[OF runningD(1)[OF run]] and t = runningD(2-4)[OF run]
  let ?t = "t\<lparr>task_cx := Suspended r, task_status := Ready\<rparr>"
  let ?k = "k\<lparr>current := None, TASKS := (TASKS k)(h \<mapsto> ?t), ready_queue := ready_queue k @ [h]\<rparr>"
  have "kinv l ld ?k"
  proof (rule kinvI, goal_cases)
    case 1
    then show ?case using mem_inv_cong_task[OF i(1) t(2), of ?t] t(3) by simp
  next
    case 2
    then show ?case using i(2) task_pids_update[of "TASKS k" h t ?t, OF t(2)] by (simp add: get_pid_def)
  next
    case 3
    then show ?case using pid_inv_update[OF i(3) t(2), of ?t] by (simp add: get_pid_def)
  next
    case 4
    then show ?case using tree_inv_update[OF i(4) t(2), of ?t] t(3) running_prio[OF run] by simp
  next
    case 5
    then show ?case using sched_inv_suspend[of "TASKS k" "ready_queue k" h ?t] i(5) t(1) by simp
  next
    case (6 g u)
    have "wait_ok l ?t" using r by (simp add: wait_ok_def)
    then show ?case using 6 i(6)[of g u] by (simp split: if_splits)
  qed
  then show ?thesis using Q[of ?k] t
    by (simp add: suspend_current_and_run_next_def take_current_task_def add_task_def vec_push_def wp_rules wp_deref_task)
qed

lemma kept_suspended:
  "kept h k k' \<Longrightarrow> kept h k (k'\<lparr>current := c, TASKS := (TASKS k')(h \<mapsto> t), ready_queue := q\<rparr>)"
  by (simp add: kept_def)

lemma wlp_sys_yield: "running l ld k h t \<Longrightarrow> wlp sys_yield (sys_post l ld h k) k"
  by (simp add: sys_yield_def wp_rules) (rule wp_suspend, auto simp: sys_post_def kept_suspended)

section \<open>Time and priority\<close>

lemma wlp_sys_get_time: "running l ld k h t \<Longrightarrow> wlp (sys_get_time time ts) (sys_post l ld h k) k"
  unfolding sys_get_time_def Let_def
  by (simp add: wp_rules wp_current) (rule wlp_user_write, auto intro: sys_post_returned)

lemma wlp_sys_task_info: "running l ld k h t \<Longrightarrow> wlp (sys_task_info layout time ti) (sys_post l ld h k) k"
  unfolding sys_task_info_def Let_def
  by (simp add: wp_rules wp_current) (rule wlp_user_write, auto intro: sys_post_returned)

lemma wlp_sys_getpid: "running l ld k h t \<Longrightarrow> wlp sys_getpid (sys_post l ld h k) k"
  by (simp add: sys_getpid_def wp_rules wp_current sys_post_same)

lemma wlp_sys_set_prio:
  assumes run: "running l ld k h t"
  shows "wlp (sys_set_prio p) (sys_post l ld h k) k"
proof -
  have "running l ld (k\<lparr>TASKS := (TASKS k)(h \<mapsto> t\<lparr>t_prio := p\<rparr>)\<rparr>) h (t\<lparr>t_prio := p\<rparr>)" if "\<not> sint p \<le> 1"
    using that by (intro running_task[OF run]) auto
  then show ?thesis using sys_post_same[OF run] by (auto simp: sys_set_prio_def wp_rules wp_current[OF run] intro: sys_post_returned)
qed

lemma wp_update_syscall_times:
  assumes run: "running l ld k h t" and E: "length (syscall_times (task_info_inner t)) \<le> unat n \<Longrightarrow> E SliceIndex"
    and Q: "\<And>t'. running l ld (k\<lparr>TASKS := (TASKS k)(h \<mapsto> t')\<rparr>) h t' \<Longrightarrow> memory_set t' = memory_set t \<Longrightarrow>
        heap_bottom t' = heap_bottom t \<Longrightarrow> program_brk t' = program_brk t \<Longrightarrow> Q () (k\<lparr>TASKS := (TASKS k)(h \<mapsto> t')\<rparr>)"
  shows "wp (update_current_task_syscall_times n) Q E k"
proof -
  have "Q () (k\<lparr>TASKS := (TASKS k)(h \<mapsto> t')\<rparr>)" if "update_syscall_times t n = Inr t'" for t'
  proof (rule Q)
    show "running l ld (k\<lparr>TASKS := (TASKS k)(h \<mapsto> t')\<rparr>) h t'"
      using that running_prio[OF run]
      by (intro running_task[OF run]) (auto simp: update_syscall_times_def Let_def split: if_splits)
  qed (use that in \<open>auto simp: update_syscall_times_def Let_def split: if_splits\<close>)
  moreover have "E x" if "update_syscall_times t n = Inl x" for x
    using that E by (auto simp: update_syscall_times_def Let_def split: if_splits)
  ultimately show ?thesis by (simp add: update_current_task_syscall_times_def wp_rules wp_current[OF run] split: sum.splits)
qed

section \<open>Files\<close>

text \<open>What the invariant needs of the file system: a read hands out at most as many bytes as asked for.\<close>

definition reads_bounded :: "('fs, 'i) efs \<Rightarrow> bool" where
  "reads_bounded e \<longleftrightarrow> (\<forall>d i off n. length (inode_read_at e d i off n) \<le> n)"

lemma os_read_loop_same:
  assumes e: "reads_bounded e" and p: "pieces_ok l D sls" and inv: "mm_inv l s"
    and r: "os_read_loop e d sls f n m = (n', f', m')"
  shows "same_pages (live l s - D) m m'"
  using p r
proof (induction sls arbitrary: f n m)
  case (Cons sl sls)
  let ?bs = "inode_read_at e d (os_inode f) (os_offset f) (slice_len sl)"
  let ?m = "write_bytes m (slice_ptr sl) ?bs"
  obtain q where q: "q \<in> D \<or> ppn_val q < l" "in_page q sl" using Cons.prems(1) by (auto simp: pieces_ok_def)
  have len: "length ?bs \<le> slice_len sl" using e by (simp add: reads_bounded_def)
  have "same_pages (live l s - D) m ?m" using same_pages_slice[OF q(2,1) len inv] .
  moreover have "same_pages (live l s - D) ?m m'"
    using Cons.IH Cons.prems by (auto simp: Let_def pieces_ok_def split: if_splits)
  ultimately show ?case by (rule same_pages_trans)
qed simp

lemma stdin_read_same:
  assumes p: "pieces_ok l D (buffers ub)" and inv: "mm_inv l s" and r: "stdin_read c ub m = Inr (x, m')"
  shows "same_pages (live l s - D) m m'"
proof (cases "m' = m")
  case False
  then obtain sl sls where sl: "buffers ub = sl # sls" "m' = m(slice_ptr sl := ucast c)"
    using r by (auto simp: stdin_read_def split: if_splits list.splits)
  obtain q where q: "q \<in> D \<or> ppn_val q < l" "in_page q sl" using p sl(1) by (auto simp: pieces_ok_def)
  have one: "in_page q \<lparr>slice_ptr = slice_ptr sl, slice_len = 1\<rparr>" using q(2) by (auto simp: in_page_def)
  have "m' = write_bytes m (slice_ptr sl) [ucast c]"
    by (simp add: sl(2) write_bytes_def fun_eq_iff unat_eq_0)
  then show ?thesis using same_pages_slice[OF one q(1) _ inv, of "[ucast c]" m] by simp
qed simp

lemma file_read_same:
  assumes e: "reads_bounded e" and p: "pieces_ok l D (buffers ub)" and inv: "mm_inv l s"
    and r: "file_read e c f ub (m, fs) = Inr (n, m', fs')"
  shows "same_pages (live l s - D) m m'"
proof (cases f)
  case Stdin
  then show ?thesis using r stdin_read_same[OF p inv] by (auto split: sum.splits prod.splits stdin_result.splits)
next
  case (OSFile a)
  then show ?thesis using r os_read_loop_same[OF e p inv] by (auto simp: os_read_def split: prod.splits)
qed (use r in simp)

lemma running_mm_fs:
  assumes "running l ld k h t" "same_pages (live l (k_mm k) - t_data t) (mem (k_mm k)) m"
  shows "running l ld (k\<lparr>k_mm := (k_mm k)\<lparr>mem := m\<rparr>, k_fs := fs\<rparr>) h t"
  using running_write[OF assms] by (simp add: running_fs)

lemma wlp_file_read_step:
  assumes run: "running l ld k h t" and e: "reads_bounded (env_efs e)" and p: "pieces_ok l (t_data t) (buffers ub)"
  shows "wlp (file_read_step e c f ub) (sys_post l ld h k) k"
proof -
  note mm = mem_invD(1)[OF kinvD(1)[OF runningD(1)[OF run]]]
  have "wlp (case n of Some n \<Rightarrow> kret n | None \<Rightarrow> kbind (suspend_current_and_run_next (InStdin ub)) (\<lambda>_. kreturn Switched)) (sys_post l ld h k)
      (k\<lparr>k_mm := (k_mm k)\<lparr>mem := m\<rparr>, k_fs := fs\<rparr>)"
    if r: "file_read (env_efs e) c f ub (mem (k_mm k), k_fs k) = Inr (n, m, fs)" for n m fs
  proof -
    note w = file_read_same[OF e p mm r]
    have run': "running l ld (k\<lparr>k_mm := (k_mm k)\<lparr>mem := m\<rparr>, k_fs := fs\<rparr>) h t" using running_mm_fs[OF run w] .
    have k': "kept h k (k\<lparr>k_mm := (k_mm k)\<lparr>mem := m\<rparr>, k_fs := fs\<rparr>)" using kept_running_write[OF run w] by simp
    show ?thesis
    proof (cases n)
      case None
      then show ?thesis using p kept_suspended[OF k'] by (auto simp: wp_rules sys_post_def intro!: wp_suspend[OF run'])
    next
      case (Some n)
      then show ?thesis using sys_post_returned[OF run' k'] by (simp add: wp_rules)
    qed
  qed
  then show ?thesis by (auto simp: file_read_step_def wp_rules split: sum.splits prod.splits)
qed

lemma wlp_sys_read:
  assumes run: "running l ld k h t" and e: "reads_bounded (env_efs e)"
  shows "wlp (sys_read e c fd buf len) (sys_post l ld h k) k"
  using sys_post_same[OF run] wlp_file_read_step[OF run e]
  by (auto simp: sys_read_def wp_rules wp_current[OF run] split: option.splits intro!: wlp_user_buffer[OF run])

lemma file_write_mem: "file_write e f ub (m, fs) = Inr (n, m', fs') \<Longrightarrow> m' = m"
  by (cases f) (auto split: sum.splits simp: map_sum_def)

lemma wlp_sys_write:
  assumes run: "running l ld k h t"
  shows "wlp (sys_write e fd buf len) (sys_post l ld h k) k"
proof -
  have "sys_post l ld h k (Returned n) (k\<lparr>k_mm := (k_mm k)\<lparr>mem := m\<rparr>, k_fs := fs\<rparr>)"
    if "file_write (env_efs e) f ub (mem (k_mm k), k_fs k) = Inr (n, m, fs)" for f ub n m fs
    using sys_post_returned[OF running_mm_fs[OF run, of m fs], of k] file_write_mem[OF that] by simp
  then show ?thesis using sys_post_same[OF run]
    by (auto simp: sys_write_def wp_rules wp_current[OF run] split: option.splits sum.splits intro!: wlp_user_buffer[OF run])
qed

lemma wlp_on_disk:
  assumes run: "running l ld k h t"
  shows "wlp (on_disk f) (sys_post l ld h k) k"
proof -
  have "sys_post l ld h k (Returned v) (k\<lparr>k_fs := g\<rparr>)" for v g
    using sys_post_returned[of l ld "k\<lparr>k_fs := g\<rparr>" h t k v] run by (simp add: running_fs)
  then show ?thesis by (auto simp: on_disk_def wp_rules split: prod.splits)
qed

lemma wlp_sys_linkat: "running l ld k h t \<Longrightarrow> wlp (sys_linkat e p q) (sys_post l ld h k) k"
  by (auto simp: sys_linkat_def wp_rules wp_current intro!: wlp_user_str sys_post_same wlp_on_disk)

lemma wlp_sys_unlinkat: "running l ld k h t \<Longrightarrow> wlp (sys_unlinkat e p) (sys_post l ld h k) k"
  by (auto simp: sys_unlinkat_def wp_rules wp_current intro!: wlp_user_str wlp_on_disk)

lemma wlp_sys_close:
  assumes run: "running l ld k h t"
  shows "wlp (sys_close fd) (sys_post l ld h k) k"
  using running_task[OF run, of "t\<lparr>fd_table := (fd_table t)[unat fd := None]\<rparr>"] running_prio[OF run]
  by (auto simp: sys_close_def wp_rules wp_current[OF run] intro!: sys_post_same[OF run] intro: sys_post_returned)

lemma wlp_sys_open:
  assumes run: "running l ld k h t"
  shows "wlp (sys_open e path flags) (sys_post l ld h k) k"
proof -
  have "running l ld (k\<lparr>k_fs := f, TASKS := (TASKS k)(h \<mapsto> t\<lparr>fd_table := fds\<rparr>)\<rparr>) h (t\<lparr>fd_table := fds\<rparr>)" for f fds
    using running_task[of l ld "k\<lparr>k_fs := f\<rparr>" h t "t\<lparr>fd_table := fds\<rparr>"] run running_prio[OF run] by (simp add: running_fs)
  then have "sys_post l ld h k (Returned v) (k\<lparr>k_fs := f, TASKS := (TASKS k)(h \<mapsto> t\<lparr>fd_table := fds\<rparr>)\<rparr>)" for v f fds
    by (rule sys_post_returned) (simp add: kept_def)
  moreover have "sys_post l ld h k (Returned v) (k\<lparr>k_fs := f\<rparr>)" for v f
    using sys_post_returned[of l ld "k\<lparr>k_fs := f\<rparr>" h t k v] run by (simp add: running_fs)
  ultimately show ?thesis using runningD(3)[OF run]
    by (auto simp: sys_open_def wp_rules wp_current[OF run] wp_deref_task split: prod.splits option.splits intro!: wlp_user_str)
qed

lemma wlp_sys_fstat:
  assumes run: "running l ld k h t"
  shows "wlp (sys_fstat e fd st) (sys_post l ld h k) k"
  using sys_post_same[OF run]
  by (auto simp: sys_fstat_def wp_rules wp_current[OF run] split: sum.splits intro!: wlp_user_write[OF run] intro: sys_post_returned)

end
