(* ===== verification/Kernel_Space.thy ===== *)
theory Kernel_Space
  imports Kernel_Calls
begin

text \<open>
  The system calls that change the address space of the caller: \<open>mmap\<close>, \<open>munmap\<close> and \<open>sbrk\<close>. They keep the
  invariant of the kernel as long as the caller keeps its trap context page and its heap area.
\<close>

section \<open>A new address space for the running task\<close>

lemma cx_area_abs:
  assumes inv: "ms_inv l s (tramp ld) ms" and fr: "\<forall>a \<in> set (areas ms). map_type a = Framed"
  shows "cx_area ms p \<longleftrightarrow> (\<exists>e. ms_abs (mem s) ms trap_cx_vpn = Some e \<and> pte_ppn e = p)"
proof
  assume "cx_area ms p"
  then show "\<exists>e. ms_abs (mem s) ms trap_cx_vpn = Some e \<and> pte_ppn e = p"
    using ms_area_frames(3)[OF inv] fr by (auto simp: cx_area_def)
next
  assume "\<exists>e. ms_abs (mem s) ms trap_cx_vpn = Some e \<and> pte_ppn e = p"
  then obtain e where e: "ms_abs (mem s) ms trap_cx_vpn = Some e" "pte_ppn e = p" by blast
  have "trap_cx_vpn \<noteq> trampoline_vpn" by (simp add: trap_cx_vpn_def trampoline_vpn_def)
  then have "trap_cx_vpn \<in> set (areas_vpns (areas ms))" using ms_dom[OF inv] e(1) by (auto dest: domI split: if_splits)
  then obtain a where a: "a \<in> set (areas ms)" "trap_cx_vpn \<in> set (area_vpns a)" by (auto simp: set_areas_vpns)
  then show "cx_area ms p" using ms_area_frames(3)[OF inv a(1) _ a(2)] fr e by (auto simp: cx_area_def)
qed

lemma running_space:
  assumes run: "running l ld k h t" and own: "own_step l (k_mm k) (t_owned t) s (t_owned t')"
    and ms: "ms_inv l s (tramp ld) (memory_set t')" "\<forall>a \<in> set (areas (memory_set t')). map_type a = Framed"
      "cx_area (memory_set t') (trap_cx_ppn t')"
    and same: "t_pid t' = t_pid t" "kernel_stack t' = kernel_stack t" "t_child t' = t_child t" "t_parent t' = t_parent t"
      "task_status t' = task_status t" "t_prio t' = t_prio t"
  shows "running l ld (k\<lparr>k_mm := s, TASKS := (TASKS k)(h \<mapsto> t')\<rparr>) h t'"
proof -
  note i = kinvD[OF runningD(1)[OF run]] and t = runningD(2-4)[OF run]
  have pid: "get_pid t' = get_pid t" by (simp add: get_pid_def same)
  have "kinv l ld (k\<lparr>k_mm := s, TASKS := (TASKS k)(h \<mapsto> t')\<rparr>)"
  proof (rule kinvI, goal_cases)
    case 1
    then show ?case using mem_inv_task_step[OF i(1) t(2) own] ms t(3) same(5) by (simp add: space_inv_def)
  next
    case 2
    then show ?case using i(2) task_pids_update[of "TASKS k" h t t', OF t(2) pid] by simp
  next
    case 3
    then show ?case using pid_inv_update[OF i(3) t(2) pid] same by simp
  next
    case 4
    then show ?case using tree_inv_update[OF i(4) t(2), of t'] t(3) same running_prio[OF run] by simp
  next
    case 5
    then show ?case using sched_inv_update[OF i(5) t(2), of t'] same by simp
  next
    case (6 g u)
    have "wait_ok l t'" using t(3) same(5) by (simp add: wait_ok_def)
    then show ?case using 6 i(6)[of g u] by (simp split: if_splits)
  qed
  then show ?thesis using t(1) by (simp add: running_def)
qed

lemma kept_space:
  assumes run: "running l ld k h t" and own: "own_step l (k_mm k) (t_owned t) s Own'"
  shows "kept h k (k\<lparr>k_mm := s, TASKS := (TASKS k)(h \<mapsto> t')\<rparr>)"
proof (rule keptI[OF runningD(1,3)[OF run]])
  have "same_pages (live l (k_mm k) - t_owned t) (mem (k_mm k)) (mem s)" using own by (simp add: own_step_def)
  then show "same_pages (live l (k_mm k) - (t_owned t \<union> ms_owned (KERNEL_SPACE k))) (mem (k_mm k))
      (mem (k_mm (k\<lparr>k_mm := s, TASKS := (TASKS k)(h \<mapsto> t')\<rparr>)))"
    using same_pages_mono[of "live l (k_mm k) - t_owned t" _ _ "live l (k_mm k) - (t_owned t \<union> ms_owned (KERNEL_SPACE k))"] by simp blast
qed simp

section \<open>Mapping and unmapping\<close>

lemma span_wf:
  assumes "VirtAddr_floor (va_from_usize a) \<le> VirtAddr_ceil (va_from_usize b)"
  shows "range_wf (va_span (va_from_usize a) (va_from_usize b))"
proof -
  have "unat b mod 2 ^ 39 < 2 ^ 39" by simp
  then have "(unat b mod 2 ^ 39 + 4095) div 4096 \<le> 2 ^ 27" by simp
  then have "unat (vpn_val (VirtAddr_ceil (va_from_usize b))) \<le> 2 ^ 27"
    by (simp add: unat_VirtAddr_ceil unat_from_usize)
  then show ?thesis using assms by (simp add: range_wf_def)
qed

lemma wlp_sys_mmap:
  assumes run: "running l ld k h t"
  shows "wlp (sys_mmap start len port) (sys_post l ld h k) k"
proof -
  note r = runningD[OF run] and post = sys_post_same[OF run]
  let ?lo = "va_from_usize start" and ?hi = "va_from_usize (start + len)" and ?perm = "mmap_perm port"
  have "wlp (insert_framed_area (memory_set t) ?lo ?hi ?perm)
      (\<lambda>ms s. sys_post l ld h k (Returned 0) (k\<lparr>k_mm := s, TASKS := (TASKS k)(h \<mapsto> t\<lparr>memory_set := ms\<rparr>)\<rparr>)) (k_mm k)"
    if wf: "VirtAddr_floor ?lo \<le> VirtAddr_ceil ?hi"
  proof (rule wp_insert_framed_area[OF r(5) span_wf[OF wf]])
    fix s ms a
    assume out: "set (vpns_of (va_span ?lo ?hi)) \<inter> dom (ms_abs (mem (k_mm k)) (memory_set t)) = {}"
      and m: "ms_pushed l (k_mm k) (tramp ld) (memory_set t) \<lparr>vpn_range = va_span ?lo ?hi, data_frames = [], map_type = Framed,
        map_perm = ?perm\<rparr> s ms a"
    have d: "ms_inv l s (tramp ld) ms" "areas ms = areas (memory_set t) @ [a]" "own_step l (k_mm k) (t_owned t) s (ms_owned ms)"
      using m by (simp_all add: ms_pushed_def)
    have "map_type a = Framed" using m unfolding ms_pushed_def by (metis MapArea.select_convs(3) MapArea.update_convs(2))
    then have fr: "\<forall>a \<in> set (areas ms). map_type a = Framed" using r(6) d(2) by simp
    have "cx_area ms (trap_cx_ppn t)" using r(7) d(2) by (auto simp: cx_area_def)
    then show "sys_post l ld h k (Returned 0) (k\<lparr>k_mm := s, TASKS := (TASKS k)(h \<mapsto> t\<lparr>memory_set := ms\<rparr>)\<rparr>)"
      using running_space[OF run, of s "t\<lparr>memory_set := ms\<rparr>"] d fr by (auto intro: sys_post_returned kept_space[OF run])
  qed simp_all
  then show ?thesis using post
    by (auto simp: sys_mmap_def Let_def MapArea_new_eq mapping_address_space_for_current_task_def wp_rules wp_current[OF run]
        split: sum.splits if_splits)
qed

text \<open>The range to unmap lies in no area that holds the trap context.\<close>

definition munmap_ok :: "TaskControlBlock \<Rightarrow> usize \<Rightarrow> usize \<Rightarrow> bool" where
  "munmap_ok t start len \<longleftrightarrow> (\<forall>a \<in> set (areas (memory_set t)). trap_cx_vpn \<in> set (area_vpns a) \<longrightarrow>
     \<not> area_spans (VirtAddr_floor (va_from_usize start)) (VirtAddr_ceil (va_from_usize (start + len))) a)"

lemma wlp_sys_munmap:
  assumes run: "running l ld k h t" and ok: "munmap_ok t start len"
  shows "wlp (sys_munmap start len) (sys_post l ld h k) k"
proof -
  note r = runningD[OF run] and post = sys_post_same[OF run]
  let ?lo = "va_from_usize start" and ?hi = "va_from_usize (start + len)"
  let ?P = "area_spans (VirtAddr_floor ?lo) (VirtAddr_ceil ?hi)"
  have "wlp (munmap_area (memory_set t) ?lo ?hi)
      (\<lambda>ms s. sys_post l ld h k (Returned 0) (k\<lparr>k_mm := s, TASKS := (TASKS k)(h \<mapsto> t\<lparr>memory_set := ms\<rparr>)\<rparr>)) (k_mm k)"
  proof (rule wp_munmap_area[OF r(5) refl])
    fix s ms assume m: "ms_step l (k_mm k) (tramp ld) (memory_set t) s ms" "areas ms = filter (\<lambda>a. \<not> ?P a) (areas (memory_set t))"
    have "cx_area ms (trap_cx_ppn t)" using r(7) ok m(2) by (auto simp: cx_area_def munmap_ok_def)
    then show "sys_post l ld h k (Returned 0) (k\<lparr>k_mm := s, TASKS := (TASKS k)(h \<mapsto> t\<lparr>memory_set := ms\<rparr>)\<rparr>)"
      using running_space[OF run, of s "t\<lparr>memory_set := ms\<rparr>"] m r(6) by (auto simp: ms_step_def intro: sys_post_returned kept_space[OF run])
  qed
  then show ?thesis using post
    by (auto simp: sys_munmap_def Let_def unmapping_address_space_for_current_task_def wp_rules wp_current[OF run]
        split: sum.splits)
qed

text \<open>
  The condition is needed: \<open>munmap\<close> of the trap context page succeeds, and the frame in which the next trap
  of the task is saved is free.
\<close>

lemma sys_munmap_trap_context:
  assumes run: "running l ld k h t"
  shows "\<exists>k'. sys_munmap TRAP_CONTEXT_BASE PAGE_SIZE k = Inr (Returned 0, k') \<and>
    map_option trap_cx_ppn (TASKS k' h) = Some (trap_cx_ppn t) \<and> trap_cx_ppn t \<notin> live l (k_mm k') \<and> \<not> kinv l ld k'"
proof -
  note r = runningD[OF run]
  let ?lo = "va_from_usize TRAP_CONTEXT_BASE" and ?hi = "va_from_usize (TRAP_CONTEXT_BASE + PAGE_SIZE)" and ?ms = "memory_set t"
  let ?P = "area_spans (VirtAddr_floor ?lo) (VirtAddr_ceil ?hi)"
  have ends: "VirtAddr_floor ?lo = trap_cx_vpn" "VirtAddr_ceil ?hi = VirtPageNum 0x7ffffff"
    by (simp_all add: address_defs config_defs trap_cx_vpn_def)
  have aligned: "TRAP_CONTEXT_BASE mod PAGE_SIZE = 0" by (simp add: config_defs)
  have le: "VirtAddr_floor ?lo \<le> VirtAddr_ceil ?hi" unfolding ends by (simp add: trap_cx_vpn_def newtype_order_defs)
  have pages: "vpns_of (va_span ?lo ?hi) = [trap_cx_vpn]"
    unfolding ends by (rule vpns_of_inject) (simp add: map_unat_vpns_of newtype_order_defs upt_rec trap_cx_vpn_def)
  obtain a where a: "a \<in> set (areas ?ms)" "trap_cx_vpn \<in> set (area_vpns a)" "area_frame a trap_cx_vpn = trap_cx_ppn t"
    using r(7) by (auto simp: cx_area_def)
  have spans: "?P b" if b: "b \<in> set (areas ?ms)" "trap_cx_vpn \<in> set (area_vpns b)" for b
  proof -
    have "range_wf (vpn_range b)" using ms_invD(3)[OF r(5)] b(1) by (auto simp: areas_wf_def area_ok_def)
    then have "range_l (vpn_range b) \<le> trap_cx_vpn" "trap_cx_vpn < range_r (vpn_range b)"
      using b(2) set_vpns_of[of "vpn_range b"] by (simp_all add: range_wf_def)
    then show ?thesis unfolding ends area_spans_def
      by (auto simp: area_get_start_def area_get_end_def get_start_def get_end_def trap_cx_vpn_def newtype_order_defs word_le_nat_alt word_less_nat_alt)
  qed
  have "trap_cx_vpn \<in> dom (ms_abs (mem (k_mm k)) ?ms)" using cx_area_abs[OF r(5,6)] r(7) by auto
  then have mapped: "check_map_area_unmapping (mem (k_mm k)) (get_user_token t)
      \<lparr>vpn_range = va_span ?lo ?hi, data_frames = [], map_type = Framed, map_perm = MP_U\<rparr> = Inr False"
    using pt_abs_root[OF running_token[OF run]] pages span_wf[OF le] by (simp add: check_map_area_unmapping_def check_unmapping_eq)
  have "wp (munmap_area ?ms ?lo ?hi) (\<lambda>ms s. trap_cx_ppn t \<notin> live l s \<and> \<not> cx_area ms (trap_cx_ppn t)) (\<lambda>_. False) (k_mm k)"
  proof (rule wp_munmap_area[OF r(5) refl])
    fix s ms assume m: "ms_step l (k_mm k) (tramp ld) ?ms s ms" "areas ms = filter (\<lambda>a. \<not> ?P a) (areas ?ms)"
      "areas_removed l (k_mm k) ?ms (filter ?P (areas ?ms)) s ms"
    have "\<not> cx_area ms (trap_cx_ppn t)" using m(2) spans by (auto simp: cx_area_def)
    moreover have "trap_cx_ppn t \<notin> live l s"
    proof -
      have p: "trap_cx_ppn t \<in> set (area_ppns a)" using ms_area_frames(1)[OF r(5) a(1)] r(6) a by auto
      obtain xs ys where as: "areas ?ms = xs @ a # ys" using a(1) by (meson split_list)
      have "set (area_ppns a) \<inter> set (areas_ppns (areas ms)) = {}"
        using ms_invD(3)[OF r(5)] spans[OF a(1,2)] as m(2) by (auto simp: areas_wf_def areas_ppns_def)
      from removed_frames[OF r(5) m(1) _ a(1) this] show ?thesis using p m(3) by (auto simp: areas_removed_def)
    qed
    ultimately show "trap_cx_ppn t \<notin> live l s \<and> \<not> cx_area ms (trap_cx_ppn t)" by simp
  qed
  then have "wp (sys_munmap TRAP_CONTEXT_BASE PAGE_SIZE) (\<lambda>o' k'. o' = Returned 0 \<and> current k' = Some h \<and>
      (\<exists>ms. TASKS k' h = Some (t\<lparr>memory_set := ms\<rparr>) \<and> \<not> cx_area ms (trap_cx_ppn t)) \<and> trap_cx_ppn t \<notin> live l (k_mm k')) (\<lambda>_. False) k"
    using le r(2) by (auto simp: sys_munmap_def Let_def MapArea_new_eq mapped unmapping_address_space_for_current_task_def wp_rules
        wp_current[OF run] aligned elim!: wp_mono)
  from wp_no_panicD[OF this] obtain k' ms where k': "sys_munmap TRAP_CONTEXT_BASE PAGE_SIZE k = Inr (Returned 0, k')" "current k' = Some h"
    "TASKS k' h = Some (t\<lparr>memory_set := ms\<rparr>)" "\<not> cx_area ms (trap_cx_ppn t)" "trap_cx_ppn t \<notin> live l (k_mm k')" by auto
  have "\<not> kinv l ld k'" using runningD(7)[of l ld k' h] k'(2-4) by (auto simp: running_def)
  then show ?thesis using k' by auto
qed

section \<open>The heap\<close>

text \<open>
  The heap of a task: the area that starts at \<open>heap_bottom\<close> ends at the break, and both ends of the change
  stay below the trap context.
\<close>

definition sbrk_ok :: "TaskControlBlock \<Rightarrow> i32 \<Rightarrow> bool" where
  "sbrk_ok t sz \<longleftrightarrow>
     (\<forall>i. area_at (memory_set t) (VirtAddr_floor (VirtAddr (heap_bottom t))) = Some i \<longrightarrow>
        area_get_end (areas (memory_set t) ! i) = VirtAddr_ceil (VirtAddr (program_brk t))) \<and>
     unat (heap_bottom t) \<le> unat (program_brk t) \<and> unat (program_brk t) \<le> 0x7fffffe000 \<and>
     sint (program_brk t) + sint sz \<le> 0x7fffffe000"

lemma ceil_mono: "unat a \<le> unat b \<Longrightarrow> unat b < 2 ^ 63 \<Longrightarrow> VirtAddr_ceil (VirtAddr a) \<le> VirtAddr_ceil (VirtAddr b)"
  by (simp add: newtype_order_defs word_le_nat_alt unat_VirtAddr_ceil div_le_mono)

lemma sint_of_int: "- (2 ^ 63) \<le> x \<Longrightarrow> x < 2 ^ 63 \<Longrightarrow> sint (word_of_int x :: usize) = x"
  unfolding int_word_sint by simp

lemma word_of_unat: "w = word_of_int (int (unat (w :: usize)))"
  by simp

lemma sint_small:
  assumes "unat (w :: usize) < 2 ^ 63"
  shows "sint w = int (unat w)"
proof -
  have "int (unat w) < int (2 ^ 63)" using assms by (simp only: of_nat_less_iff)
  then have lt: "int (unat w) < 2 ^ 63" by (simp only: of_nat_power of_nat_numeral)
  have "- (2 ^ 63) \<le> int (unat w)" by (rule order_trans[OF _ of_nat_0_le_iff]) simp
  from sint_of_int[OF this lt] show ?thesis by simp
qed

lemma brk_sum:
  fixes pb hb :: usize and sz :: i32
  assumes pb: "unat pb \<le> 0x7fffffe000" and hb: "unat hb \<le> unat pb" and lim: "sint pb + sint sz \<le> 0x7fffffe000"
    and ge: "\<not> sint (pb + scast sz) < sint hb"
  shows "int (unat (pb + scast sz)) = int (unat pb) + sint sz" "unat hb \<le> unat (pb + scast sz)" "unat (pb + scast sz) \<le> 0x7fffffe000"
proof -
  let ?n = "pb + scast sz"
  define x where "x = int (unat pb)"
  have x: "0 \<le> x" "x \<le> 0x7fffffe000" unfolding x_def using pb by (simp_all only: of_nat_0_le_iff)
  have sz: "- (2 ^ 31) \<le> sint sz" "sint sz < 2 ^ 31"
    using sint_range_size[of sz] by (simp_all add: word_size)
  have "(scast sz :: usize) = word_of_int (sint sz)" by simp
  then have n: "?n = word_of_int (x + sint sz)"
    unfolding x_def by (subst word_of_unat[of pb]) (simp only: of_int_add)
  have sp: "sint pb = x" unfolding x_def by (rule sint_small) (use pb in simp)
  have sh: "sint hb = int (unat hb)" by (rule sint_small) (use pb hb in simp)
  have nonneg: "0 \<le> x + sint sz"
  proof (rule ccontr)
    assume neg: "\<not> 0 \<le> x + sint sz"
    have "sint ?n = x + sint sz" unfolding n using sz x by (intro sint_of_int) simp_all
    moreover have "0 \<le> int (unat hb)" by (rule of_nat_0_le_iff)
    ultimately show False using ge sh neg by linarith
  qed
  have lt: "x + sint sz < 2 ^ 64" using x sz by simp
  have "uint ?n = (x + sint sz) mod 2 ^ 64" unfolding n
    by (subst uint_word_of_int) simp
  also have "\<dots> = x + sint sz" using nonneg lt by (rule mod_pos_pos_trivial)
  finally have eq: "int (unat ?n) = x + sint sz" by (simp only: uint_nat)
  then show "int (unat ?n) = int (unat pb) + sint sz" by (simp only: x_def)
  show lim': "unat ?n \<le> 0x7fffffe000" using eq lim sp by linarith
  then have "sint ?n = int (unat ?n)" by (intro sint_small) simp
  then show "unat hb \<le> unat ?n" using ge sh by linarith
qed

lemma ceil_below_cx:
  assumes "unat a \<le> 0x7fffffe000"
  shows "VirtAddr_ceil (VirtAddr a) \<le> trap_cx_vpn"
proof -
  have "(unat a + 4095) div 4096 \<le> 0x7fffffe" using assms by simp
  then show ?thesis using assms by (simp add: newtype_order_defs word_le_nat_alt unat_VirtAddr_ceil trap_cx_vpn_def)
qed

lemma cx_not_cut:
  assumes "e \<le> r" "r \<le> trap_cx_vpn"
  shows "trap_cx_vpn \<notin> set (vpns_of \<lparr>range_l = e, range_r = r\<rparr>)"
  using assms by (auto simp: set_vpns_of not_less)

text \<open>What both directions leave: areas of the same kind, and the same trap context.\<close>

definition heap_step :: "usize \<Rightarrow> linker_symbols \<Rightarrow> mm_state \<Rightarrow> MemorySet \<Rightarrow> mm_state \<Rightarrow> MemorySet \<Rightarrow> bool" where
  "heap_step l ld s ms s' ms' \<longleftrightarrow> ms_step l s (tramp ld) ms s' ms' \<and>
     map (\<lambda>a. (map_type a, map_perm a)) (areas ms') = map (\<lambda>a. (map_type a, map_perm a)) (areas ms) \<and>
     ms_abs (mem s') ms' trap_cx_vpn = ms_abs (mem s) ms trap_cx_vpn"

lemma running_heap_step:
  assumes run: "running l ld k h t" and st: "heap_step l ld (k_mm k) (memory_set t) s ms"
  shows "running l ld (k\<lparr>k_mm := s, TASKS := (TASKS k)(h \<mapsto> t\<lparr>memory_set := ms, program_brk := b\<rparr>)\<rparr>) h
    (t\<lparr>memory_set := ms, program_brk := b\<rparr>)"
proof -
  note r = runningD[OF run]
  have d: "ms_step l (k_mm k) (tramp ld) (memory_set t) s ms"
      "map (\<lambda>a. (map_type a, map_perm a)) (areas ms) = map (\<lambda>a. (map_type a, map_perm a)) (areas (memory_set t))"
      "ms_abs (mem s) ms trap_cx_vpn = ms_abs (mem (k_mm k)) (memory_set t) trap_cx_vpn"
    using st by (simp_all add: heap_step_def)
  have "set (map map_type (areas ms)) = set (map map_type (areas (memory_set t)))" using arg_cong[OF d(2), of "map fst"] by (simp add: comp_def)
  then have fr: "\<forall>a \<in> set (areas ms). map_type a = Framed" using r(6) by (metis imageE imageI list.set_map)
  have "cx_area ms (trap_cx_ppn t)"
    using cx_area_abs[OF r(5,6)] cx_area_abs[of l s ld ms] d(1,3) fr r(7) by (auto simp: ms_step_def)
  then show ?thesis
    using running_space[OF run, of s "t\<lparr>memory_set := ms, program_brk := b\<rparr>"] d(1) fr by (simp add: ms_step_def)
qed

lemma wlp_heap_change:
  assumes run: "running l ld k h t" and ok: "sbrk_ok t sz"
  defines "n \<equiv> program_brk t + scast sz"
  assumes ge: "\<not> sint n < sint (heap_bottom t)"
    and Q: "Q (False, memory_set t) (k_mm k)" "\<And>s ms. heap_step l ld (k_mm k) (memory_set t) s ms \<Longrightarrow> Q (True, ms) s"
  shows "wlp (if sint sz < 0 then ms_shrink_to (memory_set t) (VirtAddr (heap_bottom t)) (VirtAddr n)
     else ms_append_to (memory_set t) (VirtAddr (heap_bottom t)) (VirtAddr n)) Q (k_mm k)"
proof (cases "area_at (memory_set t) (VirtAddr_floor (VirtAddr (heap_bottom t)))")
  case None
  then show ?thesis using Q(1) by (simp add: ms_shrink_to_def ms_append_to_def wp_rules)
next
  case (Some i)
  note r = runningD[OF run]
  let ?ms = "memory_set t" and ?hb = "heap_bottom t" and ?pb = "program_brk t"
  have o: "area_get_end (areas ?ms ! i) = VirtAddr_ceil (VirtAddr ?pb)" "unat ?hb \<le> unat ?pb" "unat ?pb \<le> 0x7fffffe000"
      "sint ?pb + sint sz \<le> 0x7fffffe000" using ok Some by (simp_all add: sbrk_ok_def)
  note b = brk_sum[OF o(3,2,4) ge[unfolded n_def], folded n_def]
  show ?thesis
  proof (cases "sint sz < 0")
    case True
    have start: "area_get_start (areas ?ms ! i) = VirtAddr_floor (VirtAddr ?hb)"
      using find_index_Some(2)[OF Some] by (simp add: area_get_start_def)
    have "unat n \<le> unat ?pb" using b(1) True by linarith
    then have le: "VirtAddr_ceil (VirtAddr n) \<le> area_get_end (areas ?ms ! i)" using o ceil_mono[of n ?pb] by simp
    have ge': "area_get_start (areas ?ms ! i) \<le> VirtAddr_ceil (VirtAddr n)"
      unfolding start using b(2,3)
      by (simp add: newtype_order_defs word_le_nat_alt unat_VirtAddr_ceil unat_VirtAddr_floor div_le_mono)
    have "wlp (ms_shrink_to ?ms (VirtAddr ?hb) (VirtAddr n)) Q (k_mm k)"
      by (rule wp_ms_shrink_to[OF r(5) Some ge' le], rule Q(2))
        (use cx_not_cut[OF le[unfolded o(1)] ceil_below_cx[OF o(3)]] in \<open>simp add: heap_step_def area_cut_def o(1)\<close>)
    then show ?thesis using True by simp
  next
    case False
    have "unat ?pb \<le> unat n" using b(1) False by linarith
    then have le: "area_get_end (areas ?ms ! i) \<le> VirtAddr_ceil (VirtAddr n)" using o b(3) ceil_mono[of ?pb n] by simp
    have lim: "unat (vpn_val (VirtAddr_ceil (VirtAddr n))) \<le> 2 ^ 27"
      using ceil_below_cx[OF b(3)] by (simp add: newtype_order_defs word_le_nat_alt trap_cx_vpn_def)
    have "trap_cx_vpn \<in> dom (ms_abs (mem (k_mm k)) ?ms)" using cx_area_abs[OF r(5,6)] r(7) by auto
    then have "wlp (ms_append_to ?ms (VirtAddr ?hb) (VirtAddr n)) Q (k_mm k)"
      by (intro wp_ms_append_to[OF r(5) Some le lim refl] Q(2)) (auto simp: heap_step_def area_grown_def map_le_def)
    then show ?thesis using False by simp
  qed
qed

lemma wlp_sys_sbrk:
  assumes run: "running l ld k h t" and ok: "sbrk_ok t sz"
  shows "wlp (sys_sbrk sz) (sys_post l ld h k) k"
proof -
  let ?ms = "memory_set t" and ?n = "program_brk t + scast sz"
  have "wlp (if sint sz < 0 then ms_shrink_to ?ms (VirtAddr (heap_bottom t)) (VirtAddr ?n)
       else ms_append_to ?ms (VirtAddr (heap_bottom t)) (VirtAddr ?n))
      (\<lambda>(ok, ms) s. sys_post l ld h k (Returned (if ok then program_brk t else - 1))
        (k\<lparr>k_mm := s, TASKS := (TASKS k)(h \<mapsto> if ok then t\<lparr>memory_set := ms, program_brk := ?n\<rparr> else t\<lparr>memory_set := ms\<rparr>)\<rparr>)) (k_mm k)"
    if "\<not> sint ?n < sint (heap_bottom t)"
    using that running_heap_step[OF run] sys_post_same[OF run] runningD(3)[OF run]
    by (intro wlp_heap_change[OF run ok]) (auto simp: fun_upd_idem heap_step_def ms_step_def intro!: sys_post_returned kept_space[OF run])
  then show ?thesis using sys_post_same[OF run]
    by (simp add: sys_sbrk_def change_program_brk_def Let_def wp_rules wp_current[OF run] case_prod_unfold if_distrib cong: if_cong)
      (auto simp: wp_rules elim!: wp_mono split: if_splits)
qed

end
