(* ===== verification/Kernel_Procs.thy ===== *)
theory Kernel_Procs
  imports Kernel_Space
begin

text \<open>
  Creating tasks: \<open>fork\<close>, \<open>spawn\<close> and \<open>exec\<close>. The rules say when they run out of frames, which is the only panic
  they can have, and what they leave.
\<close>

section \<open>Trap contexts\<close>

lemma trap_context_vpn: "vpn_from_va (va_from_usize TRAP_CONTEXT_BASE) = Inr trap_cx_vpn"
  by (simp add: address_defs TRAP_CONTEXT_BASE_eq trap_cx_vpn_def)

lemma wp_find_trap_cx_ppn:
  assumes "ms_abs (mem s) ms trap_cx_vpn = Some e" "Q (pte_ppn e) s"
  shows "wp (find_trap_cx_ppn ms) Q E s"
  using assms by (auto simp: find_trap_cx_ppn_def trap_context_vpn wp_rules intro!: wp_translate_unwrap)

lemma length_cx_words: "length (cx_words (app_init_context a b c d e f)) = 37"
  by (simp add: cx_words_def app_init_context_def set_sp_def Let_def)

lemma kinv_init_cx:
  assumes inv: "kinv l ld k" and t: "TASKS k h = Some t" "task_status t \<noteq> Zombie"
  shows "kinv l ld (k\<lparr>k_mm := (k_mm k)\<lparr>mem := store_cx (mem (k_mm k)) (pa_val (pa_from_ppn (trap_cx_ppn t))) (app_init_context a b c d e f)\<rparr>\<rparr>)"
proof (rule kinv_write[OF inv t(1), of "{trap_cx_ppn t}"])
  note m = kinvD(1)[OF inv]
  show "{trap_cx_ppn t} \<subseteq> t_data t" using cx_frame(1)[OF m t] by simp
  show "same_pages (live l (k_mm k) - {trap_cx_ppn t}) (mem (k_mm k))
      (store_cx (mem (k_mm k)) (pa_val (pa_from_ppn (trap_cx_ppn t))) (app_init_context a b c d e f))"
    using same_pages_store_words[OF mem_invD(1)[OF m] cx_frame(2)[OF m t], of 0 "cx_words (app_init_context a b c d e f)"]
    by (simp add: store_cx_def word_at_def length_cx_words)
qed

text \<open>A trap context is determined by the bytes of its page; the kernel updates single words of it.\<close>

abbreviation cx_addr :: "PhysPageNum \<Rightarrow> usize" where
  "cx_addr p \<equiv> pa_val (pa_from_ppn p)"

lemma cx_word: "word_at (cx_addr p) i = pte_at (ppn_val p) (of_nat i)"
  by (simp add: word_at_def pte_at_def pa_from_ppn_def PAGE_SIZE_BITS_def)

lemma cx_word_paddr: "word_at (cx_addr p) i + of_nat j = paddr (ppn_val p) (8 * i + j)"
  by (simp add: word_at_def paddr_def pa_from_ppn_def PAGE_SIZE_BITS_def)

lemma read_cx_word_write:
  assumes "page_ok (ppn_val p)" "i < 512" "j < 512"
  shows "read_u64 (write_u64 m (word_at (cx_addr p) i) v) (word_at (cx_addr p) j) =
    (if i = j then v else read_u64 m (word_at (cx_addr p) j))"
proof -
  have u: "unat (of_nat n :: usize) = n" if "n < 512" for n using that by (simp add: unat_of_nat take_bit_nat_eq_self)
  have eq: "(of_nat i :: usize) = of_nat j \<longleftrightarrow> i = j" using u[OF assms(2)] u[OF assms(3)] by metis
  show ?thesis
    using read_u64_write_u64[OF assms(1,1), of "of_nat i" "of_nat j" m v] u assms(2,3) by (simp add: cx_word eq)
qed

lemma load_cx_write:
  assumes "page_ok (ppn_val p)"
  shows "i < 32 \<Longrightarrow> load_cx (write_u64 m (word_at (cx_addr p) i) v) (cx_addr p) =
      (load_cx m (cx_addr p))\<lparr>cx_x := (cx_x (load_cx m (cx_addr p)))[i := v]\<rparr>"
    "load_cx (write_u64 m (word_at (cx_addr p) 35) v) (cx_addr p) = (load_cx m (cx_addr p))\<lparr>cx_kernel_sp := v\<rparr>"
    "load_cx (write_u64 m (word_at (cx_addr p) 33) v) (cx_addr p) = (load_cx m (cx_addr p))\<lparr>cx_sepc := v\<rparr>"
proof -
  note w = read_cx_word_write[OF assms]
  have "load_words (write_u64 m (word_at (cx_addr p) i) v) (cx_addr p) 32 =
      (if i < 32 then (load_words m (cx_addr p) 32)[i := v] else load_words m (cx_addr p) 32)" if "i < 512" for i
    using that by (intro nth_equalityI) (auto simp: load_words_def w nth_list_update)
  then show "i < 32 \<Longrightarrow> load_cx (write_u64 m (word_at (cx_addr p) i) v) (cx_addr p) =
      (load_cx m (cx_addr p))\<lparr>cx_x := (cx_x (load_cx m (cx_addr p)))[i := v]\<rparr>"
    "load_cx (write_u64 m (word_at (cx_addr p) 35) v) (cx_addr p) = (load_cx m (cx_addr p))\<lparr>cx_kernel_sp := v\<rparr>"
    "load_cx (write_u64 m (word_at (cx_addr p) 33) v) (cx_addr p) = (load_cx m (cx_addr p))\<lparr>cx_sepc := v\<rparr>"
    by (simp_all add: load_cx_def w)
qed

lemma load_cx_cong:
  assumes "\<And>i. i < 4096 \<Longrightarrow> m' (paddr (ppn_val q) i) = m (paddr (ppn_val p) i)"
  shows "load_cx m' (cx_addr q) = load_cx m (cx_addr p)"
proof -
  have "read_u64 m' (word_at (cx_addr q) i) = read_u64 m (word_at (cx_addr p) i)" if "i < 512" for i
    unfolding read_u64_def read_bytes_def cx_word_paddr
    by (intro arg_cong[where f = bytes_u64] map_cong) (use that assms in auto)
  then show ?thesis by (simp add: load_cx_def load_words_def)
qed

section \<open>A new task\<close>

text \<open>
  The resources of a new task: an address space that has just been built, an identifier and a kernel stack. The
  invariant holds as soon as a block with these resources is registered under the next handle.
\<close>

definition fresh_task :: "usize \<Rightarrow> linker_symbols \<Rightarrow> ('fs, 'i) kernel \<Rightarrow> TaskControlBlock \<Rightarrow> ('fs, 'i) kernel \<Rightarrow> bool" where
  "fresh_task l ld k u k' \<longleftrightarrow> (let T = (TASKS k)(next_task k \<mapsto> u) in
     mem_inv l ld (k_mm k') (KERNEL_SPACE k') T \<and> stack_areas (areas (KERNEL_SPACE k')) (task_pids T) \<and>
     pid_inv (PID_ALLOCATOR k') T \<and> get_pid u \<notin> task_pids (TASKS k))"

lemma fresh_task_cong:
  "fresh_task l ld k u k' \<Longrightarrow> k_mm k'' = k_mm k' \<Longrightarrow> KERNEL_SPACE k'' = KERNEL_SPACE k' \<Longrightarrow> PID_ALLOCATOR k'' = PID_ALLOCATOR k' \<Longrightarrow>
    fresh_task l ld k u k''"
  by (simp add: fresh_task_def)

lemma next_task_None: "kinv l ld k \<Longrightarrow> TASKS k (next_task k) = None"
  using tree_invD(1)[OF kinvD(4), of l ld k "next_task k"] by (cases "TASKS k (next_task k)") (auto simp: status_def)

lemma pid_inv_new:
  assumes inv: "pid_inv pa T" and n: "T n = None" and u: "kernel_stack u = KernelStack (get_pid u)" "get_pid u \<notin> task_pids T"
    and a: "pa_invar a" "pa_live a = insert (get_pid u) (pa_live pa)" "unat (pa_current a) \<le> 2 ^ 25"
  shows "pid_inv a (T(n \<mapsto> u))"
proof -
  have "kernel_stack v = KernelStack (get_pid v)" if "(T(n \<mapsto> u)) g = Some v" for g v
    using inv u(1) that by (auto simp: pid_inv_def split: if_splits)
  moreover have "g = g'" if g: "(T(n \<mapsto> u)) g = Some v" "(T(n \<mapsto> u)) g' = Some v'" "get_pid v = get_pid v'" for g v g' v'
  proof -
    have "get_pid w \<in> task_pids T" if "T f = Some w" for f w using that by (auto simp: task_pids_def)
    then show ?thesis using g u(2) inv unfolding pid_inv_def by (metis fun_upd_apply option.inject)
  qed
  moreover have "pa_live a = task_pids (T(n \<mapsto> u))" using a(2) inv task_pids_new[of T n u, OF n] by (simp add: pid_inv_def)
  ultimately show ?thesis using a(1,3) unfolding pid_inv_def by blast
qed

lemma wp_alloc_resources:
  assumes i: "mem_inv l ld (k_mm k) (KERNEL_SPACE k) (TASKS k)" "stack_areas (areas (KERNEL_SPACE k)) (task_pids (TASKS k))"
      "pid_inv (PID_ALLOCATOR k) (TASKS k)" and n: "TASKS k (next_task k) = None"
    and room: "pa_recycled (PID_ALLOCATOR k) = [] \<Longrightarrow> unat (pa_current (PID_ALLOCATOR k)) < 2 ^ 25"
    and own: "own_step l (k_mm k) {} s (ms_owned ms)"
    and ms: "ms_inv l s (tramp ld) ms" "\<forall>a \<in> set (areas ms). map_type a = Framed" "cx_area ms ppn"
    and E: "avail s < 6 \<Longrightarrow> E OutOfFrames"
    and Q: "\<And>p a s' ks. (\<And>u. t_pid u = PidHandle p \<Longrightarrow> kernel_stack u = KernelStack p \<Longrightarrow> memory_set u = ms \<Longrightarrow> trap_cx_ppn u = ppn \<Longrightarrow>
          task_status u = Ready \<Longrightarrow> fresh_task l ld k u (k\<lparr>PID_ALLOCATOR := a, k_mm := s', KERNEL_SPACE := ks\<rparr>)) \<Longrightarrow>
        own_step l s (ms_owned (KERNEL_SPACE k)) s' (ms_owned ks) \<Longrightarrow> ms_owned ms \<inter> ms_owned (KERNEL_SPACE k) = {} \<Longrightarrow>
        avail s \<le> avail s' + 6 \<Longrightarrow> R (PidHandle p) (KernelStack p) (k\<lparr>PID_ALLOCATOR := a, k_mm := s', KERNEL_SPACE := ks\<rparr>)"
  shows "wp pid_alloc (\<lambda>p. wp (KernelStack_new p) (R p) E) E (k\<lparr>k_mm := s\<rparr>)"
proof -
  have pids: "\<forall>q \<in> task_pids (TASKS k). unat q < 2 ^ 25" using pid_bound[OF i(3)] by blast
  have pa: "pa_invar (PID_ALLOCATOR k)" "unat (pa_current (PID_ALLOCATOR k)) \<le> 2 ^ 25" "pa_live (PID_ALLOCATOR k) = task_pids (TASKS k)"
    using i(3) by (simp_all add: pid_inv_def)
  have disj: "ms_owned ms \<inter> ms_owned (KERNEL_SPACE k) = {}"
    using own_step_frame(3)[OF own ms_owned_live[OF mem_invD(2)[OF i(1)]]] by auto
  show ?thesis
  proof (rule wp_pid_alloc)
    fix p a
    assume p: "p \<notin> pa_live (PID_ALLOCATOR (k\<lparr>k_mm := s\<rparr>))" "pa_invar a" "pa_live a = insert p (pa_live (PID_ALLOCATOR (k\<lparr>k_mm := s\<rparr>)))"
      "unat (pa_current a) \<le> 2 ^ 25" "unat p < 2 ^ 25"
    let ?k = "k\<lparr>k_mm := s, PID_ALLOCATOR := a\<rparr>"
    define u :: TaskControlBlock where "u = undefined\<lparr>t_pid := PidHandle p, kernel_stack := KernelStack p, memory_set := ms, trap_cx_ppn := ppn, task_status := Ready\<rparr>"
    let ?T = "(TASKS k)(next_task k \<mapsto> u)"
    have "space_inv l ld s u" using ms by (simp add: space_inv_def u_def)
    then have m: "mem_inv l ld s (KERNEL_SPACE k) ?T" using mem_inv_new_task[OF i(1) n, of s u] own by (simp add: u_def)
    show "wp (KernelStack_new (PidHandle p)) (R (PidHandle p)) E (k\<lparr>k_mm := s, PID_ALLOCATOR := a\<rparr>)"
    proof (rule wp_KernelStack_new[where T = ?T and P = "task_pids (TASKS k)" and l = l and ld = ld])
      fix s' ks
      assume s': "mem_inv l ld s' ks ?T" "stack_areas (areas ks) (insert p (task_pids (TASKS k)))"
        "own_step l (k_mm ?k) (ms_owned (KERNEL_SPACE ?k)) s' (ms_owned ks)" "avail (k_mm ?k) \<le> avail s' + 6"
      have "fresh_task l ld k v (k\<lparr>PID_ALLOCATOR := a, k_mm := s', KERNEL_SPACE := ks\<rparr>)"
        if v: "t_pid v = PidHandle p" "kernel_stack v = KernelStack p" "memory_set v = ms" "trap_cx_ppn v = ppn" "task_status v = Ready" for v
      proof -
        have "mem_inv l ld s' ks ((TASKS k)(next_task k \<mapsto> v))"
          using mem_inv_cong_task[OF s'(1), of "next_task k" u v] v by (simp add: u_def)
        moreover have "get_pid v = p" using v(1) by (simp add: get_pid_def)
        ultimately show ?thesis
          using s'(2) task_pids_new[of "TASKS k" "next_task k" v, OF n] pid_inv_new[OF i(3) n, of v a] v(2) p pa(3)
          by (simp add: fresh_task_def)
      qed
      then show "R (PidHandle p) (KernelStack p) (?k\<lparr>k_mm := s', KERNEL_SPACE := ks\<rparr>)"
        using Q[where p = p and a = a and s' = s' and ks = ks] s'(3,4) disj by simp
    qed (use m i(2) pids p pa(3) E in auto)
  qed (use pa room in auto)
qed

lemma wp_alloc_task:
  assumes inv: "kinv l ld k" and own: "own_step l (k_mm k) {} s (ms_owned ms)"
    and ms: "ms_inv l s (tramp ld) ms" "\<forall>a \<in> set (areas ms). map_type a = Framed" "cx_area ms ppn"
    and E: "avail s < 6 \<Longrightarrow> E OutOfFrames"
    and Q: "\<And>p a s' ks. (\<And>u. t_pid u = PidHandle p \<Longrightarrow> kernel_stack u = KernelStack p \<Longrightarrow> memory_set u = ms \<Longrightarrow> trap_cx_ppn u = ppn \<Longrightarrow>
          task_status u = Ready \<Longrightarrow> fresh_task l ld k u (k\<lparr>PID_ALLOCATOR := a, k_mm := s', KERNEL_SPACE := ks\<rparr>)) \<Longrightarrow>
        own_step l s (ms_owned (KERNEL_SPACE k)) s' (ms_owned ks) \<Longrightarrow> ms_owned ms \<inter> ms_owned (KERNEL_SPACE k) = {} \<Longrightarrow>
        avail s \<le> avail s' + 6 \<Longrightarrow> R (PidHandle p) (KernelStack p) (k\<lparr>PID_ALLOCATOR := a, k_mm := s', KERNEL_SPACE := ks\<rparr>)"
  shows "wp pid_alloc (\<lambda>p. wp (KernelStack_new p) (R p) E) E (k\<lparr>k_mm := s\<rparr>)"
  by (rule wp_alloc_resources[OF kinvD(1-3)[OF inv] next_task_None[OF inv] pid_room[OF inv] own ms])
    (assumption, erule E, rule Q, assumption+)

lemma kinv_cong:
  assumes "kinv l ld k" "k_mm k' = k_mm k" "KERNEL_SPACE k' = KERNEL_SPACE k" "PID_ALLOCATOR k' = PID_ALLOCATOR k" "TASKS k' = TASKS k"
    "next_task k' = next_task k" "INITPROC k' = INITPROC k" "ready_queue k' = ready_queue k" "current k' = current k"
  shows "kinv l ld k'"
  using assms by (simp add: kinv_def)

lemma kinv_create:
  assumes inv: "kinv l ld k" and t: "TASKS k h = Some t" "task_status t \<noteq> Zombie" and fresh: "fresh_task l ld k u k'"
    and u: "t_child u = []" "t_parent u = Some h" "t_prio u \<noteq> 0" "task_status u = Ready" "\<And>ub. task_cx u \<noteq> Suspended (InStdin ub)"
    and k': "TASKS k' = (TASKS k)(next_task k \<mapsto> u, h \<mapsto> t\<lparr>t_child := t_child t @ [next_task k]\<rparr>)"
      "next_task k' = Suc (next_task k)" "ready_queue k' = ready_queue k @ [next_task k]" "current k' = current k" "INITPROC k' = INITPROC k"
  shows "kinv l ld k'"
proof -
  note i = kinvD[OF inv] and n = next_task_None[OF inv]
  let ?n = "next_task k" let ?T = "(TASKS k)(?n \<mapsto> u)" and ?t = "t\<lparr>t_child := t_child t @ [next_task k]\<rparr>"
  have f: "mem_inv l ld (k_mm k') (KERNEL_SPACE k') ?T" "stack_areas (areas (KERNEL_SPACE k')) (task_pids ?T)" "pid_inv (PID_ALLOCATOR k') ?T"
    using fresh by (simp_all add: fresh_task_def Let_def)
  have th: "?T h = Some t" using t(1) n by auto
  show ?thesis
  proof (rule kinvI, goal_cases)
    case 1
    then show ?case unfolding k' by (rule mem_inv_cong_task[OF f(1) th]) simp_all
  next
    case 2
    have "task_pids (TASKS k') = task_pids ?T" unfolding k' by (rule task_pids_update[of ?T h t, OF th]) (simp add: get_pid_def)
    then show ?case using f(2) by (simp only:)
  next
    case 3
    then show ?case unfolding k' by (rule pid_inv_update[OF f(3) th]) (simp_all add: get_pid_def)
  next
    case 4
    then show ?case unfolding k' by (rule tree_inv_create[OF i(4) t u(1-4)])
  next
    case 5
    then show ?case unfolding k' by (rule sched_inv_update[of ?T, OF sched_inv_create[OF i(5) n u(4)] th]) simp
  next
    case (6 g v)
    have "wait_ok l u" using u(5) by (simp add: wait_ok_def)
    moreover have "wait_ok l ?t" using i(6)[OF t(1)] by (simp add: wait_ok_def)
    ultimately show ?case using 6 i(6)[of g v] by (simp add: k' split: if_splits)
  qed
qed

lemma kept_create:
  assumes inv: "kinv l ld k" and t: "TASKS k h = Some t" and k': "TASKS k' = (TASKS k)(next_task k \<mapsto> u, h \<mapsto> t')"
    and same: "same_pages (live l (k_mm k) - ms_owned (KERNEL_SPACE k)) (mem (k_mm k)) (mem (k_mm k'))"
  shows "kept h k k'"
proof (rule keptI[OF inv t])
  have "live l (k_mm k) - (t_owned t \<union> ms_owned (KERNEL_SPACE k)) \<subseteq> live l (k_mm k) - ms_owned (KERNEL_SPACE k)" by blast
  from same_pages_mono[OF same this]
  show "same_pages (live l (k_mm k) - (t_owned t \<union> ms_owned (KERNEL_SPACE k))) (mem (k_mm k)) (mem (k_mm k'))" .
  fix g u assume "g \<noteq> h" "TASKS k g = Some u"
  moreover from this have "g \<noteq> next_task k" using next_task_None[OF inv] by auto
  ultimately show "\<exists>u'. TASKS k' g = Some u' \<and> memory_set u' = memory_set u \<and> trap_cx_ppn u' = trap_cx_ppn u \<and> task_status u' = task_status u"
    by (simp add: k')
qed

section \<open>Fork\<close>

lemma clone_fd_table_eq: "clone_fd_table fds = fds"
proof -
  have "foldl (\<lambda>acc fd. case fd of Some f \<Rightarrow> vec_push acc (Some f) | None \<Rightarrow> vec_push acc None) acc fds = acc @ fds" for acc
    by (induction fds arbitrary: acc) (auto simp: vec_push_def split: option.splits)
  then show ?thesis by (simp add: clone_fd_table_def)
qed

text \<open>The same pages with the same permissions and, the trap context apart, the same bytes.\<close>

definition same_image :: "mem \<Rightarrow> MemorySet \<Rightarrow> mem \<Rightarrow> MemorySet \<Rightarrow> bool" where
  "same_image m ms m' ms' \<longleftrightarrow> list_all2 (\<lambda>a b. vpn_range b = vpn_range a \<and> map_type b = map_type a \<and> map_perm b = map_perm a \<and>
     (\<forall>v \<in> set (area_vpns a) - {trap_cx_vpn}. \<forall>i < 4096. m' (paddr (ppn_val (area_frame b v)) i) = m (paddr (ppn_val (area_frame a v)) i)))
     (areas ms) (areas ms')"

definition forked :: "usize \<Rightarrow> ('fs, 'i) kernel \<Rightarrow> nat \<Rightarrow> TaskControlBlock \<Rightarrow> ('fs, 'i) kernel \<Rightarrow> TaskControlBlock \<Rightarrow> bool" where
  "forked l k h t k' u \<longleftrightarrow>
     TASKS k' = (TASKS k)(next_task k \<mapsto> u, h \<mapsto> t\<lparr>t_child := t_child t @ [next_task k]\<rparr>) \<and>
     ready_queue k' = ready_queue k @ [next_task k] \<and> current k' = current k \<and> INITPROC k' = INITPROC k \<and> k_fs k' = k_fs k \<and>
     task_status u = Ready \<and> t_stride u = 0 \<and> heap_bottom u = heap_bottom t \<and> program_brk u = program_brk t \<and> t_parent u = Some h \<and> t_child u = [] \<and> fd_table u = fd_table t \<and> t_prio u = t_prio t \<and> get_pid u \<notin> task_pids (TASKS k) \<and>
     same_image (mem (k_mm k)) (memory_set t) (mem (k_mm k')) (memory_set u) \<and>
     load_cx (mem (k_mm k')) (get_trap_cx u) = (let cx = load_cx (mem (k_mm k)) (get_trap_cx t)
        in cx\<lparr>cx_x := (cx_x cx)[10 := 0], cx_kernel_sp := get_top (kernel_stack u)\<rparr>) \<and>
     same_pages (live l (k_mm k) - ms_owned (KERNEL_SPACE k)) (mem (k_mm k)) (mem (k_mm k'))"

lemma areas_frame_inj:
  assumes "areas_wf as" "\<forall>a \<in> set as. map_type a = Framed" "a \<in> set as" "b \<in> set as"
    "v \<in> set (area_vpns a)" "w \<in> set (area_vpns b)" "area_frame a v = area_frame b w"
  shows "v = w"
proof -
  have ppn: "area_frame a v \<in> set (area_ppns a)" "\<exists>f. (v, f) \<in> set (data_frames a) \<and> area_frame a v = ft_ppn f"
    if a: "a \<in> set as" "v \<in> set (area_vpns a)" for a v
  proof -
    have ok: "area_ok (set (area_vpns a)) a" "map_type a = Framed" using assms(1,2) a by (auto simp: areas_wf_def)
    show "area_frame a v \<in> set (area_ppns a)" by (rule area_framed_ppn[OF ok a(2)]) simp
    have "map_of (data_frames a) v \<noteq> None" using ok a(2) by (simp add: area_ok_def map_of_eq_None_iff)
    then obtain f where "map_of (data_frames a) v = Some f" by blast
    then show "\<exists>f. (v, f) \<in> set (data_frames a) \<and> area_frame a v = ft_ppn f" using ok(2) by (auto simp: area_ppn_def dest: map_of_SomeD)
  qed
  have disj: "a = b"
  proof (rule ccontr)
    assume "a \<noteq> b"
    moreover obtain xs ys where "as = xs @ a # ys" using assms(3) by (meson split_list)
    ultimately have "b \<in> set (xs @ ys)" "as = xs @ a # ys" using assms(4) by auto
    then have "set (area_ppns a) \<inter> set (area_ppns b) = {}"
      using assms(1) by (auto simp: areas_wf_def areas_ppns_def)
    then show False using ppn(1)[OF assms(3,5)] ppn(1)[OF assms(4,6)] assms(7) by auto
  qed
  have "inj_on (\<lambda>kv. ft_ppn (snd kv)) (set (data_frames a))"
    using assms(1,3) by (auto simp: areas_wf_def area_ok_def area_ppns_def distinct_map)
  moreover obtain f g where "(v, f) \<in> set (data_frames a)" "(w, g) \<in> set (data_frames a)" "ft_ppn f = ft_ppn g"
    using ppn(2)[OF assms(3,5)] ppn(2)[OF assms(4,6)] assms(7) disj by auto
  ultimately show ?thesis using inj_onD[of "\<lambda>kv. ft_ppn (snd kv)" "set (data_frames a)" "(v, f)" "(w, g)"] by simp
qed

lemma list_all2_setD:
  assumes "list_all2 P xs ys"
  shows "\<And>x. x \<in> set xs \<Longrightarrow> \<exists>y \<in> set ys. P x y" "\<And>y. y \<in> set ys \<Longrightarrow> \<exists>x \<in> set xs. P x y"
  using assms by (induction rule: list_all2_induct) auto

text \<open>
  A new address space \<open>ms\<close> is built, another owner takes a step, and then the page of the trap context is
  written: nothing else of the new space changes, and nothing that was live before.
\<close>

lemma new_space_cx:
  assumes ms: "ms_inv l s1 (tramp ld) ms" "\<forall>a \<in> set (areas ms). map_type a = Framed" "cx_area ms p"
    and own: "own_step l s1 Own s2 Own'" "ms_owned ms \<inter> Own = {}"
  shows "p \<in> live l s2" "p \<in> ms_owned ms" "mm_inv l s2" "page_ok (ppn_val p)" "page_eq (mem s1) (mem s2) (ppn_val p)"
    "\<And>a v. a \<in> set (areas ms) \<Longrightarrow> v \<in> set (area_vpns a) \<Longrightarrow> area_frame a v \<in> ms_owned ms \<inter> live l s2"
proof -
  have ow: "ms_owned ms \<subseteq> live l s2" "same_pages (ms_owned ms) (mem s1) (mem s2)" "mm_inv l s2"
    using own_step_frame(2,4)[OF own(1) ms_owned_live[OF ms(1)] own(2)] own(1) by (auto simp: own_step_def)
  have frames: "area_frame a v \<in> ms_owned ms" if "a \<in> set (areas ms)" "v \<in> set (area_vpns a)" for a v
  proof -
    have "area_frame a v \<in> set (area_ppns a)" using ms_area_frames(1)[OF ms(1) that(1)] ms(2) that by auto
    then show ?thesis using that(1) by (auto simp: areas_ppns_def ms_owned_def)
  qed
  then show "\<And>a v. a \<in> set (areas ms) \<Longrightarrow> v \<in> set (area_vpns a) \<Longrightarrow> area_frame a v \<in> ms_owned ms \<inter> live l s2" using ow(1) by auto
  show p: "p \<in> ms_owned ms" "mm_inv l s2" using ms(3) frames ow(3) by (auto simp: cx_area_def)
  then show "p \<in> live l s2" using ow(1) by auto
  then show "page_ok (ppn_val p)" using live_page_ok[OF ow(3)] by blast
  show "page_eq (mem s1) (mem s2) (ppn_val p)" using ow(2) p(1) by (simp add: same_pages_def)
qed

lemma new_space_frames:
  assumes ms: "ms_inv l s1 (tramp ld) ms" "\<forall>a \<in> set (areas ms). map_type a = Framed" "cx_area ms p"
    and own: "own_step l s1 Own s2 Own'" "ms_owned ms \<inter> Own = {}" and new: "own_step l s {} s1 (ms_owned ms)"
    and wr: "same_pages (live l s2 - {p}) (mem s2) m'"
  shows "same_pages (live l s - Own) (mem s) m'"
    "\<And>a v. a \<in> set (areas ms) \<Longrightarrow> v \<in> set (area_vpns a) \<Longrightarrow> v \<noteq> trap_cx_vpn \<Longrightarrow> page_eq (mem s1) m' (ppn_val (area_frame a v))"
proof -
  note c = new_space_cx[OF ms own]
  have "same_pages (live l s - Own) (mem s1) (mem s2)"
    using own(1) new by (auto simp: own_step_def intro: same_pages_mono)
  moreover have "live l s - Own \<subseteq> live l s2 - {p}" using own(1) new c(2) by (auto simp: own_step_def)
  moreover have "same_pages (live l s - Own) (mem s) (mem s1)" using new by (auto simp: own_step_def intro: same_pages_mono)
  ultimately show "same_pages (live l s - Own) (mem s) m'" using wr by (meson same_pages_mono same_pages_trans)
  fix a v assume a: "a \<in> set (areas ms)" "v \<in> set (area_vpns a)" "v \<noteq> trap_cx_vpn"
  obtain b where b: "b \<in> set (areas ms)" "trap_cx_vpn \<in> set (area_vpns b)" "area_frame b trap_cx_vpn = p" using ms(3) by (auto simp: cx_area_def)
  have "area_frame a v \<noteq> p" using areas_frame_inj[OF ms_invD(3)[OF ms(1)] ms(2) a(1) b(1) a(2) b(2)] b(3) a(3) by auto
  moreover have "same_pages (ms_owned ms) (mem s1) (mem s2)"
    using own_step_frame(2)[OF own(1) ms_owned_live[OF ms(1)] own(2)] .
  ultimately show "page_eq (mem s1) m' (ppn_val (area_frame a v))"
    using c(6)[OF a(1,2)] wr by (auto simp: same_pages_def intro: page_eq_trans)
qed

lemma fork_memory:
  assumes f: "fork_inv l s ld (areas ms0) s1 ms" and inv0: "ms_inv l s (tramp ld) ms0" and fr: "\<forall>a \<in> set (areas ms0). map_type a = Framed"
    and cx: "cx_area ms0 p0" "cx_area ms p" and own: "own_step l s1 Own s2 Own'" "ms_owned ms \<inter> Own = {}"
    and m': "m' = write_u64 (write_u64 (mem s2) (word_at (cx_addr p) 35) v) (word_at (cx_addr p) 10) 0"
  shows "same_image (mem s) ms0 m' ms"
    "load_cx m' (cx_addr p) = (let cx = load_cx (mem s) (cx_addr p0) in cx\<lparr>cx_x := (cx_x cx)[10 := 0], cx_kernel_sp := v\<rparr>)"
    "same_pages (live l s - Own) (mem s) m'"
proof -
  have ms: "ms_inv l s1 (tramp ld) ms" "own_step l s {} s1 (ms_owned ms)" "list_all2 (\<lambda>a. area_copied (mem s) a (mem s1)) (areas ms0) (areas ms)"
    using f by (simp_all add: fork_inv_def)
  have fr': "\<forall>a \<in> set (areas ms). map_type a = Framed" using list_all2_setD(2)[OF ms(3)] fr by (fastforce simp: area_copied_def)
  note p = new_space_cx[OF ms(1) fr' cx(2) own]
  have wr: "same_pages (live l s2 - {p}) (mem s2) m'"
    unfolding m' by (rule same_pages_trans[OF same_pages_write_word[OF p(3,1)] same_pages_write_word[OF p(3,1)]]) simp_all
  note new = new_space_frames[OF ms(1) fr' cx(2) own ms(2) wr]
  show "same_pages (live l s - Own) (mem s) m'" using new(1) .
  show "same_image (mem s) ms0 m' ms"
    unfolding same_image_def
  proof (rule list.rel_mono_strong[OF ms(3)])
    fix a c assume a: "a \<in> set (areas ms0)" "c \<in> set (areas ms)" "area_copied (mem s) a (mem s1) c"
    then show "vpn_range c = vpn_range a \<and> map_type c = map_type a \<and> map_perm c = map_perm a \<and>
      (\<forall>v\<in>set (area_vpns a) - {trap_cx_vpn}. \<forall>i<4096. m' (paddr (ppn_val (area_frame c v)) i) = mem s (paddr (ppn_val (area_frame a v)) i))"
      using new(2)[OF a(2)] by (auto simp: area_copied_def pages_copied_def page_eq_def)
  qed
  obtain b where b: "b \<in> set (areas ms)" "trap_cx_vpn \<in> set (area_vpns b)" "area_frame b trap_cx_vpn = p" using cx(2) by (auto simp: cx_area_def)
  obtain a where a: "a \<in> set (areas ms0)" "vpn_range a = vpn_range b" "area_copied (mem s) a (mem s1) b"
    using list_all2_setD(2)[OF ms(3) b(1)] by (auto simp: area_copied_def)
  have "area_frame a trap_cx_vpn = p0"
    using cx(1) cx_area_abs[OF inv0 fr, of p0] ms_area_frames(3)[OF inv0 a(1), of trap_cx_vpn] a(1,2) b(2) fr by auto
  then have "load_cx (mem s2) (cx_addr p) = load_cx (mem s) (cx_addr p0)"
    using a b p(5) by (intro load_cx_cong) (auto simp: page_eq_def area_copied_def pages_copied_def)
  then show "load_cx m' (cx_addr p) = (let cx = load_cx (mem s) (cx_addr p0) in cx\<lparr>cx_x := (cx_x cx)[10 := 0], cx_kernel_sp := v\<rparr>)"
    using p(4) by (simp add: m' load_cx_write Let_def)
qed

lemma fork_cx:
  assumes f: "fork_inv l s ld (areas ms0) s1 ms" and fr: "\<forall>a \<in> set (areas ms0). map_type a = Framed" and cx: "cx_area ms0 p0"
  obtains p e where "cx_area ms p" "\<forall>a \<in> set (areas ms). map_type a = Framed" "ms_abs (mem s1) ms trap_cx_vpn = Some e" "pte_ppn e = p"
proof -
  have ms: "ms_inv l s1 (tramp ld) ms" "list_all2 (\<lambda>a. area_copied (mem s) a (mem s1)) (areas ms0) (areas ms)"
    using f by (simp_all add: fork_inv_def)
  have fr': "\<forall>a \<in> set (areas ms). map_type a = Framed"
    using list_all2_setD(2)[OF ms(2)] fr by (fastforce simp: area_copied_def)
  obtain a where a: "a \<in> set (areas ms0)" "trap_cx_vpn \<in> set (area_vpns a)" using cx by (auto simp: cx_area_def)
  obtain b where "b \<in> set (areas ms)" "vpn_range b = vpn_range a"
    using list_all2_setD(1)[OF ms(2) a(1)] by (auto simp: area_copied_def)
  then have "cx_area ms (area_frame b trap_cx_vpn)" using a(2) unfolding cx_area_def by (intro bexI[of _ b]) simp_all
  then show thesis using that cx_area_abs[OF ms(1) fr'] fr' by blast
qed

lemma fork_done:
  assumes run: "running l ld k h t" and f: "fork_inv l (k_mm k) ld (areas (memory_set t)) s1 (memory_set u)"
    and cx: "cx_area (memory_set u) (trap_cx_ppn u)" and own: "own_step l s1 (ms_owned (KERNEL_SPACE k)) s2 (ms_owned (KERNEL_SPACE k'))"
      "t_owned u \<inter> ms_owned (KERNEL_SPACE k) = {}"
    and fresh: "fresh_task l ld k u (k'\<lparr>k_mm := s2\<rparr>)"
    and u: "t_child u = []" "t_parent u = Some h" "t_prio u = t_prio t" "task_status u = Ready" "fd_table u = fd_table t" "task_cx u = Fresh tc"
      "t_stride u = 0" "heap_bottom u = heap_bottom t" "program_brk u = program_brk t"
    and k': "k_mm k' = s2\<lparr>mem := write_u64 (write_u64 (mem s2) (word_at (get_trap_cx u) 35) (get_top (kernel_stack u))) (word_at (get_trap_cx u) 10) 0\<rparr>"
      "TASKS k' = (TASKS k)(next_task k \<mapsto> u, h \<mapsto> t\<lparr>t_child := t_child t @ [next_task k]\<rparr>)"
      "next_task k' = Suc (next_task k)" "ready_queue k' = ready_queue k @ [next_task k]" "current k' = current k" "INITPROC k' = INITPROC k"
      "k_fs k' = k_fs k"
  shows "forked l k h t k' u" "kinv l ld k'"
proof -
  note r = runningD[OF run] and i = kinvD[OF runningD(1)[OF run]]
  have nh: "next_task k \<noteq> h" using next_task_None[OF r(1)] r(3) by auto
  have "t_prio t \<noteq> 0" using tree_invD(5)[OF i(4), of h] r(3) by (simp add: prio_def)
  then have kc: "kinv l ld (k'\<lparr>k_mm := s2\<rparr>)" using r(4) u k' by (intro kinv_create[OF r(1,3) _ fresh]) simp_all
  have un: "TASKS (k'\<lparr>k_mm := s2\<rparr>) (next_task k) = Some u" using nh k'(2) by simp
  have nz: "task_status u \<noteq> Zombie" using u(4) by simp
  let ?k1 = "k'\<lparr>k_mm := s2\<lparr>mem := write_u64 (mem s2) (word_at (get_trap_cx u) 35) (get_top (kernel_stack u))\<rparr>\<rparr>"
  have "kinv l ld ?k1" using kinv_write_cx[OF kc un nz, of 35] by simp
  then have "kinv l ld (k'\<lparr>k_mm := k_mm k'\<rparr>)" using kinv_write_cx[of l ld ?k1 "next_task k" u 10 0] un nz k'(1) by simp
  then show "kinv l ld k'" by simp
  show "forked l k h t k' u"
    using fork_memory[OF f r(5-7) cx own] u k' fresh by (simp add: forked_def fresh_task_def Let_def get_trap_cx_def)
qed

lemma wp_sys_fork:
  assumes run: "running l (env_ld e) k h t"
    and E: "avail (k_mm k) < 9 + 3 * length (areas_vpns (areas (memory_set t))) \<Longrightarrow> E OutOfFrames"
    and Q: "\<And>u k'. forked l k h t k' u \<Longrightarrow> kinv l (env_ld e) k' \<Longrightarrow> Q (Returned (get_pid u)) k'"
  shows "wp (sys_fork e) Q E k"
proof -
  note r = runningD[OF run] and i = kinvD[OF runningD(1)[OF run]]
  have ld: "ld_ok (env_ld e)" using r(8) by (simp add: layout_ok_def)
  have nh: "next_task k \<noteq> h" using next_task_None[OF r(1)] r(3) by auto
  show ?thesis
    apply (simp add: sys_fork_def task_fork_def wp_rules wp_current[OF run] Let_def)
    apply (rule wp_from_existed_user[OF r(5) ld r(6)])
     apply (use E in simp)
    subgoal premises f for s1 ms
    proof (rule fork_cx[OF f r(6,7)], goal_cases)
      case (1 p en)
      have fi: "ms_inv l s1 (tramp (env_ld e)) ms" "own_step l (k_mm k) {} s1 (ms_owned ms)"
        "avail (k_mm k) \<le> avail s1 + 3 + 3 * length (areas_vpns (areas (memory_set t)))" using f by (simp_all add: fork_inv_def)
      show ?case
        apply (rule wp_find_trap_cx_ppn[OF 1(3)], unfold 1(4))
        apply (rule wp_alloc_task[OF r(1) fi(2,1) 1(2,1)])
         apply (use E fi(3) in simp)
        subgoal premises g for pid a s2 ks
          apply (simp add: deref_task_def wp_rules add_task_def vec_push_def clone_fd_table_eq nh)
          by (rule Q; rule fork_done[OF run, where ?s1.0 = s1 and ?s2.0 = s2])
            (simp_all add: f 1 g fresh_task_cong[OF g(1)])
        done
    qed
    done
qed

end
