(* ===== verification/Kernel_Exec.thy ===== *)
theory Kernel_Exec
  imports Kernel_Procs
begin

text \<open>
  Loading programs: \<open>spawn\<close>, \<open>exec\<close> and the creation of the first task. A program whose file is \<open>elf_ok\<close> is
  started unless the frames run out; the new address space holds the image of the file and its trap context
  starts the program at its entry point.
\<close>

section \<open>A loaded program\<close>

text \<open>The last area is the page of the trap context, which the kernel fills in.\<close>

definition loaded :: "mem \<Rightarrow> elf_file \<Rightarrow> MemorySet \<Rightarrow> bool" where
  "loaded m elf ms \<longleftrightarrow> list_all2 (area_is m) (butlast (elf_image elf)) (butlast (areas ms)) \<and>
     vpn_range (last (areas ms)) = fst (last (elf_image elf)) \<and> length (areas ms) = length (elf_image elf)"

lemma built_cx:
  assumes b: "built l s ld (elf_image elf) s1 ms"
  obtains p en where "cx_area ms p" "\<forall>a \<in> set (areas ms). map_type a = Framed" "ms_abs (mem s1) ms trap_cx_vpn = Some en" "pte_ppn en = p"
proof -
  have ms: "ms_inv l s1 (tramp ld) ms" "list_all2 (area_is (mem s1)) (elf_image elf) (areas ms)" using b by (simp_all add: built_def)
  have fr: "\<forall>a \<in> set (areas ms). map_type a = Framed" using list_all2_setD(2)[OF ms(2)] by (auto simp: area_is_def)
  have "trap_cx_vpn \<in> set (seg_pages (elf_image elf))"
    by (simp add: elf_image_def stack_segs_def trap_cx_vpn_def set_vpns_of newtype_order_defs)
  then obtain a where a: "a \<in> set (areas ms)" "trap_cx_vpn \<in> set (area_vpns a)"
    using built_pages[OF ms(2)] by (metis UN_E set_areas_vpns)
  then have "cx_area ms (area_frame a trap_cx_vpn)" by (auto simp: cx_area_def)
  then show thesis using that cx_area_abs[OF ms(1) fr] fr by blast
qed

lemma list_all2_butlast: "list_all2 P xs ys \<Longrightarrow> list_all2 P (butlast xs) (butlast ys)"
  by (auto simp: list_all2_conv_all_nth nth_butlast)

lemma built_memory:
  assumes b: "built l s ld (elf_image elf) s1 ms" and cx: "cx_area ms p" and own: "own_step l s1 Own s2 Own'" "ms_owned ms \<inter> Own = {}"
    and m': "m' = store_cx (mem s2) (cx_addr p) (app_init_context ss en sp satp kst th)"
  shows "loaded m' elf ms" "load_cx m' (cx_addr p) = app_init_context ss en sp satp kst th" "same_pages (live l s - Own) (mem s) m'"
proof -
  have ms: "ms_inv l s1 (tramp ld) ms" "own_step l s {} s1 (ms_owned ms)" "list_all2 (area_is (mem s1)) (elf_image elf) (areas ms)"
    using b by (simp_all add: built_def)
  have fr: "\<forall>a \<in> set (areas ms). map_type a = Framed" using list_all2_setD(2)[OF ms(3)] by (auto simp: area_is_def)
  note p = new_space_cx[OF ms(1) fr cx own]
  have wr: "same_pages (live l s2 - {p}) (mem s2) m'"
    unfolding m' store_cx_def using same_pages_store_words[OF p(3,1), of 0 "cx_words (app_init_context ss en sp satp kst th)"]
    by (simp add: word_at_def length_cx_words)
  note new = new_space_frames[OF ms(1) fr cx own ms(2) wr]
  show "same_pages (live l s - Own) (mem s) m'" using new(1) .
  show "load_cx m' (cx_addr p) = app_init_context ss en sp satp kst th"
    unfolding m' by (rule load_store_cx) (simp add: app_init_context_def set_sp_def)
  have ne: "areas ms \<noteq> []" "elf_image elf \<noteq> []" using list_all2_lengthD[OF ms(3)] by (auto simp: elf_image_def stack_segs_def)
  have last: "vpn_range (last (areas ms)) = fst (last (elf_image elf))"
    using ms(3) ne by (simp add: list_all2_conv_all_nth last_conv_nth area_is_def)
  have "area_is m' seg a" if a: "a \<in> set (butlast (areas ms))" "area_is (mem s1) seg a" for seg a
  proof -
    have am: "a \<in> set (areas ms)" using a(1) by (rule in_set_butlastD)
    have "trap_cx_vpn \<in> set (area_vpns (last (areas ms)))"
      unfolding last by (simp add: elf_image_def stack_segs_def trap_cx_vpn_def set_vpns_of newtype_order_defs)
    moreover have "distinct (areas_vpns (butlast (areas ms) @ [last (areas ms)]))" using ms_invD(3)[OF ms(1)] ne by (simp add: areas_wf_def)
    ultimately have "trap_cx_vpn \<notin> set (area_vpns a)" using a(1) by (auto simp: areas_vpns_def)
    then have "same_pages (area_frame a ` set (area_vpns a)) (mem s1) m'" using new(2)[OF am] by (auto simp: same_pages_def)
    then show ?thesis using a(2) area_holds_same[of "mem s1" a _ "area_frame a ` set (area_vpns a)" m'] by (simp add: area_is_def)
  qed
  then have "list_all2 (area_is m') (butlast (elf_image elf)) (butlast (areas ms))"
    using list.rel_mono_strong[OF list_all2_butlast[OF ms(3)]] by blast
  then show "loaded m' elf ms" using last list_all2_lengthD[OF ms(3)] by (simp add: loaded_def)
qed

section \<open>Spawn\<close>

definition init_cx :: "('fs, 'i) env \<Rightarrow> ('fs, 'i) kernel \<Rightarrow> elf_file \<Rightarrow> TaskControlBlock \<Rightarrow> TrapContext" where
  "init_cx e k elf u = app_init_context (env_sstatus e) (elf_entry_point elf) (user_stack_top elf) (ms_token (KERNEL_SPACE k))
     (get_top (kernel_stack u)) (env_trap_handler e)"

definition spawned :: "usize \<Rightarrow> ('fs, 'i) env \<Rightarrow> ('fs, 'i) kernel \<Rightarrow> nat \<Rightarrow> TaskControlBlock \<Rightarrow> elf_file \<Rightarrow> ('fs, 'i) kernel \<Rightarrow> TaskControlBlock \<Rightarrow> bool" where
  "spawned l e k h t elf k' u \<longleftrightarrow>
     TASKS k' = (TASKS k)(next_task k \<mapsto> u, h \<mapsto> t\<lparr>t_child := t_child t @ [next_task k]\<rparr>) \<and>
     ready_queue k' = ready_queue k @ [next_task k] \<and> current k' = current k \<and> INITPROC k' = INITPROC k \<and> k_fs k' = k_fs k \<and>
     task_status u = Ready \<and> t_stride u = 0 \<and> t_parent u = Some h \<and> t_child u = [] \<and> fd_table u = fd_table t \<and> t_prio u = 16 \<and> get_pid u \<notin> task_pids (TASKS k) \<and>
     heap_bottom u = user_stack_top elf \<and> program_brk u = user_stack_top elf \<and>
     loaded (mem (k_mm k')) elf (memory_set u) \<and> load_cx (mem (k_mm k')) (get_trap_cx u) = init_cx e k' elf u \<and>
     \<not> bit (cx_sstatus (load_cx (mem (k_mm k')) (get_trap_cx u))) 8 \<and>
     same_pages (live l (k_mm k) - ms_owned (KERNEL_SPACE k)) (mem (k_mm k)) (mem (k_mm k'))"

lemma spawn_done:
  assumes run: "running l (env_ld e) k h t" and b: "built l (k_mm k) (env_ld e) (elf_image elf) s1 (memory_set u)"
    and cx: "cx_area (memory_set u) (trap_cx_ppn u)" and own: "own_step l s1 (ms_owned (KERNEL_SPACE k)) s2 (ms_owned (KERNEL_SPACE k'))"
      "t_owned u \<inter> ms_owned (KERNEL_SPACE k) = {}"
    and fresh: "fresh_task l (env_ld e) k u (k'\<lparr>k_mm := s2\<rparr>)"
    and u: "t_child u = []" "t_parent u = Some h" "t_prio u = 16" "task_status u = Ready" "fd_table u = fd_table t" "task_cx u = Fresh tc"
      "heap_bottom u = user_stack_top elf" "program_brk u = user_stack_top elf" "t_stride u = 0"
    and k': "k_mm k' = s2\<lparr>mem := store_cx (mem s2) (get_trap_cx u) (init_cx e k' elf u)\<rparr>"
      "TASKS k' = (TASKS k)(next_task k \<mapsto> u, h \<mapsto> t\<lparr>t_child := t_child t @ [next_task k]\<rparr>)"
      "next_task k' = Suc (next_task k)" "ready_queue k' = ready_queue k @ [next_task k]" "current k' = current k" "INITPROC k' = INITPROC k"
      "k_fs k' = k_fs k"
  shows "spawned l e k h t elf k' u" "kinv l (env_ld e) k'"
proof -
  note r = runningD[OF run]
  have nh: "next_task k \<noteq> h" using next_task_None[OF r(1)] r(3) by auto
  have kc: "kinv l (env_ld e) (k'\<lparr>k_mm := s2\<rparr>)" using r(4) u k' by (intro kinv_create[OF r(1,3) _ fresh]) simp_all
  have un: "TASKS (k'\<lparr>k_mm := s2\<rparr>) (next_task k) = Some u" using nh k'(2) by simp
  have "kinv l (env_ld e) (k'\<lparr>k_mm := k_mm k'\<rparr>)"
    using kinv_init_cx[OF kc un] u(4) k'(1) by (simp add: get_trap_cx_def init_cx_def)
  then show "kinv l (env_ld e) k'" by simp
  show "spawned l e k h t elf k' u"
    using built_memory[OF b cx own, of "mem (k_mm k')"] u k' fresh
    by (simp add: spawned_def fresh_task_def Let_def get_trap_cx_def init_cx_def app_init_user)
qed

lemma wp_spawn:
  assumes run: "running l (env_ld e) k h t" and parse: "env_parse e data = Some elf" "elf_ok elf"
    and E: "avail (k_mm k) < 9 + 3 * length (seg_pages (elf_image elf)) \<Longrightarrow> E OutOfFrames"
    and Q: "\<And>u k'. spawned l e k h t elf k' u \<Longrightarrow> kinv l (env_ld e) k' \<Longrightarrow> Q (Returned (get_pid u)) k'"
  shows "wp (kbind (task_spwan e h data) (\<lambda>c. kbind (deref_task c) (\<lambda>t. kbind (add_task c) (\<lambda>_. kret (get_pid t))))) Q E k"
proof -
  note r = runningD[OF run]
  have ld: "ld_ok (env_ld e)" using r(8) by (simp add: layout_ok_def)
  have nh: "next_task k \<noteq> h" using next_task_None[OF r(1)] r(3) by auto
  show ?thesis
    apply (simp add: task_spwan_def wp_rules wp_current[OF run] Let_def)
    apply (rule wp_from_elf[where parse = "env_parse e" and elf_data = data, OF ms_invD(1)[OF r(5)] ld parse])
     apply (use E in simp)
    subgoal premises f for s1 ms
    proof (rule built_cx[OF f], goal_cases)
      case (1 p en)
      have fi: "ms_inv l s1 (tramp (env_ld e)) ms" "own_step l (k_mm k) {} s1 (ms_owned ms)"
        "avail (k_mm k) \<le> avail s1 + 3 + 3 * length (seg_pages (elf_image elf))" using f by (simp_all add: built_def)
      show ?case
        apply (simp add: wp_rules)
        apply (rule wp_find_trap_cx_ppn[OF 1(3)], unfold 1(4))
        apply (rule wp_alloc_task[OF r(1) fi(2,1) 1(2,1)])
         apply (use E fi(3) in simp)
        subgoal premises g for pid a s2 ks
          apply (simp add: deref_task_def wp_rules add_task_def vec_push_def clone_fd_table_eq nh init_trap_cx_def)
          by (rule Q; rule spawn_done[OF run, where ?s1.0 = s1 and ?s2.0 = s2])
            (simp_all add: f 1 g fresh_task_cong[OF g(1)] get_trap_cx_def init_cx_def)
        done
    qed
    done
qed

section \<open>Exec\<close>

text \<open>
  The address space is replaced and the old one given back; the break and the bottom of the heap stay those of the
  program that ran before.
\<close>

definition execed :: "usize \<Rightarrow> ('fs, 'i) env \<Rightarrow> ('fs, 'i) kernel \<Rightarrow> nat \<Rightarrow> TaskControlBlock \<Rightarrow> elf_file \<Rightarrow> ('fs, 'i) kernel \<Rightarrow> TaskControlBlock \<Rightarrow> bool" where
  "execed l e k h t elf k' u \<longleftrightarrow>
     u = t\<lparr>memory_set := memory_set u, trap_cx_ppn := trap_cx_ppn u\<rparr> \<and> k' = k\<lparr>TASKS := (TASKS k)(h \<mapsto> u), k_mm := k_mm k'\<rparr> \<and>
     loaded (mem (k_mm k')) elf (memory_set u) \<and> load_cx (mem (k_mm k')) (get_trap_cx u) = init_cx e k elf u \<and>
     \<not> bit (cx_sstatus (load_cx (mem (k_mm k')) (get_trap_cx u))) 8 \<and>
     live l (k_mm k') = (live l (k_mm k) - t_owned t) \<union> t_owned u \<and> t_owned u \<inter> live l (k_mm k) = {} \<and>
     same_pages (live l (k_mm k) - t_owned t) (mem (k_mm k)) (mem (k_mm k'))"

lemma exec_own:
  assumes new: "own_step l s {} s1 Own'" and old: "own_step l s1 Own s2 {}" "Own \<subseteq> live l s"
  shows "own_step l s Own s2 Own'" "Own' \<inter> Own = {}" "Own' \<inter> live l s = {}"
proof -
  have d: "Own \<inter> Own' = {}" "Own' \<subseteq> live l s1" using new old(2) by (auto simp: own_step_def)
  have "own_step l s (Own \<union> {}) s1 (Own \<union> Own')" using own_step_frame(1)[OF new old(2)] by (simp add: Un_commute)
  moreover have "own_step l s1 (Own \<union> Own') s2 Own'" using own_step_frame(1)[OF old(1) d(2)] d(1) by (simp add: Int_commute)
  ultimately show "own_step l s Own s2 Own'" using own_step_trans by fastforce
  show "Own' \<inter> Own = {}" "Own' \<inter> live l s = {}" using d new by (auto simp: own_step_def)
qed

lemma exec_done:
  assumes run: "running l (env_ld e) k h t" and b: "built l (k_mm k) (env_ld e) (elf_image elf) s1 (memory_set u)"
    and cx: "cx_area (memory_set u) (trap_cx_ppn u)" "\<forall>a \<in> set (areas (memory_set u)). map_type a = Framed"
    and old: "own_step l s1 (t_owned t) s2 {}"
    and u: "u = t\<lparr>memory_set := memory_set u, trap_cx_ppn := trap_cx_ppn u\<rparr>"
    and k': "k' = k\<lparr>TASKS := (TASKS k)(h \<mapsto> u), k_mm := s2\<lparr>mem := store_cx (mem s2) (get_trap_cx u) (init_cx e k elf u)\<rparr>\<rparr>"
  shows "execed l e k h t elf k' u" "running l (env_ld e) k' h u"
proof -
  note r = runningD[OF run]
  have bi: "ms_inv l s1 (tramp (env_ld e)) (memory_set u)" "own_step l (k_mm k) {} s1 (t_owned u)" using b by (simp_all add: built_def)
  note o = exec_own[OF bi(2) old ms_owned_live[OF r(5)]]
  have ms: "ms_inv l s2 (tramp (env_ld e)) (memory_set u)" using ms_inv_frame(1)[OF bi(1) old] o(2) by simp
  have same: "t_pid u = t_pid t" "kernel_stack u = kernel_stack t" "t_child u = t_child t" "t_parent u = t_parent t"
    "task_status u = task_status t" "t_prio u = t_prio t" by (subst u, simp)+
  let ?k = "k\<lparr>k_mm := s2, TASKS := (TASKS k)(h \<mapsto> u)\<rparr>"
  have run': "running l (env_ld e) ?k h u" using running_space[OF run o(1) ms cx(2,1) same] .
  have "kinv l (env_ld e) (?k\<lparr>k_mm := (k_mm ?k)\<lparr>mem := store_cx (mem (k_mm ?k)) (pa_val (pa_from_ppn (trap_cx_ppn u))) (init_cx e k elf u)\<rparr>\<rparr>)"
    unfolding init_cx_def by (rule kinv_init_cx[OF runningD(1,3)[OF run']]) (simp add: runningD(4)[OF run'])
  then show "running l (env_ld e) k' h u" using running_upd[OF run'] by (simp add: k' get_trap_cx_def)
  show "execed l e k h t elf k' u"
    using built_memory[OF b cx(1) old o(2), of "mem (k_mm k')"] u o by (simp add: execed_def k' get_trap_cx_def init_cx_def own_step_def app_init_user)
qed

lemma wp_exec:
  assumes run: "running l (env_ld e) k h t" and parse: "env_parse e data = Some elf" "elf_ok elf"
    and E: "avail (k_mm k) < 3 + 3 * length (seg_pages (elf_image elf)) \<Longrightarrow> E OutOfFrames"
    and Q: "\<And>u k'. execed l e k h t elf k' u \<Longrightarrow> running l (env_ld e) k' h u \<Longrightarrow> Q () k'"
  shows "wp (task_exec e h data) Q E k"
proof -
  note r = runningD[OF run]
  have ld: "ld_ok (env_ld e)" using r(8) by (simp add: layout_ok_def)
  show ?thesis
    apply (simp add: task_exec_def wp_rules)
    apply (rule wp_from_elf[where parse = "env_parse e" and elf_data = data, OF ms_invD(1)[OF r(5)] ld parse])
     apply (use E in simp)
    subgoal premises f for s1 ms
    proof (rule built_cx[OF f], goal_cases)
      case (1 p en)
      have own: "own_step l (k_mm k) {} s1 (ms_owned ms)" using f by (simp add: built_def)
      have sp: "space_inv l (env_ld e) s1 t" "mm_inv l s1"
        using space_inv_frame[OF mem_invD(3)[OF kinvD(1)[OF r(1)] r(3)] own] own by (simp_all add: own_step_def)
      show ?case
        apply (simp add: wp_rules)
        apply (rule wp_find_trap_cx_ppn[OF 1(3)], unfold 1(4))
        apply (simp add: wp_rules deref_task_def r(3) init_trap_cx_def)
        apply (rule wp_drop_space[OF sp])
        subgoal premises g for s2
          by (rule Q; rule exec_done[OF run, where ?s1.0 = s1 and ?s2.0 = s2 and u = "t\<lparr>memory_set := ms, trap_cx_ppn := p\<rparr>"])
            (simp_all add: f 1 g get_trap_cx_def init_cx_def)
        done
    qed
    done
qed

section \<open>The calls\<close>

lemma sys_post_forked:
  assumes run: "running l ld k h t" and f: "forked l k h t k' u" "kinv l ld k'"
  shows "sys_post l ld h k (Returned v) k'"
proof -
  have "current k' = Some h" using f(1) runningD(2)[OF run] by (simp add: forked_def)
  moreover have "kept h k k'" by (rule kept_create[OF runningD(1,3)[OF run]]) (use f(1) in \<open>simp_all add: forked_def\<close>)
  ultimately show ?thesis using f(2) by (simp add: sys_post_def)
qed

lemma sys_post_spawned:
  assumes run: "running l (env_ld e) k h t" and f: "spawned l e k h t elf k' u" "kinv l (env_ld e) k'"
  shows "sys_post l (env_ld e) h k (Returned v) k'"
proof -
  have "current k' = Some h" using f(1) runningD(2)[OF run] by (simp add: spawned_def)
  moreover have "kept h k k'" by (rule kept_create[OF runningD(1,3)[OF run]]) (use f(1) in \<open>simp_all add: spawned_def\<close>)
  ultimately show ?thesis using f(2) by (simp add: sys_post_def)
qed

lemma kept_execed:
  assumes run: "running l (env_ld e) k h t" and ex: "execed l e k h t elf k' u"
  shows "kept h k k'"
proof (rule keptI[OF runningD(1,3)[OF run]])
  have eq: "k' = k\<lparr>TASKS := (TASKS k)(h \<mapsto> u), k_mm := k_mm k'\<rparr>"
    and same: "same_pages (live l (k_mm k) - t_owned t) (mem (k_mm k)) (mem (k_mm k'))" using ex unfolding execed_def by blast+
  have "live l (k_mm k) - (t_owned t \<union> ms_owned (KERNEL_SPACE k)) \<subseteq> live l (k_mm k) - t_owned t" by blast
  from same_pages_mono[OF same this]
  show "same_pages (live l (k_mm k) - (t_owned t \<union> ms_owned (KERNEL_SPACE k))) (mem (k_mm k)) (mem (k_mm k'))" .
  have "TASKS k' = (TASKS k)(h \<mapsto> u)" by (subst eq) simp
  then show "\<exists>v'. TASKS k' g = Some v' \<and> memory_set v' = memory_set v \<and> trap_cx_ppn v' = trap_cx_ppn v \<and> task_status v' = task_status v"
    if "g \<noteq> h" "TASKS k g = Some v" for g v
    using that by simp
qed

text \<open>The file named by the argument must be a program the loader accepts, if it is one at all.\<close>

definition app_ok :: "('fs, 'i) env \<Rightarrow> ('fs, 'i) kernel \<Rightarrow> usize \<Rightarrow> usize \<Rightarrow> bool" where
  "app_ok e k token path \<longleftrightarrow> (\<forall>name f d data f' elf. translated_str (mem (k_mm k)) token path = Some (Inr name) \<longrightarrow>
     open_file (env_efs e) name OF_RDONLY (disk (k_fs k)) = (Some f, d) \<longrightarrow> read_all (env_efs e) d f = Some (data, f') \<longrightarrow>
     env_parse e data = Some elf \<longrightarrow> elf_ok elf)"

lemma wlp_app:
  assumes ok: "app_ok e k token path"
    and Q: "\<And>r fs. (\<And>data elf. r = Some data \<Longrightarrow> env_parse e data = Some elf \<Longrightarrow> elf_ok elf) \<Longrightarrow> Q r (k\<lparr>k_fs := fs\<rparr>)"
  shows "wlp (user_str token path) (\<lambda>name. wp (load_app e name) Q (\<lambda>_. True)) k"
proof -
  have "wlp (load_app e name) Q k" if n: "translated_str (mem (k_mm k)) token path = Some (Inr name)" for name
  proof -
    obtain r d where o: "open_file (env_efs e) name OF_RDONLY (disk (k_fs k)) = (r, d)" by fastforce
    show ?thesis using ok n o
      by (auto simp: load_app_def wp_rules app_ok_def split: option.splits prod.splits intro!: Q)
  qed
  then show ?thesis by (simp add: user_str_def wp_rules wlp_kloop)
qed

lemma wlp_from_elf_None: "parse data = None \<Longrightarrow> wlp (from_elf ld parse data) Q s"
  by (simp add: from_elf_def wp_rules)

text \<open>A file on the disk that the loader accepts.\<close>

definition has_app :: "('fs, 'i) env \<Rightarrow> ('fs \<Rightarrow> 'i \<Rightarrow> u8 list) \<Rightarrow> 'fs \<Rightarrow> u8 list \<Rightarrow> elf_file \<Rightarrow> bool" where
  "has_app e content d name elf \<longleftrightarrow> efs_reads (env_efs e) content \<and> elf_ok elf \<and>
     (\<exists>i. root_find (env_efs e) d name = Some i \<and> length (content d i) < 2 ^ 64 \<and> env_parse e (content d i) = Some elf)"

lemma load_app_content:
  assumes app: "has_app e content (disk (k_fs k)) name elf" and i: "root_find (env_efs e) (disk (k_fs k)) name = Some i"
  shows "load_app e name k = Inr (Some (content (disk (k_fs k)) i), k)" "env_parse e (content (disk (k_fs k)) i) = Some elf"
proof -
  let ?d = "disk (k_fs k)"
  have c: "efs_reads (env_efs e) content" "length (content ?d i) < 2 ^ 64" using app i by (auto simp: has_app_def)
  show "env_parse e (content ?d i) = Some elf" using app i by (auto simp: has_app_def)
  have o: "open_file (env_efs e) name OF_RDONLY ?d = (Some (OSInode_new True False i), ?d)"
    using i by (simp add: open_file_def read_write_def flags_contains_def OF_RDONLY_def OF_CREATE_def OF_TRUNC_def)
  have "read_all (env_efs e) ?d (OSInode_new True False i) = Some (content ?d i, (OSInode_new True False i)\<lparr>os_offset := of_nat (length (content ?d i))\<rparr>)"
    using read_all_loop_spec[OF c(1), of ?d "OSInode_new True False i" "[]"] c(2) by (simp add: read_all_def OSInode_new_def)
  then show "load_app e name k = Inr (Some (content ?d i), k)"
    by (simp add: load_app_def kbind_def kget_def kmodify_def kreturn_def o)
qed

lemma wp_load_app:
  assumes app: "has_app e content (disk (k_fs k)) name elf"
    and Q: "\<And>data. env_parse e data = Some elf \<Longrightarrow> Q (Some data) k"
  shows "wp (load_app e name) Q E k"
proof -
  obtain i where "root_find (env_efs e) (disk (k_fs k)) name = Some i" using app by (auto simp: has_app_def)
  from load_app_content[OF app this] show ?thesis using Q by (simp add: wp_def)
qed

lemma wp_user_str:
  "translated_str (mem (k_mm k)) token path = Some (Inr name) \<Longrightarrow> wp (user_str token path) Q E k = Q name k"
  by (simp add: user_str_def wp_rules kloop_def klift_def)

lemma wp_sys_exec:
  assumes run: "running l (env_ld e) k h t" and name: "translated_str (mem (k_mm k)) (get_user_token t) path = Some (Inr name)"
    and app: "has_app e content (disk (k_fs k)) name elf"
    and E: "avail (k_mm k) < 3 + 3 * length (seg_pages (elf_image elf)) \<Longrightarrow> E OutOfFrames"
    and Q: "\<And>u k'. execed l e k h t elf k' u \<Longrightarrow> running l (env_ld e) k' h u \<Longrightarrow> Q (Returned 0) k'"
  shows "wp (sys_exec e path) Q E k"
  unfolding sys_exec_def wp_kbind wp_current[OF run] wp_user_str[OF name]
proof (rule wp_load_app[OF app], goal_cases)
  case (1 data)
  have "elf_ok elf" using app by (simp add: has_app_def)
  then show ?case unfolding option.case wp_kbind wp_current[OF run] wp_kreturn
    by (rule wp_exec[OF run 1]) (use E Q in auto)
qed

lemma wp_sys_spawn:
  assumes run: "running l (env_ld e) k h t" and name: "translated_str (mem (k_mm k)) (get_user_token t) path = Some (Inr name)"
    and app: "has_app e content (disk (k_fs k)) name elf"
    and E: "avail (k_mm k) < 9 + 3 * length (seg_pages (elf_image elf)) \<Longrightarrow> E OutOfFrames"
    and Q: "\<And>u k'. spawned l e k h t elf k' u \<Longrightarrow> kinv l (env_ld e) k' \<Longrightarrow> Q (Returned (get_pid u)) k'"
  shows "wp (sys_spawn e path) Q E k"
  unfolding sys_spawn_def wp_kbind wp_current[OF run] wp_user_str[OF name]
proof (rule wp_load_app[OF app], goal_cases)
  case (1 data)
  have ok: "elf_ok elf" using app by (simp add: has_app_def)
  show ?case
    using wp_spawn[OF run 1 ok, of E Q] E Q by (simp only: option.case wp_kbind wp_current[OF run])
qed

lemma wlp_sys_exec:
  assumes run: "running l (env_ld e) k h t" and ok: "app_ok e k (get_user_token t) path"
  shows "wlp (sys_exec e path) (sys_post l (env_ld e) h k) k"
proof -
  have "wlp (case r of None \<Rightarrow> kret (- 1) | Some data \<Rightarrow> kbind current_handle (\<lambda>h. kbind (task_exec e h data) (\<lambda>_. kret 0)))
      (sys_post l (env_ld e) h k) (k\<lparr>k_fs := fs\<rparr>)"
    if "\<And>data elf. r = Some data \<Longrightarrow> env_parse e data = Some elf \<Longrightarrow> elf_ok elf" for r fs
  proof -
    have run': "running l (env_ld e) (k\<lparr>k_fs := fs\<rparr>) h t" using run by (simp add: running_fs)
    have "wlp (task_exec e h data) (\<lambda>_. sys_post l (env_ld e) h k (Returned 0)) (k\<lparr>k_fs := fs\<rparr>)" if "r = Some data" for data
    proof (cases "env_parse e data")
      case None
      then show ?thesis by (simp add: task_exec_def wp_rules wlp_from_elf_None)
    next
      case (Some elf)
      then have "elf_ok elf" using that \<open>\<And>data elf. r = Some data \<Longrightarrow> env_parse e data = Some elf \<Longrightarrow> elf_ok elf\<close> by blast
      from wp_exec[OF run' Some this] show ?thesis
        using sys_post_returned[OF _ kept_execed[OF run'], unfolded sys_post_fs] by (metis (no_types, lifting))
    qed
    then show ?thesis using sys_post_same[OF run'] unfolding sys_post_fs by (auto simp: wp_rules wp_current[OF run'] split: option.splits)
  qed
  then show ?thesis
    unfolding sys_exec_def wp_rules wp_current[OF run] by (intro wlp_app[OF ok]) blast
qed

lemma wlp_sys_spawn:
  assumes run: "running l (env_ld e) k h t" and ok: "app_ok e k (get_user_token t) path"
  shows "wlp (sys_spawn e path) (sys_post l (env_ld e) h k) k"
proof -
  let ?spawn = "\<lambda>h data. kbind (task_spwan e h data) (\<lambda>c. kbind (deref_task c) (\<lambda>t. kbind (add_task c) (\<lambda>_. kret (get_pid t))))"
  have "wlp (case r of None \<Rightarrow> kret (- 1) | Some data \<Rightarrow> kbind current_handle (\<lambda>h. ?spawn h data)) (sys_post l (env_ld e) h k) (k\<lparr>k_fs := fs\<rparr>)"
    if elf: "\<And>data elf. r = Some data \<Longrightarrow> env_parse e data = Some elf \<Longrightarrow> elf_ok elf" for r fs
  proof -
    have run': "running l (env_ld e) (k\<lparr>k_fs := fs\<rparr>) h t" using run by (simp add: running_fs)
    have "wlp (?spawn h data) (sys_post l (env_ld e) h k) (k\<lparr>k_fs := fs\<rparr>)" if r: "r = Some data" for data
    proof (cases "env_parse e data")
      case None
      then show ?thesis by (simp add: task_spwan_def wp_rules wlp_from_elf_None wp_current[OF run'])
    next
      case (Some elf)
      show ?thesis
        by (rule wp_spawn[OF run' Some elf[OF r Some]]) (simp_all add: sys_post_spawned[OF run', unfolded sys_post_fs])
    qed
    then show ?thesis using sys_post_same[OF run'] unfolding sys_post_fs by (cases r) (simp_all only: option.case wp_kbind wp_current[OF run'] wp_kreturn)
  qed
  then show ?thesis
    unfolding sys_spawn_def wp_kbind wp_current[OF run] by (intro wlp_app[OF ok]) blast
qed

lemma wlp_sys_fork:
  assumes run: "running l (env_ld e) k h t"
  shows "wlp (sys_fork e) (sys_post l (env_ld e) h k) k"
  by (rule wp_sys_fork[OF run]) (simp_all add: sys_post_forked[OF run])

section \<open>The older spawn\<close>

lemma spawn1_eq:
  fixes k :: "('fs, 'i) kernel"
  assumes cur: "current k = Some h" "TASKS k h = Some t" "TASKS k (next_task k) = None" and fd: "fd_table t = [Some Stdin, Some Stdout, Some Stdout]"
  shows "kbind (TaskControlBlock_new e data) (\<lambda>new. kbind (new_task new) (\<lambda>c. kbind current_handle (\<lambda>h. kbind (deref_task c) (\<lambda>t.
      kbind (set_task c (t\<lparr>t_parent := Some h\<rparr>)) (\<lambda>_. kbind (deref_task h) (\<lambda>parent.
      kbind (set_task h (parent\<lparr>t_child := vec_push (t_child parent) c\<rparr>)) (\<lambda>_. kbind (add_task c) (\<lambda>_. kret (get_pid new))))))))) k =
    kbind (task_spwan e h data) (\<lambda>c. kbind (deref_task c) (\<lambda>t. kbind (add_task c) (\<lambda>_. kret (get_pid t)))) k" (is "?l k = ?r k")
proof (rule wp_eqD)
  have nh: "next_task k \<noteq> h" using cur by auto
  have fd': "clone_fd_table (fd_table t) = [Some Stdin, Some Stdout, Some Stdout]" by (simp add: clone_fd_table_eq fd)
  have swap: "k'\<lparr>k_mm := m, TASKS := T\<rparr> = k'\<lparr>TASKS := T, k_mm := m\<rparr>" "k'\<lparr>k_mm := m, next_task := n\<rparr> = k'\<lparr>next_task := n, k_mm := m\<rparr>"
    "k'\<lparr>k_mm := m, ready_queue := q\<rparr> = k'\<lparr>ready_queue := q, k_mm := m\<rparr>" "k'\<lparr>next_task := n, TASKS := T\<rparr> = k'\<lparr>TASKS := T, next_task := n\<rparr>"
    for k' :: "('fs, 'i) kernel" and m n q T by simp_all
  show "wp ?l Q E k = wp ?r Q E k" for Q E
    using nh cur(1,2)
    by (simp add: TaskControlBlock_new_def task_spwan_def wp_rules wp_case_prod pid_alloc_def KernelStack_new_def current_handle_def
        current_task_def deref_task_def add_task_def init_trap_cx_def Let_def fd' get_pid_def fun_upd_twist case_prod_unfold swap)
qed

lemma load_app_state: "load_app e name k = Inr (r, k') \<Longrightarrow> \<exists>d. k' = k\<lparr>k_fs := d\<rparr>"
  by (auto simp: load_app_def kbind_def kget_def kmodify_def kreturn_def kpanic_def split: prod.splits option.splits)

lemma sys_spawn1_eq:
  assumes run: "running l (env_ld e) k h t" and fd: "fd_table t = [Some Stdin, Some Stdout, Some Stdout]"
    and ne: "\<And>name k'. translated_str (mem (k_mm k)) (get_user_token t) path = Some (Inr name) \<Longrightarrow> load_app e name k \<noteq> Inr (Some [], k')"
  shows "sys_spawn1 e path k = sys_spawn e path k"
proof -
  have tok: "current_user_token k = Inr (get_user_token t, k)" "current_handle k = Inr (h, k)"
    using runningD(2,3)[OF run]
    by (simp_all add: current_user_token_def current_block_def current_handle_def current_task_def deref_task_def kbind_def kget_def kunwrap_def kreturn_def)
  show ?thesis
  proof (cases "user_str (get_user_token t) path k")
    case (Inl x)
    then show ?thesis by (simp add: sys_spawn1_def sys_spawn_def kbind_def tok)
  next
    case (Inr p)
    then obtain name where n: "user_str (get_user_token t) path k = Inr (name, k)" "translated_str (mem (k_mm k)) (get_user_token t) path = Some (Inr name)"
      by (cases p) (auto simp: user_str_def kbind_def kget_def kloop_def klift_def kpanic_def kreturn_def split: option.splits sum.splits)
    show ?thesis
    proof (cases "load_app e name k")
      case (Inl x)
      then show ?thesis by (simp add: sys_spawn1_def sys_spawn_def kbind_def tok n(1))
    next
      case (Inr q)
      then obtain r d where r: "load_app e name k = Inr (r, k\<lparr>k_fs := d\<rparr>)" using load_app_state[of e name k] by (cases q) fastforce
      have k': "current (k\<lparr>k_fs := d\<rparr>) = Some h" "TASKS (k\<lparr>k_fs := d\<rparr>) h = Some t" "TASKS (k\<lparr>k_fs := d\<rparr>) (next_task (k\<lparr>k_fs := d\<rparr>)) = None"
        using runningD(2,3)[OF run] next_task_None[OF runningD(1)[OF run]] by simp_all
      have h: "current_handle (k\<lparr>k_fs := d\<rparr>) = Inr (h, k\<lparr>k_fs := d\<rparr>)"
        using k'(1) by (simp add: current_handle_def current_task_def kbind_def kget_def kunwrap_def kreturn_def)
      have "r \<noteq> Some []" using ne[OF n(2)] r by auto
      then show ?thesis
        using spawn1_eq[OF k' fd, of e] by (cases r) (simp_all add: sys_spawn1_def sys_spawn_def kbind_def[of current_user_token] kbind_def[of "user_str _ _"]
            kbind_def[of "load_app _ _"] kbind_def[of current_handle] tok n(1) r h)
    qed
  qed
qed

end
