(* ===== verification/Kernel_Exit.thy ===== *)
theory Kernel_Exit
  imports Kernel_Exec
begin

text \<open>
  The end of a task: \<open>exit\<close> hands its children to \<open>INITPROC\<close> and gives its data pages back, \<open>waitpid\<close> of the
  parent takes the block and with it the identifier, the kernel stack and the page tables.
\<close>

section \<open>Blocks with the same resources\<close>

definition same_res :: "tasks \<Rightarrow> tasks \<Rightarrow> bool" where
  "same_res T T' \<longleftrightarrow> (\<forall>g. rel_option (\<lambda>t t'. t_pid t' = t_pid t \<and> kernel_stack t' = kernel_stack t \<and> memory_set t' = memory_set t \<and>
     trap_cx_ppn t' = trap_cx_ppn t \<and> task_status t' = task_status t \<and> task_cx t' = task_cx t) (T g) (T' g))"

lemma same_res_Some:
  assumes "same_res T T'" "T' g = Some t'"
  obtains t where "T g = Some t" "t_pid t' = t_pid t" "kernel_stack t' = kernel_stack t" "memory_set t' = memory_set t"
    "trap_cx_ppn t' = trap_cx_ppn t" "task_status t' = task_status t" "task_cx t' = task_cx t"
proof -
  have "rel_option (\<lambda>t t'. t_pid t' = t_pid t \<and> kernel_stack t' = kernel_stack t \<and> memory_set t' = memory_set t \<and>
     trap_cx_ppn t' = trap_cx_ppn t \<and> task_status t' = task_status t \<and> task_cx t' = task_cx t) (T g) (Some t')"
    using assms unfolding same_res_def by (auto dest: spec[of _ g])
  then show thesis using that by (cases "T g") simp_all
qed

lemma same_res_pids: "same_res T T' \<Longrightarrow> task_pids T' = task_pids T"
proof -
  assume a: "same_res T T'"
  have "map_option get_pid (T' g) = map_option get_pid (T g)" for g
    using spec[OF a[unfolded same_res_def], of g] by (cases "T g"; cases "T' g") (simp_all add: get_pid_def)
  then show ?thesis unfolding task_pids_eq by simp
qed

lemma same_res_mem_inv:
  assumes "same_res T T'" "mem_inv l ld s ks T"
  shows "mem_inv l ld s ks T'"
proof -
  note i = mem_invD[OF assms(2)]
  have sp: "space_inv l ld s t' \<and> t_owned t' \<inter> ms_owned ks = {}" if "T' g = Some t'" for g t'
    by (rule same_res_Some[OF assms(1) that]) (use i(3,4) in \<open>auto simp: space_inv_def\<close>)
  have "t_owned t \<inter> t_owned t' = {}" if u: "T' g = Some t" "T' g' = Some t'" "g \<noteq> g'" for g t g' t'
    by (rule same_res_Some[OF assms(1) u(1)], rule same_res_Some[OF assms(1) u(2)]) (use i(5) u(3) in simp)
  then show ?thesis using sp i unfolding mem_inv_def by blast
qed

lemma same_res_pid_inv:
  assumes "same_res T T'" "pid_inv pa T"
  shows "pid_inv pa T'"
proof -
  have "kernel_stack t' = KernelStack (get_pid t')" if "T' g = Some t'" for g t'
    by (rule same_res_Some[OF assms(1) that]) (use assms(2) in \<open>simp add: pid_inv_def get_pid_def\<close>)
  moreover have "g = g'" if u: "T' g = Some t" "T' g' = Some t'" "get_pid t = get_pid t'" for g t g' t'
    by (rule same_res_Some[OF assms(1) u(1)], rule same_res_Some[OF assms(1) u(2)])
      (use assms(2) u(3) in \<open>simp add: pid_inv_def get_pid_def\<close>)
  ultimately show ?thesis using assms(2) same_res_pids[OF assms(1)] unfolding pid_inv_def by blast
qed

lemma same_res_adopted: "same_res T (adopted ip cs T)"
  unfolding same_res_def adopted_def by (auto simp: option.rel_map intro!: option.rel_refl_strong)

section \<open>Exit\<close>

lemma adopted_snoc:
  assumes "ip \<notin> set (cs @ [c])" "T c = Some ct" "T ip = Some it" "c \<notin> set cs"
  shows "adopted ip cs T c = Some ct" "adopted ip cs T ip = Some (it\<lparr>t_child := t_child it @ cs\<rparr>)"
    "(adopted ip cs T)(c \<mapsto> ct\<lparr>t_parent := Some ip\<rparr>, ip \<mapsto> it\<lparr>t_child := (t_child it @ cs) @ [c]\<rparr>) = adopted ip (cs @ [c]) T"
  using assms by (auto simp: adopted_def)

lemma wp_adopt:
  assumes ip: "T ip = Some it" "ip \<notin> set cs" "h \<notin> set cs" and cs: "\<forall>c \<in> set cs. T c \<noteq> None" "distinct cs"
    and Q: "Q () (k\<lparr>TASKS := adopted ip cs T\<rparr>)" and T: "TASKS k = T"
  shows "wp (for_loop cs (\<lambda>c _. adopt_child h ip c) ()) Q E k"
proof (rule wp_for_loop[where I = "\<lambda>ys _ k'. k' = k\<lparr>TASKS := adopted ip ys T\<rparr>"])
  show "k = k\<lparr>TASKS := adopted ip [] T\<rparr>" using T ip by (simp add: adopted_def fun_eq_iff map_option_case cong: if_cong)
  fix ys c zs acc k' assume s: "cs = ys @ c # zs" "k' = k\<lparr>TASKS := adopted ip ys T\<rparr>"
  obtain ct where ct: "T c = Some ct" using cs(1) s(1) by auto
  have ne: "ip \<notin> set (ys @ [c])" "c \<notin> set ys" "c \<noteq> h" "c \<noteq> ip" using ip cs s(1) by auto
  note a = adopted_snoc[OF ne(1) ct ip(1) ne(2)]
  show "wp (adopt_child h ip c) (\<lambda>_ k'. k' = k\<lparr>TASKS := adopted ip (ys @ [c]) T\<rparr>) E k'"
    using a ne by (simp add: s(2) adopt_child_def wp_rules deref_task_def vec_push_def)
qed (use Q in auto)

lemma wp_recycle_data_pages:
  assumes inv: "ms_inv l s extra ms"
    and Q: "\<And>s'. own_step l s (ms_owned ms) s' (pt_owned (page_table ms)) \<Longrightarrow> pt_inv l s' (page_table ms) \<Longrightarrow> mem s' = mem s \<Longrightarrow>
      live l s' = live l s - set (areas_ppns (areas ms)) \<Longrightarrow> Q (ms\<lparr>areas := []\<rparr>) s'"
  shows "wp (recycle_data_pages ms) Q E s"
  unfolding recycle_data_pages_def wp_kbind
proof (rule wp_drop_areas[OF ms_invD(1)[OF inv] _ ms_invD(4)[OF inv]])
  note i = ms_invD[OF inv]
  show d: "distinct (areas_ppns (areas ms))" using i(3) by (simp add: areas_wf_def)
  have sub: "pt_owned (page_table ms) \<subseteq> live l s" "pt_owned (page_table ms) \<inter> set (areas_ppns (areas ms)) = {}"
    using i(2,5) by (auto simp: pt_inv_def)
  fix s' assume o: "own_step l s (set (areas_ppns (areas ms))) s' {}" "mem s' = mem s"
  have "pt_inv l s' (page_table ms)" using pt_inv_cong[OF i(2)] own_step_frame(4)[OF o(1) sub] o(2) by simp
  then show "wp (kreturn (ms\<lparr>areas := []\<rparr>)) Q E s'"
    using Q own_step_frame(1)[OF o(1) sub] o by (simp add: wp_rules ms_owned_def Un_commute own_step_def)
qed

text \<open>The state after the exit of \<open>h\<close>: only its block, those of its children and that of \<open>INITPROC\<close> change.\<close>

definition zombie_of :: "TaskControlBlock \<Rightarrow> i32 \<Rightarrow> TaskControlBlock" where
  "zombie_of t code = t\<lparr>task_status := Zombie, exit_code := code, t_child := [], memory_set := (memory_set t)\<lparr>areas := []\<rparr>\<rparr>"

definition exited :: "usize \<Rightarrow> ('fs, 'i) kernel \<Rightarrow> nat \<Rightarrow> TaskControlBlock \<Rightarrow> i32 \<Rightarrow> ('fs, 'i) kernel \<Rightarrow> bool" where
  "exited l k h t code k' \<longleftrightarrow>
     k' = k\<lparr>current := None, k_mm := k_mm k', TASKS := (adopted (INITPROC k) (t_child t) (TASKS k))(h \<mapsto> zombie_of t code)\<rparr> \<and>
     mem (k_mm k') = mem (k_mm k) \<and> live l (k_mm k') = live l (k_mm k) - t_data t"

lemma exitedD:
  assumes "exited l k h t code k'"
  shows "TASKS k' = (adopted (INITPROC k) (t_child t) (TASKS k))(h \<mapsto> zombie_of t code)" "next_task k' = next_task k" "current k' = None" "ready_queue k' = ready_queue k"
proof -
  have eq: "k' = k\<lparr>current := None, k_mm := k_mm k', TASKS := (adopted (INITPROC k) (t_child t) (TASKS k))(h \<mapsto> zombie_of t code)\<rparr>"
    using assms unfolding exited_def by blast
  show "TASKS k' = (adopted (INITPROC k) (t_child t) (TASKS k))(h \<mapsto> zombie_of t code)" "next_task k' = next_task k" "current k' = None" "ready_queue k' = ready_queue k"
    by (subst eq, simp)+
qed

lemma strong_count_child:
  assumes "TASKS k g = Some t" "h \<in> set (t_child t)" "g < next_task k"
  shows "strong_count k h \<noteq> 0"
proof -
  let ?f = "\<lambda>g. case TASKS k g of None \<Rightarrow> 0 | Some t \<Rightarrow> count_list (t_child t) h"
  have "?f g \<noteq> 0" using assms(1,2) by (simp add: count_list_0_iff)
  then have "sum_list (map ?f [0..<next_task k]) \<noteq> 0" using assms(3) by auto
  then show ?thesis by (simp add: strong_count_def)
qed

lemma kinv_exit:
  assumes run: "running l ld k h t" and ip: "h \<noteq> INITPROC k" and s: "own_step l (k_mm k) (t_owned t) s (pt_owned (page_table (memory_set t)))"
    "pt_inv l s (page_table (memory_set t))"
  shows "kinv l ld (k\<lparr>current := None, k_mm := s, TASKS := (adopted (INITPROC k) (t_child t) (TASKS k))(h \<mapsto> zombie_of t code)\<rparr>)"
proof -
  note r = runningD[OF run] and i = kinvD[OF runningD(1)[OF run]]
  let ?A = "adopted (INITPROC k) (t_child t) (TASKS k)" and ?z = "zombie_of t code"
  note tr = tree_invD[OF i(4)] and v = tree_view_Some[of "TASKS k" h, OF r(3)]
  have cs: "INITPROC k \<notin> set (t_child t)" "\<forall>c \<in> set (t_child t). status (TASKS k) c \<noteq> None" "h \<notin> set (t_child t)"
    using tr(8)[of _ h] v kids_younger[OF i(4), of h h] by auto
  have Ah: "?A h = Some t" using r(3) ip cs(3) by (simp add: adopted_def)
  have pid: "get_pid ?z = get_pid t" "kernel_stack ?z = kernel_stack t" by (simp_all add: zombie_of_def get_pid_def)
  have own: "t_owned ?z = pt_owned (page_table (memory_set t))" by (simp add: zombie_of_def ms_owned_def)
  show ?thesis
  proof (rule kinvI, goal_cases)
    case 1
    have "space_inv l ld s ?z" using s(2) by (simp add: space_inv_def zombie_of_def)
    then show ?case using mem_inv_task_step[OF same_res_mem_inv[OF same_res_adopted i(1)] Ah, of s ?z] s(1) own by simp
  next
    case 2
    then show ?case using i(2) task_pids_update[of ?A h t ?z, OF Ah pid(1)] same_res_pids[OF same_res_adopted[of "TASKS k"]] by simp
  next
    case 3
    then show ?case using pid_inv_update[OF same_res_pid_inv[OF same_res_adopted i(3)] Ah pid] by simp
  next
    case 4
    then show ?case using tree_inv_exit[OF i(4) r(3) _ ip, of ?z] r(4) by (simp add: zombie_of_def)
  next
    case 5
    have "sched_inv ?A (ready_queue k) (Some h)" using sched_inv_adopted[OF i(5) tr(2) cs(1,2)] r(2) by simp
    then show ?case using sched_inv_exit[of ?A "ready_queue k" h ?z] by (simp add: zombie_of_def)
  next
    case (6 g u)
    show ?case
    proof (cases "g = h")
      case True
      then show ?thesis using 6 by (auto simp: wait_ok_def zombie_of_def)
    next
      case False
      then have "?A g = Some u" using 6 by simp
      then obtain w where "TASKS k g = Some w" "memory_set u = memory_set w" "task_status u = task_status w" "task_cx u = task_cx w"
        by (rule same_res_Some[OF same_res_adopted])
      then show ?thesis using i(6)[of g w] by (simp add: wait_ok_def)
    qed
  qed
qed

lemma wp_exit:
  assumes run: "running l ld k h t" and E: "INITPROC k = h \<Longrightarrow> E BorrowMut"
    and Q: "\<And>k'. INITPROC k \<noteq> h \<Longrightarrow> exited l k h t code k' \<Longrightarrow> kinv l ld k' \<Longrightarrow> Q () k'"
  shows "wp (exit_current_and_run_next code) Q E k"
proof (cases "INITPROC k = h")
  case True
  then show ?thesis using E runningD(2,3)[OF run]
    by (simp add: exit_current_and_run_next_def take_current_task_def deref_task_def wp_rules)
next
  case False
  note r = runningD[OF run] and i = kinvD[OF runningD(1)[OF run]]
  note tr = tree_invD[OF i(4)] and v = tree_view_Some[of "TASKS k" h, OF r(3)]
  let ?T = "(TASKS k)(h \<mapsto> t\<lparr>task_status := Zombie, exit_code := code\<rparr>)"
  have cs: "INITPROC k \<notin> set (t_child t)" "\<forall>c \<in> set (t_child t). status (TASKS k) c \<noteq> None" "h \<notin> set (t_child t)" "distinct (t_child t)"
    using tr(8)[of _ h] v kids_younger[OF i(4), of h h] tr(6)[of h] by auto
  obtain it where it: "TASKS k (INITPROC k) = Some it" using tr(2) by (auto simp: status_def)
  have ipT: "?T (INITPROC k) = Some it" using it False by simp
  have csT: "\<forall>c \<in> set (t_child t). ?T c \<noteq> None" using cs(2) by (auto simp: status_def)
  have ad: "(adopted (INITPROC k) (t_child t) ?T)(h \<mapsto> z) = (adopted (INITPROC k) (t_child t) (TASKS k))(h \<mapsto> z)" for z
    using False cs(3) by (auto simp: adopted_def fun_eq_iff)
  obtain n where n: "next_task k = Suc n" using tr(1)[of "INITPROC k"] tr(2) by (cases "next_task k") auto
  have cnt: "strong_count k' h \<noteq> 0" if ex: "exited l k h t code k'" for k'
  proof -
    obtain g where g: "g < h" "par (TASKS k) h = Some g" using tr(9)[of h] v False by auto
    then have "h \<in> set (kids (TASKS k) g)" using tr(8)[of h g] v False by simp
    moreover have "set (kids (TASKS k) g) \<subseteq> set (kids (TASKS k') g)"
      using g(1) adopted_view(1)[OF tr(2) cs(1,2), of g] by (simp add: exitedD(1)[OF ex] kids_def split: if_splits)
    moreover have "g < next_task k'" using g(1) tr(1)[of h] v by (simp add: exitedD(2)[OF ex])
    ultimately have "h \<in> set (kids (TASKS k') g)" "g < next_task k'" by auto
    then show ?thesis using strong_count_child[of k' g _ h] by (cases "TASKS k' g") (simp_all add: kids_def)
  qed
  show ?thesis
    apply (simp add: exit_current_and_run_next_def take_current_task_def deref_task_def wp_rules r(2,3) False)
    apply (rule wp_adopt[of ?T "INITPROC k" it "t_child t" h, OF ipT cs(1,3) csT cs(4)], simp_all)
    apply (rule wp_recycle_data_pages[OF r(5)])
    subgoal premises g for s
    proof -
      let ?k = "k\<lparr>current := None, k_mm := s, TASKS := (adopted (INITPROC k) (t_child t) (TASKS k))(h \<mapsto> zombie_of t code)\<rparr>"
      have ex: "exited l k h t code ?k" using g by (simp add: exited_def)
      have "kinv l ld ?k" using kinv_exit[OF run _ g(1,2)] False by auto
      then have "wp (drop_task (next_task k) h) Q E ?k" using Q[OF False ex] cnt[OF ex] by (simp add: n wp_rules)
      then show ?thesis by (simp add: ad zombie_of_def)
    qed
    done
qed

section \<open>Reaping a child\<close>

definition reaped :: "usize \<Rightarrow> ('fs, 'i) kernel \<Rightarrow> nat \<Rightarrow> TaskControlBlock \<Rightarrow> nat \<Rightarrow> TaskControlBlock \<Rightarrow> ('fs, 'i) kernel \<Rightarrow> bool" where
  "reaped l k h t i c k' \<longleftrightarrow>
     TASKS k' = (TASKS k)(h \<mapsto> t\<lparr>t_child := vec_remove i (t_child t)\<rparr>, t_child t ! i := None) \<and>
     next_task k' = next_task k \<and> ready_queue k' = ready_queue k \<and> current k' = current k \<and> INITPROC k' = INITPROC k \<and> k_fs k' = k_fs k \<and>
     pa_live (PID_ALLOCATOR k') = pa_live (PID_ALLOCATOR k) - {get_pid c} \<and>
     live l (k_mm k') \<subseteq> live l (k_mm k) - (t_owned c \<union> stack_frames (KERNEL_SPACE k) (get_pid c)) \<and>
     same_pages (live l (k_mm k) - ms_owned (KERNEL_SPACE k)) (mem (k_mm k)) (mem (k_mm k'))"

lemma child_removed:
  assumes inv: "tree_inv T n ip" and t: "T h = Some t" "i < length (t_child t)"
  shows "t_child t ! i \<notin> set (vec_remove i (t_child t))" "h < t_child t ! i" "t_child t ! i \<noteq> ip"
    "\<And>g u. g \<noteq> h \<Longrightarrow> T g = Some u \<Longrightarrow> t_child t ! i \<notin> set (t_child u)"
proof -
  note tr = tree_invD[OF inv] note v = tree_view_Some[of T h, OF t(1)]
  let ?c = "t_child t ! i"
  have "t_child t = take i (t_child t) @ ?c # drop (Suc i) (t_child t)" using t(2) by (rule id_take_nth_drop)
  then have "distinct (take i (t_child t) @ ?c # drop (Suc i) (t_child t))" using tr(6)[of h] v by simp
  then show "?c \<notin> set (vec_remove i (t_child t))" by (auto simp: vec_remove_def)
  have cin: "?c \<in> set (kids T h)" using v t(2) by simp
  then show "h < ?c" "?c \<noteq> ip" using kids_younger[OF inv cin] tr(8)[of ?c h] by auto
  fix g u assume "g \<noteq> h" "T g = Some u"
  then show "?c \<notin> set (t_child u)" using tr(8)[of ?c g] tr(8)[of ?c h] cin by (auto simp: kids_def)
qed

lemma strong_count_removed:
  assumes inv: "kinv l ld k" and t: "TASKS k h = Some t" "i < length (t_child t)" and z: "status (TASKS k) (t_child t ! i) = Some Zombie"
    and k': "TASKS k' = (TASKS k)(h \<mapsto> t\<lparr>t_child := vec_remove i (t_child t)\<rparr>)" "ready_queue k' = ready_queue k" "current k' = current k"
      "INITPROC k' = INITPROC k"
  shows "strong_count k' (t_child t ! i) = 0"
proof -
  let ?c = "t_child t ! i" and ?T = "(TASKS k)(h \<mapsto> t\<lparr>t_child := vec_remove i (t_child t)\<rparr>)"
  note i = kinvD[OF inv] and c = child_removed[OF kinvD(4)[OF inv] t]
  have "?c \<notin> set (ready_queue k)" "current k \<noteq> Some ?c" using sched_invD(2,3)[OF i(5), of ?c] z by auto
  moreover have "(case ?T g of None \<Rightarrow> 0 | Some u \<Rightarrow> count_list (t_child u) ?c) = 0" for g
    using c(1) c(4)[of g] by (cases "TASKS k g") (auto simp: count_list_0_iff)
  ultimately show ?thesis using c(3) k' by (simp add: strong_count_def count_list_0_iff)
qed

lemma task_pids_drop:
  assumes "pid_inv pa T" "T c = Some u"
  shows "task_pids (T(c := None)) = task_pids T - {get_pid u}"
proof -
  have uniq: "g = c" if "T g = Some w" "get_pid w = get_pid u" for g w using assms that unfolding pid_inv_def by blast
  show ?thesis
  proof (intro set_eqI iffI)
    fix p assume "p \<in> task_pids (T(c := None))"
    then obtain g w where g: "T g = Some w" "g \<noteq> c" "p = get_pid w" by (auto simp: task_pids_def split: if_splits)
    then show "p \<in> task_pids T - {get_pid u}" using uniq[OF g(1)] by (auto simp: task_pids_def)
  next
    fix p assume "p \<in> task_pids T - {get_pid u}"
    then obtain g w where g: "T g = Some w" "p = get_pid w" "p \<noteq> get_pid u" by (auto simp: task_pids_def)
    then have "(T(c := None)) g = Some w" using assms(2) by auto
    then show "p \<in> task_pids (T(c := None))" using g(2) unfolding task_pids_def by blast
  qed
qed

lemma pid_inv_drop:
  assumes inv: "pid_inv pa T" "T c = Some u" and a: "pa_invar a" "pa_live a = pa_live pa - {get_pid u}" "pa_current a = pa_current pa"
  shows "pid_inv a (T(c := None))"
proof -
  have sub: "T g = Some w" if "(T(c := None)) g = Some w" for g w using that by (simp split: if_splits)
  have "pa_live a = task_pids (T(c := None))" using a(2) task_pids_drop[OF inv] inv(1) by (simp add: pid_inv_def)
  moreover have "kernel_stack w = KernelStack (get_pid w)" if "(T(c := None)) g = Some w" for g w
    using sub[OF that] inv(1) unfolding pid_inv_def by blast
  moreover have "g = g'" if "(T(c := None)) g = Some w" "(T(c := None)) g' = Some w'" "get_pid w = get_pid w'" for g w g' w'
    using sub[OF that(1)] sub[OF that(2)] that(3) inv(1) unfolding pid_inv_def by blast
  moreover have "unat (pa_current a) \<le> 2 ^ 25" using a(3) inv(1) by (simp add: pid_inv_def)
  ultimately show ?thesis using a(1) unfolding pid_inv_def by blast
qed

lemma kinv_reap:
  assumes inv: "kinv l ld k" and t: "TASKS k h = Some t" "i < length (t_child t)" and c: "TASKS k (t_child t ! i) = Some c" "task_status c = Zombie"
    and T: "T = (TASKS k)(h \<mapsto> t\<lparr>t_child := vec_remove i (t_child t)\<rparr>)"
    and m: "mem_inv l ld s ks (T(t_child t ! i := None))" "stack_areas (areas ks) (task_pids T - {get_pid c})"
    and a: "pa_invar a" "pa_live a = pa_live (PID_ALLOCATOR k) - {get_pid c}" "pa_current a = pa_current (PID_ALLOCATOR k)"
  shows "kinv l ld (k\<lparr>PID_ALLOCATOR := a, KERNEL_SPACE := ks, k_mm := s, TASKS := T(t_child t ! i := None)\<rparr>)"
proof -
  note i = kinvD[OF inv]
  let ?c = "t_child t ! i" and ?t = "t\<lparr>t_child := vec_remove i (t_child t)\<rparr>"
  have ne: "?c \<noteq> h" using child_removed(2)[OF i(4) t] by simp
  have Tc: "T ?c = Some c" using ne c(1) T by simp
  have z: "status (TASKS k) ?c = Some Zombie" "status T ?c = Some Zombie" using c Tc by (simp_all add: status_def)
  have pT: "pid_inv (PID_ALLOCATOR k) T" unfolding T by (rule pid_inv_update[OF i(3) t(1)]) (simp_all add: get_pid_def)
  show ?thesis
  proof (rule kinvI, goal_cases)
    case 2
    then show ?case using m(2) task_pids_drop[OF pT Tc] by simp
  next
    case 4
    then show ?case using tree_inv_reap[OF i(4) t z(1)] T by simp
  next
    case 5
    have "sched_inv T (ready_queue k) (current k)" unfolding T by (rule sched_inv_update[OF i(5) t(1)]) simp
    then show ?case using sched_inv_reap[OF _ z(2)] by simp
  next
    case (6 g u)
    then have "T g = Some u" by (simp split: if_splits)
    then show ?case using i(6)[OF t(1)] i(6)[of g u] T by (cases "g = h") (auto simp: wait_ok_def)
  qed (use m(1) pid_inv_drop[OF pT Tc a] in simp_all)
qed

lemma wp_reap:
  assumes inv: "kinv l ld k" and t: "TASKS k h = Some t" "i < length (t_child t)" and c: "TASKS k (t_child t ! i) = Some c" "task_status c = Zombie"
    and Q: "\<And>k'. reaped l k h t i c k' \<Longrightarrow> kinv l ld k' \<Longrightarrow> Q () k'"
  shows "wp (drop_task (next_task k) (t_child t ! i)) Q E (k\<lparr>TASKS := (TASKS k)(h \<mapsto> t\<lparr>t_child := vec_remove i (t_child t)\<rparr>)\<rparr>)"
proof -
  note iv = kinvD[OF inv] and tr = tree_invD[OF kinvD(4)[OF inv]]
  let ?c = "t_child t ! i" and ?T = "(TASKS k)(h \<mapsto> t\<lparr>t_child := vec_remove i (t_child t)\<rparr>)"
  have ne: "?c \<noteq> h" using child_removed(2)[OF iv(4) t] by simp
  then have Tc: "?T ?c = Some c" using c(1) by simp
  have z: "status (TASKS k) ?c = Some Zombie" using c by (simp add: status_def)
  obtain n where n: "next_task k = Suc n" using tr(1)[of ?c] z by (cases "next_task k") auto
  have kids: "t_child c = []" using tr(7)[OF z] c(1) by (simp add: kids_def)
  have m: "mem_inv l ld (k_mm k) (KERNEL_SPACE k) ?T" by (rule mem_inv_cong_task[OF iv(1) t(1)]) simp_all
  have pid: "task_pids ?T = task_pids (TASKS k)" "pid_inv (PID_ALLOCATOR k) ?T"
    using task_pids_update[of "TASKS k" h t, OF t(1)] pid_inv_update[OF iv(3) t(1)] by (simp_all add: get_pid_def)
  have p: "t_pid c = PidHandle (get_pid c)" "kernel_stack c = KernelStack (get_pid c)" "get_pid c \<in> task_pids ?T"
    using iv(3) c(1) pid(1) by (auto simp: get_pid_def pid_inv_def task_pids_def)
  have pa: "pa_invar (PID_ALLOCATOR k)" "get_pid c \<in> pa_live (PID_ALLOCATOR k)" using iv(3) p(3) pid(1) by (simp_all add: pid_inv_def)
  have st: "stack_areas (areas (KERNEL_SPACE k)) (task_pids ?T)" "\<forall>q \<in> task_pids ?T. unat q < 2 ^ 25"
    using iv(2) kinv_pids[OF inv] pid(1) by simp_all
  let ?k = "k\<lparr>TASKS := ?T\<rparr>"
  have cnt: "strong_count ?k ?c = 0" by (rule strong_count_removed[OF inv t z]) simp_all
  show ?thesis
    apply (simp add: n wp_rules cnt deref_task_def c(1) ne p(1,2) kids)
    apply (rule wp_drop_PidHandle)
      apply (simp_all add: pa)
    subgoal premises a for a
      apply (rule wp_drop_KernelStack[where T = ?T and P = "task_pids ?T" and l = l and ld = ld])
          apply (use m in simp)
         apply (use st(1) in simp)
        apply (rule st(2))
       apply (rule p(3))
      subgoal premises s for s ks
      proof -
        have sp: "space_inv l ld s c" "mm_inv l s" using mem_invD(1)[OF s(1)] mem_invD(3)[OF s(1) Tc] by simp_all
        show ?thesis
          apply (simp add: wp_rules)
          apply (rule wp_drop_space[OF sp])
          subgoal premises d for s'
          proof (rule Q)
            show "kinv l ld (k\<lparr>PID_ALLOCATOR := a, KERNEL_SPACE := ks, k_mm := s', TASKS := ?T(?c := None)\<rparr>)"
              by (rule kinv_reap[OF inv t c refl mem_inv_drop_task[OF s(1) Tc d(1)] s(2) a])
            show "reaped l k h t i c (k\<lparr>PID_ALLOCATOR := a, KERNEL_SPACE := ks, k_mm := s', TASKS := ?T(?c := None)\<rparr>)"
              using a s(3,4) d by (auto simp: reaped_def own_step_def)
          qed
          done
      qed
      done
    done
qed

section \<open>Waitpid\<close>

lemma wp_child_blocks:
  assumes "\<forall>c \<in> set cs. TASKS k c \<noteq> None" "Q (map (\<lambda>c. the (TASKS k c)) cs) k"
  shows "wp (child_blocks cs) Q E k"
  unfolding child_blocks_def
proof (rule wp_for_loop[where I = "\<lambda>ys acc k'. k' = k \<and> acc = map (\<lambda>c. the (TASKS k c)) ys"])
  fix ys c zs acc k' assume s: "cs = ys @ c # zs" "k' = k \<and> acc = map (\<lambda>c. the (TASKS k c)) ys"
  then obtain t where "TASKS k c = Some t" using assms(1) by auto
  then show "wp (kbind (deref_task c) (\<lambda>t. kreturn (acc @ [t]))) (\<lambda>acc k'. k' = k \<and> acc = map (\<lambda>c. the (TASKS k c)) (ys @ [c])) E k'"
    using s(2) by (simp add: wp_rules deref_task_def)
qed (use assms(2) in auto)

lemma refmut_page:
  assumes run: "running l ld k h t" and r: "translated_refmut (mem (k_mm k)) (get_user_token t) ptr = Inr pa"
  shows "\<exists>p. (p \<in> t_data t \<or> ppn_val p < l) \<and> page_ok (ppn_val p) \<and> pa = paddr (ppn_val p) (unat ptr mod 4096)"
proof -
  let ?m = "mem (k_mm k)" and ?pt = "from_token (get_user_token t)" and ?v = "VirtAddr_floor (va_from_usize ptr)"
  obtain f where f: "pt_node (view ?m) (pt_root ?pt) (take 2 (indexes ?v)) = Some f"
      "pa = pa_val (pa_from_usize (pa_val (pa_from_ppn (pte_ppn (view ?m f (indexes ?v ! 2)))) + VirtAddr_page_offset (va_from_usize ptr)))"
    using r by (auto simp: translated_refmut_def translate_va_def find_pte_eq Let_def view_def split: option.splits)
  let ?e = "view ?m f (indexes ?v ! 2)"
  have e: "pt_translate ?m ?pt ?v = Inr (Some ?e)" using f(1) by (simp add: pt_translate_eq)
  have "pte_ppn ?e \<in> t_data t \<or> ppn_val (pte_ppn ?e) < l"
    by (rule user_frame[OF runningD(5,6,8)[OF run] running_token[OF run] vpn_ok_from_usize e])
  moreover have "unat (va_val (va_from_usize ptr)) mod 4096 = unat ptr mod 4096" by (simp add: unat_from_usize mod_mod_cancel)
  ultimately show ?thesis using f(2) pte_ppn_bound[of ?e] by (intro exI[of _ "pte_ppn ?e"]) (simp add: pte_address)
qed

lemma u32_write_same:
  assumes run: "running l ld k h t" and r: "translated_refmut (mem (k_mm k)) (get_user_token t) ptr = Inr pa" and ptr: "unat ptr mod 4096 \<le> 4092"
  shows "same_pages (live l (k_mm k) - t_data t) (mem (k_mm k)) (write_bytes (mem (k_mm k)) pa (u32_bytes v))"
proof -
  obtain p where p: "p \<in> t_data t \<or> ppn_val p < l" "page_ok (ppn_val p)" "pa = paddr (ppn_val p) (unat ptr mod 4096)"
    using refmut_page[OF run r] by blast
  have "in_page p \<lparr>slice_ptr = pa, slice_len = 4\<rparr>" using p(2,3) ptr by (auto simp: in_page_def intro!: exI[of _ "unat ptr mod 4096"])
  from same_pages_slice[OF this p(1), of "u32_bytes v"] show ?thesis
    using ms_invD(1)[OF runningD(5)[OF run]] by (simp add: u32_bytes_def)
qed

abbreviation children :: "('fs, 'i) kernel \<Rightarrow> TaskControlBlock \<Rightarrow> TaskControlBlock list" where
  "children k t \<equiv> map (\<lambda>c. the (TASKS k c)) (t_child t)"

lemma wp_sys_waitpid:
  assumes run: "running l ld k h t" and ptr: "unat ptr mod 4096 \<le> 4092"
    and E: "\<And>x. translated_refmut (mem (k_mm k)) (get_user_token t) ptr = Inl x \<Longrightarrow> E x"
    and none: "\<forall>c \<in> set (children k t). \<not> (get_pid c = pid \<or> pid = - 1) \<Longrightarrow> Q (Returned (- 1)) k"
    and busy: "\<exists>c \<in> set (children k t). get_pid c = pid \<or> pid = - 1 \<Longrightarrow>
        \<forall>c \<in> set (children k t). get_pid c = pid \<or> pid = - 1 \<longrightarrow> \<not> is_zombie c \<Longrightarrow> Q (Returned (- 2)) k"
    and found: "\<And>i c pa k'. find_index (\<lambda>c. is_zombie c \<and> (pid = - 1 \<or> get_pid c = pid)) (children k t) = Some i \<Longrightarrow> c = children k t ! i \<Longrightarrow>
        translated_refmut (mem (k_mm k)) (get_user_token t) ptr = Inr pa \<Longrightarrow>
        reaped l (k\<lparr>k_mm := (k_mm k)\<lparr>mem := write_bytes (mem (k_mm k)) pa (u32_bytes (exit_code c))\<rparr>\<rparr>) h t i c k' \<Longrightarrow>
        kinv l ld k' \<Longrightarrow> Q (Returned (get_pid c)) k'"
  shows "wp (sys_waitpid pid ptr) Q E k"
proof -
  note r = runningD[OF run] and iv = kinvD[OF runningD(1)[OF run]]
  have cs: "\<forall>c \<in> set (t_child t). TASKS k c \<noteq> None"
    using tree_invD(8)[OF iv(4), of _ h] r(3) by (auto simp: kids_def status_def)
  let ?P = "\<lambda>c. is_zombie c \<and> (pid = - 1 \<or> get_pid c = pid)"
  show ?thesis
  proof (cases "list_ex (\<lambda>c. get_pid c = pid \<or> pid = - 1) (children k t)")
    case False
    then show ?thesis using none
      by (auto simp: sys_waitpid_def wp_rules wp_current[OF run] list_ex_iff intro!: wp_child_blocks[OF cs])
  next
    case True
    show ?thesis
    proof (cases "find_index ?P (children k t)")
      case None
      then have "Q (Returned (- 2)) k" using busy True unfolding find_index_None list_ex_iff by blast
      then show ?thesis using True None
        by (auto simp: sys_waitpid_def wp_rules wp_current[OF run] intro!: wp_child_blocks[OF cs])
    next
      case (Some i)
      note fi = find_index_Some[OF Some]
      define c where "c = children k t ! i"
      have c: "i < length (t_child t)" "TASKS k (t_child t ! i) = Some c" "task_status c = Zombie"
        using fi(1,2) cs by (auto simp: c_def is_zombie_def)
      have cnt: "strong_count (k\<lparr>TASKS := (TASKS k)(h \<mapsto> t\<lparr>t_child := vec_remove i (t_child t)\<rparr>)\<rparr>) (t_child t ! i) = 0"
        by (rule strong_count_removed[OF r(1,3) c(1)]) (simp_all add: status_def c)
      have drop: "wp (drop_task (next_task k) (t_child t ! i)) (\<lambda>_. Q (Returned (get_pid c))) E
          (k\<lparr>TASKS := (TASKS k)(h \<mapsto> t\<lparr>t_child := vec_remove i (t_child t)\<rparr>),
             k_mm := (k_mm k)\<lparr>mem := write_bytes (mem (k_mm k)) pa (u32_bytes (exit_code c))\<rparr>\<rparr>)"
        if pa: "translated_refmut (mem (k_mm k)) (get_user_token t) ptr = Inr pa" for pa
      proof -
        let ?k = "k\<lparr>k_mm := (k_mm k)\<lparr>mem := write_bytes (mem (k_mm k)) pa (u32_bytes (exit_code c))\<rparr>\<rparr>"
        have "kinv l ld ?k" using kinv_write[OF r(1,3) subset_refl u32_write_same[OF run pa ptr]] .
        have swap: "k\<lparr>TASKS := T, k_mm := s\<rparr> = k\<lparr>k_mm := s, TASKS := T\<rparr>" for T s by simp
        show ?thesis unfolding swap
          using wp_reap[OF \<open>kinv l ld ?k\<close>, of h t i c "\<lambda>_. Q (Returned (get_pid c))" E] c r(3) found[OF Some c_def pa] by simp
      qed
      show ?thesis
        apply (simp add: sys_waitpid_def wp_rules wp_current[OF run])
        apply (rule wp_child_blocks[OF cs])
        apply (use True Some cnt in \<open>simp add: wp_rules Let_def write_mem_u32_def\<close>)
        using E drop c_def by (auto split: sum.splits)
    qed
  qed
qed

section \<open>What the other tasks keep\<close>

lemma kept_exited:
  assumes ex: "exited l k h t code k'"
  shows "kept h k k'"
proof -
  have "mem (k_mm k') = mem (k_mm k)" using ex by (simp add: exited_def)
  moreover have "\<exists>u'. TASKS k' g = Some u' \<and> memory_set u' = memory_set u \<and> trap_cx_ppn u' = trap_cx_ppn u \<and> task_status u' = task_status u"
    if "g \<noteq> h" "TASKS k g = Some u" for g u
    using that by (cases "g = INITPROC k") (auto simp: exitedD(1)[OF ex] adopted_def)
  ultimately show ?thesis by (simp add: kept_def)
qed

lemma kept_reaped:
  assumes inv: "kinv l ld k" and t: "TASKS k h = Some t" and c: "TASKS k (t_child t ! i) = Some c" "task_status c = Zombie"
    and r: "reaped l k h t i c k'"
  shows "kept h k k'"
proof (rule keptI[OF inv t])
  have same: "same_pages (live l (k_mm k) - ms_owned (KERNEL_SPACE k)) (mem (k_mm k)) (mem (k_mm k'))" using r by (simp add: reaped_def)
  have "live l (k_mm k) - (t_owned t \<union> ms_owned (KERNEL_SPACE k)) \<subseteq> live l (k_mm k) - ms_owned (KERNEL_SPACE k)" by blast
  from same_pages_mono[OF same this]
  show "same_pages (live l (k_mm k) - (t_owned t \<union> ms_owned (KERNEL_SPACE k))) (mem (k_mm k)) (mem (k_mm k'))" .
  fix g u assume g: "g \<noteq> h" "TASKS k g = Some u" "task_status u \<noteq> Zombie"
  then have "g \<noteq> t_child t ! i" using c by auto
  then show "\<exists>u'. TASKS k' g = Some u' \<and> memory_set u' = memory_set u \<and> trap_cx_ppn u' = trap_cx_ppn u \<and> task_status u' = task_status u"
    using g r by (simp add: reaped_def)
qed

lemma wlp_sys_waitpid:
  assumes run: "running l ld k h t" and ptr: "unat ptr mod 4096 \<le> 4092"
  shows "wlp (sys_waitpid pid ptr) (sys_post l ld h k) k"
proof (rule wp_sys_waitpid[OF run ptr], goal_cases)
  case (4 i c pa k')
  note w = u32_write_same[OF run 4(3) ptr, of "exit_code c"] and fi = find_index_Some(1,2)[OF 4(1)]
  let ?k = "k\<lparr>k_mm := (k_mm k)\<lparr>mem := write_bytes (mem (k_mm k)) pa (u32_bytes (exit_code c))\<rparr>\<rparr>"
  have run': "running l ld ?k h t" by (rule running_write[OF run w])
  have "TASKS k (t_child t ! i) \<noteq> None"
    using tree_invD(8)[OF kinvD(4)[OF runningD(1)[OF run]], of "t_child t ! i" h] fi(1) runningD(3)[OF run] by (auto simp: kids_def status_def)
  then have "TASKS ?k (t_child t ! i) = Some c" "task_status c = Zombie" using fi 4(2) by (auto simp: is_zombie_def)
  from kept_reaped[OF runningD(1,3)[OF run'] this 4(4)] have "kept h k k'" by (rule kept_trans[OF kept_running_write[OF run w]])
  moreover have "current k' = Some h" using 4(4) runningD(2)[OF run] by (simp add: reaped_def)
  ultimately show ?case using 4(5) by (simp add: sys_post_def)
qed (use sys_post_same[OF run] in auto)

lemma wlp_exit:
  assumes run: "running l ld k h t"
  shows "wlp (kbind (exit_current_and_run_next code) (\<lambda>_. kreturn Switched)) (sys_post l ld h k) k"
  unfolding wp_rules by (intro wp_exit[OF run]) (auto simp: sys_post_def kept_exited dest: exitedD(3))

end
