(* ===== verification/Trap.thy ===== *)
theory Trap
  imports Syscall
begin

text \<open>
  The trap handler of \<^verbatim>\<open>src/trap/mod.rs\<close>, and what happens when a task gets the processor back. The handler ends
  in the user program, with the two arguments of \<^verbatim>\<open>__restore\<close>, or in another task.
\<close>

datatype trap_cause =
    UserEnvCall | StoreFault | StorePageFault | InstructionFault | InstructionPageFault | LoadFault | LoadPageFault
  | IllegalInstruction | SupervisorTimer | OtherTrap

text \<open>The trap context's address and the user's page table, or nothing when the task was switched out.\<close>

type_synonym trap_exit = "(usize \<times> usize) option"

definition trap_return :: "(('fs, 'i) kernel, trap_exit) km" where
  "trap_return = kbind current_user_token (\<lambda>user_satp. kreturn (Some (TRAP_CONTEXT_BASE, user_satp)))"

text \<open>The trap context is looked up again after the call, since \<open>exec\<close> replaces it.\<close>

definition finish_syscall :: "outcome \<Rightarrow> (('fs, 'i) kernel, trap_exit) km" where
  "finish_syscall r = (case r of
     Switched \<Rightarrow> kreturn None
   | Returned v \<Rightarrow>
       kbind current_trap_cx (\<lambda>cx.
       kbind (write_mem_u64 (word_at cx 10) v) (\<lambda>_. trap_return)))"

definition handle_env_call ::
    "('fs, 'i) env \<Rightarrow> (TaskInfo \<Rightarrow> u8 list) \<Rightarrow> hw \<Rightarrow> (('fs, 'i) kernel, trap_exit) km" where
  "handle_env_call e layout w =
     kbind current_trap_cx (\<lambda>a.
     kbind (kget (\<lambda>k. load_cx (mem (k_mm k)) a)) (\<lambda>cx.
     kbind (write_mem_u64 (word_at a 33) (cx_sepc cx + 4)) (\<lambda>_.
     kbind (syscall e layout w (cx_x cx ! 17) [cx_x cx ! 10, cx_x cx ! 11, cx_x cx ! 12, cx_x cx ! 13, cx_x cx ! 14])
       finish_syscall)))"

definition trap_handler ::
    "('fs, 'i) env \<Rightarrow> (TaskInfo \<Rightarrow> u8 list) \<Rightarrow> hw \<Rightarrow> trap_cause \<Rightarrow> (('fs, 'i) kernel, trap_exit) km" where
  "trap_handler e layout w cause = (case cause of
     UserEnvCall \<Rightarrow> handle_env_call e layout w
   | IllegalInstruction \<Rightarrow> kbind (exit_current_and_run_next (- 3)) (\<lambda>_. kreturn None)
   | SupervisorTimer \<Rightarrow> kbind (suspend_current_and_run_next InTimer) (\<lambda>_. kreturn None)
   | OtherTrap \<Rightarrow> kpanic ExplicitPanic
   | _ \<Rightarrow> kbind (exit_current_and_run_next (- 2)) (\<lambda>_. kreturn None))"

text \<open>
  A turn of the idle loop: the next task is switched to and goes on where it was suspended. A task
  suspended in \<open>Stdin::read\<close> asks the console again.
\<close>

definition resume_current :: "('fs, 'i) env \<Rightarrow> hw \<Rightarrow> (('fs, 'i) kernel, trap_exit) km" where
  "resume_current e w =
     kbind current_block (\<lambda>t. case task_cx t of
       Fresh _ \<Rightarrow> trap_return
     | Suspended InYield \<Rightarrow> finish_syscall (Returned 0)
     | Suspended InTimer \<Rightarrow> trap_return
     | Suspended (InStdin ub) \<Rightarrow> kbind (file_read_step e (hw_char w) Stdin ub) finish_syscall)"

definition idle_turn :: "('fs, 'i) env \<Rightarrow> hw \<Rightarrow> (('fs, 'i) kernel, trap_exit) km" where
  "idle_turn e w = kbind run_tasks (\<lambda>r. case r of None \<Rightarrow> kreturn None | Some _ \<Rightarrow> resume_current e w)"

end
