(* ===== verification/Kernel_System.thy ===== *)
theory Kernel_System
  imports Kernel_Exit Trap
begin

text \<open>
  The kernel as a transition system: traps of the running task, turns of the idle loop, and what a user program
  does to its own memory in between. For the traps that \<open>trap_ok\<close> admits, each step keeps the invariant \<open>kinv\<close> and the
  memory of all tasks but one.
\<close>

section \<open>System calls\<close>

text \<open>
  The system calls for which the invariant is shown. The code does not check these conditions, and a user program can
  make calls that do not meet them: \<open>munmap\<close> in the area of the trap context frees the frame that the next trap is saved
  in (\<open>sys_munmap_trap_context\<close>), a break that is not the end of the heap area or reaches the trap context moves the
  wrong pages or panics, an exit code that crosses the end of a page is written into the next frame, and \<open>exec\<close> and
  \<open>spawn\<close> trust the headers of the file. Every other call, with whatever number and arguments, is covered.
\<close>

definition call_ok :: "('fs, 'i) env \<Rightarrow> ('fs, 'i) kernel \<Rightarrow> TaskControlBlock \<Rightarrow> usize \<Rightarrow> usize list \<Rightarrow> bool" where
  "call_ok e k t n args \<longleftrightarrow>
     (n = SYSCALL_MUNMAP \<longrightarrow> munmap_ok t (args ! 0) (args ! 1)) \<and>
     (n = SYSCALL_SBRK \<longrightarrow> sbrk_ok t (ucast (args ! 0))) \<and>
     (n = SYSCALL_WAITPID \<longrightarrow> unat (args ! 1) mod 4096 \<le> 4092) \<and>
     (n = SYSCALL_EXEC \<or> n = SYSCALL_SPAWN \<longrightarrow> app_ok e k (get_user_token t) (args ! 0))"

lemma call_ok_cong:
  assumes "call_ok e k t n args" "k_mm k' = k_mm k" "k_fs k' = k_fs k" "memory_set t' = memory_set t"
    "heap_bottom t' = heap_bottom t" "program_brk t' = program_brk t"
  shows "call_ok e k' t' n args"
  using assms by (simp add: call_ok_def munmap_ok_def sbrk_ok_def app_ok_def get_user_token_def)

lemma wlp_if: "(b \<Longrightarrow> wlp m Q k) \<Longrightarrow> (\<not> b \<Longrightarrow> wlp m' Q k) \<Longrightarrow> wlp (if b then m else m') Q k"
  by simp

lemma wlp_syscall:
  assumes run: "running l (env_ld e) k h t" and ok: "call_ok e k t n args" and efs: "reads_bounded (env_efs e)"
  shows "wlp (syscall e layout w n args) (sys_post l (env_ld e) h k) k"
  unfolding syscall_def wp_kbind
proof (rule wp_update_syscall_times[OF run TrueI], goal_cases)
  case (1 t')
  note run' = 1(1)
  have same: "sys_post l (env_ld e) h (k\<lparr>TASKS := (TASKS k)(h \<mapsto> t')\<rparr>) = sys_post l (env_ld e) h k" by (simp add: sys_post_def fun_eq_iff)
  have ok': "call_ok e (k\<lparr>TASKS := (TASKS k)(h \<mapsto> t')\<rparr>) t' n args" by (rule call_ok_cong[OF ok]) (simp_all add: 1)
  show ?case
    unfolding same[symmetric] using ok'
    by (intro wlp_if wlp_sys_linkat[OF run'] wlp_sys_unlinkat[OF run'] wlp_sys_fstat[OF run'] wlp_sys_open[OF run'] wlp_sys_close[OF run']
        wlp_sys_read[OF run' efs] wlp_sys_write[OF run'] wlp_exit[OF run', folded sys_exit_def] wlp_sys_yield[OF run'] wlp_sys_getpid[OF run']
        wlp_sys_get_time[OF run'] wlp_sys_task_info[OF run'] wlp_sys_munmap[OF run'] wlp_sys_mmap[OF run'] wlp_sys_fork[OF run']
        wlp_sys_exec[OF run'] wlp_sys_waitpid[OF run'] wlp_sys_sbrk[OF run'] wlp_sys_spawn[OF run'] wlp_sys_set_prio[OF run'])
      (simp_all add: call_ok_def wp_rules)
qed

section \<open>Traps\<close>

definition trap_post :: "usize \<Rightarrow> linker_symbols \<Rightarrow> nat \<Rightarrow> ('fs, 'i) kernel \<Rightarrow> trap_exit \<Rightarrow> ('fs, 'i) kernel \<Rightarrow> bool" where
  "trap_post l ld h k r k' \<longleftrightarrow> kinv l ld k' \<and> (r = None \<longleftrightarrow> current k' = None) \<and> kept h k k'"

lemma trap_post_trans: "trap_post l ld h k1 r k2 \<Longrightarrow> kept h k k1 \<Longrightarrow> trap_post l ld h k r k2"
  using kept_trans by (auto simp: trap_post_def)

lemma wlp_trap_return: "running l ld k h t \<Longrightarrow> kept h k0 k \<Longrightarrow> wlp trap_return (trap_post l ld h k0) k"
  by (simp add: trap_return_def wp_rules wp_current trap_post_def runningD(1,2))

lemma kept_write_cx:
  assumes run: "running l ld k h t" and i: "i < 512"
  shows "kept h k (k\<lparr>k_mm := (k_mm k)\<lparr>mem := write_u64 (mem (k_mm k)) (word_at (get_trap_cx t) i) v\<rparr>\<rparr>)"
proof (rule kept_write[OF runningD(1,3)[OF run], of "{trap_cx_ppn t}"])
  note m = kinvD(1)[OF runningD(1)[OF run]]
  have t: "task_status t \<noteq> Zombie" using runningD(4)[OF run] by simp
  show "{trap_cx_ppn t} \<subseteq> t_owned t" using cx_frame(1)[OF m runningD(3)[OF run] t] by (simp add: ms_owned_def)
  show "same_pages (live l (k_mm k) - {trap_cx_ppn t}) (mem (k_mm k)) (write_u64 (mem (k_mm k)) (word_at (get_trap_cx t) i) v)"
    using same_pages_write_word[OF mem_invD(1)[OF m] cx_frame(2)[OF m runningD(3)[OF run] t] i] by (simp add: get_trap_cx_def)
qed

lemma wlp_finish_syscall:
  assumes "sys_post l ld h k0 r k"
  shows "wlp (finish_syscall r) (trap_post l ld h k0) k"
proof (cases r)
  case Switched
  then show ?thesis using assms by (simp add: finish_syscall_def wp_rules sys_post_def trap_post_def)
next
  case (Returned v)
  then have "kinv l ld k" "current k = Some h" and k0: "kept h k0 k" using assms by (simp_all add: sys_post_def)
  then obtain t where run: "running l ld k h t" using running_exists by fast
  have "kinv l ld (k\<lparr>k_mm := (k_mm k)\<lparr>mem := write_u64 (mem (k_mm k)) (word_at (get_trap_cx t) 10) v\<rparr>\<rparr>)"
    by (rule kinv_write_cx[OF runningD(1,3)[OF run]]) (simp_all add: runningD(4)[OF run])
  then have "running l ld (k\<lparr>k_mm := (k_mm k)\<lparr>mem := write_u64 (mem (k_mm k)) (word_at (get_trap_cx t) 10) v\<rparr>\<rparr>) h t"
    by (rule running_upd[OF run])
  moreover have "kept h k0 (k\<lparr>k_mm := (k_mm k)\<lparr>mem := write_u64 (mem (k_mm k)) (word_at (get_trap_cx t) 10) v\<rparr>\<rparr>)"
    by (rule kept_trans[OF k0 kept_write_cx[OF run]]) simp
  ultimately have "wlp trap_return (trap_post l ld h k0) (k\<lparr>k_mm := (k_mm k)\<lparr>mem := write_u64 (mem (k_mm k)) (word_at (get_trap_cx t) 10) v\<rparr>\<rparr>)"
    by (rule wlp_trap_return)
  then show ?thesis using Returned by (simp add: finish_syscall_def wp_rules wp_current[OF run])
qed

text \<open>What a call is made with: the state after \<open>sepc\<close> was moved on, and the registers saved by the trap.\<close>

definition next_insn :: "TaskControlBlock \<Rightarrow> ('fs, 'i) kernel \<Rightarrow> ('fs, 'i) kernel" where
  "next_insn t k = k\<lparr>k_mm := (k_mm k)\<lparr>mem := write_u64 (mem (k_mm k)) (word_at (get_trap_cx t) 33)
     (cx_sepc (load_cx (mem (k_mm k)) (get_trap_cx t)) + 4)\<rparr>\<rparr>"

definition trap_ok :: "('fs, 'i) env \<Rightarrow> ('fs, 'i) kernel \<Rightarrow> trap_cause \<Rightarrow> bool" where
  "trap_ok e k cause \<longleftrightarrow> cause = UserEnvCall \<longrightarrow> (\<forall>h t. current k = Some h \<longrightarrow> TASKS k h = Some t \<longrightarrow>
     (let x = cx_x (load_cx (mem (k_mm k)) (get_trap_cx t)) in
      call_ok e (next_insn t k) t (x ! 17) [x ! 10, x ! 11, x ! 12, x ! 13, x ! 14]))"

lemma wlp_trap_handler:
  assumes run: "running l (env_ld e) k h t" and ok: "trap_ok e k cause" and efs: "reads_bounded (env_efs e)"
  shows "wlp (trap_handler e layout w cause) (trap_post l (env_ld e) h k) k"
proof -
  have exit: "wlp (exit_current_and_run_next code) (\<lambda>_. trap_post l (env_ld e) h k None) k" for code
    by (rule wp_exit[OF run]) (auto simp: trap_post_def kept_exited dest: exitedD(3))
  have susp: "wlp (suspend_current_and_run_next InTimer) (\<lambda>_. trap_post l (env_ld e) h k None) k"
    by (rule wp_suspend[OF run]) (auto simp: trap_post_def kept_suspended)
  have call: "wlp (handle_env_call e layout w) (trap_post l (env_ld e) h k) k" if c: "cause = UserEnvCall"
  proof -
    have "kinv l (env_ld e) (next_insn t k)"
      unfolding next_insn_def by (rule kinv_write_cx[OF runningD(1,3)[OF run]]) (simp_all add: runningD(4)[OF run])
    then have run': "running l (env_ld e) (next_insn t k) h t" using running_upd[OF run] by (simp add: next_insn_def)
    let ?x = "cx_x (load_cx (mem (k_mm k)) (get_trap_cx t))"
    have "call_ok e (next_insn t k) t (?x ! 17) [?x ! 10, ?x ! 11, ?x ! 12, ?x ! 13, ?x ! 14]"
      using ok c runningD(2,3)[OF run] by (simp add: trap_ok_def Let_def)
    note post = wlp_syscall[OF run' this efs]
    have "kept h k (next_insn t k)" unfolding next_insn_def by (rule kept_write_cx[OF run]) simp
    then show ?thesis unfolding handle_env_call_def wp_rules wp_current[OF run] next_insn_def[symmetric]
      by (intro wp_mono[OF post] wlp_finish_syscall) (simp_all add: sys_post_trans)
  qed
  show ?thesis using exit susp call by (cases cause) (simp_all add: trap_handler_def wp_rules)
qed

section \<open>The idle loop\<close>

lemma kinv_queue_ok:
  assumes inv: "kinv l ld k"
  shows "queue_ok k"
proof -
  note i = kinvD[OF inv] and s = sched_invD[OF kinvD(5)[OF inv]]
  have "\<exists>t. TASKS k h = Some t \<and> t_prio t \<noteq> 0" if "h \<in> set (ready_queue k)" for h
    using that s(2)[of h] tree_invD(5)[OF i(4), of h] by (auto simp: status_def prio_def)
  moreover have "length (ready_queue k) < 2 ^ 64 - 1"
  proof -
    have "set (ready_queue k) \<subseteq> dom (TASKS k)" using s(2) by (auto simp: status_def)
    then have "card (set (ready_queue k)) \<le> card (dom (TASKS k))" using kinv_count[OF inv] by (intro card_mono) auto
    then show ?thesis using kinv_count[OF inv] distinct_card[OF s(1)] by simp
  qed
  ultimately show ?thesis using s(1) by (auto simp: queue_ok_def)
qed

lemma wp_run_tasks:
  assumes inv: "kinv l ld k" "current k = None"
    and none: "least_stride (map (task_stride k) (ready_queue k)) = None \<Longrightarrow> Q None k"
    and some: "\<And>i h t k'. least_stride (map (task_stride k) (ready_queue k)) = Some i \<Longrightarrow> h = ready_queue k ! i \<Longrightarrow> TASKS k h = Some t \<Longrightarrow>
        running l ld k' h ((bump_stride t)\<lparr>task_status := Running\<rparr>) \<Longrightarrow>
        k' = k\<lparr>ready_queue := vec_remove i (ready_queue k), TASKS := (TASKS k)(h \<mapsto> (bump_stride t)\<lparr>task_status := Running\<rparr>), current := Some h\<rparr> \<Longrightarrow>
        Q (Some h) k'"
  shows "wp run_tasks Q E k"
proof (cases "least_stride (map (task_stride k) (ready_queue k))")
  case None
  then show ?thesis using none fetch_task_eq[OF kinv_queue_ok[OF inv(1)]] by (simp add: run_tasks_def wp_def kbind_def kreturn_def)
next
  case (Some i)
  note iv = kinvD[OF inv(1)]
  let ?h = "ready_queue k ! i"
  have i: "i < length (ready_queue k)" using least_strideD(1)[OF Some] .
  then have st: "status (TASKS k) ?h = Some Ready" using sched_invD(2)[OF iv(5), of ?h] by simp
  then obtain t where t: "TASKS k ?h = Some t" "task_status t = Ready" by (auto simp: status_def)
  let ?t = "(bump_stride t)\<lparr>task_status := Running\<rparr>"
  let ?k = "k\<lparr>ready_queue := vec_remove i (ready_queue k), TASKS := (TASKS k)(?h \<mapsto> ?t), current := Some ?h\<rparr>"
  have pid: "get_pid ?t = get_pid t" "kernel_stack ?t = kernel_stack t" by (simp_all add: bump_stride_def get_pid_def)
  have "kinv l ld ?k"
  proof (rule kinvI, goal_cases)
    case 1
    then show ?case using mem_inv_cong_task[OF iv(1) t(1), of ?t] t(2) by (simp add: bump_stride_def)
  next
    case 2
    then show ?case using iv(2) task_pids_update[of "TASKS k" ?h t ?t, OF t(1) pid(1)] by simp
  next
    case 3
    then show ?case using pid_inv_update[OF iv(3) t(1) pid] by simp
  next
    case 4
    have "t_prio t \<noteq> 0" using tree_invD(5)[OF iv(4), of ?h] t(1) by (simp add: prio_def)
    then show ?case using tree_inv_update[OF iv(4) t(1), of ?t] t(2) by (simp add: bump_stride_def)
  next
    case 5
    then show ?case using sched_inv_run[of "TASKS k" "ready_queue k" i ?t] iv(5) inv(2) i by simp
  next
    case (6 g u)
    then show ?case using iv(6)[of g u] by (auto simp: wait_ok_def split: if_splits)
  qed
  then have "running l ld ?k ?h ?t" by (simp add: running_def)
  from some[OF Some refl t(1) this refl] show ?thesis
    using fetch_task_eq[OF kinv_queue_ok[OF inv(1)]] Some t(1)
    by (simp add: run_tasks_def wp_def kbind_def kreturn_def Let_def deref_task_def set_task_def kmodify_def kget_def kunwrap_def klift_def)
qed

lemma wlp_resume_current:
  assumes run: "running l (env_ld e) k h t" and efs: "reads_bounded (env_efs e)"
    and buf: "\<And>ub. task_cx t = Suspended (InStdin ub) \<Longrightarrow> pieces_ok l (t_data t) (buffers ub)"
  shows "wlp (resume_current e w) (trap_post l (env_ld e) h k) k"
proof -
  have "wlp (file_read_step e (hw_char w) Stdin ub) (\<lambda>r. wlp (finish_syscall r) (trap_post l (env_ld e) h k)) k"
    if "task_cx t = Suspended (InStdin ub)" for ub
    by (rule wp_mono[OF wlp_file_read_step[OF run efs buf[OF that]]]) (simp_all add: wlp_finish_syscall)
  then show ?thesis using wlp_trap_return[OF run kept_refl] wlp_finish_syscall[OF sys_post_same[OF run]]
    by (auto simp: resume_current_def wp_rules wp_current[OF run] split: task_context.splits resume_point.splits)
qed

lemma wlp_idle_turn:
  assumes inv: "kinv l (env_ld e) k" "current k = None" and efs: "reads_bounded (env_efs e)"
  shows "wlp (idle_turn e w) (\<lambda>r k'. \<exists>h. trap_post l (env_ld e) h k r k') k"
  unfolding idle_turn_def wp_kbind
proof (rule wp_run_tasks[OF inv], goal_cases)
  case 1
  then show ?case using inv by (auto simp: wp_rules trap_post_def)
next
  case (2 i h t k')
  have "task_status t = Ready"
    using sched_invD(2)[OF kinvD(5)[OF inv(1)], of h] least_strideD(1)[OF 2(1)] 2(2,3) by (simp add: status_def)
  then have "pieces_ok l (t_data ((bump_stride t)\<lparr>task_status := Running\<rparr>)) (buffers ub)"
    if "task_cx ((bump_stride t)\<lparr>task_status := Running\<rparr>) = Suspended (InStdin ub)" for ub
    using kinvD(6)[OF inv(1) 2(3)] that by (simp add: wait_ok_def bump_stride_def)
  from wlp_resume_current[OF 2(4) efs this] have "wlp (resume_current e w) (trap_post l (env_ld e) h k') k'" .
  moreover have "kept h k k'" unfolding 2(5) by (simp add: kept_def)
  ultimately show ?case by (auto elim!: wp_mono intro: trap_post_trans)
qed

section \<open>Reachable states\<close>

text \<open>
  The frames that a running program can change: those that its page table in memory maps writable for user mode, and
  that of the trap context, in which \<^verbatim>\<open>__alltraps\<close> saves whatever the registers hold.
\<close>

definition user_frames :: "mem \<Rightarrow> TaskControlBlock \<Rightarrow> PhysPageNum set" where
  "user_frames m t = insert (trap_cx_ppn t)
     {pte_ppn e |v e. ms_abs m (memory_set t) v = Some e \<and> is_writable e \<and> pte_flags e AND PTE_U \<noteq> 0}"

text \<open>
  The steps of the kernel. Which traps are taken is a parameter: \<open>ok\<close> is asked about the cause of a trap
  in the state in which it happens. With \<open>trap_ok e\<close> these are all traps but the system calls whose arguments
  \<open>call_ok\<close> excludes.
\<close>

inductive kernel_step :: "usize \<Rightarrow> ('fs, 'i) env \<Rightarrow> (TaskInfo \<Rightarrow> u8 list) \<Rightarrow> (('fs, 'i) kernel \<Rightarrow> trap_cause \<Rightarrow> bool) \<Rightarrow>
    ('fs, 'i) kernel \<Rightarrow> ('fs, 'i) kernel \<Rightarrow> bool" for l e layout ok where
  trap: "current k \<noteq> None \<Longrightarrow> ok k cause \<Longrightarrow> trap_handler e layout w cause k = Inr (r, k') \<Longrightarrow> kernel_step l e layout ok k k'"
| idle: "current k = None \<Longrightarrow> idle_turn e w k = Inr (r, k') \<Longrightarrow> kernel_step l e layout ok k k'"
| user: "current k = Some h \<Longrightarrow> TASKS k h = Some t \<Longrightarrow> same_pages (live l (k_mm k) - user_frames (mem (k_mm k)) t) (mem (k_mm k)) m \<Longrightarrow>
    kernel_step l e layout ok k (k\<lparr>k_mm := (k_mm k)\<lparr>mem := m\<rparr>\<rparr>)"

inductive reachable :: "usize \<Rightarrow> ('fs, 'i) env \<Rightarrow> (TaskInfo \<Rightarrow> u8 list) \<Rightarrow> (('fs, 'i) kernel \<Rightarrow> trap_cause \<Rightarrow> bool) \<Rightarrow>
    ('fs, 'i) kernel \<Rightarrow> ('fs, 'i) kernel \<Rightarrow> bool" for l e layout ok k where
  reachable_refl: "reachable l e layout ok k k"
| reachable_step: "reachable l e layout ok k k1 \<Longrightarrow> kernel_step l e layout ok k1 k2 \<Longrightarrow> reachable l e layout ok k k2"

section \<open>Isolation\<close>

text \<open>Every page that a task has mapped, other than the trampoline, is a frame of one of its areas.\<close>

lemma task_page_frame:
  assumes inv: "kinv l ld k" and t: "TASKS k h = Some t" "task_status t \<noteq> Zombie"
    and e: "ms_abs (mem (k_mm k)) (memory_set t) v = Some e" "v \<noteq> trampoline_vpn"
  obtains a where "a \<in> set (areas (memory_set t))" "v \<in> set (area_vpns a)" "area_frame a v = pte_ppn e" "pte_ppn e \<in> t_data t"
proof -
  have sp: "ms_inv l (k_mm k) (tramp ld) (memory_set t)" "\<forall>a \<in> set (areas (memory_set t)). map_type a = Framed"
    using mem_invD(3)[OF kinvD(1)[OF inv] t(1)] t(2) by (simp_all add: space_inv_def)
  have "v \<in> set (areas_vpns (areas (memory_set t)))" using ms_dom[OF sp(1)] e by (auto dest: domI split: if_splits)
  then obtain a where a: "a \<in> set (areas (memory_set t))" "v \<in> set (area_vpns a)" by (auto simp: set_areas_vpns)
  have fr: "area_frame a v = pte_ppn e" using ms_area_frames(3)[OF sp(1) a(1) _ a(2)] sp(2) a(1) e(1) by auto
  have "area_frame a v \<in> set (area_ppns a)" using ms_area_frames(1)[OF sp(1) a(1)] sp(2) a by (auto dest: imageI)
  then have "pte_ppn e \<in> t_data t" using a(1) by (auto simp: areas_ppns_def fr)
  then show thesis using that a fr by blast
qed

lemma user_frames_data:
  assumes run: "running l ld k h t"
  shows "user_frames (mem (k_mm k)) t \<subseteq> t_data t"
proof -
  note r = runningD[OF run]
  have nz: "task_status t \<noteq> Zombie" using r(4) by simp
  have "pte_ppn e \<in> t_data t" if e: "ms_abs (mem (k_mm k)) (memory_set t) v = Some e" "is_writable e" for v e
  proof -
    have "v \<noteq> trampoline_vpn"
    proof
      assume v: "v = trampoline_vpn"
      then have "v \<notin> set (areas_vpns (areas (memory_set t)))" using ms_invD(8)[OF r(5)] by auto
      then have "e = trampoline_entry ld" using e(1) v ms_invD(7)[OF r(5), of v] by simp
      then show False using e(2) by (simp add: is_writable_def trampoline_entry_def PTE_flag_defs)
    qed
    then obtain a where "pte_ppn e \<in> t_data t" using task_page_frame[OF r(1,3) nz e(1)] by blast
    then show ?thesis .
  qed
  then show ?thesis using cx_frame(1)[OF kinvD(1)[OF r(1)] r(3) nz] by (auto simp: user_frames_def)
qed

text \<open>A step of the running task, or of the one that the idle loop picks, keeps the invariant and the memory of the others.\<close>

lemma kernel_step_kept:
  assumes "kernel_step l e layout (trap_ok e) k k'" "kinv l (env_ld e) k" "reads_bounded (env_efs e)"
  shows "kinv l (env_ld e) k' \<and> (\<exists>h. (current k = None \<or> current k = Some h) \<and> kept h k k')"
  using assms
proof (induction rule: kernel_step.induct)
  case (trap k cause w r k')
  then obtain h t where run: "running l (env_ld e) k h t" using running_exists by fast
  from wlp_trap_handler[OF this trap(2,5), of layout w] have "trap_post l (env_ld e) h k r k'" using trap(3) by (simp add: wp_def)
  then show ?case using runningD(2)[OF run] by (auto simp: trap_post_def)
next
  case (idle k w r k')
  from wlp_idle_turn[OF idle(3,1,4), of w] show ?case using idle(1,2) by (auto simp: wp_def trap_post_def)
next
  case (user k h t m)
  then have run: "running l (env_ld e) k h t" by (simp add: running_def)
  have sub: "user_frames (mem (k_mm k)) t \<subseteq> t_owned t" using user_frames_data[OF run] by (auto simp: ms_owned_def)
  show ?case using kinv_write[OF user(4,2) user_frames_data[OF run] user(3)] kept_write[OF user(4,2) sub user(3)] user(1) by blast
qed

lemma reachable_kinv:
  assumes "reachable l e layout (trap_ok e) k k'" "kinv l (env_ld e) k" "reads_bounded (env_efs e)"
  shows "kinv l (env_ld e) k'"
  using assms by (induction rule: reachable.induct) (auto dest: kernel_step_kept)

text \<open>What \<open>kept\<close> says on the level of the page tables: the same entries, and the same bytes behind them.\<close>

lemma kept_pages:
  assumes inv: "kinv l ld k" and kp: "kept h k k'" and u: "g \<noteq> h" "TASKS k g = Some u" "task_status u \<noteq> Zombie"
  obtains u' where "TASKS k' g = Some u'" "memory_set u' = memory_set u" "trap_cx_ppn u' = trap_cx_ppn u"
    "ms_abs (mem (k_mm k')) (memory_set u) = ms_abs (mem (k_mm k)) (memory_set u)"
    "\<And>v e i. ms_abs (mem (k_mm k)) (memory_set u) v = Some e \<Longrightarrow> v \<noteq> trampoline_vpn \<Longrightarrow> i < 4096 \<Longrightarrow>
       mem (k_mm k') (paddr (ppn_val (pte_ppn e)) i) = mem (k_mm k) (paddr (ppn_val (pte_ppn e)) i)"
proof -
  obtain u' where u': "TASKS k' g = Some u'" "memory_set u' = memory_set u" "trap_cx_ppn u' = trap_cx_ppn u"
    "same_pages (t_owned u) (mem (k_mm k)) (mem (k_mm k'))" using keptD[OF kp u] by blast
  have sp: "ms_inv l (k_mm k) (tramp ld) (memory_set u)"
    using mem_invD(3)[OF kinvD(1)[OF inv] u(2)] u(3) by (simp add: space_inv_def)
  have "ms_abs (mem (k_mm k')) (memory_set u) = ms_abs (mem (k_mm k)) (memory_set u)"
    using pt_abs_cong[OF ms_invD(2)[OF sp] same_pages_mono[OF u'(4)]] by (auto simp: ms_owned_def)
  moreover have "mem (k_mm k') (paddr (ppn_val (pte_ppn e)) i) = mem (k_mm k) (paddr (ppn_val (pte_ppn e)) i)"
    if e: "ms_abs (mem (k_mm k)) (memory_set u) v = Some e" "v \<noteq> trampoline_vpn" "i < 4096" for v e i
  proof -
    obtain a where "pte_ppn e \<in> t_data u" by (rule task_page_frame[OF inv u(2,3) e(1,2)])
    then show ?thesis using u'(4) e(3) by (auto simp: same_pages_def page_eq_def ms_owned_def)
  qed
  ultimately show thesis using that[OF u'(1-3)] by blast
qed

end
