(* ===== verification/Kernel_Map.thy ===== *)
theory Kernel_Map
  imports Memory_Set_Elf
begin

text \<open>
  The address space of the kernel. \<open>new_kernel\<close> maps the sections of the kernel, the rest of the memory and the
  devices to themselves. Every page of the machine is mapped, so the bound on the frames counts the leaf
  tables, one for each block of 512 pages, and not the pages.
\<close>

section \<open>Pages whose table exists\<close>

abbreviation block :: "VirtPageNum \<Rightarrow> nat" where
  "block v \<equiv> unat (vpn_val v) div 512"

lemma block_take: "block v = block w \<Longrightarrow> take 2 (indexes v) = take 2 (indexes w)"
proof -
  assume b: "block v = block w"
  have d: "drop_bit 9 (vpn_val v) = drop_bit 9 (vpn_val w)"
    using b by (simp add: word_unat_eq_iff drop_bit_eq_div unat_div)
  have "drop_bit 9 (drop_bit 9 (vpn_val v)) = drop_bit 9 (drop_bit 9 (vpn_val w))" by (simp only: d)
  then have "drop_bit 18 (vpn_val v) = drop_bit 18 (vpn_val w)" by simp
  with d show ?thesis by (simp add: indexes_eq)
qed

lemma wp_pt_map_table:
  assumes "w \<in> dom (pt_abs (mem s) pt)" "block w = block v" "vpn_ok v" "v \<notin> dom (pt_abs (mem s) pt)"
  shows "wp (pt_map pt v p flags) (\<lambda>_ s'. avail s' = avail s) E s"
proof -
  obtain f where "pt_node (view (mem s)) (pt_root pt) (take 2 (indexes w)) = Some f"
    using assms(1) by (auto simp: pt_abs_def pt_lookup_def split: if_splits option.splits)
  then have f: "pt_node (view (mem s)) (pt_root pt) (take 2 (indexes v)) = Some f" using block_take[OF assms(2)] by simp
  have "\<not> is_valid (load_pte (mem s) (pte_at f (indexes v ! 2)))"
    using assms(3,4) f by (auto simp: pt_abs_def pt_lookup_def view_def split: if_splits)
  then show ?thesis
    by (simp add: pt_map_def wp_def kbind_def find_pte_create_exists[OF f] kunwrap_def kget_def kassert_def store_pte_def
        kmodify_def kreturn_def klift_def avail_def)
qed

section \<open>Identical areas\<close>

lemma wp_map_one_table:
  assumes inv: "area_inv l s a pt vs" and v: "vpn_ok v" "v \<notin> vs" "v \<notin> dom (pt_abs (mem s) pt)" and id: "map_type a = Identical"
    and w: "w \<in> dom (pt_abs (mem s) pt)" "block w = block v"
    and Q: "\<And>s' a' pt'. area_mapped l s a pt [v] s' a' pt' \<Longrightarrow> area_inv l s' a' pt' (insert v vs) \<Longrightarrow> avail s' = avail s \<Longrightarrow> Q (a', pt') s'"
  shows "wp (map_one a pt v) Q E s"
proof -
  let ?R = "\<lambda>(a', pt') s'. area_mapped l s a pt [v] s' a' pt' \<and> area_inv l s' a' pt' (insert v vs)"
  have "wp (map_one a pt v) ?R (\<lambda>_. True) s" by (rule wp_map_one_identical[OF inv v(1,2) id]) simp_all
  moreover have "wp (map_one a pt v) (\<lambda>_ s'. avail s' = avail s) (\<lambda>_. False) s"
    using wp_pt_map_table[OF w v(1,3)] by (simp add: map_one_def id wp_rules PTEFlags_from_bits_total)
  ultimately have "wp (map_one a pt v) (\<lambda>r s'. ?R r s' \<and> avail s' = avail s) (\<lambda>_. False) s" by (auto simp: wp_def split: sum.splits)
  then show ?thesis by (rule wp_mono) (use Q in auto)
qed

lemma wp_map_identical:
  assumes inv: "area_inv l s a pt us" and vs: "distinct vs" "set vs \<inter> us = {}" "\<forall>v \<in> set vs. vpn_ok v"
    and id: "map_type a = Identical" and out: "set vs \<inter> dom (pt_abs (mem s) pt) = {}"
    and E: "avail s < 3 * card (block ` set vs) \<Longrightarrow> E OutOfFrames"
    and Q: "\<And>s' a' pt'. area_mapped l s a pt vs s' a' pt' \<Longrightarrow> area_inv l s' a' pt' (us \<union> set vs) \<Longrightarrow>
        avail s \<le> avail s' + 3 * card (block ` set vs) \<Longrightarrow> Q (a', pt') s'"
  shows "wp (for_loop vs (\<lambda>vpn (a, pt). map_one a pt vpn) (a, pt)) Q E s"
proof -
  define I where "I = (\<lambda>ys (a', pt') s'. area_mapped l s a pt ys s' a' pt' \<and> area_inv l s' a' pt' (us \<union> set ys) \<and>
      avail s \<le> avail s' + 3 * card (block ` set ys))"
  show ?thesis
  proof (rule wp_for_loop[where I = I])
    show "I [] (a, pt) s" using area_mapped_Nil[OF inv] inv by (simp add: I_def)
  next
    fix ys v zs acc s1
    assume split: "vs = ys @ v # zs" and I: "I ys acc s1"
    obtain a1 pt1 where acc: "acc = (a1, pt1)" by (cases acc)
    have i: "area_mapped l s a pt ys s1 a1 pt1" "area_inv l s1 a1 pt1 (us \<union> set ys)" "avail s \<le> avail s1 + 3 * card (block ` set ys)"
      using I by (auto simp: I_def acc)
    note d = area_mappedD[OF i(1)]
    have v: "vpn_ok v" "v \<notin> us \<union> set ys" "set ys \<inter> set [v] = {}" using vs by (auto simp: split)
    have id1: "map_type a1 = Identical" using id by (subst d(4)) simp
    have dom1: "dom (pt_abs (mem s1) pt1) = dom (pt_abs (mem s) pt) \<union> set ys" using d(8,9) by auto
    have v1: "v \<notin> dom (pt_abs (mem s1) pt1)" using dom1 v(2) out split by auto
    have step: "I (ys @ [v]) (a', pt') s'" if "area_mapped l s1 a1 pt1 [v] s' a' pt'" "area_inv l s' a' pt' (insert v (us \<union> set ys))"
      "avail s \<le> avail s' + 3 * card (block ` set (ys @ [v]))" for a' pt' s'
      using that area_mapped_trans[OF i(1) _ v(3)] by (simp add: I_def)
    have "wp (map_one a1 pt1 v) (I (ys @ [v])) E s1"
    proof (cases "block v \<in> block ` set ys")
      case True
      then obtain w where "w \<in> set ys" and w: "block w = block v" by auto
      then have wd: "w \<in> dom (pt_abs (mem s1) pt1)" unfolding dom1 by simp
      show ?thesis by (rule wp_map_one_table[OF i(2) v(1,2) v1 id1 wd w], rule step) (use i(3) True in \<open>auto simp: insert_absorb\<close>)
    next
      case False
      have c: "card (block ` set (ys @ [v])) = Suc (card (block ` set ys))" using False by simp
      have "block ` set (ys @ [v]) \<subseteq> block ` set vs" by (auto simp: split)
      then have le: "Suc (card (block ` set ys)) \<le> card (block ` set vs)" unfolding c[symmetric] by (intro card_mono) auto
      show ?thesis
      proof (rule wp_map_one_identical[OF i(2) v(1,2) id1])
        show "avail s1 < 3 \<Longrightarrow> E OutOfFrames" using E i(3) le by simp
        fix s' a' pt' assume m: "area_mapped l s1 a1 pt1 [v] s' a' pt'" "area_inv l s' a' pt' (insert v (us \<union> set ys))"
        show "I (ys @ [v]) (a', pt') s'" using step[OF m] area_mappedD(10)[OF m(1)] i(3) c by simp
      qed (use v1 in simp)
    qed
    then show "wp (case acc of (a, pt) \<Rightarrow> map_one a pt v) (I (ys @ [v])) E s1" by (simp add: acc)
  next
    fix acc s' assume "I vs acc s'"
    then show "Q acc s'" using Q by (cases acc) (simp add: I_def)
  qed
qed

type_synonym kernel_seg = "VPNRange \<times> MapPermission"

definition kseg_pages :: "kernel_seg list \<Rightarrow> VirtPageNum list" where
  "kseg_pages segs = concat (map (\<lambda>seg. vpns_of (fst seg)) segs)"

definition kseg_blocks :: "kernel_seg list \<Rightarrow> nat" where
  "kseg_blocks segs = (\<Sum>seg \<leftarrow> segs. card (block ` set (vpns_of (fst seg))))"

definition kmapped :: "usize \<Rightarrow> mm_state \<Rightarrow> linker_symbols \<Rightarrow> kernel_seg list \<Rightarrow> mm_state \<Rightarrow> MemorySet \<Rightarrow> bool" where
  "kmapped l s ld segs s' ms \<longleftrightarrow> ms_inv l s' (tramp ld) ms \<and> own_step l s {} s' (ms_owned ms) \<and>
     map (\<lambda>a. (vpn_range a, map_perm a)) (areas ms) = segs \<and> (\<forall>a \<in> set (areas ms). map_type a = Identical) \<and>
     avail s \<le> avail s' + 3 + 3 * kseg_blocks segs"

lemma kmapped_pages: "map (\<lambda>a. (vpn_range a, map_perm a)) as = segs \<Longrightarrow> areas_vpns as = kseg_pages segs"
  by (auto simp: areas_vpns_def kseg_pages_def comp_def)

lemma wp_push_identical:
  assumes k: "kmapped l s ld segs s1 ms" and r: "r = va_span (va_from_usize lo) (va_from_usize hi)" "range_wf r"
    and out: "set (vpns_of r) \<inter> set (kseg_pages segs) = {}" "trampoline_vpn \<notin> set (vpns_of r)"
    and E: "avail s < 3 + 3 * kseg_blocks (segs @ [(r, perm)]) \<Longrightarrow> E OutOfFrames"
    and Q: "\<And>s' ms'. kmapped l s ld (segs @ [(r, perm)]) s' ms' \<Longrightarrow> Q ms' s'"
  shows "wp (push_identical lo hi perm ms) Q E s1"
proof -
  have ms: "ms_inv l s1 (tramp ld) ms" "own_step l s {} s1 (ms_owned ms)" "map (\<lambda>a. (vpn_range a, map_perm a)) (areas ms) = segs"
    "\<forall>a \<in> set (areas ms). map_type a = Identical" "avail s \<le> avail s1 + 3 + 3 * kseg_blocks segs"
    using k by (simp_all add: kmapped_def)
  let ?a = "\<lparr>vpn_range = r, data_frames = [], map_type = Identical, map_perm = perm\<rparr>"
  have bl: "kseg_blocks (segs @ [(r, perm)]) = kseg_blocks segs + card (block ` set (vpns_of r))" by (simp add: kseg_blocks_def)
  have ai: "area_inv l s1 ?a (page_table ms) {}"
    using ms_invD(1,2)[OF ms(1)] by (simp add: area_inv_def area_ok_def area_ppns_def)
  have o: "set (vpns_of r) \<inter> dom (ms_abs (mem s1) ms) = {}"
    using ms_dom[OF ms(1)] kmapped_pages[OF ms(3)] out by auto
  have "wp (area_map ?a (page_table ms)) (\<lambda>(a', pt') s'. Q (ms\<lparr>page_table := pt', areas := vec_push (areas ms) a'\<rparr>) s') E s1"
    unfolding area_map_def
  proof (rule wp_map_identical[OF ai])
    fix s' a' pt' assume m: "area_mapped l s1 ?a (page_table ms) (vpns_of (vpn_range ?a)) s' a' pt'" "area_inv l s' a' pt' ({} \<union> set (vpns_of (vpn_range ?a)))"
      "avail s1 \<le> avail s' + 3 * card (block ` set (vpns_of (vpn_range ?a)))"
    let ?ms = "ms\<lparr>page_table := pt', areas := vec_push (areas ms) a'\<rparr>"
    have p: "ms_pushed l s1 (tramp ld) ms ?a s' ?ms a'" using ms_pushed_mapped(1)[OF ms(1), of ?a s' a' pt'] r(2) o m by simp
    have a': "vpn_range a' = r" "map_perm a' = perm" "map_type a' = Identical" by (subst area_mappedD(4)[OF m(1)], simp)+
    have "kmapped l s ld (segs @ [(r, perm)]) s' ?ms"
      using p own_step_trans[OF ms(2)] ms(3-5) a' m(3) bl by (auto simp: kmapped_def ms_pushed_def vec_push_def)
    then show "(\<lambda>(a', pt') s'. Q (ms\<lparr>page_table := pt', areas := vec_push (areas ms) a'\<rparr>) s') (a', pt') s'" using Q by simp
  qed (use r(2) range_wf_vpn_ok range_wf_distinct o E ms(5) bl in auto)
  then show ?thesis
    using r(2) by (simp add: push_identical_def MapArea_new_eq r(1) range_wf_def ms_push_def wp_rules wp_case_prod)
qed

section \<open>The sections of the kernel\<close>

definition kernel_spans :: "linker_symbols \<Rightarrow> (usize \<times> usize \<times> MapPermission) list" where
  "kernel_spans ld = [(stext ld, etext ld, MP_R OR MP_X), (srodata ld, erodata ld, MP_R), (sdata ld, edata ld, MP_R),
     (sbss_with_stack ld, ebss ld, MP_R OR MP_W), (ekernel ld, MEMORY_END, MP_R OR MP_W), (0x10001000, 0x10002000, MP_R OR MP_W)]"

definition kseg :: "usize \<times> usize \<times> MapPermission \<Rightarrow> kernel_seg" where
  "kseg = (\<lambda>(lo, hi, perm). (va_span (va_from_usize lo) (va_from_usize hi), perm))"

lemma for_loop_eta:
  "for_loop [] body = kreturn" "for_loop (x # xs) body = (\<lambda>acc. kbind (body x acc) (for_loop xs body))"
  by (simp_all add: fun_eq_iff)

lemma new_kernel_loop:
  "new_kernel ld = kbind new_bare (\<lambda>ms. kbind (map_trampoline ld ms) (\<lambda>ms.
     for_loop (kernel_spans ld) (\<lambda>(lo, hi, perm) ms. push_identical lo hi perm ms) ms))"
  by (simp add: new_kernel_def kernel_spans_def MMIO_def for_loop_eta)

definition kernel_ok :: "linker_symbols \<Rightarrow> bool" where
  "kernel_ok ld \<longleftrightarrow> ld_ok ld \<and> (\<forall>sp \<in> set (kernel_spans ld). range_wf (fst (kseg sp))) \<and>
     distinct (kseg_pages (map kseg (kernel_spans ld))) \<and> trampoline_vpn \<notin> set (kseg_pages (map kseg (kernel_spans ld)))"

lemma wp_push_spans:
  assumes k: "kmapped l s ld [] s1 ms" and wf: "\<forall>sp \<in> set spans. range_wf (fst (kseg sp))" "distinct (kseg_pages (map kseg spans))"
      "trampoline_vpn \<notin> set (kseg_pages (map kseg spans))"
    and E: "avail s < 3 + 3 * kseg_blocks (map kseg spans) \<Longrightarrow> E OutOfFrames"
    and Q: "\<And>s' ms'. kmapped l s ld (map kseg spans) s' ms' \<Longrightarrow> Q ms' s'"
  shows "wp (for_loop spans (\<lambda>(lo, hi, perm) ms. push_identical lo hi perm ms) ms) Q E s1"
proof (rule wp_for_loop[where I = "\<lambda>ys ms' s'. kmapped l s ld (map kseg ys) s' ms'"])
  fix ys x zs ms' s' assume x: "spans = ys @ x # zs" and I: "kmapped l s ld (map kseg ys) s' ms'"
  obtain lo hi perm where sp: "x = (lo, hi, perm)" by (cases x) auto
  let ?r = "va_span (va_from_usize lo) (va_from_usize hi)"
  have seg: "kseg x = (?r, perm)" by (simp add: kseg_def sp)
  have blocks: "kseg_blocks (map kseg ys @ [(?r, perm)]) \<le> kseg_blocks (map kseg spans)" using seg by (simp add: x kseg_blocks_def)
  have "wp (push_identical lo hi perm ms') (\<lambda>ms' s'. kmapped l s ld (map kseg (ys @ [x])) s' ms') E s'"
  proof (rule wp_push_identical[OF I refl])
    show "avail s < 3 + 3 * kseg_blocks (map kseg ys @ [(?r, perm)]) \<Longrightarrow> E OutOfFrames" using E blocks by simp
  qed (use wf seg in \<open>auto simp: x kseg_pages_def\<close>)
  then show "wp ((case x of (lo, hi, perm) \<Rightarrow> \<lambda>ms. push_identical lo hi perm ms) ms') (\<lambda>ms' s'. kmapped l s ld (map kseg (ys @ [x])) s' ms') E s'"
    by (simp add: sp)
qed (use k Q in auto)

lemma wp_new_kernel:
  assumes mm: "mm_inv l s" and ok: "kernel_ok ld" and E: "avail s < 3 + 3 * kseg_blocks (map kseg (kernel_spans ld)) \<Longrightarrow> E OutOfFrames"
    and Q: "\<And>s' ms. kmapped l s ld (map kseg (kernel_spans ld)) s' ms \<Longrightarrow> Q ms s'"
  shows "wp (new_kernel ld) Q E s"
  unfolding new_kernel_loop wp_kbind
proof (rule wp_new_bare[OF mm])
  fix s1 ms assume n: "ms_inv l s1 Map.empty ms" "areas ms = []" "own_step l s {} s1 (ms_owned ms)" "avail s = Suc (avail s1)"
  have out: "trampoline_vpn \<notin> dom (ms_abs (mem s1) ms)" using ms_dom[OF n(1)] n(2) by simp
  have ld: "ld_ok ld" using ok by (simp add: kernel_ok_def)
  show "wp (map_trampoline ld ms) (\<lambda>ms. wp (for_loop (kernel_spans ld) (\<lambda>(lo, hi, perm) ms. push_identical lo hi perm ms) ms) Q E) E s1"
  proof (rule wp_map_trampoline[OF n(1) ld out])
    fix s2 ms2 assume t: "ms_inv l s2 [trampoline_vpn \<mapsto> trampoline_entry ld] ms2" "areas ms2 = areas ms"
      "own_step l s1 (ms_owned ms) s2 (ms_owned ms2)" "avail s1 \<le> avail s2 + 2"
    have "kmapped l s ld [] s2 ms2" using t n own_step_trans[OF n(3) t(3)] by (simp add: kmapped_def kseg_blocks_def)
    then show "wp (for_loop (kernel_spans ld) (\<lambda>(lo, hi, perm) ms. push_identical lo hi perm ms) ms2) Q E s2"
      by (rule wp_push_spans) (use ok E Q in \<open>auto simp: kernel_ok_def\<close>)
  qed (use E n(4) in auto)
qed (use E in auto)

text \<open>The layout that the linker script \<^verbatim>\<open>linker-qemu.ld\<close> gives: sections in this order, on page boundaries.\<close>

definition ld_layout :: "linker_symbols \<Rightarrow> bool" where
  "ld_layout ld \<longleftrightarrow> (let bounds = [0x80000000, stext ld, etext ld, srodata ld, erodata ld, sdata ld, edata ld, sbss_with_stack ld,
       ebss ld, ekernel ld, MEMORY_END] in
     sorted bounds \<and> (\<forall>x \<in> set (strampoline ld # bounds). unat x mod 4096 = 0) \<and> stext ld \<le> strampoline ld \<and> strampoline ld < etext ld)"

lemma page_span:
  assumes "unat lo mod 4096 = 0" "unat hi mod 4096 = 0" "unat lo < 2 ^ 38" "unat hi < 2 ^ 38"
  shows "unat (vpn_val (VirtAddr_floor (va_from_usize lo))) = unat lo div 4096"
    "unat (vpn_val (VirtAddr_ceil (va_from_usize hi))) = unat hi div 4096"
proof -
  show "unat (vpn_val (VirtAddr_floor (va_from_usize lo))) = unat lo div 4096"
    using assms(3) by (simp add: unat_VirtAddr_floor va_from_usize_id)
  have "unat (va_val (va_from_usize hi)) + 4095 < 2 ^ 64" using assms(4) by (simp add: va_from_usize_id)
  moreover have "(n + 4095) div 4096 = n div 4096" if "n mod 4096 = 0" for n :: nat using that by (auto elim!: dvdE simp: mod_eq_0_iff_dvd)
  ultimately show "unat (vpn_val (VirtAddr_ceil (va_from_usize hi))) = unat hi div 4096"
    using assms(2,4) by (simp add: unat_VirtAddr_ceil va_from_usize_id)
qed

lemma ld_layoutD:
  assumes "ld_layout ld"
  shows "0x80000000 \<le> unat (stext ld)" "unat (stext ld) \<le> unat (etext ld)" "unat (etext ld) \<le> unat (srodata ld)"
    "unat (srodata ld) \<le> unat (erodata ld)" "unat (erodata ld) \<le> unat (sdata ld)" "unat (sdata ld) \<le> unat (edata ld)"
    "unat (edata ld) \<le> unat (sbss_with_stack ld)" "unat (sbss_with_stack ld) \<le> unat (ebss ld)" "unat (ebss ld) \<le> unat (ekernel ld)"
    "unat (ekernel ld) \<le> 0x88000000"
  using assms by (simp_all add: ld_layout_def Let_def word_le_nat_alt MEMORY_END_def)

lemma ld_layout_aligned:
  assumes "ld_layout ld" "(lo, hi, perm) \<in> set (kernel_spans ld)"
  shows "unat lo mod 4096 = 0" "unat hi mod 4096 = 0" "unat lo \<le> unat hi" "unat hi \<le> 0x88000000" "lo = 0x10001000 \<and> hi = 0x10002000 \<or> 0x80000000 \<le> unat lo"
proof -
  have al: "unat (stext ld) mod 4096 = 0" "unat (etext ld) mod 4096 = 0" "unat (srodata ld) mod 4096 = 0" "unat (erodata ld) mod 4096 = 0"
    "unat (sdata ld) mod 4096 = 0" "unat (edata ld) mod 4096 = 0" "unat (sbss_with_stack ld) mod 4096 = 0" "unat (ebss ld) mod 4096 = 0"
    "unat (ekernel ld) mod 4096 = 0"
    using assms(1) by (simp_all add: ld_layout_def Let_def)
  have "\<forall>(lo, hi, perm) \<in> set (kernel_spans ld). unat lo mod 4096 = 0 \<and> unat hi mod 4096 = 0"
    by (simp add: kernel_spans_def MEMORY_END_def al)
  then show "unat lo mod 4096 = 0" "unat hi mod 4096 = 0" using assms(2) by (auto dest: bspec)
  note o = ld_layoutD[OF assms(1)]
  have "\<forall>(lo, hi, perm) \<in> set (kernel_spans ld). unat lo \<le> unat hi \<and> unat hi \<le> 0x88000000 \<and> (lo = 0x10001000 \<and> hi = 0x10002000 \<or> 0x80000000 \<le> unat lo)"
    using o by (simp add: kernel_spans_def MEMORY_END_def)
  then show "unat lo \<le> unat hi" "unat hi \<le> 0x88000000" "lo = 0x10001000 \<and> hi = 0x10002000 \<or> 0x80000000 \<le> unat lo" using assms(2) by (auto dest: bspec)
qed

lemma kseg_range:
  assumes "ld_layout ld" "sp \<in> set (kernel_spans ld)"
  shows "unat (vpn_val (range_l (fst (kseg sp)))) = unat (fst sp) div 4096" "unat (vpn_val (range_r (fst (kseg sp)))) = unat (fst (snd sp)) div 4096"
    "range_wf (fst (kseg sp))" "v \<in> set (vpns_of (fst (kseg sp))) \<longleftrightarrow> unat (fst sp) div 4096 \<le> unat (vpn_val v) \<and> unat (vpn_val v) < unat (fst (snd sp)) div 4096"
proof -
  obtain lo hi perm where sp: "sp = (lo, hi, perm)" by (cases sp) auto
  note a = ld_layout_aligned[OF assms(1) assms(2)[unfolded sp]]
  have b: "unat lo < 2 ^ 38" "unat hi < 2 ^ 38" using a(3,4) by simp_all
  note p = page_span[OF a(1,2) b]
  show r: "unat (vpn_val (range_l (fst (kseg sp)))) = unat (fst sp) div 4096" "unat (vpn_val (range_r (fst (kseg sp)))) = unat (fst (snd sp)) div 4096"
    using p by (simp_all add: sp kseg_def)
  have "range_l (fst (kseg sp)) \<le> range_r (fst (kseg sp))"
    using r a(3) div_le_mono[OF a(3), of 4096] by (simp add: newtype_order_defs word_le_nat_alt sp)
  moreover have "unat hi div 4096 \<le> 2 ^ 27" using div_le_mono[OF a(4), of 4096] by simp
  ultimately show wf: "range_wf (fst (kseg sp))" using r by (simp add: range_wf_def sp)
  then show "v \<in> set (vpns_of (fst (kseg sp))) \<longleftrightarrow> unat (fst sp) div 4096 \<le> unat (vpn_val v) \<and> unat (vpn_val v) < unat (fst (snd sp)) div 4096"
    using r by (simp add: set_vpns_of range_wf_def newtype_order_defs word_le_nat_alt word_less_nat_alt)
qed

lemma kseg_blocks_le:
  assumes "ld_layout ld" "sp \<in> set (kernel_spans ld)"
  shows "card (block ` set (vpns_of (fst (kseg sp)))) \<le> 64"
proof -
  obtain lo hi perm where sp: "sp = (lo, hi, perm)" by (cases sp) auto
  note a = ld_layout_aligned[OF assms(1) assms(2)[unfolded sp]]
  have v: "unat lo div 4096 \<le> unat (vpn_val v)" "unat (vpn_val v) < unat hi div 4096" if "v \<in> set (vpns_of (fst (kseg sp)))" for v
    using that kseg_range(4)[OF assms] by (simp_all add: sp)
  show ?thesis
  proof (cases "0x80000000 \<le> unat lo")
    case True
    then have b: "0x80000 \<le> unat lo div 4096" "unat hi div 4096 \<le> 0x88000"
      using div_le_mono[of "0x80000000" "unat lo" 4096] div_le_mono[OF a(4), of 4096] by simp_all
    have "block ` set (vpns_of (fst (kseg sp))) \<subseteq> {0x400..<0x440}"
    proof (rule image_subsetI)
      fix w assume "w \<in> set (vpns_of (fst (kseg sp)))"
      then have "0x80000 \<le> unat (vpn_val w)" "unat (vpn_val w) < 0x88000" using v[of w] b by simp_all
      then show "block w \<in> {0x400..<0x440}" by (simp add: div_less_iff_less_mult less_eq_div_iff_mult_less_eq)
    qed
    from card_mono[OF _ this] show ?thesis by simp
  next
    case False
    then have "lo = 0x10001000" "hi = 0x10002000" using a(5) by simp_all
    then have "unat (vpn_val w) = 0x10001" if "w \<in> set (vpns_of (fst (kseg sp)))" for w using v[OF that] by simp
    then have "block ` set (vpns_of (fst (kseg sp))) \<subseteq> {128}" by auto
    from card_mono[OF _ this] show ?thesis by simp
  qed
qed

lemma distinct_concat_map:
  "\<forall>x \<in> set xs. distinct (f x) \<Longrightarrow> sorted_wrt (\<lambda>x y. set (f x) \<inter> set (f y) = {}) xs \<Longrightarrow> distinct (concat (map f xs))"
  by (induction xs) auto

lemma kseg_disjoint:
  assumes "ld_layout ld" "x \<in> set (kernel_spans ld)" "y \<in> set (kernel_spans ld)"
    "unat (fst (snd x)) \<le> unat (fst y) \<or> unat (fst (snd y)) \<le> unat (fst x)"
  shows "set (vpns_of (fst (kseg x))) \<inter> set (vpns_of (fst (kseg y))) = {}"
proof -
  have "unat (fst (snd x)) div 4096 \<le> unat (fst y) div 4096 \<or> unat (fst (snd y)) div 4096 \<le> unat (fst x) div 4096"
    using assms(4) div_le_mono by blast
  then show ?thesis using kseg_range(4)[OF assms(1,2)] kseg_range(4)[OF assms(1,3)] by (auto simp: disjoint_iff)
qed

lemma ld_layout_kernel_ok:
  assumes "ld_layout ld"
  shows "kernel_ok ld" "kseg_blocks (map kseg (kernel_spans ld)) \<le> 384"
proof -
  note o = ld_layoutD[OF assms]
  have "sorted_wrt (\<lambda>x y. unat (fst (snd x)) \<le> unat (fst y) \<or> unat (fst (snd y)) \<le> unat (fst x)) (kernel_spans ld)"
    using o by (simp add: kernel_spans_def MEMORY_END_def)
  then have "sorted_wrt (\<lambda>x y. set (vpns_of (fst (kseg x))) \<inter> set (vpns_of (fst (kseg y))) = {}) (kernel_spans ld)"
    by (rule sorted_wrt_mono_rel[rotated]) (rule kseg_disjoint[OF assms])
  moreover have wf: "\<forall>sp \<in> set (kernel_spans ld). range_wf (fst (kseg sp))" using kseg_range(3)[OF assms] by blast
  ultimately have d: "distinct (kseg_pages (map kseg (kernel_spans ld)))"
    unfolding kseg_pages_def map_map comp_def by (intro distinct_concat_map) (auto intro: range_wf_distinct)
  have "trampoline_vpn \<notin> set (vpns_of (fst (kseg sp)))" if sp: "sp \<in> set (kernel_spans ld)" for sp
  proof -
    have "unat (fst (snd sp)) \<le> 0x88000000" using ld_layout_aligned(4)[OF assms, of "fst sp" "fst (snd sp)" "snd (snd sp)"] sp by simp
    then have "unat (fst (snd sp)) div 4096 \<le> 0x88000" using div_le_mono[of _ "0x88000000" 4096] by fastforce
    then show ?thesis using kseg_range(4)[OF assms sp] by (simp add: trampoline_vpn_def)
  qed
  then have t: "trampoline_vpn \<notin> set (kseg_pages (map kseg (kernel_spans ld)))" by (auto simp: kseg_pages_def)
  have "unat (strampoline ld) mod 4096 = 0" using assms by (simp add: ld_layout_def Let_def)
  moreover have "unat (PhysAddr_page_offset a) = unat (pa_val a) mod 4096" for a by (simp add: address_defs unat_and_4095)
  ultimately have "ld_ok ld" by (simp add: ld_ok_def word_unat_eq_iff unat_from_usize mod_mod_cancel)
  then show "kernel_ok ld" using wf d t by (simp add: kernel_ok_def)
  have "kseg_blocks (map kseg (kernel_spans ld)) \<le> sum_list (map (\<lambda>_. 64) (kernel_spans ld))"
    unfolding kseg_blocks_def map_map comp_def by (rule sum_list_mono) (rule kseg_blocks_le[OF assms])
  also have "\<dots> = 384" by (simp add: kernel_spans_def)
  finally show "kseg_blocks (map kseg (kernel_spans ld)) \<le> 384" .
qed

lemma kmapped_entry:
  assumes k: "kmapped l s ld (map kseg spans) s' ms" and sp: "sp \<in> set spans" and v: "v \<in> set (vpns_of (fst (kseg sp)))"
  shows "ms_abs (mem s') ms v = Some (PageTableEntry_new (PhysPageNum (vpn_val v)) (snd (snd sp) OR PTE_V))"
proof -
  have ms: "ms_inv l s' (tramp ld) ms" "map (\<lambda>a. (vpn_range a, map_perm a)) (areas ms) = map kseg spans" "\<forall>a \<in> set (areas ms). map_type a = Identical"
    using k by (simp_all add: kmapped_def)
  have "kseg sp \<in> set (map (\<lambda>a. (vpn_range a, map_perm a)) (areas ms))" using ms(2) sp by simp
  then obtain a where a: "a \<in> set (areas ms)" "vpn_range a = fst (kseg sp)" "map_perm a = snd (kseg sp)" by auto
  have "snd (kseg sp) = snd (snd sp)" by (simp add: kseg_def split: prod.splits)
  then show ?thesis using ms_invD(6)[OF ms(1) a(1)] a v ms(3) by (simp add: area_entry_def area_ppn_def)
qed

section \<open>Properties\<close>

text \<open>
  C23: \<open>new_kernel\<close> succeeds as soon as 1155 frames are free. Every page of the kernel's sections, of the rest of
  the memory and of the devices is mapped to itself with the permission of its section, the highest page
  leads to the trampoline, and no live frame is changed.
\<close>

theorem new_kernel_correct:
  assumes "mm_inv l s" "ld_layout ld" "1155 \<le> avail s"
  shows "\<exists>ks s'. new_kernel ld s = Inr (ks, s') \<and> ms_inv l s' (tramp ld) ks \<and>
    ms_owned ks \<inter> live l s = {} \<and> same_pages (live l s) (mem s) (mem s') \<and>
    ms_abs (mem s') ks trampoline_vpn = Some (trampoline_entry ld) \<and>
    (\<forall>(lo, hi, perm) \<in> set (kernel_spans ld). \<forall>v. unat lo div 4096 \<le> unat (vpn_val v) \<and> unat (vpn_val v) < unat hi div 4096 \<longrightarrow>
       ms_abs (mem s') ks v = Some (PageTableEntry_new (PhysPageNum (vpn_val v)) (perm OR PTE_V)))"
proof -
  note ok = ld_layout_kernel_ok[OF assms(2)]
  have "wp (new_kernel ld) (\<lambda>ks s'. kmapped l s ld (map kseg (kernel_spans ld)) s' ks) (\<lambda>_. False) s"
    by (rule wp_new_kernel[OF assms(1) ok(1)]) (use ok(2) assms(3) in simp_all)
  from wp_no_panicD[OF this] obtain ks s' where r: "new_kernel ld s = Inr (ks, s')" and k: "kmapped l s ld (map kseg (kernel_spans ld)) s' ks"
    by blast
  have ms: "ms_inv l s' (tramp ld) ks" "own_step l s {} s' (ms_owned ks)" using k by (simp_all add: kmapped_def)
  have "trampoline_vpn \<notin> set (areas_vpns (areas ks))"
    using k ok(1) kmapped_pages[of "areas ks"] by (simp add: kmapped_def kernel_ok_def)
  then have "ms_abs (mem s') ks trampoline_vpn = Some (trampoline_entry ld)" using ms_invD(7)[OF ms(1)] by simp
  moreover have "\<forall>(lo, hi, perm) \<in> set (kernel_spans ld). \<forall>v. unat lo div 4096 \<le> unat (vpn_val v) \<and> unat (vpn_val v) < unat hi div 4096 \<longrightarrow>
       ms_abs (mem s') ks v = Some (PageTableEntry_new (PhysPageNum (vpn_val v)) (perm OR PTE_V))"
    using kmapped_entry[OF k] kseg_range(4)[OF assms(2)] by fastforce
  ultimately show ?thesis using r ms by (auto simp: own_step_def)
qed

lemma boot_ld_layout: "ld_layout boot_ld"
  by (simp add: ld_layout_def Let_def boot_ld_def MEMORY_END_def)

lemma new_kernel_correct_witness:
  "\<exists>ks s'. new_kernel boot_ld boot_mm = Inr (ks, s') \<and>
     ms_abs (mem s') ks (VirtPageNum 0x80200) = Some (PageTableEntry_new (PhysPageNum 0x80200) (MP_R OR MP_X OR PTE_V)) \<and>
     ms_abs (mem s') ks (VirtPageNum 0x87fff) = Some (PageTableEntry_new (PhysPageNum 0x87fff) (MP_R OR MP_W OR PTE_V))"
proof -
  obtain ks s' where r: "new_kernel boot_ld boot_mm = Inr (ks, s')"
    and e: "\<forall>(lo, hi, perm) \<in> set (kernel_spans boot_ld). \<forall>v. unat lo div 4096 \<le> unat (vpn_val v) \<and> unat (vpn_val v) < unat hi div 4096 \<longrightarrow>
       ms_abs (mem s') ks v = Some (PageTableEntry_new (PhysPageNum (vpn_val v)) (perm OR PTE_V))"
    using new_kernel_correct[OF boot_mm_inv boot_ld_layout] by (auto simp: boot_avail)
  show ?thesis
    using r spec[OF bspec[OF e, of "(0x80200000, 0x80210000, MP_R OR MP_X)", simplified], of "VirtPageNum 0x80200"]
      spec[OF bspec[OF e, of "(0x80400000, 0x88000000, MP_R OR MP_W)", simplified], of "VirtPageNum 0x87fff"]
    by (simp add: kernel_spans_def boot_ld_def MEMORY_END_def or.assoc)
qed

end
