(* ===== verification/Virtio.thy ===== *)
theory Virtio
  imports Memory_Set_Elf
begin

text \<open>
  The memory side of the block device (\<^verbatim>\<open>src/drivers/block/virtio_blk.rs\<close>): the functions that the driver library
  calls to get memory for its queues and to translate addresses. The frames are kept in \<open>QUEUE_FRAMES\<close>.
\<close>

section \<open>The hardware abstraction\<close>

record dma_state =
  d_mm :: mm_state
  QUEUE_FRAMES :: "FrameTracker list"

definition with_frames :: "(mm_state, 'a) km \<Rightarrow> (dma_state, 'a) km" where
  "with_frames c = (\<lambda>d. case c (d_mm d) of Inl e \<Rightarrow> Inl e | Inr (a, s) \<Rightarrow> Inr (a, d\<lparr>d_mm := s\<rparr>))"

definition dma_alloc :: "usize \<Rightarrow> (dma_state, usize) km" where
  "dma_alloc pages =
     kbind (for_loop [0..<unat pages] (\<lambda>i ppn_base.
       kbind (with_frames (kbind frame_alloc (kunwrap OutOfFrames))) (\<lambda>frame.
       let ppn_base = (if i = 0 then ft_ppn frame else ppn_base) in
       kbind (kassert AssertFailed (ppn_val (ft_ppn frame) = ppn_val ppn_base + of_nat i)) (\<lambda>_.
       kbind (kmodify (\<lambda>d. d\<lparr>QUEUE_FRAMES := vec_push (QUEUE_FRAMES d) frame\<rparr>)) (\<lambda>_.
       kreturn ppn_base)))) (PhysPageNum 0)) (\<lambda>ppn_base.
     kreturn (pa_val (pa_from_ppn ppn_base)))"

definition dma_dealloc :: "usize \<Rightarrow> usize \<Rightarrow> (dma_state, 32 word) km" where
  "dma_dealloc pa pages =
     kbind (klift (ppn_from_pa (pa_from_usize pa))) (\<lambda>ppn_base.
     kbind (for_loop [0..<unat pages] (\<lambda>_ ppn_base.
       kbind (with_frames (frame_dealloc ppn_base)) (\<lambda>_. kreturn (ppn_step ppn_base))) ppn_base) (\<lambda>_.
     kreturn 0))"

definition phys_to_virt :: "usize \<Rightarrow> usize" where
  "phys_to_virt addr = addr"

definition virt_to_phys :: "mem \<Rightarrow> usize \<Rightarrow> usize \<Rightarrow> panic + usize" where
  "virt_to_phys m kernel_token vaddr =
     (case translate_va m (from_token kernel_token) (va_from_usize vaddr) of
        Inl e \<Rightarrow> Inl e
      | Inr None \<Rightarrow> Inl UnwrapNone
      | Inr (Some pa) \<Rightarrow> Inr (pa_val pa))"

lemma wp_with_frames [wp_rules]: "wp (with_frames c) Q E = (\<lambda>d. wp c (\<lambda>a s. Q a (d\<lparr>d_mm := s\<rparr>)) E (d_mm d))"
  by (auto simp: wp_def with_frames_def fun_eq_iff split: sum.splits)

section \<open>Fresh memory\<close>

text \<open>While no frame has been given back, the allocator hands out the frames in order.\<close>

definition queue_frames :: "usize \<Rightarrow> nat \<Rightarrow> FrameTracker list" where
  "queue_frames c n = map (\<lambda>i. FrameTracker (PhysPageNum (c + of_nat i))) [0..<n]"

lemma wp_frame_alloc_next:
  assumes mm: "mm_inv l s" and r: "fa_recycled (FRAME_ALLOCATOR s) = []" and c: "fa_current (FRAME_ALLOCATOR s) = c"
    and E: "avail s = 0 \<Longrightarrow> E OutOfFrames"
    and Q: "\<And>s'. mm_inv l s' \<Longrightarrow> fa_recycled (FRAME_ALLOCATOR s') = [] \<Longrightarrow> fa_current (FRAME_ALLOCATOR s') = c + 1 \<Longrightarrow>
        own_step l s {} s' {PhysPageNum c} \<Longrightarrow> Q (FrameTracker (PhysPageNum c)) s'"
  shows "wp (kbind frame_alloc (kunwrap OutOfFrames)) Q E s"
proof -
  have step: "wp (kbind frame_alloc (kunwrap OutOfFrames)) (\<lambda>f s'. fa_recycled (FRAME_ALLOCATOR s') = [] \<and>
      fa_current (FRAME_ALLOCATOR s') = c + 1 \<and> f = FrameTracker (PhysPageNum c)) (\<lambda>e. e = OutOfFrames \<and> avail s = 0) s"
  proof (cases "fa_current (FRAME_ALLOCATOR s) = fa_end (FRAME_ALLOCATOR s)")
    case True
    then show ?thesis using r by (simp add: frame_alloc_def fa_alloc_def vec_pop_def wp_rules avail_def fa_avail_def)
  next
    case False
    have "unat c < 2 ^ 44" using mm False c by (auto simp: mm_inv_def fa_invar_def word_le_nat_alt word_unat_eq_iff)
    then show ?thesis using r c False
      by (simp add: frame_alloc_def fa_alloc_def vec_pop_def wp_rules Let_def FrameTracker_new_def ppn_from_usize_id)
  qed
  have "wp (kbind frame_alloc (kunwrap OutOfFrames)) (\<lambda>f s'. mm_inv l s' \<and> own_step l s {} s' {ft_ppn f}) (\<lambda>_. True) s"
    by (rule wp_frame_alloc_unwrap[OF mm]) (use mm fresh_frame(1) in \<open>auto simp: own_step_def\<close>)
  then show ?thesis using step Q E by (auto simp: wp_def split: sum.splits)
qed

lemma wp_dma_alloc:
  assumes mm: "mm_inv l (d_mm d)" and r: "fa_recycled (FRAME_ALLOCATOR (d_mm d)) = []" and c: "fa_current (FRAME_ALLOCATOR (d_mm d)) = c"
    and E: "avail (d_mm d) < unat pages \<Longrightarrow> E OutOfFrames"
    and Q: "\<And>d'. mm_inv l (d_mm d') \<Longrightarrow> fa_recycled (FRAME_ALLOCATOR (d_mm d')) = [] \<Longrightarrow> fa_current (FRAME_ALLOCATOR (d_mm d')) = c + of_nat (unat pages) \<Longrightarrow>
        QUEUE_FRAMES d' = QUEUE_FRAMES d @ queue_frames c (unat pages) \<Longrightarrow>
        own_step l (d_mm d) {} (d_mm d') (ft_ppn ` set (queue_frames c (unat pages))) \<Longrightarrow>
        Q (if pages = 0 then 0 else push_bit 12 c) d'"
  shows "wp (dma_alloc pages) Q E d"
proof -
  define I where "I = (\<lambda>(ys :: nat list) base (d' :: dma_state). mm_inv l (d_mm d') \<and> fa_recycled (FRAME_ALLOCATOR (d_mm d')) = [] \<and>
      fa_current (FRAME_ALLOCATOR (d_mm d')) = c + of_nat (length ys) \<and> QUEUE_FRAMES d' = QUEUE_FRAMES d @ queue_frames c (length ys) \<and>
      own_step l (d_mm d) {} (d_mm d') (ft_ppn ` set (queue_frames c (length ys))) \<and> avail (d_mm d) = avail (d_mm d') + length ys \<and>
      base = (if ys = [] then PhysPageNum 0 else PhysPageNum c))"
  show ?thesis
    unfolding dma_alloc_def wp_kbind
  proof (rule wp_for_loop[where I = I])
    show "I [] (PhysPageNum 0) d" using mm r c by (simp add: I_def queue_frames_def own_step_refl)
  next
    fix ys i zs base d1 assume split: "[0..<unat pages] = ys @ i # zs" and I: "I ys base d1"
    have len: "length [0..<unat pages] = length (ys @ i # zs)" unfolding split ..
    then have lt: "0 + length ys < unat pages" by simp
    have "[0..<unat pages] ! length ys = i" unfolding split by simp
    then have i: "i = length ys" "i < unat pages" using nth_upt[OF lt] lt by simp_all
    have av: "avail (d_mm d1) = 0 \<Longrightarrow> E OutOfFrames" using I E i by (simp add: I_def)
    have "wp (kbind frame_alloc (kunwrap OutOfFrames)) (\<lambda>f s'. f = FrameTracker (PhysPageNum (c + of_nat i)) \<and>
        I (ys @ [i]) (PhysPageNum c) (d1\<lparr>d_mm := s', QUEUE_FRAMES := vec_push (QUEUE_FRAMES d1) f\<rparr>)) E (d_mm d1)"
    proof (rule wp_frame_alloc_next[where c = "c + of_nat i" and l = l])
      fix s' assume s': "mm_inv l s'" "fa_recycled (FRAME_ALLOCATOR s') = []" "fa_current (FRAME_ALLOCATOR s') = c + of_nat i + 1"
        "own_step l (d_mm d1) {} s' {PhysPageNum (c + of_nat i)}"
      have q: "queue_frames c (Suc i) = queue_frames c i @ [FrameTracker (PhysPageNum (c + of_nat i))]" by (simp add: queue_frames_def)
      let ?O = "ft_ppn ` set (queue_frames c i)"
      have o: "own_step l (d_mm d) {} (d_mm d1) ?O" "avail (d_mm d) = avail (d_mm d1) + i" using I i(1) by (simp_all add: I_def)
      have "?O \<subseteq> live l (d_mm d1)" using o(1) by (auto simp: own_step_def)
      then have "own_step l (d_mm d1) ?O s' (insert (PhysPageNum (c + of_nat i)) ?O)" using own_step_frame(1)[OF s'(4)] by simp
      then have "own_step l (d_mm d) {} s' (ft_ppn ` set (queue_frames c (Suc i)))" using own_step_trans[OF o(1)] q by simp
      moreover have "avail (d_mm d1) = Suc (avail s')" using s'(4) by (simp add: own_step_def)
      ultimately show "FrameTracker (PhysPageNum (c + of_nat i)) = FrameTracker (PhysPageNum (c + of_nat i)) \<and>
          I (ys @ [i]) (PhysPageNum c) (d1\<lparr>d_mm := s', QUEUE_FRAMES := vec_push (QUEUE_FRAMES d1) (FrameTracker (PhysPageNum (c + of_nat i)))\<rparr>)"
        using s'(1-3) I i(1) o(2) q by (simp add: I_def vec_push_def algebra_simps)
    qed (use I i av in \<open>simp_all add: I_def\<close>)
    moreover have "(if i = 0 then PhysPageNum (c + of_nat i) else base) = PhysPageNum c" using I i(1) by (auto simp: I_def)
    ultimately show "wp (kbind (with_frames (kbind frame_alloc (kunwrap OutOfFrames))) (\<lambda>frame.
       let ppn_base = (if i = 0 then ft_ppn frame else base) in
       kbind (kassert AssertFailed (ppn_val (ft_ppn frame) = ppn_val ppn_base + of_nat i)) (\<lambda>_.
       kbind (kmodify (\<lambda>d. d\<lparr>QUEUE_FRAMES := vec_push (QUEUE_FRAMES d) frame\<rparr>)) (\<lambda>_.
       kreturn ppn_base)))) (I (ys @ [i])) E d1"
      unfolding wp_kbind wp_with_frames by (elim wp_mono) (auto simp: wp_rules Let_def)
  next
    fix base d' assume I: "I [0..<unat pages] base d'"
    then show "wp (kreturn (pa_val (pa_from_ppn base))) Q E d'"
      using Q[of d'] by (auto simp: I_def wp_rules pa_from_ppn_def PAGE_SIZE_BITS_def word_unat_eq_iff)
  qed
qed

section \<open>Memory that was given back\<close>

lemma wp_frame_dealloc_run:
  assumes a: "FRAME_ALLOCATOR s = a" "fa_recycled a = map (\<lambda>i. c + of_nat i) [0..<i]" "fa_current a = c + of_nat n"
    and n: "i < n" "unat c + n < 2 ^ 64" and Q: "Q () (s\<lparr>FRAME_ALLOCATOR := a\<lparr>fa_recycled := map (\<lambda>i. c + of_nat i) [0..<Suc i]\<rparr>\<rparr>)"
  shows "wp (frame_dealloc (PhysPageNum (c + of_nat i))) Q E s"
proof -
  have u: "unat (c + of_nat j) = unat c + j" if "j \<le> n" for j
    using that n(2) by (simp add: unat_word_ariths unat_of_nat take_bit_nat_eq_self)
  have "c + of_nat i \<notin> set (fa_recycled a)" using n(1) u a(2) by (auto simp: word_unat_eq_iff)
  moreover have "\<not> fa_current a \<le> c + of_nat i" using n(1) u[of i] u[of n] a(3) by (simp add: word_le_nat_alt)
  ultimately have "fa_dealloc a (PhysPageNum (c + of_nat i)) = Inr (a\<lparr>fa_recycled := map (\<lambda>i. c + of_nat i) [0..<Suc i]\<rparr>)"
    by (simp add: fa_dealloc_def find_eq_None vec_push_def a(2))
  then show ?thesis using Q a(1) by (simp add: frame_dealloc_def wp_rules)
qed

lemma wp_dma_dealloc:
  assumes a: "FRAME_ALLOCATOR (d_mm d) = a" "fa_recycled a = []" "fa_current a = c + of_nat (unat pages)"
    and n: "unat c + unat pages \<le> 2 ^ 44" "pages \<noteq> 0"
    and Q: "Q 0 (d\<lparr>d_mm := (d_mm d)\<lparr>FRAME_ALLOCATOR := a\<lparr>fa_recycled := map (\<lambda>i. c + of_nat i) [0..<unat pages]\<rparr>\<rparr>\<rparr>)"
  shows "wp (dma_dealloc (push_bit 12 c) pages) Q E d"
proof -
  have base: "ppn_from_pa (pa_from_usize (push_bit 12 c)) = Inr (PhysPageNum c)"
  proof -
    have c: "unat c < 2 ^ 44" using n by (simp add: word_unat_eq_iff)
    have "unat (push_bit 12 c) = unat c * 4096" using c by (intro unat_push_bit_12) simp
    then have "unat (push_bit 12 c) < 2 ^ 56" using c by simp
    then have "pa_from_usize (push_bit 12 c) = PhysAddr (push_bit 12 c)"
      using unat_from_usize(1)[of "push_bit 12 c"] by (metis PhysAddr.collapse mod_less word_unat_eq_iff)
    then have "pa_from_usize (push_bit 12 c) = pa_from_ppn (PhysPageNum c)" by (simp add: pa_from_ppn_def PAGE_SIZE_BITS_def)
    then show ?thesis using ppn_pa_roundtrip[of "PhysPageNum c"] c by (simp add: ppn_from_pa_def)
  qed
  define I where "I = (\<lambda>(ys :: nat list) base d'. base = PhysPageNum (c + of_nat (length ys)) \<and>
    d' = d\<lparr>d_mm := (d_mm d)\<lparr>FRAME_ALLOCATOR := a\<lparr>fa_recycled := map (\<lambda>i. c + of_nat i) [0..<length ys]\<rparr>\<rparr>\<rparr>)"
  have "wp (for_loop [0..<unat pages] (\<lambda>_ ppn_base.
       kbind (with_frames (frame_dealloc ppn_base)) (\<lambda>_. kreturn (ppn_step ppn_base))) (PhysPageNum c)) (\<lambda>_. Q 0) E d"
  proof (rule wp_for_loop[where I = I])
    show "I [] (PhysPageNum c) d" using a(1,2) by (simp add: I_def)
  next
    fix ys i zs base d1 assume split: "[0..<unat pages] = ys @ i # zs" and I: "I ys base d1"
    have "length [0..<unat pages] = length (ys @ i # zs)" unfolding split ..
    then have i: "length ys < unat pages" by simp
    have d1: "base = PhysPageNum (c + of_nat (length ys))"
      "d1 = d\<lparr>d_mm := (d_mm d)\<lparr>FRAME_ALLOCATOR := a\<lparr>fa_recycled := map (\<lambda>i. c + of_nat i) [0..<length ys]\<rparr>\<rparr>\<rparr>"
      using I by (simp_all add: I_def)
    have "wp (frame_dealloc (PhysPageNum (c + of_nat (length ys)))) (\<lambda>_ s. I (ys @ [i]) (ppn_step base) (d1\<lparr>d_mm := s\<rparr>)) E (d_mm d1)"
      by (rule wp_frame_dealloc_run[where n = "unat pages" and a = "a\<lparr>fa_recycled := map (\<lambda>i. c + of_nat i) [0..<length ys]\<rparr>"])
        (use a n i in \<open>simp_all add: d1 I_def ppn_step_def algebra_simps\<close>)
    then show "wp (kbind (with_frames (frame_dealloc base)) (\<lambda>_. kreturn (ppn_step base))) (I (ys @ [i])) E d1"
      by (simp add: wp_rules d1(1))
  qed (use Q in \<open>simp add: I_def\<close>)
  then show ?thesis by (simp add: dma_dealloc_def base wp_rules)
qed

lemma dma_alloc_recycled:
  assumes r: "fa_recycled (FRAME_ALLOCATOR (d_mm d)) = xs @ [p, q]" "unat p < 2 ^ 44" "unat q < 2 ^ 44" "p \<noteq> q + 1" and n: "2 \<le> unat pages"
  shows "dma_alloc pages d = Inl AssertFailed"
proof -
  obtain n where n: "unat pages = Suc (Suc n)" using n by (metis Suc_1 add_2_eq_Suc le_iff_add)
  then have "[0..<unat pages] = 0 # 1 # [2..<Suc (Suc n)]" by (simp add: upt_conv_Cons numeral_2_eq_2)
  then show ?thesis using r
    by (simp add: dma_alloc_def kmonad_defs with_frames_def frame_alloc_def fa_alloc_def vec_pop_def FrameTracker_new_def ppn_from_usize_id
        butlast_append Let_def)
qed

lemma dma_alloc_one:
  assumes "fa_recycled (FRAME_ALLOCATOR (d_mm d)) = xs @ [p]" "unat p < 2 ^ 44" "QUEUE_FRAMES d = fs"
  shows "\<exists>d'. dma_alloc 1 d = Inr (push_bit 12 p, d') \<and> QUEUE_FRAMES d' = fs @ [FrameTracker (PhysPageNum p)]"
  using assms
  by (simp add: dma_alloc_def kmonad_defs with_frames_def frame_alloc_def fa_alloc_def vec_pop_def FrameTracker_new_def ppn_from_usize_id
      butlast_append Let_def vec_push_def pa_from_ppn_def PAGE_SIZE_BITS_def)

lemma queue_frames_last:
  assumes "1 \<le> unat pages"
  shows "c + of_nat (unat pages - 1) = c + pages - 1" "FrameTracker (PhysPageNum (c + pages - 1)) \<in> set (queue_frames c (unat pages))"
    "map (\<lambda>i. c + of_nat i) [0..<unat pages] = map (\<lambda>i. c + of_nat i) [0..<unat pages - 1] @ [c + pages - 1]"
proof -
  have "of_nat (unat pages - 1) = pages - 1" using assms by (simp add: of_nat_diff)
  then show eq: "c + of_nat (unat pages - 1) = c + pages - 1" by simp
  show "FrameTracker (PhysPageNum (c + pages - 1)) \<in> set (queue_frames c (unat pages))"
    unfolding eq[symmetric] queue_frames_def set_map using assms by (intro imageI) simp
  have "[0..<unat pages] = [0..<unat pages - 1] @ [unat pages - 1]" using assms upt_Suc_append[of 0 "unat pages - 1"] by simp
  then show "map (\<lambda>i. c + of_nat i) [0..<unat pages] = map (\<lambda>i. c + of_nat i) [0..<unat pages - 1] @ [c + pages - 1]"
    by (simp only: map_append list.map eq)
qed

section \<open>Properties\<close>

text \<open>
  as long as no frame has been given back to the allocator, \<open>dma_alloc\<close> of as many pages as are free returns
  the address of consecutive frames that were not live before, records them in \<open>QUEUE_FRAMES\<close> and leaves
  every other live frame alone.
\<close>

theorem dma_alloc_correct:
  assumes "mm_inv l (d_mm d)" "fa_recycled (FRAME_ALLOCATOR (d_mm d)) = []" "fa_current (FRAME_ALLOCATOR (d_mm d)) = c"
    "pages \<noteq> 0" "unat pages \<le> avail (d_mm d)"
  shows "\<exists>d'. dma_alloc pages d = Inr (push_bit 12 c, d') \<and> mm_inv l (d_mm d') \<and> fa_recycled (FRAME_ALLOCATOR (d_mm d')) = [] \<and>
    QUEUE_FRAMES d' = QUEUE_FRAMES d @ queue_frames c (unat pages) \<and>
    ft_ppn ` set (queue_frames c (unat pages)) \<inter> live l (d_mm d) = {} \<and>
    live l (d_mm d') = live l (d_mm d) \<union> ft_ppn ` set (queue_frames c (unat pages)) \<and>
    same_pages (live l (d_mm d)) (mem (d_mm d)) (mem (d_mm d'))"
proof -
  have "wp (dma_alloc pages) (\<lambda>pa d'. pa = push_bit 12 c \<and> mm_inv l (d_mm d') \<and> fa_recycled (FRAME_ALLOCATOR (d_mm d')) = [] \<and>
      QUEUE_FRAMES d' = QUEUE_FRAMES d @ queue_frames c (unat pages) \<and>
      own_step l (d_mm d) {} (d_mm d') (ft_ppn ` set (queue_frames c (unat pages)))) (\<lambda>_. False) d"
    by (rule wp_dma_alloc[OF assms(1-3)]) (use assms(4,5) in auto)
  from wp_no_panicD[OF this] show ?thesis by (auto simp: own_step_def)
qed

lemma dma_alloc_correct_witness:
  "\<exists>d'. dma_alloc 2 \<lparr>d_mm = boot_mm, QUEUE_FRAMES = []\<rparr> = Inr (0x80400000, d') \<and>
     QUEUE_FRAMES d' = [FrameTracker (PhysPageNum 0x80400), FrameTracker (PhysPageNum 0x80401)]"
proof -
  let ?d = "\<lparr>d_mm = boot_mm, QUEUE_FRAMES = []\<rparr>"
  have a: "fa_recycled (FRAME_ALLOCATOR (d_mm ?d)) = []" "fa_current (FRAME_ALLOCATOR (d_mm ?d)) = 0x80400" by (simp_all add: boot_mm_eq)
  have m: "mm_inv 0x80400 (d_mm ?d)" "unat (2 :: usize) \<le> avail (d_mm ?d)" by (simp_all add: boot_mm_inv boot_avail)
  have "queue_frames 0x80400 2 = [FrameTracker (PhysPageNum 0x80400), FrameTracker (PhysPageNum 0x80401)]"
    by (simp add: queue_frames_def upt_rec)
  then show ?thesis using dma_alloc_correct[OF m(1) a, of 2] m(2) by auto
qed

text \<open>
  C36: what happens to memory that the driver gives back with \<open>dma_dealloc\<close>, when it was allocated while nothing had been
  given back before. The frames stay in \<open>QUEUE_FRAMES\<close> although they are no longer live. A request of one page
  gets the last of them again, which is then recorded twice. If two or more pages were given back, a request
  of two or more pages panics: the allocator hands out first what was freed last, so the frames come in descending order.
\<close>

theorem dma_realloc_panics:
  assumes "mm_inv l (d_mm d)" "fa_recycled (FRAME_ALLOCATOR (d_mm d)) = []" "fa_current (FRAME_ALLOCATOR (d_mm d)) = c"
    "1 \<le> unat pages" "unat pages \<le> avail (d_mm d)"
  shows "\<exists>d1 d2. dma_alloc pages d = Inr (push_bit 12 c, d1) \<and> dma_dealloc (push_bit 12 c) pages d1 = Inr (0, d2) \<and>
    set (queue_frames c (unat pages)) \<subseteq> set (QUEUE_FRAMES d2) \<and> ft_ppn ` set (queue_frames c (unat pages)) \<inter> live l (d_mm d2) = {} \<and>
    (\<exists>d3. dma_alloc 1 d2 = Inr (push_bit 12 (c + pages - 1), d3) \<and>
       QUEUE_FRAMES d3 = QUEUE_FRAMES d2 @ [FrameTracker (PhysPageNum (c + pages - 1))] \<and>
       FrameTracker (PhysPageNum (c + pages - 1)) \<in> set (QUEUE_FRAMES d2)) \<and>
    (\<forall>again. 2 \<le> unat pages \<and> 2 \<le> unat again \<longrightarrow> dma_alloc again d2 = Inl AssertFailed)"
proof -
  have "wp (dma_alloc pages) (\<lambda>pa d'. pa = push_bit 12 c \<and> mm_inv l (d_mm d') \<and> fa_recycled (FRAME_ALLOCATOR (d_mm d')) = [] \<and>
      fa_current (FRAME_ALLOCATOR (d_mm d')) = c + of_nat (unat pages) \<and>
      QUEUE_FRAMES d' = QUEUE_FRAMES d @ queue_frames c (unat pages)) (\<lambda>_. False) d"
    by (rule wp_dma_alloc[OF assms(1-3)]) (use assms(4,5) in \<open>auto simp: unat_eq_0\<close>)
  from wp_no_panicD[OF this] obtain d1 where d1: "dma_alloc pages d = Inr (push_bit 12 c, d1)" "mm_inv l (d_mm d1)"
    "fa_recycled (FRAME_ALLOCATOR (d_mm d1)) = []" "fa_current (FRAME_ALLOCATOR (d_mm d1)) = c + of_nat (unat pages)"
    "QUEUE_FRAMES d1 = QUEUE_FRAMES d @ queue_frames c (unat pages)" by auto
  let ?a = "FRAME_ALLOCATOR (d_mm d)"
  have "c \<le> fa_end ?a" "unat (fa_end ?a) \<le> 2 ^ 44" using assms(1,3) by (auto simp: mm_inv_def fa_invar_def)
  then have n: "unat c + unat pages \<le> 2 ^ 44" "pages \<noteq> 0"
    using assms(2-5) by (auto simp: avail_def fa_avail_def unat_sub word_le_nat_alt)
  let ?s = "(d_mm d1)\<lparr>FRAME_ALLOCATOR := (FRAME_ALLOCATOR (d_mm d1))\<lparr>fa_recycled := map (\<lambda>i. c + of_nat i) [0..<unat pages]\<rparr>\<rparr>"
  have "wp (dma_dealloc (push_bit 12 c) pages) (\<lambda>r d'. r = 0 \<and> d' = d1\<lparr>d_mm := ?s\<rparr>) (\<lambda>_. False) d1"
    by (rule wp_dma_dealloc[OF refl d1(3,4) n]) simp
  from wp_no_panicD[OF this] have d2: "dma_dealloc (push_bit 12 c) pages d1 = Inr (0, d1\<lparr>d_mm := ?s\<rparr>)" by auto
  have u: "unat (c + of_nat j) = unat c + j" if "j < unat pages" for j
    using that n(1) by (simp add: unat_word_ariths unat_of_nat take_bit_nat_eq_self)
  note top = queue_frames_last[OF assms(4), of c]
  have "dma_alloc again (d1\<lparr>d_mm := ?s\<rparr>) = Inl AssertFailed" if two: "2 \<le> unat pages" "2 \<le> unat again" for again
  proof -
    obtain m where m: "unat pages = Suc (Suc m)" using two(1) by (metis Suc_1 add_2_eq_Suc le_iff_add)
    show ?thesis
    proof (rule dma_alloc_recycled[OF _ _ _ _ two(2)])
      show "fa_recycled (FRAME_ALLOCATOR (d_mm (d1\<lparr>d_mm := ?s\<rparr>))) = map (\<lambda>i. c + of_nat i) [0..<m] @ [c + of_nat m, c + of_nat (Suc m)]"
        by (simp add: m)
      show "unat (c + of_nat m) < 2 ^ 44" "unat (c + of_nat (Suc m)) < 2 ^ 44" using u[of m] u[of "Suc m"] m n(1) by simp_all
      show "c + of_nat m \<noteq> c + of_nat (Suc m) + 1" by (simp add: algebra_simps)
    qed
  qed
  moreover have "ft_ppn ` set (queue_frames c (unat pages)) \<inter> live l ?s = {}" by (auto simp: live_def fa_live_def queue_frames_def)
  moreover have "\<exists>d3. dma_alloc 1 (d1\<lparr>d_mm := ?s\<rparr>) = Inr (push_bit 12 (c + pages - 1), d3) \<and>
      QUEUE_FRAMES d3 = QUEUE_FRAMES d1 @ [FrameTracker (PhysPageNum (c + pages - 1))]"
  proof (rule dma_alloc_one)
    show "fa_recycled (FRAME_ALLOCATOR (d_mm (d1\<lparr>d_mm := ?s\<rparr>))) = map (\<lambda>i. c + of_nat i) [0..<unat pages - 1] @ [c + pages - 1]"
      using top(3) by simp
    show "unat (c + pages - 1) < 2 ^ 44" unfolding top(1)[symmetric] using u[of "unat pages - 1"] assms(4) n(1) by simp
  qed simp
  ultimately show ?thesis using d1(1,5) d2 top(2) by auto
qed

lemma dma_realloc_panics_witness:
  "\<exists>d1 d2. dma_alloc 2 \<lparr>d_mm = boot_mm, QUEUE_FRAMES = []\<rparr> = Inr (0x80400000, d1) \<and> dma_dealloc 0x80400000 2 d1 = Inr (0, d2) \<and>
     dma_alloc 2 d2 = Inl AssertFailed"
proof -
  let ?d = "\<lparr>d_mm = boot_mm, QUEUE_FRAMES = []\<rparr>"
  have a: "fa_recycled (FRAME_ALLOCATOR (d_mm ?d)) = []" "fa_current (FRAME_ALLOCATOR (d_mm ?d)) = 0x80400" by (simp_all add: boot_mm_eq)
  have m: "mm_inv 0x80400 (d_mm ?d)" "unat (2 :: usize) \<le> avail (d_mm ?d)" by (simp_all add: boot_mm_inv boot_avail)
  show ?thesis using dma_realloc_panics[OF m(1) a, of 2] m(2) by auto
qed

end
