(* ===== verification/Kernel_Boot.thy ===== *)
theory Kernel_Boot
  imports Kernel_System Kernel_Map Virtio
begin

text \<open>
  From power on to the idle loop (\<^verbatim>\<open>src/main.rs\<close>, \<^verbatim>\<open>src/mm/mod.rs\<close>, \<^verbatim>\<open>src/task/mod.rs\<close>). The global variables of the
  kernel are made on first use: \<open>KERNEL_SPACE\<close> in \<open>mm::init\<close>, the block device when the first file is opened, and
  \<open>INITPROC\<close> in \<open>add_initproc\<close>. The state that \<open>rust_main\<close> hands to the idle loop satisfies the invariant of the
  kernel.
\<close>

section \<open>The boot sequence\<close>

definition clear_bss :: "usize \<Rightarrow> usize \<Rightarrow> mem \<Rightarrow> mem" where
  "clear_bss lo hi m = foldl (\<lambda>m a. m(a := 0)) m (map of_nat [unat lo..<unat hi])"

definition mm_init :: "linker_symbols \<Rightarrow> (mm_state, MemorySet) km" where
  "mm_init ld = kbind (init_frame_allocator (ekernel ld)) (\<lambda>_. new_kernel ld)"

text \<open>
  The driver \<open>VirtIOBlk::new\<close> belongs to another crate. What it does to the kernel is to ask for memory: the pages of
  its requests, in order, are an argument.
\<close>

definition VirtIOBlock_new :: "usize list \<Rightarrow> (dma_state, unit) km" where
  "VirtIOBlock_new requests = for_loop requests (\<lambda>pages _. kbind (dma_alloc pages) (\<lambda>_. kreturn ())) ()"

definition block_device :: "usize list \<Rightarrow> (mm_state, FrameTracker list) km" where
  "block_device requests = (\<lambda>s. case VirtIOBlock_new requests \<lparr>d_mm = s, QUEUE_FRAMES = []\<rparr> of
     Inl e \<Rightarrow> Inl e | Inr (_, d) \<Rightarrow> Inr (QUEUE_FRAMES d, d_mm d))"

definition initproc_name :: "u8 list" where
  "initproc_name = map of_char ''ch6b_initproc''"

definition new_initproc :: "('fs, 'i) env \<Rightarrow> (('fs, 'i) kernel, nat) km" where
  "new_initproc e =
     kbind (load_app e initproc_name) (\<lambda>inode.
     kbind (kunwrap UnwrapNone inode) (\<lambda>v.
     kbind (TaskControlBlock_new e v) (\<lambda>t.
     kbind (new_task t) (\<lambda>h.
     kbind (kmodify (\<lambda>k. k\<lparr>INITPROC := h\<rparr>)) (\<lambda>_.
     kreturn h)))))"

definition add_initproc :: "('fs, 'i) env \<Rightarrow> (('fs, 'i) kernel, unit) km" where
  "add_initproc e = kbind (new_initproc e) add_task"

text \<open>A new \<open>Processor\<close> runs nothing; its idle context is written by the first switch.\<close>

definition Processor_new :: "nat option" where
  "Processor_new = None"

text \<open>The globals before their first use; the disk is whatever the machine has.\<close>

definition power_on :: "mem \<Rightarrow> ('fs, 'i) fs_state \<Rightarrow> ('fs, 'i) kernel" where
  "power_on m fs = \<lparr>k_mm = \<lparr>mem = m, FRAME_ALLOCATOR = StackFrameAllocator_new\<rparr>,
     KERNEL_SPACE = \<lparr>page_table = \<lparr>root_ppn = PhysPageNum 0, pt_frames = []\<rparr>, areas = []\<rparr>,
     PID_ALLOCATOR = PidAllocator_new, TASKS = Map.empty, next_task = 0, ready_queue = TaskManager_new, current = Processor_new,
     INITPROC = 0, k_fs = fs\<rparr>"

text \<open>
  The part of \<open>rust_main\<close> before the idle loop \<open>run_tasks\<close>. The result is what \<open>QUEUE_FRAMES\<close> holds. Setting
  the trap vector and the timer touches only registers, and \<open>list_apps\<close> only prints.
\<close>

definition rust_main :: "('fs, 'i) env \<Rightarrow> usize \<Rightarrow> usize list \<Rightarrow> (('fs, 'i) kernel, FrameTracker list) km" where
  "rust_main e sbss requests =
     kbind (kmodify (\<lambda>k. k\<lparr>k_mm := (k_mm k)\<lparr>mem := clear_bss sbss (ebss (env_ld e)) (mem (k_mm k))\<rparr>\<rparr>)) (\<lambda>_.
     kbind (with_mm (mm_init (env_ld e))) (\<lambda>ks.
     kbind (kmodify (\<lambda>k. k\<lparr>KERNEL_SPACE := ks\<rparr>)) (\<lambda>_.
     kbind (with_mm (remap_test (env_ld e) ks)) (\<lambda>_.
     kbind (with_mm (block_device requests)) (\<lambda>frames.
     kbind (add_initproc e) (\<lambda>_.
     kreturn frames))))))"

lemma clear_bss_eq: "clear_bss lo hi m a = (if lo \<le> a \<and> a < hi then 0 else m a)"
proof -
  have upd: "foldl (\<lambda>m a. m(a := 0)) m as a = (if a \<in> set as then 0 else m a)" for as and m :: mem
    by (induction as arbitrary: m) auto
  have "a \<in> of_nat ` {unat lo..<unat hi} \<longleftrightarrow> lo \<le> a \<and> a < hi"
  proof
    assume "lo \<le> a \<and> a < hi"
    then show "a \<in> of_nat ` {unat lo..<unat hi}"
      by (intro image_eqI[of _ _ "unat a"]) (simp_all add: word_le_nat_alt word_less_nat_alt)
  next
    assume "a \<in> of_nat ` {unat lo..<unat hi}"
    then obtain n where n: "a = of_nat n" "unat lo \<le> n" "n < unat hi" by auto
    then have "unat a = n" using unat_usize_less[of hi] by (simp add: unat_of_nat take_bit_nat_eq_self)
    then show "lo \<le> a \<and> a < hi" using n by (simp add: word_le_nat_alt word_less_nat_alt)
  qed
  then show ?thesis by (simp add: clear_bss_def upd)
qed

section \<open>Frames in order\<close>

text \<open>Nothing is freed while the kernel starts, so that the driver gets consecutive frames.\<close>

definition alloc_only :: "(mm_state, 'a) km \<Rightarrow> bool" where
  "alloc_only c \<longleftrightarrow> (\<forall>s. fa_recycled (FRAME_ALLOCATOR s) = [] \<longrightarrow> wlp c (\<lambda>_ s'. fa_recycled (FRAME_ALLOCATOR s') = []) s)"

named_theorems alloc_only_rules

lemma alloc_only_kbind [alloc_only_rules]:
  assumes "alloc_only c" "\<And>a. alloc_only (f a)"
  shows "alloc_only (kbind c f)"
  unfolding alloc_only_def wp_kbind
proof (intro allI impI)
  fix s :: mm_state assume "fa_recycled (FRAME_ALLOCATOR s) = []"
  then have "wlp c (\<lambda>_ s'. fa_recycled (FRAME_ALLOCATOR s') = []) s" using assms(1) by (simp add: alloc_only_def)
  then show "wlp c (\<lambda>a. wlp (f a) (\<lambda>_ s'. fa_recycled (FRAME_ALLOCATOR s') = [])) s"
    by (rule wp_mono) (use assms(2) in \<open>auto simp: alloc_only_def\<close>)
qed

lemma alloc_only_basic [alloc_only_rules]:
  "alloc_only (kreturn x)" "alloc_only (klift r)" "alloc_only (kunwrap e p)" "alloc_only (kassert e b)" "alloc_only (kget g)"
  "alloc_only (store_pte a pte)" "alloc_only frame_alloc" "alloc_only (init_frame_allocator ek)"
  by (auto simp: alloc_only_def wp_rules store_pte_def frame_alloc_def fa_alloc_def FrameTracker_new_def vec_pop_def init_frame_allocator_def
      fa_init_def Let_def split: sum.splits option.splits if_splits)

lemma alloc_only_for_loop [alloc_only_rules]: "(\<And>x a. alloc_only (body x a)) \<Longrightarrow> alloc_only (for_loop xs body a)"
  by (induction xs arbitrary: a) (auto intro: alloc_only_rules)

lemma alloc_only_if [alloc_only_rules]: "alloc_only c \<Longrightarrow> alloc_only d \<Longrightarrow> alloc_only (if b then c else d)"
  by simp

lemma alloc_only_case_prod [alloc_only_rules]: "(\<And>a b. alloc_only (f a b)) \<Longrightarrow> alloc_only (case p of (a, b) \<Rightarrow> f a b)"
  by (cases p) simp

lemma alloc_only_find_pte_create_loop: "alloc_only (find_pte_create_loop idxs is ppn pt)"
  by (induction "is" arbitrary: ppn pt) (auto intro!: alloc_only_rules)

lemma alloc_only_pt_map [alloc_only_rules]: "alloc_only (pt_map pt vpn ppn flags)"
  unfolding pt_map_def find_pte_create_def by (intro alloc_only_rules alloc_only_find_pte_create_loop)

lemma alloc_only_map_identical: "map_type a = Identical \<Longrightarrow> alloc_only (for_loop vs (\<lambda>vpn (a, pt). map_one a pt vpn) (a, pt))"
proof (induction vs arbitrary: pt)
  case (Cons v vs)
  have eq: "map_one a pt v = kbind (kunwrap UnwrapNone (PTEFlags_from_bits (map_perm a))) (\<lambda>flags.
      kbind (pt_map pt v (PhysPageNum (vpn_val v)) flags) (\<lambda>pt'. kreturn (a, pt')))"
    using Cons.prems by (simp add: map_one_def fun_eq_iff kmonad_defs)
  show ?case using Cons by (simp add: eq kbind_assoc) (intro alloc_only_rules Cons.IH)
qed (simp add: alloc_only_rules)

lemma alloc_only_new_kernel [alloc_only_rules]: "alloc_only (new_kernel ld)"
proof -
  have "alloc_only (push_identical lo hi perm ms)" for lo hi perm ms
  proof (cases "MapArea_new (va_from_usize lo) (va_from_usize hi) Identical perm")
    case (Inl e)
    then show ?thesis by (simp add: push_identical_def klift_def alloc_only_def wp_rules)
  next
    case (Inr a)
    then have "map_type a = Identical" by (cases "SimpleRange_new (VirtAddr_floor (va_from_usize lo)) (VirtAddr_ceil (va_from_usize hi))")
        (auto simp: MapArea_new_def)
    then show ?thesis unfolding push_identical_def Inr ms_push_def area_map_def klift_def sum.case kbind_return_left
      by (auto intro!: alloc_only_rules alloc_only_map_identical)
  qed
  then show ?thesis unfolding new_kernel_loop new_bare_def map_trampoline_def PageTable_new_def
    by (intro alloc_only_rules) (auto split: prod.splits)
qed

lemma wp_alloc_only:
  assumes "alloc_only c" "fa_recycled (FRAME_ALLOCATOR s) = []" "wp c Q E s"
  shows "wp c (\<lambda>a s'. Q a s' \<and> fa_recycled (FRAME_ALLOCATOR s') = []) E s"
  using assms by (auto simp: alloc_only_def wp_def split: sum.splits)

section \<open>The block device\<close>

text \<open>The frames of the driver are live and in no address space.\<close>

lemma wp_VirtIOBlock_new:
  assumes mm: "mm_inv l (d_mm d)" and r: "fa_recycled (FRAME_ALLOCATOR (d_mm d)) = []"
    and E: "avail (d_mm d) < sum_list (map unat requests) \<Longrightarrow> E OutOfFrames"
    and Q: "\<And>d' fs. own_step l (d_mm d) {} (d_mm d') (ft_ppn ` set fs) \<Longrightarrow> avail (d_mm d) \<le> avail (d_mm d') + sum_list (map unat requests) \<Longrightarrow>
        QUEUE_FRAMES d' = QUEUE_FRAMES d @ fs \<Longrightarrow> Q () d'"
  shows "wp (VirtIOBlock_new requests) Q E d"
proof -
  define I where "I = (\<lambda>(ys :: usize list) (_ :: unit) (d' :: dma_state). fa_recycled (FRAME_ALLOCATOR (d_mm d')) = [] \<and>
      avail (d_mm d) \<le> avail (d_mm d') + sum_list (map unat ys) \<and>
      (\<exists>fs. QUEUE_FRAMES d' = QUEUE_FRAMES d @ fs \<and> own_step l (d_mm d) {} (d_mm d') (ft_ppn ` set fs)))"
  have "wp (for_loop requests (\<lambda>pages _. kbind (dma_alloc pages) (\<lambda>_. kreturn ())) ()) (I requests) E d"
  proof (rule wp_for_loop[where I = I])
    show "I [] () d" using r own_step_refl[OF mm] by (simp add: I_def)
  next
    fix ys n zs u d1 assume split: "requests = ys @ n # zs" and I: "I ys u d1"
    then obtain fs where fs: "QUEUE_FRAMES d1 = QUEUE_FRAMES d @ fs" "own_step l (d_mm d) {} (d_mm d1) (ft_ppn ` set fs)"
      and d1: "fa_recycled (FRAME_ALLOCATOR (d_mm d1)) = []" "avail (d_mm d) \<le> avail (d_mm d1) + sum_list (map unat ys)"
      by (auto simp: I_def)
    have lv: "mm_inv l (d_mm d1)" "ft_ppn ` set fs \<subseteq> live l (d_mm d1)" using fs(2) by (auto simp: own_step_def)
    show "wp (kbind (dma_alloc n) (\<lambda>_. kreturn ())) (I (ys @ [n])) E d1"
      unfolding wp_kbind wp_kreturn
    proof (rule wp_dma_alloc[OF lv(1) d1(1) refl])
      fix d2 :: dma_state assume d2: "fa_recycled (FRAME_ALLOCATOR (d_mm d2)) = []"
        "QUEUE_FRAMES d2 = QUEUE_FRAMES d1 @ queue_frames (fa_current (FRAME_ALLOCATOR (d_mm d1))) (unat n)"
        "own_step l (d_mm d1) {} (d_mm d2) (ft_ppn ` set (queue_frames (fa_current (FRAME_ALLOCATOR (d_mm d1))) (unat n)))"
      let ?q = "queue_frames (fa_current (FRAME_ALLOCATOR (d_mm d1))) (unat n)"
      have "own_step l (d_mm d1) (ft_ppn ` set fs) (d_mm d2) (ft_ppn ` set (fs @ ?q))"
        using own_step_frame(1)[OF d2(3) lv(2)] by (simp add: image_Un Un_commute)
      then have "own_step l (d_mm d) {} (d_mm d2) (ft_ppn ` set (fs @ ?q))" by (rule own_step_trans[OF fs(2)])
      moreover have "card (ft_ppn ` set ?q) \<le> unat n"
        using card_image_le[of "set ?q" ft_ppn] card_length[of ?q] by (simp add: queue_frames_def)
      then have "avail (d_mm d1) \<le> avail (d_mm d2) + unat n" using d2(3) by (simp add: own_step_def)
      ultimately show "I (ys @ [n]) () d2" using d1(2) d2(1,2) fs(1) by (auto simp: I_def)
    qed (use E d1(2) split in simp)
  qed simp
  then show ?thesis unfolding VirtIOBlock_new_def by (rule wp_mono) (use Q in \<open>auto simp: I_def\<close>)
qed

lemma wp_block_device:
  assumes "mm_inv l s" "fa_recycled (FRAME_ALLOCATOR s) = []" "avail s < sum_list (map unat requests) \<Longrightarrow> E OutOfFrames"
    and "\<And>s' fs. own_step l s {} s' (ft_ppn ` set fs) \<Longrightarrow> avail s \<le> avail s' + sum_list (map unat requests) \<Longrightarrow> Q fs s'"
  shows "wp (block_device requests) Q E s"
proof -
  have "wp (VirtIOBlock_new requests) (\<lambda>_ d. Q (QUEUE_FRAMES d) (d_mm d)) E \<lparr>d_mm = s, QUEUE_FRAMES = []\<rparr>"
    by (rule wp_VirtIOBlock_new[of l]) (simp_all add: assms)
  then show ?thesis by (auto simp: wp_def block_device_def split: sum.splits)
qed

section \<open>The kernel's address space\<close>

text \<open>The first page behind the image of the kernel.\<close>

abbreviation image_end :: "linker_symbols \<Rightarrow> usize" where
  "image_end ld \<equiv> ppn_val (PhysAddr_ceil (PhysAddr (ekernel ld)))"

lemma image_end_page:
  assumes ld: "ld_layout ld"
  shows "unat (image_end ld) = unat (ekernel ld) div 4096"
proof -
  have "unat (ekernel ld) mod 4096 = 0" using ld by (simp add: ld_layout_def Let_def)
  then have "(unat (ekernel ld) + 4095) div 4096 = unat (ekernel ld) div 4096" by (auto elim!: dvdE simp: mod_eq_0_iff_dvd)
  then show ?thesis using ld_layoutD(10)[OF ld] unat_PhysAddr_ceil[of "PhysAddr (ekernel ld)"] by simp
qed

lemma boot_layout:
  assumes ld: "ld_layout ld"
  shows "ppn_val (pte_ppn (trampoline_entry ld)) < image_end ld" "0 < image_end ld"
proof -
  have t: "unat (strampoline ld) < unat (ekernel ld)" "unat (strampoline ld) mod 4096 = 0" "unat (ekernel ld) mod 4096 = 0"
    using ld ld_layoutD[OF ld] by (auto simp: ld_layout_def Let_def word_less_nat_alt word_le_nat_alt)
  then have lt: "unat (strampoline ld) div 4096 < unat (ekernel ld) div 4096" by (auto elim!: dvdE simp: mod_eq_0_iff_dvd)
  have sm: "unat (strampoline ld) < 2 ^ 56" using t(1) ld_layoutD(10)[OF ld] by simp
  have "unat (ppn_val (PhysAddr_floor (pa_from_usize (strampoline ld)))) = unat (strampoline ld) div 4096"
    using sm by (simp add: unat_PhysAddr_floor unat_from_usize)
  moreover from this have "pte_ppn (trampoline_entry ld) = PhysAddr_floor (pa_from_usize (strampoline ld))"
    using sm unfolding trampoline_entry_def by (intro pte_ppn_new) (simp add: div_less_iff_less_mult)
  ultimately show "ppn_val (pte_ppn (trampoline_entry ld)) < image_end ld" "0 < image_end ld"
    using lt image_end_page[OF ld] by (simp_all add: word_less_nat_alt)
qed

text \<open>Sections that are not empty, so that \<open>remap_test\<close> looks inside of them.\<close>

definition sections_ok :: "linker_symbols \<Rightarrow> bool" where
  "sections_ok ld \<longleftrightarrow> ld_layout ld \<and> stext ld < etext ld \<and> srodata ld < erodata ld \<and> sdata ld < edata ld"

lemma wp_mm_init:
  assumes ld: "ld_layout ld" and s: "FRAME_ALLOCATOR s = StackFrameAllocator_new"
    and E: "0x88000 - unat (ekernel ld) div 4096 < 1155 \<Longrightarrow> E OutOfFrames"
    and Q: "\<And>ks s1 s'. kmapped (image_end ld) s1 ld (map kseg (kernel_spans ld)) s' ks \<Longrightarrow> fa_recycled (FRAME_ALLOCATOR s') = [] \<Longrightarrow>
        live (image_end ld) s1 = {} \<Longrightarrow> avail s1 = 0x88000 - unat (ekernel ld) div 4096 \<Longrightarrow> Q ks s'"
  shows "wp (mm_init ld) Q E s"
proof -
  have "ekernel ld \<le> MEMORY_END" using ld_layoutD(10)[OF ld] by (simp add: word_le_nat_alt MEMORY_END_def)
  from init_frame_allocator_correct[OF s this] obtain s1 where s1: "init_frame_allocator (ekernel ld) s = Inr ((), s1)"
    "mm_inv (image_end ld) s1" "live (image_end ld) s1 = {}" "avail s1 = 0x88000 - (unat (ekernel ld) + 4095) div 4096" by blast
  have "unat (ekernel ld) mod 4096 = 0" using ld by (simp add: ld_layout_def Let_def)
  then have "(unat (ekernel ld) + 4095) div 4096 = unat (ekernel ld) div 4096" by (auto elim!: dvdE simp: mod_eq_0_iff_dvd)
  then have av: "avail s1 = 0x88000 - unat (ekernel ld) div 4096" using s1(4) by simp
  have "alloc_only (init_frame_allocator (ekernel ld))" by (rule alloc_only_rules)
  then have r: "fa_recycled (FRAME_ALLOCATOR s1) = []"
    using s s1(1) unfolding alloc_only_def by (auto simp: wp_def StackFrameAllocator_new_def dest!: spec[of _ s])
  note ok = ld_layout_kernel_ok[OF ld]
  have "wp (new_kernel ld) (\<lambda>ks s'. kmapped (image_end ld) s1 ld (map kseg (kernel_spans ld)) s' ks) E s1"
    by (rule wp_new_kernel[OF s1(2) ok(1)]) (use ok(2) E av in simp_all)
  from wp_alloc_only[OF alloc_only_new_kernel r this]
  have "wp (new_kernel ld) Q E s1" by (rule wp_mono) (use Q s1(3) av in blast)+
  then show ?thesis by (simp add: mm_init_def wp_def kbind_def s1(1))
qed

lemma wp_translate_mid:
  assumes ld: "ld_layout ld" and k: "kmapped l s ld (map kseg (kernel_spans ld)) s' ks"
    and sp: "(lo, hi, perm) \<in> set (kernel_spans ld)" "lo < hi"
    and Q: "\<And>p. Q (PageTableEntry_new p (perm OR PTE_V)) s'"
  shows "wp (translate_unwrap ks (VirtAddr_floor (va_from_usize ((lo + hi) div 2)))) Q E s'"
proof -
  let ?v = "VirtAddr_floor (va_from_usize ((lo + hi) div 2))"
  note a = ld_layout_aligned[OF ld sp(1)]
  have "unat (lo + hi) = unat lo + unat hi" using a(3,4) by (intro unat_add_lem[THEN iffD1]) simp
  then have m: "unat ((lo + hi) div 2) = (unat lo + unat hi) div 2" by (simp add: unat_div)
  then have "unat (vpn_val ?v) = (unat lo + unat hi) div 2 div 4096" using a(3,4) by (simp add: unat_VirtAddr_floor va_from_usize_id)
  moreover have "unat lo \<le> (unat lo + unat hi) div 2" "(unat lo + unat hi) div 2 < unat hi"
    using sp(2) by (simp_all add: word_less_nat_alt)
  moreover have "m div 4096 < unat hi div 4096" if "m < unat hi" for m using a(2) that by (auto elim!: dvdE simp: mod_eq_0_iff_dvd div_less_iff_less_mult)
  ultimately have "?v \<in> set (vpns_of (fst (kseg (lo, hi, perm))))"
    using kseg_range(4)[OF ld sp(1)] by (simp add: div_le_mono)
  from kmapped_entry[OF k sp(1) this] show ?thesis using Q by (intro wp_translate_unwrap) simp_all
qed

lemma wp_remap_test:
  assumes ld: "sections_ok ld" and k: "kmapped l s ld (map kseg (kernel_spans ld)) s' ks" and Q: "Q () s'"
  shows "wp (remap_test ld ks) Q E s'"
proof -
  have l: "ld_layout ld" "stext ld < etext ld" "srodata ld < erodata ld" "sdata ld < edata ld" using ld by (simp_all add: sections_ok_def)
  have sp: "(stext ld, etext ld, MP_R OR MP_X) \<in> set (kernel_spans ld)" "(srodata ld, erodata ld, MP_R) \<in> set (kernel_spans ld)"
    "(sdata ld, edata ld, MP_R) \<in> set (kernel_spans ld)" by (simp_all add: kernel_spans_def)
  have fl: "\<not> is_writable (PageTableEntry_new p ((MP_R OR MP_X) OR PTE_V))" "\<not> is_writable (PageTableEntry_new p (MP_R OR PTE_V))"
    "\<not> is_executable (PageTableEntry_new p (MP_R OR PTE_V))" for p
    by (simp_all add: is_writable_def is_executable_def MP_R_def MP_X_def PTE_V_def PTE_W_def PTE_X_def)
  show ?thesis unfolding remap_test_def Let_def wp_kbind
    by (rule wp_translate_mid[OF l(1) k sp(1) l(2)], simp only: kassert_def fl if_True not_False_eq_True wp_kreturn,
        rule wp_translate_mid[OF l(1) k sp(2) l(3)], simp only: fl if_True not_False_eq_True wp_kreturn,
        rule wp_translate_mid[OF l(1) k sp(3) l(4)]) (simp only: fl if_True not_False_eq_True wp_kreturn Q)
qed

section \<open>The first task\<close>

text \<open>The kernel before it has a task.\<close>

definition no_tasks :: "usize \<Rightarrow> linker_symbols \<Rightarrow> ('fs, 'i) kernel \<Rightarrow> bool" where
  "no_tasks l ld k \<longleftrightarrow> mem_inv l ld (k_mm k) (KERNEL_SPACE k) Map.empty \<and> stack_areas (areas (KERNEL_SPACE k)) {} \<and>
     PID_ALLOCATOR k = PidAllocator_new \<and> TASKS k = Map.empty \<and> ready_queue k = [] \<and> current k = None"

lemma kernel_space_boot:
  assumes ld: "ld_layout ld" and k: "kmapped (image_end ld) s ld (map kseg (kernel_spans ld)) s' ks"
    and s: "live (image_end ld) s = {}" "avail s \<le> 0x88000"
  shows "mem_inv (image_end ld) ld s' ks Map.empty" "stack_areas (areas ks) {}"
proof -
  have ms: "ms_inv (image_end ld) s' (tramp ld) ks" "own_step (image_end ld) s {} s' (ms_owned ks)"
    "map (\<lambda>a. (vpn_range a, map_perm a)) (areas ks) = map kseg (kernel_spans ld)"
    using k by (simp_all add: kmapped_def)
  have "layout_ok (image_end ld) ld s"
    using boot_layout[OF ld] ld_layout_kernel_ok(1)[OF ld] s by (simp add: layout_ok_def kernel_ok_def)
  from layout_ok_step[OF this ms(2)] show "mem_inv (image_end ld) ld s' ks Map.empty" using ms(1) by (simp add: mem_inv_def)
  have "low_area a" if "a \<in> set (areas ks)" for a
  proof -
    have "(vpn_range a, map_perm a) \<in> set (map (\<lambda>a. (vpn_range a, map_perm a)) (areas ks))" using that by simp
    then obtain sp where sp: "sp \<in> set (kernel_spans ld)" "(vpn_range a, map_perm a) = kseg sp" unfolding ms(3) set_map by (elim imageE)
    from arg_cong[OF sp(2), of fst] have r: "vpn_range a = fst (kseg sp)" by simp
    have "unat (fst sp) \<le> unat (fst (snd sp))" "unat (fst (snd sp)) \<le> 0x88000000"
      using ld_layout_aligned(3,4)[OF ld, of "fst sp" "fst (snd sp)" "snd (snd sp)"] sp(1) by simp_all
    then have "unat (fst sp) div 4096 \<le> 0x88000" "unat (fst (snd sp)) div 4096 \<le> 0x88000"
      using div_le_mono[of "unat (fst (snd sp))" "0x88000000" 4096] div_le_mono[of "unat (fst sp)" "unat (fst (snd sp))" 4096] by linarith+
    then show ?thesis using kseg_range(1,2)[OF ld sp(1)] by (simp add: low_area_def r)
  qed
  then show "stack_areas (areas ks) {}" by (simp add: stack_areas_def)
qed

definition booted :: "('fs, 'i) env \<Rightarrow> elf_file \<Rightarrow> ('fs, 'i) kernel \<Rightarrow> TaskControlBlock \<Rightarrow> bool" where
  "booted e elf k t \<longleftrightarrow> TASKS k = [INITPROC k \<mapsto> t] \<and> ready_queue k = [INITPROC k] \<and> current k = None \<and>
     task_status t = Ready \<and> task_cx t = Fresh (goto_trap_return (env_trap_return e) (get_top (kernel_stack t))) \<and>
     task_info_inner t = TaskInfoInner_zero_init \<and> t_stride t = 0 \<and> t_prio t = 16 \<and> t_parent t = None \<and> t_child t = [] \<and>
     fd_table t = [Some Stdin, Some Stdout, Some Stdout] \<and>
     loaded (mem (k_mm k)) elf (memory_set t) \<and> load_cx (mem (k_mm k)) (get_trap_cx t) = init_cx e k elf t \<and>
     \<not> bit (cx_sstatus (load_cx (mem (k_mm k)) (get_trap_cx t))) 8"

lemma kinv_single:
  assumes fresh: "fresh_task l ld k u k'" and k: "TASKS k = Map.empty"
    and k': "TASKS k' = [next_task k \<mapsto> u]" "next_task k' = Suc (next_task k)" "ready_queue k' = [next_task k]" "current k' = None"
      "INITPROC k' = next_task k"
    and u: "t_child u = []" "t_prio u \<noteq> 0" "task_status u = Ready" "task_cx u = Fresh tc"
  shows "kinv l ld k'"
proof (rule kinvI)
  show "tree_inv (TASKS k') (next_task k') (INITPROC k')" using u k' by (auto simp: tree_inv_def status_def prio_def kids_def par_def)
  show "sched_inv (TASKS k') (ready_queue k') (current k')" using u k' by (auto simp: sched_inv_def status_def)
qed (use fresh k k' u in \<open>auto simp: fresh_task_def Let_def wait_ok_def split: if_splits\<close>)

lemma boot_done:
  assumes b: "built l (k_mm k) (env_ld e) (elf_image elf) s1 (memory_set u)"
    and cx: "cx_area (memory_set u) (trap_cx_ppn u)" and own: "own_step l s1 (ms_owned (KERNEL_SPACE k)) s2 (ms_owned (KERNEL_SPACE k'))"
      "t_owned u \<inter> ms_owned (KERNEL_SPACE k) = {}"
    and fresh: "fresh_task l (env_ld e) k u (k'\<lparr>k_mm := s2\<rparr>)"
    and u: "t_child u = []" "t_parent u = None" "t_prio u = 16" "task_status u = Ready"
      "task_cx u = Fresh (goto_trap_return (env_trap_return e) (get_top (kernel_stack u)))" "fd_table u = [Some Stdin, Some Stdout, Some Stdout]" "t_stride u = 0" "task_info_inner u = TaskInfoInner_zero_init"
    and k': "k_mm k' = s2\<lparr>mem := store_cx (mem s2) (get_trap_cx u) (init_cx e k' elf u)\<rparr>" "TASKS k = Map.empty"
      "TASKS k' = [next_task k \<mapsto> u]" "next_task k' = Suc (next_task k)" "ready_queue k' = [next_task k]" "current k' = None"
      "INITPROC k' = next_task k"
  shows "booted e elf k' u" "kinv l (env_ld e) k'"
proof -
  have kc: "kinv l (env_ld e) (k'\<lparr>k_mm := s2\<rparr>)" by (rule kinv_single[OF fresh k'(2)]) (simp_all add: u k')
  have "kinv l (env_ld e) (k'\<lparr>k_mm := k_mm k'\<rparr>)"
    using kinv_init_cx[OF kc, of "next_task k" u] u(4) k'(1,3) by (simp add: get_trap_cx_def init_cx_def)
  then show "kinv l (env_ld e) k'" by simp
  show "booted e elf k' u"
    using built_memory[OF b cx own, of "mem (k_mm k')"] u k' by (simp add: booted_def get_trap_cx_def init_cx_def app_init_user)
qed

lemma wp_add_initproc:
  assumes k: "no_tasks l (env_ld e) k" and app: "has_app e content (disk (k_fs k)) initproc_name elf"
    and E: "avail (k_mm k) < 9 + 3 * length (seg_pages (elf_image elf)) \<Longrightarrow> E OutOfFrames"
    and Q: "\<And>t k'. booted e elf k' t \<Longrightarrow> kinv l (env_ld e) k' \<Longrightarrow> k_fs k' = k_fs k \<Longrightarrow>
        avail (k_mm k) \<le> avail (k_mm k') + 9 + 3 * length (seg_pages (elf_image elf)) \<Longrightarrow> Q () k'"
  shows "wp (add_initproc e) Q E k"
  unfolding add_initproc_def new_initproc_def wp_kbind
proof (rule wp_load_app[OF app], goal_cases)
  case (1 data)
  have parse: "env_parse e data = Some elf" "elf_ok elf" using 1 app by (simp_all add: has_app_def)
  have kt: "mem_inv l (env_ld e) (k_mm k) (KERNEL_SPACE k) (TASKS k)" "stack_areas (areas (KERNEL_SPACE k)) (task_pids (TASKS k))"
    "pid_inv (PID_ALLOCATOR k) (TASKS k)" "TASKS k (next_task k) = None" "unat (pa_current (PID_ALLOCATOR k)) < 2 ^ 25"
    "TASKS k = Map.empty" "ready_queue k = []" "current k = None"
    using k by (simp_all add: no_tasks_def task_pids_def pid_inv_def PidAllocator_new_def pa_invar_def pa_live_def)
  have mm: "mm_inv l (k_mm k)" and ld: "ld_ok (env_ld e)" using mem_invD(1,6)[OF kt(1)] by (simp_all add: layout_ok_def)
  show ?case
    apply (simp add: TaskControlBlock_new_def wp_rules Let_def)
    apply (rule wp_from_elf[where parse = "env_parse e" and elf_data = data, OF mm ld parse])
     apply (use E in simp)
    subgoal premises f for s1 ms
    proof (rule built_cx[OF f], goal_cases)
      case (1 p en)
      have fi: "ms_inv l s1 (tramp (env_ld e)) ms" "own_step l (k_mm k) {} s1 (ms_owned ms)"
        "avail (k_mm k) \<le> avail s1 + 3 + 3 * length (seg_pages (elf_image elf))" using f by (simp_all add: built_def)
      show ?case
        apply (simp add: wp_rules)
        apply (rule wp_find_trap_cx_ppn[OF 1(3)], unfold 1(4))
        apply (rule wp_alloc_resources[OF kt(1-4) kt(5) fi(2,1) 1(2,1)])
         apply (use E fi(3) in simp)
        subgoal premises g for pid a s2 ks
          apply (simp add: wp_rules add_task_def vec_push_def init_trap_cx_def)
          by (rule Q; (rule boot_done[where l = l and k = k and ?s1.0 = s1 and ?s2.0 = s2])?)
            (use fi(3) g(4) in \<open>simp_all add: f 1 g kt(6-8) fresh_task_cong[OF g(1)] get_trap_cx_def init_cx_def avail_def\<close>)
        done
    qed
    done
qed

section \<open>Booting\<close>

lemma wp_rust_main:
  assumes ld: "sections_ok (env_ld e)" and app: "has_app e content (disk fs) initproc_name elf"
    and E: "0x88000 < unat (ekernel (env_ld e)) div 4096 + 1164 + sum_list (map unat requests) + 3 * length (seg_pages (elf_image elf)) \<Longrightarrow> E OutOfFrames"
    and Q: "\<And>frames t k. booted e elf k t \<Longrightarrow> kinv (image_end (env_ld e)) (env_ld e) k \<Longrightarrow> k_fs k = fs \<Longrightarrow>
        0x88000 \<le> avail (k_mm k) + unat (ekernel (env_ld e)) div 4096 + 1164 + sum_list (map unat requests) + 3 * length (seg_pages (elf_image elf)) \<Longrightarrow>
        Q frames k"
  shows "wp (rust_main e sbss requests) Q E (power_on m fs)"
proof -
  let ?ld = "env_ld e" let ?l = "image_end ?ld"
  have l: "ld_layout ?ld" using ld by (simp add: sections_ok_def)
  show ?thesis
    unfolding rust_main_def wp_kbind wp_with_mm wp_kmodify
  proof (rule wp_mm_init[OF l], goal_cases)
    case 1
    then show ?case by (simp add: power_on_def)
  next
    case 2
    then show ?case using E by simp
  next
    case (3 ks s1 s2)
    have av: "avail s1 \<le> 0x88000" "avail s1 \<le> avail s2 + 1155" using 3(1,4) ld_layout_kernel_ok(2)[OF l] by (simp_all add: kmapped_def)
    note sp = kernel_space_boot[OF l 3(1,3) av(1)]
    have mm: "mm_inv ?l s2" by (rule mem_invD(1)[OF sp(1)])
    show ?case
    proof (rule wp_remap_test[OF ld], simp, rule 3(1), rule wp_block_device[where l = ?l], goal_cases)
      case (4 s3 frames)
      have s3: "own_step ?l s2 {} s3 (ft_ppn ` set frames)" "avail s2 \<le> avail s3 + sum_list (map unat requests)" using 4 by simp_all
      have "mem_inv ?l ?ld s3 ks Map.empty"
        using layout_ok_step[OF mem_invD(6)[OF sp(1)] s3(1)] ms_inv_frame(1)[OF mem_invD(2)[OF sp(1)] s3(1)] by (simp add: mem_inv_def)
      then have "no_tasks ?l ?ld ((power_on m fs)\<lparr>KERNEL_SPACE := ks, k_mm := s3\<rparr>)"
        using sp(2) by (simp add: no_tasks_def power_on_def TaskManager_new_def Processor_new_def)
      then have "wp (add_initproc e) (\<lambda>_. Q frames) E ((power_on m fs)\<lparr>KERNEL_SPACE := ks, k_mm := s3\<rparr>)"
        by (rule wp_add_initproc[where elf = elf and content = content]) (use app Q E s3(2) av 3(4) in \<open>simp_all add: power_on_def\<close>)
      then show ?case by (simp add: wp_kreturn)
    qed (use mm 3(2,4) E av in simp_all)
  qed
qed

lemma rust_main_kinv:
  assumes "sections_ok (env_ld e)" "has_app e content (disk fs) initproc_name elf"
    "rust_main e sbss requests (power_on m fs) = Inr (frames, k)"
  shows "kinv (image_end (env_ld e)) (env_ld e) k"
proof -
  have "wp (rust_main e sbss requests) (\<lambda>_ k. kinv (image_end (env_ld e)) (env_ld e) k) (\<lambda>_. True) (power_on m fs)"
    by (rule wp_rust_main[OF assms(1,2)]) auto
  then show ?thesis using assms(3) by (simp add: wp_def)
qed

end
