(* ===== verification/Trap_Entry.thy ===== *)
theory Trap_Entry
  imports Kernel_System
begin

text \<open>
  The way into the kernel and out of it (\<^verbatim>\<open>src/trap/mod.rs\<close>): the registers that decide where a trap goes, and
  the addresses that the assembly of the trampoline runs at. The code of the trampoline changes the
  page table while it runs, so its page must lead to the same frame in the address space of the kernel and of every task.
\<close>

section \<open>The registers\<close>

record trap_regs =
  stvec :: usize
  sie_stimer :: bool
  timer_compare :: usize

definition set_kernel_trap_entry :: "usize \<Rightarrow> trap_regs \<Rightarrow> trap_regs" where
  "set_kernel_trap_entry trap_from_kernel r = r\<lparr>stvec := trap_from_kernel\<rparr>"

definition set_user_trap_entry :: "trap_regs \<Rightarrow> trap_regs" where
  "set_user_trap_entry r = r\<lparr>stvec := TRAMPOLINE\<rparr>"

definition trap_init :: "usize \<Rightarrow> trap_regs \<Rightarrow> trap_regs" where
  "trap_init trap_from_kernel r = set_kernel_trap_entry trap_from_kernel r"

definition enable_timer_interrupt :: "trap_regs \<Rightarrow> trap_regs" where
  "enable_timer_interrupt r = r\<lparr>sie_stimer := True\<rparr>"

definition set_timer :: "usize \<Rightarrow> trap_regs \<Rightarrow> trap_regs" where
  "set_timer timer r = r\<lparr>timer_compare := timer\<rparr>"

definition trap_from_kernel :: "(('fs, 'i) kernel, trap_exit) km" where
  "trap_from_kernel = kpanic ExplicitPanic"

text \<open>The three calls of \<open>rust_main\<close> before the idle loop; \<open>time\<close> is what the time register reads.\<close>

definition start_traps :: "usize \<Rightarrow> usize \<Rightarrow> trap_regs \<Rightarrow> trap_regs" where
  "start_traps entry time r = set_timer (set_next_trigger time) (enable_timer_interrupt (trap_init entry r))"

text \<open>
  The registers along \<open>trap_handler\<close>: on entry the kernel's own handler is set, a timer interrupt sets the next one,
  and the way back to the user sets the trampoline. A task that is switched out leaves them as they are.
\<close>

definition handler_regs :: "usize \<Rightarrow> usize \<Rightarrow> trap_cause \<Rightarrow> trap_exit \<Rightarrow> trap_regs \<Rightarrow> trap_regs" where
  "handler_regs entry time cause out r =
     (let r = set_kernel_trap_entry entry r;
          r = (if cause = SupervisorTimer then set_timer (set_next_trigger time) r else r)
      in if out = None then r else set_user_trap_entry r)"

text \<open>Where \<open>trap_return\<close> jumps to: \<^verbatim>\<open>__restore\<close>, at its place in the page of the trampoline.\<close>

definition restore_va :: "usize \<Rightarrow> usize \<Rightarrow> usize" where
  "restore_va alltraps_addr restore_addr = restore_addr - alltraps_addr + TRAMPOLINE"

section \<open>The trampoline\<close>

text \<open>The assembly of the trampoline fits in the page that starts with \<^verbatim>\<open>__alltraps\<close>.\<close>

definition trampoline_code :: "linker_symbols \<Rightarrow> usize \<Rightarrow> usize \<Rightarrow> bool" where
  "trampoline_code ld alltraps_addr restore_addr \<longleftrightarrow> alltraps_addr = strampoline ld \<and> unat alltraps_addr < 2 ^ 39 \<and>
     alltraps_addr \<le> restore_addr \<and> unat restore_addr < unat alltraps_addr + 4096"

lemma trampoline_page:
  assumes "j < 4096"
  shows "VirtAddr_floor (va_from_usize (TRAMPOLINE + of_nat j)) = trampoline_vpn"
    "unat (va_val (va_from_usize (TRAMPOLINE + of_nat j))) mod 4096 = j"
proof -
  have t: "unat (TRAMPOLINE + of_nat j) = 2 ^ 64 - 4096 + j"
    using assms by (simp add: TRAMPOLINE_eq unat_word_ariths unat_of_nat take_bit_nat_eq_self)
  have "2 ^ 64 - 4096 + j = (2 ^ 27 - 1) * 4096 + j + (2 ^ 25 - 1) * 2 ^ 39" by simp
  moreover have "(2 ^ 27 - 1) * 4096 + j < 2 ^ 39" using assms by simp
  ultimately have v: "unat (va_val (va_from_usize (TRAMPOLINE + of_nat j))) = (2 ^ 27 - 1) * 4096 + j"
    unfolding unat_from_usize t by (simp only: mod_mult_self1 mod_less)
  have d: "(n * 4096 + j) div 4096 = n" "(n * 4096 + j) mod 4096 = j" for n :: nat using assms by simp_all
  show "VirtAddr_floor (va_from_usize (TRAMPOLINE + of_nat j)) = trampoline_vpn"
    unfolding newtype_eq_iff word_unat_eq_iff unat_VirtAddr_floor v d by (simp add: trampoline_vpn_def)
  show "unat (va_val (va_from_usize (TRAMPOLINE + of_nat j))) mod 4096 = j" unfolding v by (rule d)
qed

lemma space_trampoline:
  assumes inv: "ms_inv l s (tramp ld) ms" and ld: "ld_ok ld" and small: "unat (strampoline ld) < 2 ^ 39" and j: "j < 4096"
  shows "translate_va (mem s) (from_token (ms_token ms)) (va_from_usize (TRAMPOLINE + of_nat j)) = Inr (Some (PhysAddr (strampoline ld + of_nat j)))"
proof -
  note v = trampoline_page[OF j]
  have "trampoline_vpn \<notin> set (areas_vpns (areas ms))" using ms_invD(8)[OF inv] by auto
  then have "pt_abs (mem s) (from_token (ms_token ms)) (VirtAddr_floor (va_from_usize (TRAMPOLINE + of_nat j))) = Some (trampoline_entry ld)"
    using ms_invD(7)[OF inv] pt_abs_from_token[OF ms_invD(1,2)[OF inv]] by (simp add: v(1) ms_token_def)
  note tr = translate_va_abs[OF this, unfolded v(2)]
  have sm: "unat (strampoline ld) div 4096 < 2 ^ 44" using small by (simp add: div_less_iff_less_mult)
  have fl: "unat (ppn_val (PhysAddr_floor (pa_from_usize (strampoline ld)))) = unat (strampoline ld) div 4096"
    using small by (simp add: unat_PhysAddr_floor unat_from_usize)
  then have "pte_ppn (trampoline_entry ld) = PhysAddr_floor (pa_from_usize (strampoline ld))"
    using sm unfolding trampoline_entry_def by (intro pte_ppn_new) simp
  moreover have off: "unat (PhysAddr_page_offset a) = unat (pa_val a) mod 4096" for a by (simp add: address_defs unat_and_4095)
  have "unat (PhysAddr_page_offset (pa_from_usize (strampoline ld))) = 0" using ld by (simp add: ld_ok_def)
  then have al: "unat (strampoline ld) mod 4096 = 0" using small by (simp add: off unat_from_usize)
  have "paddr (ppn_val (PhysAddr_floor (pa_from_usize (strampoline ld)))) j = strampoline ld + of_nat j"
  proof -
    have "unat (push_bit 12 (ppn_val (PhysAddr_floor (pa_from_usize (strampoline ld))))) = unat (strampoline ld)"
      using fl sm mult_div_mod_eq[of 4096 "unat (strampoline ld)"] al by (simp add: unat_push_bit_12)
    then have "push_bit 12 (ppn_val (PhysAddr_floor (pa_from_usize (strampoline ld)))) = strampoline ld" by (simp only: word_unat_eq_iff)
    then show ?thesis by (simp add: paddr_def)
  qed
  ultimately show ?thesis using tr by simp
qed

lemma task_trap_context:
  assumes run: "running l ld k h t"
  shows "translate_va (mem (k_mm k)) (from_token (get_user_token t)) (va_from_usize TRAP_CONTEXT_BASE) = Inr (Some (PhysAddr (get_trap_cx t)))"
proof -
  note r = runningD[OF run]
  obtain e where e: "ms_abs (mem (k_mm k)) (memory_set t) trap_cx_vpn = Some e" "pte_ppn e = trap_cx_ppn t"
    using cx_area_abs[OF r(5,6)] r(7) by blast
  have "pt_abs (mem (k_mm k)) (from_token (get_user_token t)) (VirtAddr_floor (va_from_usize TRAP_CONTEXT_BASE)) = Some e"
    using e(1) pt_abs_root[OF running_token[OF run]] by (simp add: address_defs TRAP_CONTEXT_BASE_eq trap_cx_vpn_def)
  from translate_va_abs[OF this] show ?thesis
    by (simp add: e(2) get_trap_cx_def pa_from_ppn_def PAGE_SIZE_BITS_def paddr_def address_defs TRAP_CONTEXT_BASE_eq)
qed

text \<open>The kernel stack of a task is mapped in the address space of the kernel, up to its top.\<close>

lemma kernel_stack_mapped:
  assumes inv: "kinv l ld k" and t: "TASKS k h = Some t"
  shows "get_top (kernel_stack t) = snd (kernel_stack_position (get_pid t))"
    "set (vpns_of (stack_range (get_pid t))) \<subseteq> dom (ms_abs (mem (k_mm k)) (KERNEL_SPACE k))"
proof -
  note i = kinvD[OF inv]
  show "get_top (kernel_stack t) = snd (kernel_stack_position (get_pid t))"
    using i(3) t by (simp add: pid_inv_def get_top_def split: prod.splits)
  have "get_pid t \<in> task_pids (TASKS k)" using t by (auto simp: task_pids_def)
  then obtain a where a: "a \<in> set (areas (KERNEL_SPACE k))" "vpn_range a = stack_range (get_pid t)" using i(2) by (auto simp: stack_areas_def)
  then have "set (vpns_of (stack_range (get_pid t))) \<subseteq> set (areas_vpns (areas (KERNEL_SPACE k)))"
    unfolding a(2)[symmetric] by (auto simp: set_areas_vpns)
  then show "set (vpns_of (stack_range (get_pid t))) \<subseteq> dom (ms_abs (mem (k_mm k)) (KERNEL_SPACE k))"
    unfolding ms_dom[OF mem_invD(2)[OF i(1)]] by blast
qed

end
