(* ===== verification/Kernel_Run.thy ===== *)
theory Kernel_Run
  imports Kernel_Boot Trap_Entry
begin

text \<open>
  A run of the kernel on a concrete machine, on which the properties of the whole kernel are applied: it boots,
  starts the first task, which forks (by the call itself, and through a trap); the child runs and exits, and the
  parent is scheduled again.
\<close>

section \<open>The machine\<close>

definition boot_env :: "(u8 list \<Rightarrow> u8 list option, u8 list) env" where
  "boot_env = \<lparr>env_efs = name_efs, env_ld = boot_ld, env_parse = (\<lambda>_. Some boot_elf), env_trap_return = 0x80202000,
     env_trap_handler = 0x80203000, env_sstatus = 0x20\<rparr>"

text \<open>A disk with the first program and another one, called \<^verbatim>\<open>ELF\<close>.\<close>

definition boot_fs :: "(u8 list \<Rightarrow> u8 list option, u8 list) fs_state" where
  "boot_fs = \<lparr>disk = [initproc_name \<mapsto> [0x7f, 0x45, 0x4c, 0x46], [0x45, 0x4c, 0x46] \<mapsto> [0x7f, 0x45, 0x4c, 0x46]], os_inodes = [], console = []\<rparr>"

definition boot_run :: "panic + FrameTracker list \<times> (u8 list \<Rightarrow> u8 list option, u8 list) kernel" where
  "boot_run = rust_main boot_env 0x80260000 [2] (power_on (\<lambda>_. 0) boot_fs)"

definition boot_hw :: hw where
  "boot_hw = \<lparr>hw_time = 0, hw_char = 0\<rparr>"

lemma boot_env_sel [simp]: "env_ld boot_env = boot_ld" "env_efs boot_env = name_efs" "env_parse boot_env = (\<lambda>_. Some boot_elf)"
  by (simp_all add: boot_env_def)

lemma boot_image_end: "image_end boot_ld = 0x80400"
  by (simp add: boot_ld_def address_defs)

lemma boot_sections: "sections_ok boot_ld"
  using boot_ld_layout by (simp add: sections_ok_def) (simp add: boot_ld_def)

lemma boot_has_app:
  "has_app boot_env name_content (disk boot_fs) initproc_name boot_elf" "has_app boot_env name_content (disk boot_fs) [0x45, 0x4c, 0x46] boot_elf"
  using name_efs_laws(1) boot_elf_ok by (simp_all add: has_app_def boot_fs_def name_efs_def name_content_def initproc_name_def)

lemma boot_reads: "reads_bounded (env_efs boot_env)"
  by (simp add: reads_bounded_def name_efs_def)

lemma loaded_pages:
  assumes "loaded m elf ms" "elf_image elf \<noteq> []"
  shows "areas_vpns (areas ms) = seg_pages (elf_image elf)"
proof -
  have l: "list_all2 (area_is m) (butlast (elf_image elf)) (butlast (areas ms))" "vpn_range (last (areas ms)) = fst (last (elf_image elf))"
    "areas ms \<noteq> []" using assms by (auto simp: loaded_def)
  have "areas_vpns (butlast (areas ms) @ [last (areas ms)]) = seg_pages (butlast (elf_image elf) @ [last (elf_image elf)])"
    using built_pages[OF l(1)] l(2) by (simp add: areas_vpns_def)
  then show ?thesis using l(3) assms(2) by simp
qed

abbreviation boot_pages :: "VirtPageNum list" where
  "boot_pages \<equiv> [VirtPageNum 0x10, VirtPageNum 0x12, VirtPageNum 0x13, VirtPageNum 0x7fffffe]"

lemma boot_run_ok:
  obtains frames k t where "boot_run = Inr (frames, k)" "booted boot_env boot_elf k t" "kinv 0x80400 boot_ld k" "k_fs k = boot_fs"
    "30000 \<le> avail (k_mm k)" "areas_vpns (areas (memory_set t)) = boot_pages"
proof -
  have pages: "length (seg_pages (elf_image boot_elf)) = 4" by (simp add: boot_elf_pages)
  have ne: "elf_image boot_elf \<noteq> []" by (simp add: boot_elf_image)
  have ek: "unat (ekernel boot_ld) div 4096 = 0x80400" by (simp add: boot_ld_def)
  have "wp (rust_main boot_env 0x80260000 [2]) (\<lambda>_ k. \<exists>t. booted boot_env boot_elf k t \<and> kinv 0x80400 boot_ld k \<and> k_fs k = boot_fs \<and>
      30000 \<le> avail (k_mm k)) (\<lambda>_. False) (power_on (\<lambda>_. 0) boot_fs)"
    by (rule wp_rust_main[of boot_env name_content, unfolded boot_env_sel boot_image_end ek pages, OF boot_sections boot_has_app(1)]) (auto simp: pages)
  from wp_no_panicD[OF this] obtain frames k t where k: "boot_run = Inr (frames, k)" "booted boot_env boot_elf k t" "kinv 0x80400 boot_ld k"
    "k_fs k = boot_fs" "30000 \<le> avail (k_mm k)" unfolding boot_run_def by blast
  have "areas_vpns (areas (memory_set t)) = boot_pages"
    using loaded_pages[of "mem (k_mm k)" boot_elf "memory_set t"] k(2) ne pages by (simp add: booted_def boot_elf_pages)
  then show thesis using that k by blast
qed

section \<open>Single steps\<close>

lemma run_tasks_picks:
  assumes "kinv l ld k" "current k = None" "least_stride (map (task_stride k) (ready_queue k)) = Some i" "TASKS k (ready_queue k ! i) = Some t"
  obtains k' where "run_tasks k = Inr (Some (ready_queue k ! i), k')" "running l ld k' (ready_queue k ! i) ((bump_stride t)\<lparr>task_status := Running\<rparr>)"
    "k' = k\<lparr>ready_queue := vec_remove i (ready_queue k),
       TASKS := (TASKS k)(ready_queue k ! i \<mapsto> (bump_stride t)\<lparr>task_status := Running\<rparr>), current := Some (ready_queue k ! i)\<rparr>"
proof -
  let ?h = "ready_queue k ! i" and ?t = "(bump_stride t)\<lparr>task_status := Running\<rparr>"
  have "wp run_tasks (\<lambda>r k'. r = Some ?h \<and> running l ld k' ?h ?t \<and> k' = k\<lparr>ready_queue := vec_remove i (ready_queue k),
      TASKS := (TASKS k)(?h \<mapsto> ?t), current := Some ?h\<rparr>) (\<lambda>_. False) k"
    by (rule wp_run_tasks[OF assms(1,2)]) (use assms(3,4) in auto)
  from wp_no_panicD[OF this] show thesis using that by blast
qed

lemma sys_yield_suspends:
  assumes "running l ld k h t"
  obtains k' where "sys_yield k = Inr (Switched, k')" "kinv l ld k'" "k' = k\<lparr>current := None,
        TASKS := (TASKS k)(h \<mapsto> t\<lparr>task_cx := Suspended InYield, task_status := Ready\<rparr>), ready_queue := ready_queue k @ [h]\<rparr>"
proof -
  let ?k = "k\<lparr>current := None, TASKS := (TASKS k)(h \<mapsto> t\<lparr>task_cx := Suspended InYield, task_status := Ready\<rparr>), ready_queue := ready_queue k @ [h]\<rparr>"
  have "wp sys_yield (\<lambda>r k'. r = Switched \<and> kinv l ld k' \<and> k' = ?k) (\<lambda>_. False) k"
    unfolding sys_yield_def wp_kbind wp_kreturn by (rule wp_suspend[OF assms]) simp_all
  from wp_no_panicD[OF this] show thesis using that by blast
qed

section \<open>The first task runs\<close>

lemma first_run:
  obtains frames k0 k t where "boot_run = Inr (frames, k0)" "run_tasks k0 = Inr (Some (INITPROC k), k)" "running 0x80400 boot_ld k (INITPROC k) t"
    "TASKS k = [INITPROC k \<mapsto> t]" "ready_queue k = []" "t_child t = []" "t_stride t = 15" "t_prio t = 16" "k_fs k = boot_fs"
    "30000 \<le> avail (k_mm k)" "areas_vpns (areas (memory_set t)) = boot_pages" "loaded (mem (k_mm k)) boot_elf (memory_set t)"
    "task_info_inner t = TaskInfoInner_zero_init" "fd_table t = [Some Stdin, Some Stdout, Some Stdout]" "\<And>layout ok. reachable 0x80400 boot_env layout ok k0 k"
proof (rule boot_run_ok)
  fix frames k0 t0
  assume k0: "boot_run = Inr (frames, k0)" "booted boot_env boot_elf k0 t0" "kinv 0x80400 boot_ld k0" "k_fs k0 = boot_fs"
    "30000 \<le> avail (k_mm k0)" "areas_vpns (areas (memory_set t0)) = boot_pages"
  let ?t = "(bump_stride t0)\<lparr>task_status := Running\<rparr>"
  have b: "TASKS k0 = [INITPROC k0 \<mapsto> t0]" "ready_queue k0 = [INITPROC k0]" "current k0 = None" "t_stride t0 = 0" "t_prio t0 = 16" "t_child t0 = []"
    "loaded (mem (k_mm k0)) boot_elf (memory_set t0)" "task_info_inner t0 = TaskInfoInner_zero_init"
    "\<exists>tc. task_cx t0 = Fresh tc" "fd_table t0 = [Some Stdin, Some Stdout, Some Stdout]" using k0(2) by (simp_all add: booted_def)
  have ls: "least_stride (map (task_stride k0) (ready_queue k0)) = Some 0" by (simp add: b least_stride_def task_stride_def)
  have "wp run_tasks (\<lambda>r k. r = Some (INITPROC k) \<and> running 0x80400 boot_ld k (INITPROC k) ?t \<and> TASKS k = [INITPROC k \<mapsto> ?t] \<and>
      ready_queue k = [] \<and> k_fs k = boot_fs \<and> k_mm k = k_mm k0) (\<lambda>_. False) k0"
    by (rule wp_run_tasks[OF k0(3) b(3)]) (use ls b k0(4) in \<open>auto simp: vec_remove_def\<close>)
  from wp_no_panicD[OF this] obtain k where k: "run_tasks k0 = Inr (Some (INITPROC k), k)" "running 0x80400 boot_ld k (INITPROC k) ?t"
    "TASKS k = [INITPROC k \<mapsto> ?t]" "ready_queue k = []" "k_fs k = boot_fs" "k_mm k = k_mm k0" by blast
  note cur = runningD(2,3)[OF k(2)]
  obtain tc where "task_cx ?t = Fresh tc" using b(9) by (auto simp: bump_stride_def)
  then have "\<exists>r. idle_turn boot_env w k0 = Inr (r, k)" for w
    using cur by (simp add: idle_turn_def resume_current_def trap_return_def current_user_token_def current_block_def current_handle_def
        current_task_def deref_task_def kbind_def kget_def kunwrap_def kreturn_def k(1))
  then have "kernel_step 0x80400 boot_env layout ok k0 k" for layout ok using kernel_step.idle[OF b(3)] by blast
  then have "reachable 0x80400 boot_env layout ok k0 k" for layout ok using reachable.intros by blast
  then show thesis
    by (intro that[OF k0(1) k(1-4) _ _ _ k(5)]) (simp_all add: b k0 k bump_stride_def BIG_STRIDE_def)
qed

text \<open>The program text is read as a string: at \<open>0x10001\<close> lies \<^verbatim>\<open>ELF\<close>, with a zero behind it.\<close>

lemma first_str:
  assumes run: "running l boot_ld k h t" and ld: "loaded (mem (k_mm k)) boot_elf (memory_set t)"
  shows "translated_str (mem (k_mm k)) (get_user_token t) 0x10001 = Some (Inr [0x45, 0x4c, 0x46])"
proof -
  let ?m = "mem (k_mm k)" and ?pt = "from_token (get_user_token t)"
  note r = runningD[OF run]
  obtain a as where as: "areas (memory_set t) = a # as" "area_is ?m (hd (elf_image boot_elf)) a"
    using ld by (auto simp: loaded_def boot_elf_image stack_segs_def list_all2_Cons1 length_Suc_conv)
  then have a: "vpn_range a = \<lparr>range_l = VirtPageNum 0x10, range_r = VirtPageNum 0x11\<rparr>" "area_holds ?m a [0x7f, 0x45, 0x4c, 0x46]" "map_type a = Framed"
    by (simp_all add: area_is_def boot_elf_image)
  have v: "area_vpns a = [VirtPageNum 0x10]" using single_page[of "0x10"] by (simp add: a(1))
  have am: "a \<in> set (areas (memory_set t))" "VirtPageNum 0x10 \<in> set (area_vpns a)" using as(1) v by simp_all
  obtain e where e: "ms_abs ?m (memory_set t) (VirtPageNum 0x10) = Some e" "pte_ppn e = area_frame a (VirtPageNum 0x10)"
    using ms_area_frames(3)[OF r(5) am(1) a(3) am(2)] by blast
  have "pt_abs ?m ?pt (VirtAddr_floor (VirtAddr 0x10001)) = Some e"
    using e(1) pt_abs_root[OF running_token[OF run]] by (simp add: address_defs)
  note u = single_page_addrs(1,2)[OF this, of "Suc (Suc (Suc (Suc 0)))"]
  have "page_holds ?m [0x7f, 0x45, 0x4c, 0x46] 0 (pte_ppn e)" using a(2) v by (simp add: area_holds_def e(2))
  then have "map ?m (user_addrs ?m ?pt 0x10001 (Suc (Suc (Suc (Suc 0))))) = [0x45, 0x4c, 0x46] @ [0]" using u(1) by (simp add: page_holds_def upt_rec)
  then show ?thesis
    using translated_str_loop_mapped[of "0x10001" "[0x45, 0x4c, 0x46]" ?m ?pt "[]"] u(2) by (simp add: translated_str_def)
qed

lemma stack_refmut:
  assumes run: "running l ld k h t" and v: "VirtPageNum 0x12 \<in> set (areas_vpns (areas (memory_set t)))"
  shows "\<exists>pa. translated_refmut (mem (k_mm k)) (get_user_token t) 0x12000 = Inr pa"
proof -
  let ?m = "mem (k_mm k)" and ?pt = "from_token (get_user_token t)"
  note r = runningD[OF run]
  obtain a where a: "a \<in> set (areas (memory_set t))" "VirtPageNum 0x12 \<in> set (area_vpns a)" using v by (auto simp: set_areas_vpns)
  then obtain e where "ms_abs ?m (memory_set t) (VirtPageNum 0x12) = Some e"
    using ms_area_frames(3)[OF r(5) a(1) _ a(2)] r(6) by blast
  then have "pt_abs ?m ?pt (VirtAddr_floor (va_from_usize 0x12000)) = Some e"
    using pt_abs_root[OF running_token[OF run]] by (simp add: address_defs)
  from translate_va_abs[OF this] show ?thesis by (auto simp: translated_refmut_def)
qed

section \<open>A system call through a trap\<close>

lemmas syscall_numbers =
  SYSCALL_UNLINKAT_def SYSCALL_LINKAT_def SYSCALL_OPEN_def SYSCALL_CLOSE_def SYSCALL_READ_def SYSCALL_WRITE_def SYSCALL_FSTAT_def
  SYSCALL_EXIT_def SYSCALL_YIELD_def SYSCALL_SET_PRIO_def SYSCALL_GET_TIME_def SYSCALL_GETPID_def SYSCALL_SBRK_def SYSCALL_MUNMAP_def
  SYSCALL_FORK_def SYSCALL_EXEC_def SYSCALL_MMAP_def SYSCALL_WAITPID_def SYSCALL_TASK_INFO_def SYSCALL_SPAWN_def

lemma finish_trap:
  assumes run: "running l ld k h t" and Q: "\<And>out k'. running l ld k' h t \<Longrightarrow> TASKS k' = TASKS k \<Longrightarrow> Q out k'"
  shows "wp (finish_syscall (Returned v)) Q E k"
proof -
  let ?k = "k\<lparr>k_mm := (k_mm k)\<lparr>mem := write_u64 (mem (k_mm k)) (word_at (get_trap_cx t) 10) v\<rparr>\<rparr>"
  have "kinv l ld ?k" by (rule kinv_write_cx[OF runningD(1,3)[OF run]]) (simp_all add: runningD(4)[OF run])
  then have "running l ld ?k h t" by (rule running_upd[OF run])
  then show ?thesis using Q by (simp add: finish_syscall_def trap_return_def wp_rules wp_current[OF run] wp_current)
qed

lemma fork_trap:
  assumes run: "running l (env_ld e) k h t" and x17: "cx_x (load_cx (mem (k_mm k)) (get_trap_cx t)) ! 17 = SYSCALL_FORK"
    and times: "task_info_inner t = TaskInfoInner_zero_init" and av: "9 + 3 * length (areas_vpns (areas (memory_set t))) \<le> avail (k_mm k)"
  shows "\<exists>out k' t' c u. trap_handler e layout w UserEnvCall k = Inr (out, k') \<and> running l (env_ld e) k' h t' \<and>
    c \<noteq> h \<and> TASKS k' c = Some u \<and> task_status u = Ready"
proof -
  let ?k = "next_insn t k"
  have "kinv l (env_ld e) ?k"
    unfolding next_insn_def by (rule kinv_write_cx[OF runningD(1,3)[OF run]]) (simp_all add: runningD(4)[OF run])
  then have run1: "running l (env_ld e) ?k h t" using running_upd[OF run] by (simp add: next_insn_def)
  have "wp (syscall e layout w SYSCALL_FORK args) (\<lambda>r k'. \<exists>t' c u v. r = Returned v \<and> running l (env_ld e) k' h t' \<and>
      c \<noteq> h \<and> TASKS k' c = Some u \<and> task_status u = Ready) (\<lambda>_. False) ?k" for args
    unfolding syscall_def wp_kbind
  proof (rule wp_update_syscall_times[OF run1], goal_cases)
    case 1
    then show ?case using times by (simp add: TaskInfoInner_zero_init_def MAX_SYSCALL_NUM_def SYSCALL_FORK_def)
  next
    case (2 t1)
    let ?k1 = "?k\<lparr>TASKS := (TASKS ?k)(h \<mapsto> t1)\<rparr>"
    have nh: "next_task ?k1 \<noteq> h" using next_task_None[OF runningD(1)[OF 2(1)]] runningD(3)[OF 2(1)] by auto
    have "wp (sys_fork e) (\<lambda>r k'. \<exists>t' c u v. r = Returned v \<and> running l (env_ld e) k' h t' \<and>
        c \<noteq> h \<and> TASKS k' c = Some u \<and> task_status u = Ready) (\<lambda>_. False) ?k1"
    proof (rule wp_sys_fork[OF 2(1)])
      show "avail (k_mm ?k1) < 9 + 3 * length (areas_vpns (areas (memory_set t1))) \<Longrightarrow> False"
        using av 2(2) by (simp add: next_insn_def avail_def)
      fix u k' assume f: "forked l ?k1 h t1 k' u" "kinv l (env_ld e) k'"
      have "TASKS k' = (TASKS ?k1)(next_task ?k1 \<mapsto> u, h \<mapsto> t1\<lparr>t_child := t_child t1 @ [next_task ?k1]\<rparr>)" "current k' = Some h"
        "task_status u = Ready" using f(1) runningD(2)[OF 2(1)] by (simp_all add: forked_def)
      then show "\<exists>t' c u' v. Returned (get_pid u) = Returned v \<and> running l (env_ld e) k' h t' \<and> c \<noteq> h \<and> TASKS k' c = Some u' \<and> task_status u' = Ready"
        using f(2) nh by (intro exI[of _ "next_task ?k1"] exI[of _ u] exI) (auto simp: running_def)
    qed
    then show ?case by (simp add: syscall_numbers)
  qed
  then have "wp (handle_env_call e layout w) (\<lambda>_ k'. \<exists>t' c u. running l (env_ld e) k' h t' \<and> c \<noteq> h \<and> TASKS k' c = Some u \<and> task_status u = Ready)
      (\<lambda>_. False) k"
    unfolding handle_env_call_def wp_rules wp_current[OF run] next_insn_def[symmetric] x17
    by (rule wp_mono) (auto intro!: finish_trap)
  from wp_no_panicD[OF this] show ?thesis by (simp add: trap_handler_def)
qed

text \<open>The first task puts the number of \<open>fork\<close> in its registers and traps: both steps are steps of the system.\<close>

lemma fork_reached:
  obtains frames k0 k h t c u where "boot_run = Inr (frames, k0)" "reachable 0x80400 boot_env (\<lambda>_. []) (trap_ok boot_env) k0 k"
    "running 0x80400 boot_ld k h t" "c \<noteq> h" "TASKS k c = Some u" "task_status u = Ready"
proof (rule first_run, goal_cases)
  case (1 frames k0 k t)
  note run = 1(4) and m = kinvD(1)[OF runningD(1)[OF 1(4)]]
  have nz: "task_status t \<noteq> Zombie" using runningD(4)[OF run] by simp
  note cx = cx_frame[OF m runningD(3)[OF run] nz]
  let ?m = "write_u64 (mem (k_mm k)) (word_at (get_trap_cx t) 17) SYSCALL_FORK"
  let ?k = "k\<lparr>k_mm := (k_mm k)\<lparr>mem := ?m\<rparr>\<rparr>"
  have "same_pages (live 0x80400 (k_mm k) - {trap_cx_ppn t}) (mem (k_mm k)) ?m"
    using same_pages_write_word[OF mem_invD(1)[OF m] cx(2), of 17] by (simp add: get_trap_cx_def)
  then have "same_pages (live 0x80400 (k_mm k) - user_frames (mem (k_mm k)) t) (mem (k_mm k)) ?m"
    by (rule same_pages_mono) (auto simp: user_frames_def)
  then have step: "kernel_step 0x80400 boot_env (\<lambda>_. []) (trap_ok boot_env) k ?k" by (rule kernel_step.user[OF runningD(2,3)[OF run]])
  have "kinv 0x80400 boot_ld ?k" by (rule kinv_write_cx[OF runningD(1,3)[OF run] nz]) simp
  then have run1: "running 0x80400 (env_ld boot_env) ?k (INITPROC k) t" using running_upd[OF run] by (simp add: boot_env_sel)
  have "page_ok (ppn_val (trap_cx_ppn t))" using live_page_ok[OF mem_invD(1)[OF m] cx(2)] .
  then have x17: "cx_x (load_cx (mem (k_mm ?k)) (get_trap_cx t)) ! 17 = SYSCALL_FORK"
    by (simp add: get_trap_cx_def load_cx_write(1)) (simp add: load_cx_def load_words_def)
  obtain out k' t' c u where k': "trap_handler boot_env (\<lambda>_. []) boot_hw UserEnvCall ?k = Inr (out, k')"
    "running 0x80400 (env_ld boot_env) k' (INITPROC k) t'" "c \<noteq> INITPROC k" "TASKS k' c = Some u" "task_status u = Ready"
    using fork_trap[OF run1 x17, of "\<lambda>_. []" boot_hw] 1(11,12,14) by (auto simp: avail_def)
  have "trap_ok boot_env ?k UserEnvCall"
    using x17 runningD(2,3)[OF run] by (simp add: trap_ok_def call_ok_def syscall_numbers Let_def)
  then have "kernel_step 0x80400 boot_env (\<lambda>_. []) (trap_ok boot_env) ?k k'"
    using runningD(2)[OF run] by (intro kernel_step.trap[OF _ _ k'(1)]) simp_all
  then have "reachable 0x80400 boot_env (\<lambda>_. []) (trap_ok boot_env) k0 k'"
    by (rule reachable_step[OF reachable_step[OF 1(16) step]])
  then show ?thesis using 1(1)[OF 1(2) _ _ k'(3-5)] k'(2) by (simp add: boot_env_sel)
qed

section \<open>A child runs\<close>

text \<open>The state when the child of the first task has the processor.\<close>

definition child_runs :: "(u8 list \<Rightarrow> u8 list option, u8 list) kernel \<Rightarrow> nat \<Rightarrow> TaskControlBlock \<Rightarrow> TaskControlBlock \<Rightarrow> bool" where
  "child_runs k c u t \<longleftrightarrow> running 0x80400 boot_ld k c u \<and> c \<noteq> INITPROC k \<and> TASKS k = [c \<mapsto> u, INITPROC k \<mapsto> t] \<and>
     ready_queue k = [INITPROC k] \<and> t_child t = [c] \<and> t_child u = [] \<and> t_stride t = 15 \<and> areas_vpns (areas (memory_set t)) = boot_pages"

lemma fork_run:
  obtains frames k0 k1 p k2 k3 k c u t where "boot_run = Inr (frames, k0)" "run_tasks k0 = Inr (Some (INITPROC k1), k1)"
    "sys_fork boot_env k1 = Inr (Returned p, k2)" "sys_yield k2 = Inr (Switched, k3)" "run_tasks k3 = Inr (Some c, k)" "child_runs k c u t"
    "get_pid u = p"
proof (rule first_run, goal_cases)
  case (1 frames k0 k1 t1)
  let ?ip = "INITPROC k1" and ?c = "next_task k1" and ?t2 = "t1\<lparr>t_child := [next_task k1]\<rparr>"
  have c: "?c \<noteq> ?ip" using next_task_None[OF runningD(1)[OF 1(4)]] runningD(3)[OF 1(4)] by auto
  have "wp (sys_fork boot_env) (\<lambda>r k2. \<exists>u. r = Returned (get_pid u) \<and> forked 0x80400 k1 ?ip t1 k2 u \<and> kinv 0x80400 boot_ld k2) (\<lambda>_. False) k1"
    by (rule wp_sys_fork[where e = boot_env, unfolded boot_env_sel, OF 1(4)]) (use 1 in auto)
  from wp_no_panicD[OF this] obtain k2 u where f: "sys_fork boot_env k1 = Inr (Returned (get_pid u), k2)" "forked 0x80400 k1 ?ip t1 k2 u" "kinv 0x80400 boot_ld k2" by blast
  have k2: "TASKS k2 = [?c \<mapsto> u, ?ip \<mapsto> ?t2]" "ready_queue k2 = [?c]" "current k2 = Some ?ip" "INITPROC k2 = ?ip" "t_stride u = 0" "t_child u = []"
    using f(2) 1 c runningD(2)[OF 1(4)] by (auto simp: forked_def fun_upd_twist)
  have "running 0x80400 boot_ld k2 ?ip ?t2" using f(3) k2 by (simp add: running_def)
  from sys_yield_suspends[OF this] obtain k3 where k3: "sys_yield k2 = Inr (Switched, k3)" "kinv 0x80400 boot_ld k3"
    "k3 = k2\<lparr>current := None, TASKS := (TASKS k2)(?ip \<mapsto> ?t2\<lparr>task_cx := Suspended InYield, task_status := Ready\<rparr>), ready_queue := ready_queue k2 @ [?ip]\<rparr>"
    by blast
  have s3: "current k3 = None" "ready_queue k3 = [?c, ?ip]" "INITPROC k3 = ?ip"
    "TASKS k3 = [?c \<mapsto> u, ?ip \<mapsto> ?t2\<lparr>task_cx := Suspended InYield, task_status := Ready\<rparr>]" by (simp_all add: k3(3) k2)
  have ls: "least_stride (map (task_stride k3) (ready_queue k3)) = Some 0" using c k2(5) 1 by (simp add: s3 least_stride_def task_stride_def)
  obtain k4 where k4: "run_tasks k3 = Inr (Some ?c, k4)" "running 0x80400 boot_ld k4 ?c ((bump_stride u)\<lparr>task_status := Running\<rparr>)"
    "k4 = k3\<lparr>ready_queue := vec_remove 0 (ready_queue k3), TASKS := (TASKS k3)(?c \<mapsto> (bump_stride u)\<lparr>task_status := Running\<rparr>), current := Some ?c\<rparr>"
    by (rule run_tasks_picks[OF k3(2) s3(1) ls, of u]) (use s3 c in simp_all)
  have "child_runs k4 ?c ((bump_stride u)\<lparr>task_status := Running\<rparr>) (?t2\<lparr>task_cx := Suspended InYield, task_status := Ready\<rparr>)"
    unfolding child_runs_def using k4(2) c k2 1 by (simp add: k4(3) s3 vec_remove_def bump_stride_def fun_upd_twist)
  moreover have "get_pid ((bump_stride u)\<lparr>task_status := Running\<rparr>) = get_pid u" by (simp add: get_pid_def bump_stride_def)
  ultimately show thesis using that 1 f(1) k3(1) k4(1) by blast
qed

section \<open>The parent waits\<close>

lemma wait_run:
  obtains frames k0 k1 p k2 k3 k4 c k5 z k t where "boot_run = Inr (frames, k0)" "run_tasks k0 = Inr (Some (INITPROC k1), k1)"
    "sys_fork boot_env k1 = Inr (Returned p, k2)" "sys_yield k2 = Inr (Switched, k3)" "run_tasks k3 = Inr (Some c, k4)"
    "sys_exit 7 k4 = Inr (Switched, k5)" "run_tasks k5 = Inr (Some (INITPROC k), k)" "running 0x80400 boot_ld k (INITPROC k) t"
    "t_child t = [c]" "TASKS k c = Some z" "is_zombie z" "exit_code z = 7" "get_pid z = p" "areas_vpns (areas (memory_set t)) = boot_pages"
proof (rule fork_run, goal_cases)
  case (1 frames k0 k1 p k2 k3 k4 c u t)
  note b = 1(7)[unfolded child_runs_def]
  let ?ip = "INITPROC k4"
  have "wp (sys_exit 7) (\<lambda>r k5. r = Switched \<and> exited 0x80400 k4 c u 7 k5 \<and> kinv 0x80400 boot_ld k5) (\<lambda>_. False) k4"
    unfolding sys_exit_def wp_kbind wp_kreturn by (rule wp_exit) (use b in auto)
  from wp_no_panicD[OF this] obtain k5 where k5: "sys_exit 7 k4 = Inr (Switched, k5)" "exited 0x80400 k4 c u 7 k5" "kinv 0x80400 boot_ld k5" by blast
  have eq: "k5 = k4\<lparr>current := None, k_mm := k_mm k5, TASKS := (adopted ?ip (t_child u) (TASKS k4))(c \<mapsto> zombie_of u 7)\<rparr>"
    using k5(2) unfolding exited_def by blast
  have i5: "INITPROC k5 = ?ip" "ready_queue k5 = [?ip]" "current k5 = None" by (subst eq, use b in simp)+
  have t5: "TASKS k5 = [c \<mapsto> zombie_of u 7, ?ip \<mapsto> t]"
    unfolding exitedD(1)[OF k5(2)] using b by (auto simp: adopted_def fun_eq_iff)
  have ls: "least_stride (map (task_stride k5) (ready_queue k5)) = Some 0" using b by (simp add: i5 t5 least_stride_def task_stride_def)
  obtain k where k: "run_tasks k5 = Inr (Some ?ip, k)" "running 0x80400 boot_ld k ?ip ((bump_stride t)\<lparr>task_status := Running\<rparr>)"
    "k = k5\<lparr>ready_queue := vec_remove 0 (ready_queue k5), TASKS := (TASKS k5)(?ip \<mapsto> (bump_stride t)\<lparr>task_status := Running\<rparr>), current := Some ?ip\<rparr>"
    by (rule run_tasks_picks[OF k5(3) i5(3) ls, of t]) (use i5 t5 b in simp_all)
  have k': "INITPROC k = ?ip" "TASKS k c = Some (zombie_of u 7)" using b by (simp_all add: k(3) i5(1) t5)
  show ?thesis
    by (rule 1(1)[OF 1(2-6) k5(1) k(1,2)[folded k'(1)] _ k'(2)]) (use b 1(8) in \<open>simp_all add: zombie_of_def is_zombie_def bump_stride_def get_pid_def\<close>)
qed

end
