(* ===== verification/Spec2Isabelle.thy ===== *)
theory Spec2Isabelle
  imports Kernel_Run
begin

text \<open>
  A verification development for \<^emph>\<open>rCore-Kernel\<close>, a small operating system kernel in Rust for one RISC-V hart with
  SV39 paging. Paths below are relative to \<^verbatim>\<open>src/\<close> of the repository.

  \<^bold>\<open>The program.\<close> \<^verbatim>\<open>src/main.rs\<close> brings the memory management up (\<^verbatim>\<open>src/mm\<close>: frames, page tables, address spaces,
  access to user memory), loads the first program through the file layer (\<^verbatim>\<open>src/fs\<close>, \<^verbatim>\<open>src/drivers\<close>), makes it the task
  \<open>INITPROC\<close> (\<^verbatim>\<open>src/task\<close>) and enters the idle loop. The loop takes the task with the least stride and switches to it; the
  task runs in user mode until a trap (\<^verbatim>\<open>src/trap\<close>) brings it back, for a system call (\<^verbatim>\<open>src/syscall\<close>), the timer or a fault.

  \<^bold>\<open>How code is written here.\<close> Stateful code is a computation of the state-and-panic monad of \<open>Kernel_Prelude\<close>: a
  panic of the source (a failed assertion, an \<open>unwrap\<close> of \<open>None\<close>, an index out of range, a second mutable borrow, no frame left) is
  the left value, with the kind of panic. Integers have their width (\<open>usize\<close> is \<^typ>\<open>64 word\<close>) and wrap as the release
  build does; where the source relies on no overflow, it is a proof obligation. References into physical memory are
  addresses, so that aliasing is kept. \<open>Drop\<close> implementations are explicit computations at the places where
  the source drops a value. An \<open>Arc\<close> of a task is a handle into a store, its count is computed from the places that
  hold it. Loops are structural recursion where the source iterates over a collection, and \<open>partial_function (option)\<close>
  where they need not end. Proofs go through the weakest preconditions \<open>wp\<close> of the same theory.

  \<^bold>\<open>Memory.\<close>
  \<^item> \<open>Kernel_Config\<close>, \<open>Address\<close>, \<open>Phys_Memory\<close>: \<^verbatim>\<open>src/config.rs\<close> and \<^verbatim>\<open>src/mm/address.rs\<close>. The locale \<open>step_by_one\<close> is the
    contract of the page ranges, for virtual and physical page numbers.
  \<^item> \<open>Allocator_Spec\<close>, \<open>Frame_Allocator\<close>: the contract \<open>unique_allocator\<close>, and \<^verbatim>\<open>src/mm/frame_allocator.rs\<close> as an instance. Frames are
    never handed out twice, and taking and giving back in any order keeps their number.
  \<^item> \<open>Page_Table\<close>, \<open>Page_Table_Spec\<close>, \<open>Page_Table_Ops\<close>: the tables of \<^verbatim>\<open>src/mm/page_table.rs\<close> in physical memory refine a finite
    map (\<open>pt_abs\<close>), on which \<open>map\<close> and \<open>unmap\<close> are update and removal of one key.
  \<^item> \<open>Map_Area\<close>, \<open>Map_Area_Spec\<close>, \<open>Map_Area_Ops\<close>, \<open>Memory_Set\<close>, \<open>Memory_Set_Spec\<close>, \<open>Memory_Set_Fork\<close>, \<open>Memory_Set_Ops\<close>,
    \<open>Memory_Set_Elf\<close>, \<open>Kernel_Map\<close>: \<^verbatim>\<open>src/mm/memory_set.rs\<close>. \<open>own_step\<close> is the frame rule: a computation changes only the frames it owns or takes.
    \<open>ms_inv\<close> is the invariant of an address space and \<open>ms_abs\<close> what it maps. Every operation has a rule that says
    what it leaves and how many free frames make it succeed: three for a page is enough, since a page needs at most two
    new tables; the kernel's own space maps all of memory, so its bound counts tables instead.
  \<^item> \<open>User_Access\<close>: the functions of \<^verbatim>\<open>src/mm/page_table.rs\<close> that follow user pointers. They are correct where the pages
    are mapped; a pointer at \<open>2^39\<close> or above makes one of them run forever, and a user pointer to the trap context is
    followed like any other.

  \<^bold>\<open>Files and devices.\<close> \<open>Fs\<close>, \<open>Fs_Ops\<close> model \<^verbatim>\<open>src/fs\<close> over the record \<open>efs\<close> of functions of the crate \<^verbatim>\<open>easy_fs\<close>;
  \<open>efs_reads\<close> and its companions are what that crate documents. \<open>Virtio\<close> models the memory that the block
  driver of \<^verbatim>\<open>src/drivers/block/virtio_blk.rs\<close> takes and gives back.

  \<^bold>\<open>Tasks.\<close>
  \<^item> \<open>Task_Context\<close>: the contexts and the assembly of \<^verbatim>\<open>src/trap/trap.S\<close> and \<^verbatim>\<open>src/task/switch.S\<close>, run by a small machine, with
    what a trap and \<^verbatim>\<open>sret\<close> do to \<^verbatim>\<open>sstatus\<close>; entering and leaving the kernel keeps every register of the user but \<open>x4\<close>, which the
    code does not save, and a switch every register of the callee.
  \<^item> \<open>Pid\<close>, \<open>Task\<close>: \<^verbatim>\<open>src/task/pid.rs\<close> (an instance of \<open>strict_allocator\<close>, which extends \<open>unique_allocator\<close>) and \<^verbatim>\<open>src/task/task.rs\<close>. The record \<open>kernel\<close> is the
    global state: memory, kernel space, identifiers, task store, ready queue, current task, disk and console.
  \<^item> \<open>Scheduler\<close>, \<open>Scheduler_Ops\<close>: \<^verbatim>\<open>src/task/manager.rs\<close>, \<^verbatim>\<open>src/task/processor.rs\<close>, \<^verbatim>\<open>src/task/mod.rs\<close>. The loop that looks for the least stride takes the first
    such task; strides stay within a bound of each other, and every ready task is reached when the priorities are between 1
    and 250; a priority above 250 starves the others, since the pass of a task is then 0.
  \<^item> \<open>Syscall\<close>, \<open>Trap\<close>, \<open>Trap_Entry\<close>: \<^verbatim>\<open>src/syscall\<close>, \<^verbatim>\<open>src/timer.rs\<close>, \<^verbatim>\<open>src/trap/mod.rs\<close>, with the registers that decide where a
    trap goes and the address of the trampoline. What the hardware answers is the argument \<open>w\<close>.

  \<^bold>\<open>The whole kernel.\<close>
  \<^item> \<open>Kernel_Tree\<close>, \<open>Kernel_Inv\<close>: the invariant \<open>kinv\<close>. The frames are divided among the address spaces, each
    task has an identifier and a kernel stack of its own, and the tasks are a tree under \<open>INITPROC\<close>, of which the ready queue
    and the processor hold exactly those that can run.
  \<^item> \<open>Kernel_User\<close>, \<open>Kernel_Calls\<close>, \<open>Kernel_Space\<close>, \<open>Kernel_Procs\<close>, \<open>Kernel_Exec\<close>, \<open>Kernel_Exit\<close>: each system call keeps \<open>kinv\<close>. The
    predicates \<open>forked\<close>, \<open>spawned\<close>, \<open>execed\<close>, \<open>exited\<close> and \<open>reaped\<close> describe the state after the calls for processes.
    \<open>kept\<close> is the frame condition that goes with it: a call of one task leaves the address spaces and the bytes of all
    others alone.
  \<^item> \<open>Kernel_System\<close>: the step relation \<open>kernel_step\<close> (a trap, a turn of the idle loop, or a write of the user program to a frame
    that its page table maps writable for user mode) and \<open>reachable\<close>. The traps that are taken are a parameter of both. The
    properties take \<open>trap_ok\<close>, which leaves out the system calls with arguments that the code should refuse and does not
    (\<open>call_ok\<close>): \<open>munmap\<close> inside the area of the trap context, \<open>sbrk\<close> when the heap area does not end at the break (as
    after \<open>exec\<close>), the break is below the heap or would reach the trap context, \<open>waitpid\<close> with a pointer across two pages, and starting a
    program that is not \<open>elf_ok\<close>. A user program can make these calls, so the invariant and the isolation are
    shown for programs that do not; \<open>sys_munmap_trap_context\<close> shows that the first of them breaks the invariant.
  \<^item> \<open>Kernel_Boot\<close>: \<^verbatim>\<open>rust_main\<close> reaches a state with \<open>kinv\<close>.
  \<^item> \<open>Kernel_Run\<close>: one run on a concrete machine, which shows that the hypotheses of the properties below hold together.
  \<^item> This theory: booting, the invariant of all reachable states, isolation, and the system calls for processes.

  \<^bold>\<open>Fuel and bounds.\<close> Dropping a task drops its children, whose depth is bounded by the counter \<open>next_task\<close> of the
  store: each handle is below it, and a task that is dropped has no children left (\<open>tree_inv\<close>). No other definition
  has fuel. The bounds on free frames in the properties are sums of three for each page and the tables and
  stacks that a new task needs.

  \<^bold>\<open>Not modelled.\<close>
  \<^item> The heap (\<^verbatim>\<open>src/mm/heap_allocator.rs\<close>) is the crate \<^verbatim>\<open>buddy_system_allocator\<close>: collections never run out of it here.
  \<^item> The crates \<^verbatim>\<open>xmas_elf\<close>, \<^verbatim>\<open>easy_fs\<close> and \<^verbatim>\<open>virtio_drivers\<close> are not in the repository. The parser and the file system are
    parameters; the transfer of blocks is inside the driver crate and does not appear.
  \<^item> \<open>UPSafeCell\<close> of \<^verbatim>\<open>src/sync\<close> is a \<open>RefCell\<close>; the borrows are not state, a second one that the code can reach is a panic.
  \<^item> Output for people: log messages, \<open>Debug\<close> implementations, \<open>list_apps\<close>, \<open>dump_metadata\<close>, \<open>show_os_sections\<close>, and the panic handler.
  \<^item> Calls into the firmware (\<^verbatim>\<open>src/sbi.rs\<close>) beyond the timer and the console, and the first instructions in \<^verbatim>\<open>src/entry.asm\<close>.
  \<^item> Writing \<^verbatim>\<open>satp\<close> in \<open>activate\<close> and the fences: the hardware's translation is the parameter of the small machine.
  \<^item> The build script and the file it generates, \<open>push_on_top\<close> and \<open>block_device_test\<close>, which nothing calls.
\<close>

section \<open>Starting the kernel\<close>

text \<open>
  C1: the kernel boots. With the sections laid out as the linker script does, a first program on the disk that
  the loader accepts, and enough memory, \<open>rust_main\<close> reaches the idle loop without a panic. Then the invariant
  of the kernel holds, and the only task is \<open>INITPROC\<close>: it is ready, has the image of its file in memory and the
  trap context that starts it at the entry point.
\<close>

theorem rust_main_boots:
  assumes "sections_ok (env_ld e)" "has_app e content (disk fs) initproc_name elf"
    "unat (ekernel (env_ld e)) div 4096 + 1164 + sum_list (map unat requests) + 3 * length (seg_pages (elf_image elf)) \<le> 0x88000"
  shows "\<exists>frames k t. rust_main e sbss requests (power_on m fs) = Inr (frames, k) \<and> booted e elf k t \<and>
    kinv (image_end (env_ld e)) (env_ld e) k"
proof -
  have "wp (rust_main e sbss requests) (\<lambda>_ k. \<exists>t. booted e elf k t \<and> kinv (image_end (env_ld e)) (env_ld e) k) (\<lambda>_. False) (power_on m fs)"
    by (rule wp_rust_main[OF assms(1,2)]) (use assms(3) in auto)
  from wp_no_panicD[OF this] show ?thesis by blast
qed

theorem rust_main_boots_witness:
  "\<exists>frames k t. rust_main boot_env 0x80260000 [2] (power_on (\<lambda>_. 0) boot_fs) = Inr (frames, k) \<and> booted boot_env boot_elf k t"
  using rust_main_boots[of boot_env name_content boot_fs boot_elf "[2]" "0x80260000" "\<lambda>_. 0"] boot_sections boot_has_app(1)
  by (auto simp: boot_elf_pages boot_ld_def)

text \<open>
  C2: the invariant of the kernel holds in every state that it reaches after it has booted, as long as no system call is made
  whose arguments \<open>call_ok\<close> excludes (\<open>trap_ok\<close> in the statement). Traps, turns of the idle loop and the writes of user
  programs to their own memory then keep the address spaces well formed and disjoint, the identifiers and kernel stacks
  unique, and the tasks a tree of which the ready queue holds exactly the ready ones. The calls that are excluded are
  not checked by the code: \<open>munmap\<close> of a range inside the area of the trap context, \<open>sbrk\<close> when the break is not the end of the
  heap area, lies below its bottom or would reach the trap context, \<open>waitpid\<close> with a pointer across the end of a page, and \<open>exec\<close> or \<open>spawn\<close> of a file that
  parses as a program but is not \<open>elf_ok\<close>. The first of them does break the invariant (\<open>sys_munmap_trap_context\<close>).
\<close>

theorem kernel_invariant:
  assumes "sections_ok (env_ld e)" "has_app e content (disk fs) initproc_name elf" "reads_bounded (env_efs e)"
    "rust_main e sbss requests (power_on m fs) = Inr (frames, k)" "reachable (image_end (env_ld e)) e layout (trap_ok e) k k'"
  shows "kinv (image_end (env_ld e)) (env_ld e) k'"
  by (rule reachable_kinv[OF assms(5) rust_main_kinv[OF assms(1,2,4)] assms(3)])

theorem kernel_invariant_witness:
  "\<exists>frames k0 k h c u. boot_run = Inr (frames, k0) \<and> reachable 0x80400 boot_env (\<lambda>_. []) (trap_ok boot_env) k0 k \<and>
     current k = Some h \<and> c \<noteq> h \<and> TASKS k c = Some u \<and> kinv 0x80400 boot_ld k"
proof (rule fork_reached, goal_cases)
  case (1 frames k0 k h t c u)
  have "kinv 0x80400 boot_ld k"
    using kernel_invariant[where e = boot_env, unfolded boot_env_sel boot_image_end, OF boot_sections boot_has_app(1) _ 1(1)[unfolded boot_run_def] 1(2)]
      boot_reads by simp
  then show ?case using 1 runningD(2)[OF 1(3)] by blast
qed

section \<open>Isolation\<close>

text \<open>
  C3: a step of the kernel touches the memory of one task only. In every state reached after boot (without the calls
  that \<open>call_ok\<close> excludes), a step is a trap with everything that the handler and the system calls do, a turn of the idle
  loop, or a write of the user program to a frame that its page table maps writable for user mode. Then there is one
  task, the running one if there is one, such that every other task that has not exited keeps its address space: the
  entries of its page table, and each byte of each page that they map, the trampoline page that all
  address spaces share apart.
\<close>

theorem step_isolated:
  assumes "sections_ok (env_ld e)" "has_app e content (disk fs) initproc_name elf" "reads_bounded (env_efs e)"
    "rust_main e sbss requests (power_on m fs) = Inr (frames, k0)" "reachable (image_end (env_ld e)) e layout (trap_ok e) k0 k"
    "kernel_step (image_end (env_ld e)) e layout (trap_ok e) k k'"
  shows "\<exists>h. (current k = None \<or> current k = Some h) \<and>
    (\<forall>g u. g \<noteq> h \<and> TASKS k g = Some u \<and> task_status u \<noteq> Zombie \<longrightarrow>
      (\<exists>u'. TASKS k' g = Some u' \<and> memory_set u' = memory_set u \<and> trap_cx_ppn u' = trap_cx_ppn u \<and>
        ms_abs (mem (k_mm k')) (memory_set u) = ms_abs (mem (k_mm k)) (memory_set u) \<and>
        (\<forall>v p i. ms_abs (mem (k_mm k)) (memory_set u) v = Some p \<and> v \<noteq> trampoline_vpn \<and> i < 4096 \<longrightarrow>
          mem (k_mm k') (paddr (ppn_val (pte_ppn p)) i) = mem (k_mm k) (paddr (ppn_val (pte_ppn p)) i))))"
proof -
  have inv: "kinv (image_end (env_ld e)) (env_ld e) k"
    by (rule reachable_kinv[OF assms(5) rust_main_kinv[OF assms(1,2,4)] assms(3)])
  obtain h where h: "current k = None \<or> current k = Some h" "kept h k k'" using kernel_step_kept[OF assms(6) inv assms(3)] by blast
  show ?thesis
  proof (intro exI[of _ h] conjI allI impI h(1), elim conjE)
    fix g u assume u: "g \<noteq> h" "TASKS k g = Some u" "task_status u \<noteq> Zombie"
    show "\<exists>u'. TASKS k' g = Some u' \<and> memory_set u' = memory_set u \<and> trap_cx_ppn u' = trap_cx_ppn u \<and>
        ms_abs (mem (k_mm k')) (memory_set u) = ms_abs (mem (k_mm k)) (memory_set u) \<and>
        (\<forall>v p i. ms_abs (mem (k_mm k)) (memory_set u) v = Some p \<and> v \<noteq> trampoline_vpn \<and> i < 4096 \<longrightarrow>
          mem (k_mm k') (paddr (ppn_val (pte_ppn p)) i) = mem (k_mm k) (paddr (ppn_val (pte_ppn p)) i))"
      by (rule kept_pages[OF inv h(2) u]) blast
  qed
qed

theorem step_isolated_witness:
  "\<exists>k k' h c u u'. kernel_step 0x80400 boot_env (\<lambda>_. []) (trap_ok boot_env) k k' \<and> current k = Some h \<and> c \<noteq> h \<and>
     TASKS k c = Some u \<and> TASKS k' c = Some u' \<and> memory_set u' = memory_set u \<and>
     ms_abs (mem (k_mm k')) (memory_set u) = ms_abs (mem (k_mm k)) (memory_set u)"
proof (rule fork_reached, goal_cases)
  case (1 frames k0 k h t c u)
  have "wp (trap_handler boot_env (\<lambda>_. []) boot_hw SupervisorTimer) (\<lambda>_ _. True) (\<lambda>_. False) k"
    unfolding trap_handler_def trap_cause.case wp_rules by (rule wp_suspend[OF 1(3)]) simp_all
  from wp_no_panicD[OF this] obtain r k' where k': "trap_handler boot_env (\<lambda>_. []) boot_hw SupervisorTimer k = Inr (r, k')" by blast
  have step: "kernel_step 0x80400 boot_env (\<lambda>_. []) (trap_ok boot_env) k k'"
    by (rule kernel_step.trap[OF _ _ k']) (simp_all add: trap_ok_def runningD(2)[OF 1(3)])
  have "\<exists>u'. TASKS k' c = Some u' \<and> memory_set u' = memory_set u \<and>
      ms_abs (mem (k_mm k')) (memory_set u) = ms_abs (mem (k_mm k)) (memory_set u)"
    using step_isolated[where e = boot_env, unfolded boot_env_sel boot_image_end, OF boot_sections boot_has_app(1) _ 1(1)[unfolded boot_run_def] 1(2) step]
      boot_reads runningD(2)[OF 1(3)] 1(4-6) by fastforce
  then show ?case using step runningD(2)[OF 1(3)] 1(4,5) by blast
qed

section \<open>System calls\<close>

text \<open>
  C8: a system call that returns leaves a well-formed kernel, whatever its number and its arguments are, the calls apart that
  \<open>call_ok\<close> excludes because the code does not check them: \<open>munmap\<close> of a range inside the area of the trap context, \<open>sbrk\<close> when the
  break is not the end of the heap area, lies below its bottom or would reach the trap context, \<open>waitpid\<close> with a pointer across the end of a page,
  and \<open>exec\<close> or \<open>spawn\<close> of a file that parses as a program but is not \<open>elf_ok\<close>. The call returns a value exactly when the
  caller still has the processor.
\<close>

theorem syscall_well_formed:
  assumes "running l (env_ld e) k h t" "call_ok e k t n args" "reads_bounded (env_efs e)" "syscall e layout w n args k = Inr (r, k')"
  shows "kinv l (env_ld e) k' \<and> (case r of Returned _ \<Rightarrow> current k' = Some h | Switched \<Rightarrow> current k' = None)"
  using wlp_syscall[OF assms(1-3), of layout w] assms(4) by (simp add: wp_def sys_post_def)

theorem syscall_well_formed_witness:
  "\<exists>k k' t h. current k = Some h \<and> TASKS k h = Some t \<and> call_ok boot_env k t SYSCALL_WAITPID [- 1, 0x12000] \<and>
     syscall boot_env (\<lambda>_. []) boot_hw SYSCALL_WAITPID [- 1, 0x12000] k = Inr (Returned (- 1), k') \<and> kinv 0x80400 boot_ld k'"
proof (rule first_run, goal_cases)
  case (1 frames k0 k t)
  have ok: "call_ok boot_env k t SYSCALL_WAITPID [- 1, 0x12000]" by (simp add: call_ok_def syscall_numbers)
  have "wp (syscall boot_env (\<lambda>_. []) boot_hw SYSCALL_WAITPID [- 1, 0x12000]) (\<lambda>r k'. r = Returned (- 1)) (\<lambda>_. False) k"
    using runningD(2,3)[OF 1(3)] 1(6,13)
    by (simp add: syscall_def update_current_task_syscall_times_def update_syscall_times_def TaskInfoInner_zero_init_def MAX_SYSCALL_NUM_def
        sys_waitpid_def child_blocks_def current_handle_def current_task_def deref_task_def wp_rules Let_def syscall_numbers)
  from wp_no_panicD[OF this] obtain k' where s: "syscall boot_env (\<lambda>_. []) boot_hw SYSCALL_WAITPID [- 1, 0x12000] k = Inr (Returned (- 1), k')" by blast
  have "kinv 0x80400 boot_ld k'"
    using syscall_well_formed[where e = boot_env, unfolded boot_env_sel, OF 1(3) ok _ s] boot_reads by simp
  then show ?case using s ok runningD(2,3)[OF 1(3)] by blast
qed

text \<open>
  C4: \<open>fork\<close> succeeds if there are frames for a copy of the address space and a kernel stack. The child is a new
  task with an unused identifier at the end of the ready queue, a child of the caller; its pages hold what
  the pages of the caller hold, its trap context is that of the caller but for the result 0 and its own kernel stack, and no
  page of any task is changed.
\<close>

theorem sys_fork_correct:
  assumes "running l (env_ld e) k h t" "9 + 3 * length (areas_vpns (areas (memory_set t))) \<le> avail (k_mm k)"
  shows "\<exists>u k'. sys_fork e k = Inr (Returned (get_pid u), k') \<and> forked l k h t k' u \<and> kinv l (env_ld e) k'"
proof -
  have "wp (sys_fork e) (\<lambda>r k'. \<exists>u. r = Returned (get_pid u) \<and> forked l k h t k' u \<and> kinv l (env_ld e) k') (\<lambda>_. False) k"
    by (rule wp_sys_fork[OF assms(1)]) (use assms(2) in auto)
  from wp_no_panicD[OF this] show ?thesis by blast
qed

theorem sys_fork_correct_witness:
  "\<exists>frames k0 k p k' u. boot_run = Inr (frames, k0) \<and> run_tasks k0 = Inr (Some (INITPROC k), k) \<and>
     sys_fork boot_env k = Inr (Returned p, k') \<and> TASKS k' (next_task k) = Some u \<and> get_pid u = p \<and> ready_queue k' = [next_task k]"
proof (rule first_run, goal_cases)
  case (1 frames k0 k t)
  obtain u k' where f: "sys_fork boot_env k = Inr (Returned (get_pid u), k')" "forked 0x80400 k (INITPROC k) t k' u"
    using sys_fork_correct[where e = boot_env and k = k, unfolded boot_env_sel, OF 1(3)] 1(10,11) by auto
  have "next_task k \<noteq> INITPROC k" using next_task_None[OF runningD(1)[OF 1(3)]] runningD(3)[OF 1(3)] by auto
  then have "TASKS k' (next_task k) = Some u" "ready_queue k' = [next_task k]" using f(2) 1(5) by (simp_all add: forked_def)
  then show ?case using 1(1,2) f(1) by blast
qed

text \<open>
  C5: \<open>exec\<close> of a file that the loader accepts replaces the program: the task keeps its identifier, its files and
  its place in the tree, has the image of the file in fresh frames and a trap context that starts it at the
  entry point; the frames of the old program are free again and no other live page is changed.
\<close>

theorem sys_exec_correct:
  assumes "running l (env_ld e) k h t" "translated_str (mem (k_mm k)) (get_user_token t) path = Some (Inr name)"
    "has_app e content (disk (k_fs k)) name elf" "3 + 3 * length (seg_pages (elf_image elf)) \<le> avail (k_mm k)"
  shows "\<exists>u k'. sys_exec e path k = Inr (Returned 0, k') \<and> execed l e k h t elf k' u \<and> running l (env_ld e) k' h u"
proof -
  have "wp (sys_exec e path) (\<lambda>r k'. \<exists>u. r = Returned 0 \<and> execed l e k h t elf k' u \<and> running l (env_ld e) k' h u) (\<lambda>_. False) k"
    by (rule wp_sys_exec[OF assms(1-3)]) (use assms(4) in auto)
  from wp_no_panicD[OF this] show ?thesis by blast
qed

theorem sys_exec_correct_witness:
  "\<exists>k k' u. current k = Some (INITPROC k) \<and> sys_exec boot_env 0x10001 k = Inr (Returned 0, k') \<and>
     running 0x80400 boot_ld k' (INITPROC k) u \<and> loaded (mem (k_mm k')) boot_elf (memory_set u)"
proof (rule first_run, goal_cases)
  case (1 frames k0 k t)
  have app: "has_app boot_env name_content (disk (k_fs k)) [0x45, 0x4c, 0x46] boot_elf" using boot_has_app(2) by (simp add: 1(9))
  obtain u k' where x: "sys_exec boot_env 0x10001 k = Inr (Returned 0, k')" "execed 0x80400 boot_env k (INITPROC k) t boot_elf k' u"
    "running 0x80400 boot_ld k' (INITPROC k) u"
    using sys_exec_correct[where e = boot_env, unfolded boot_env_sel, OF 1(3) first_str[OF 1(3,12)] app] 1(10) by (auto simp: boot_elf_pages)
  have "loaded (mem (k_mm k')) boot_elf (memory_set u)" using x(2) unfolding execed_def by blast
  then show ?case using x runningD(2)[OF 1(3)] by blast
qed

text \<open>
  C14: \<open>spawn\<close> of a file that the loader accepts starts it as a new child of the caller, with the open files of the caller,
  the default priority, the image of the file and a trap context that starts it at the entry point, and
  changes no page of any task.
\<close>

theorem sys_spawn_correct:
  assumes "running l (env_ld e) k h t" "translated_str (mem (k_mm k)) (get_user_token t) path = Some (Inr name)"
    "has_app e content (disk (k_fs k)) name elf" "9 + 3 * length (seg_pages (elf_image elf)) \<le> avail (k_mm k)"
  shows "\<exists>u k'. sys_spawn e path k = Inr (Returned (get_pid u), k') \<and> spawned l e k h t elf k' u \<and> kinv l (env_ld e) k'"
proof -
  have "wp (sys_spawn e path) (\<lambda>r k'. \<exists>u. r = Returned (get_pid u) \<and> spawned l e k h t elf k' u \<and> kinv l (env_ld e) k') (\<lambda>_. False) k"
    by (rule wp_sys_spawn[OF assms(1-3)]) (use assms(4) in auto)
  from wp_no_panicD[OF this] show ?thesis by blast
qed

theorem sys_spawn_correct_witness:
  "\<exists>k k' u. current k = Some (INITPROC k) \<and> sys_spawn boot_env 0x10001 k = Inr (Returned (get_pid u), k') \<and>
     ready_queue k' = [next_task k] \<and> loaded (mem (k_mm k')) boot_elf (memory_set u)"
proof (rule first_run, goal_cases)
  case (1 frames k0 k t)
  have app: "has_app boot_env name_content (disk (k_fs k)) [0x45, 0x4c, 0x46] boot_elf" using boot_has_app(2) by (simp add: 1(9))
  obtain u k' where x: "sys_spawn boot_env 0x10001 k = Inr (Returned (get_pid u), k')" "spawned 0x80400 boot_env k (INITPROC k) t boot_elf k' u"
    using sys_spawn_correct[where e = boot_env, unfolded boot_env_sel, OF 1(3) first_str[OF 1(3,12)] app] 1(10) by (auto simp: boot_elf_pages)
  then show ?case using runningD(2)[OF 1(3)] 1(5) by (auto simp: spawned_def)
qed

text \<open>
  C32: the older \<open>sys_spawn1\<close> does exactly what \<open>sys_spawn\<close> does for a caller that has only the console open and a file
  that is not empty: same result, same state, same panics.
\<close>

theorem sys_spawn1_equivalent:
  assumes "running l (env_ld e) k h t" "fd_table t = [Some Stdin, Some Stdout, Some Stdout]"
    "\<And>name k'. translated_str (mem (k_mm k)) (get_user_token t) path = Some (Inr name) \<Longrightarrow> load_app e name k \<noteq> Inr (Some [], k')"
  shows "sys_spawn1 e path k = sys_spawn e path k"
  using sys_spawn1_eq[OF assms] .

theorem sys_spawn1_equivalent_witness:
  "\<exists>k. current k = Some (INITPROC k) \<and> sys_spawn1 boot_env 0x10001 k = sys_spawn boot_env 0x10001 k"
proof (rule first_run, goal_cases)
  case (1 frames k0 k t)
  have app: "has_app boot_env name_content (disk (k_fs k)) [0x45, 0x4c, 0x46] boot_elf" using boot_has_app(2) by (simp add: 1(9))
  have "load_app boot_env [0x45, 0x4c, 0x46] k \<noteq> Inr (Some [], k')" for k'
    using load_app_content(1)[OF app]
    by (simp add: 1(9) name_efs_def name_content_def boot_fs_def initproc_name_def)
  then have "sys_spawn1 boot_env 0x10001 k = sys_spawn boot_env 0x10001 k"
    using sys_spawn1_equivalent[where e = boot_env, unfolded boot_env_sel, OF 1(3,14)] first_str[OF 1(3,12)] by fastforce
  then show ?case using runningD(2)[OF 1(3)] by blast
qed

text \<open>
  C7: \<open>exit\<close> turns the caller into a zombie with the given code: its children become children of \<open>INITPROC\<close>, the
  frames of its data are free again, nothing is written to memory and the other tasks are not touched. \<open>INITPROC\<close> itself
  cannot exit: the block that is already borrowed is borrowed again to receive the children, and the kernel panics.
\<close>

theorem exit_correct:
  assumes "running l ld k h t"
  shows "if INITPROC k = h then exit_current_and_run_next code k = Inl BorrowMut
    else \<exists>k'. exit_current_and_run_next code k = Inr ((), k') \<and> exited l k h t code k' \<and> kinv l ld k'"
proof -
  have "wp (exit_current_and_run_next code) (\<lambda>_ k'. INITPROC k \<noteq> h \<and> exited l k h t code k' \<and> kinv l ld k')
      (\<lambda>e. INITPROC k = h \<and> e = BorrowMut) k"
    by (rule wp_exit[OF assms]) auto
  then show ?thesis by (auto simp: wp_def split: sum.splits)
qed

theorem exit_correct_witness:
  "\<exists>(k :: (u8 list \<Rightarrow> u8 list option, u8 list) kernel) c k'. current k = Some c \<and> c \<noteq> INITPROC k \<and> exit_current_and_run_next 7 k = Inr ((), k') \<and> kinv 0x80400 boot_ld k'"
proof (rule fork_run, goal_cases)
  case (1 frames k0 k1 p k2 k3 k c u t)
  then have b: "running 0x80400 boot_ld k c u" "c \<noteq> INITPROC k" by (simp_all add: child_runs_def)
  then obtain k' where "exit_current_and_run_next 7 k = Inr ((), k')" "kinv 0x80400 boot_ld k'"
    using exit_correct[OF b(1), of 7] by (auto split: if_splits)
  then show ?case using runningD(2)[OF b(1)] b(2) by blast
qed

text \<open>
  C6: \<open>waitpid\<close> with a pointer to a mapped word returns -1 when no child matches, -2 when none of the matching children
  has exited, and otherwise stores the exit code of the first one that has, returns its identifier and removes it: the
  identifier and the frames of its page tables and kernel stack are free again.
\<close>

theorem waitpid_correct:
  assumes "running l ld k h t" "unat ptr mod 4096 \<le> 4092" "translated_refmut (mem (k_mm k)) (get_user_token t) ptr = Inr pa"
  shows "\<exists>r k'. sys_waitpid pid ptr k = Inr (Returned r, k') \<and> kinv l ld k' \<and>
    (if \<forall>c \<in> set (children k t). \<not> (get_pid c = pid \<or> pid = - 1) then r = - 1 \<and> k' = k
     else if \<forall>c \<in> set (children k t). get_pid c = pid \<or> pid = - 1 \<longrightarrow> \<not> is_zombie c then r = - 2 \<and> k' = k
     else \<exists>i c. find_index (\<lambda>c. is_zombie c \<and> (pid = - 1 \<or> get_pid c = pid)) (children k t) = Some i \<and> c = children k t ! i \<and>
       r = get_pid c \<and> reaped l (k\<lparr>k_mm := (k_mm k)\<lparr>mem := write_bytes (mem (k_mm k)) pa (u32_bytes (exit_code c))\<rparr>\<rparr>) h t i c k')"
    (is "\<exists>r k'. _ \<and> _ \<and> ?P r k'")
proof -
  have "wp (sys_waitpid pid ptr) (\<lambda>o' k'. \<exists>r. o' = Returned r \<and> kinv l ld k' \<and> ?P r k') (\<lambda>_. False) k"
  proof (rule wp_sys_waitpid[OF assms(1,2)], goal_cases)
    case (4 i c pa' k')
    have c: "is_zombie c" "get_pid c = pid \<or> pid = - 1" "c \<in> set (children k t)"
      using find_index_Some(1,2)[OF 4(1)] 4(2) nth_mem by auto
    have "pa' = pa" using 4(3) assms(3) by simp
    then show ?case using 4(1,2,4,5) c by auto
  qed (use assms(3) runningD(1)[OF assms(1)] in auto)
  from wp_no_panicD[OF this] show ?thesis by blast
qed

theorem waitpid_correct_witness:
  "\<exists>(k :: (u8 list \<Rightarrow> u8 list option, u8 list) kernel) k' p. current k = Some (INITPROC k) \<and> sys_waitpid p 0x12000 k = Inr (Returned p, k') \<and> kinv 0x80400 boot_ld k'"
proof (rule wait_run, goal_cases)
  case (1 frames k0 k1 p k2 k3 k4 c k5 z k t)
  obtain pa where pa: "translated_refmut (mem (k_mm k)) (get_user_token t) 0x12000 = Inr pa" using stack_refmut[OF 1(8)] 1(14) by auto
  have ch: "children k t = [z]" using 1(9,10) by simp
  then have "\<exists>r k'. sys_waitpid p 0x12000 k = Inr (Returned r, k') \<and> kinv 0x80400 boot_ld k' \<and> r = p"
    using waitpid_correct[OF 1(8) _ pa, of p] 1(11-13) by auto
  then show ?case using runningD(2)[OF 1(8)] by blast
qed

section \<open>Traps\<close>

text \<open>
  C20: what a fault does. On every fault of a load, a store or a fetch the running task becomes a zombie with code -2, on an
  illegal instruction with code -3, and the kernel goes on without it; its children go to \<open>INITPROC\<close> and nothing else changes.
  If the task is \<open>INITPROC\<close> itself, the kernel panics, since it borrows the block of the task a second time.
\<close>

theorem fault_kills_task:
  assumes "running l ld k h t" "cause \<notin> {UserEnvCall, SupervisorTimer, OtherTrap}"
  shows "if INITPROC k = h then trap_handler e layout w cause k = Inl BorrowMut
    else \<exists>k'. trap_handler e layout w cause k = Inr (None, k') \<and> kinv l ld k' \<and> current k' = None \<and>
      exited l k h t (if cause = IllegalInstruction then - 3 else - 2) k'"
proof -
  have "wp (exit_current_and_run_next code) (\<lambda>_ k'. INITPROC k \<noteq> h \<and> kinv l ld k' \<and> exited l k h t code k') (\<lambda>x. INITPROC k = h \<and> x = BorrowMut) k" for code
    by (rule wp_exit[OF assms(1)]) auto
  then have "wp (trap_handler e layout w cause) (\<lambda>r k'. INITPROC k \<noteq> h \<and> r = None \<and> kinv l ld k' \<and>
      exited l k h t (if cause = IllegalInstruction then - 3 else - 2) k') (\<lambda>x. INITPROC k = h \<and> x = BorrowMut) k"
    using assms(2) by (cases cause) (simp_all add: trap_handler_def wp_rules)
  then show ?thesis using exitedD(3) by (auto simp: wp_def split: sum.splits)
qed

theorem fault_kills_task_witness:
  "\<exists>k c k'. current k = Some c \<and> trap_handler boot_env (\<lambda>_. []) boot_hw StorePageFault k = Inr (None, k') \<and>
     map_option exit_code (TASKS k' c) = Some (- 2) \<and> ready_queue k' = [INITPROC k]"
proof (rule fork_run, goal_cases)
  case (1 frames k0 k1 p k2 k3 k c u t)
  then have b: "running 0x80400 boot_ld k c u" "INITPROC k \<noteq> c" "ready_queue k = [INITPROC k]" by (auto simp: child_runs_def)
  obtain k' where k': "trap_handler boot_env (\<lambda>_. []) boot_hw StorePageFault k = Inr (None, k')" "exited 0x80400 k c u (- 2) k'"
    using fault_kills_task[OF b(1), of StorePageFault boot_env "\<lambda>_. []" boot_hw] b(2) by auto
  have "map_option exit_code (TASKS k' c) = Some (- 2)" unfolding exitedD(1)[OF k'(2)] by (simp add: zombie_of_def)
  then show ?case using k'(1) exitedD(4)[OF k'(2)] runningD(2)[OF b(1)] b(3) by metis
qed



end
